(* ===== verification/Kernel_Prelude.thy ===== *)
theory Kernel_Prelude
  imports Main "HOL-Library.Word"
begin

text \<open>
  Shared vocabulary of the development: the machine integer types of the kernel, the Rust
  operations on them that the sources use (\<open>checked_add\<close>, \<open>saturating_add\<close>, \<open>align_up\<close>,
  \<open>is_power_of_two\<close>), the \<open>Result\<close> convention, \<open>Iterator::position\<close> over fixed arrays, and
  little-endian byte encodings.  Both supported targets are 64-bit, so \<open>usize\<close> is a 64-bit
  word.  Plain \<open>+\<close>, \<open>-\<close> and \<open>*\<close> of the sources are the wrapping word operations (the release
  profile); where the development profile would panic on overflow, lemmas bound the operands.
\<close>

unbundle bit_operations_syntax

named_theorems kernel_defs \<open>constants of the kernel, unfolded by the component proofs\<close>
named_theorems inv_intros \<open>preservation of the component invariants\<close>

type_synonym u8 = "8 word"
type_synonym u16 = "16 word"
type_synonym u32 = "32 word"
type_synonym u64 = "64 word"
type_synonym usize = "64 word"

section \<open>Results\<close>

text \<open>\<open>Result<T, E>\<close> is the sum \<open>'e + 'a\<close> with the error on the left.\<close>

abbreviation Ok :: "'a \<Rightarrow> 'e + 'a" where
  "Ok \<equiv> Inr"

abbreviation Err :: "'e \<Rightarrow> 'e + 'a" where
  "Err \<equiv> Inl"

text \<open>The \<open>?\<close> operator on a result.\<close>

definition and_then :: "'e + 'a \<Rightarrow> ('a \<Rightarrow> 'e + 'b) \<Rightarrow> 'e + 'b" where
  "and_then r f = (case r of Inl e \<Rightarrow> Inl e | Inr x \<Rightarrow> f x)"

text \<open>\<open>Option::ok_or\<close>.\<close>

definition ok_or :: "'a option \<Rightarrow> 'e \<Rightarrow> 'e + 'a" where
  "ok_or v e = (case v of None \<Rightarrow> Inl e | Some x \<Rightarrow> Inr x)"

definition is_ok :: "'e + 'a \<Rightarrow> bool" where
  "is_ok r = (case r of Inl _ \<Rightarrow> False | Inr _ \<Rightarrow> True)"

definition is_err :: "'e + 'a \<Rightarrow> bool" where
  "is_err r = (\<not> is_ok r)"

lemma and_then_simps [simp]:
  "and_then (Inl e) f = Inl e"
  "and_then (Inr x) f = f x"
  by (simp_all add: and_then_def)

lemma ok_or_simps [simp]:
  "ok_or None e = Inl e"
  "ok_or (Some x) e = Inr x"
  by (simp_all add: ok_or_def)

lemma is_ok_simps [simp]:
  "\<not> is_ok (Inl e)"
  "is_ok (Inr x)"
  by (simp_all add: is_ok_def)

lemma is_err_simps [simp]:
  "is_err (Inl e)"
  "\<not> is_err (Inr x)"
  by (simp_all add: is_err_def)

lemma and_then_Inr_iff: "and_then r f = Inr y \<longleftrightarrow> (\<exists>x. r = Inr x \<and> f x = Inr y)"
  by (cases r) auto

lemma ok_or_Inr_iff [simp]: "ok_or v e = Inr y \<longleftrightarrow> v = Some y"
  by (cases v) auto

lemma ok_or_Inl_iff [simp]: "ok_or v e = Inl e' \<longleftrightarrow> v = None \<and> e' = e"
  by (cases v) auto

text \<open>
  The \<open>?\<close> operator where the caller also threads a state: the state at the failing call is kept,
  so what was changed before the error stays changed.
\<close>

definition try_res :: "'e + 'a \<Rightarrow> 's \<Rightarrow> ('a \<Rightarrow> ('e + 'b) \<times> 's) \<Rightarrow> ('e + 'b) \<times> 's" where
  "try_res r s f = (case r of Inl e \<Rightarrow> (Inl e, s) | Inr x \<Rightarrow> f x)"

definition try_st ::
  "('e + 'a) \<times> 's \<Rightarrow> ('a \<Rightarrow> 's \<Rightarrow> ('e + 'b) \<times> 's) \<Rightarrow> ('e + 'b) \<times> 's" where
  "try_st m f = (case m of (Inl e, s) \<Rightarrow> (Inl e, s) | (Inr x, s) \<Rightarrow> f x s)"

lemma try_res_simps [simp]:
  "try_res (Inl e) s f = (Inl e, s)"
  "try_res (Inr x) s f = f x"
  by (simp_all add: try_res_def)

lemma try_st_simps [simp]:
  "try_st (Inl e, s) f = (Inl e, s)"
  "try_st (Inr x, s) f = f x s"
  by (simp_all add: try_st_def)

lemma try_res_Ok_iff: "try_res r s f = (Inr y, s') \<longleftrightarrow> (\<exists>x. r = Inr x \<and> f x = (Inr y, s'))"
  by (cases r) auto

lemma try_res_Err_iff:
  "try_res r s f = (Inl e, s') \<longleftrightarrow> r = Inl e \<and> s' = s \<or> (\<exists>x. r = Inr x \<and> f x = (Inl e, s'))"
  by (cases r) auto

lemma try_st_Ok_iff:
  "try_st m f = (Inr y, s') \<longleftrightarrow> (\<exists>x s1. m = (Inr x, s1) \<and> f x s1 = (Inr y, s'))"
  by (cases m, cases "fst m") auto

lemma try_st_Err_iff:
  "try_st m f = (Inl e, s') \<longleftrightarrow>
   m = (Inl e, s') \<or> (\<exists>x s1. m = (Inr x, s1) \<and> f x s1 = (Inl e, s'))"
  by (cases m, cases "fst m") auto

lemma try_st_cases:
  assumes "try_st m f = (r, s')"
  obtains e where "m = (Inl e, s')" "r = Inl e"
  | x s1 where "m = (Inr x, s1)" "f x s1 = (r, s')"
  using assms by (cases m, cases "fst m") auto

lemma try_res_cases:
  assumes "try_res r0 s f = (r, s')"
  obtains e where "r0 = Inl e" "r = Inl e" "s' = s"
  | x where "r0 = Inr x" "f x = (r, s')"
  using assms by (cases r0) auto

section \<open>Fixed arrays\<close>

text \<open>\<open>Option::is_some\<close> and \<open>Option::is_none\<close>.\<close>

fun is_some :: "'a option \<Rightarrow> bool" where
  "is_some None = False"
| "is_some (Some x) = True"

fun is_none :: "'a option \<Rightarrow> bool" where
  "is_none None = True"
| "is_none (Some x) = False"

text \<open>\<open>Iterator::position\<close>: the index of the first element that satisfies a predicate.\<close>

fun position :: "('a \<Rightarrow> bool) \<Rightarrow> 'a list \<Rightarrow> nat option" where
  "position P [] = None"
| "position P (x # xs) = (if P x then Some 0 else map_option Suc (position P xs))"

text \<open>\<open>iter().flatten()\<close> over an array of options.\<close>

fun flatten :: "'a option list \<Rightarrow> 'a list" where
  "flatten [] = []"
| "flatten (None # xs) = flatten xs"
| "flatten (Some x # xs) = x # flatten xs"

text \<open>\<open>slice.copy_from_slice\<close> into the window of a buffer that starts at \<open>i\<close>.\<close>

definition write_at :: "nat \<Rightarrow> 'a list \<Rightarrow> 'a list \<Rightarrow> 'a list" where
  "write_at i xs buf = take i buf @ xs @ drop (i + length xs) buf"

lemma is_some_iff: "is_some x \<longleftrightarrow> (\<exists>y. x = Some y)"
  by (cases x) auto

lemma is_none_iff: "is_none x \<longleftrightarrow> x = None"
  by (cases x) auto

lemma not_is_some [simp]: "\<not> is_some x \<longleftrightarrow> x = None"
  by (cases x) auto

lemma not_is_none [simp]: "\<not> is_none x \<longleftrightarrow> is_some x"
  by (cases x) auto

lemma position_None_iff: "position P xs = None \<longleftrightarrow> (\<forall>x\<in>set xs. \<not> P x)"
  by (induction xs) auto

lemma position_SomeD:
  "position P xs = Some i \<Longrightarrow> i < length xs \<and> P (xs ! i) \<and> (\<forall>j<i. \<not> P (xs ! j))"
proof (induction xs arbitrary: i)
  case Nil
  then show ?case by simp
next
  case (Cons x xs)
  show ?case
  proof (cases "P x")
    case True
    with Cons.prems show ?thesis by simp
  next
    case False
    with Cons.prems obtain k where k: "position P xs = Some k" "i = Suc k"
      by auto
    from Cons.IH [OF k(1)] False k(2) show ?thesis
      by (auto simp: nth_Cons split: nat.splits)
  qed
qed

lemma position_lt: "position P xs = Some i \<Longrightarrow> i < length xs"
  by (blast dest: position_SomeD)

lemma position_holds: "position P xs = Some i \<Longrightarrow> P (xs ! i)"
  by (blast dest: position_SomeD)

lemma position_first: "position P xs = Some i \<Longrightarrow> j < i \<Longrightarrow> \<not> P (xs ! j)"
  by (blast dest: position_SomeD)

lemma position_Some_iff:
  "position P xs = Some i \<longleftrightarrow> i < length xs \<and> P (xs ! i) \<and> (\<forall>j<i. \<not> P (xs ! j))"
proof
  assume "position P xs = Some i"
  then show "i < length xs \<and> P (xs ! i) \<and> (\<forall>j<i. \<not> P (xs ! j))"
    by (rule position_SomeD)
next
  assume r: "i < length xs \<and> P (xs ! i) \<and> (\<forall>j<i. \<not> P (xs ! j))"
  then obtain k where k: "position P xs = Some k"
    by (cases "position P xs") (auto simp: position_None_iff)
  with position_SomeD [OF k] r have "k = i"
    by (meson linorder_neqE_nat)
  with k show "position P xs = Some i" by simp
qed

lemma position_exists: "x \<in> set xs \<Longrightarrow> P x \<Longrightarrow> \<exists>i. position P xs = Some i"
  by (cases "position P xs") (auto simp: position_None_iff)

lemma set_flatten: "x \<in> set (flatten xs) \<longleftrightarrow> Some x \<in> set xs"
  by (induction xs rule: flatten.induct) auto

lemma in_flatten_nth: "x \<in> set (flatten xs) \<longleftrightarrow> (\<exists>i<length xs. xs ! i = Some x)"
  by (metis set_flatten in_set_conv_nth)

lemma find_flattenD:
  "List.find P (flatten xs) = Some x \<Longrightarrow> P x \<and> Some x \<in> set xs"
  by (auto simp: find_Some_iff set_flatten [symmetric])

lemma flatten_update_None:
  "i < length xs \<Longrightarrow> set (flatten (xs[i := None])) \<subseteq> set (flatten xs)"
  by (auto simp: in_flatten_nth nth_list_update split: if_splits)

lemma Some_in_update:
  assumes "i < length xs"
  shows "Some x \<in> set (xs[i := y]) \<longleftrightarrow>
    y = Some x \<or> (\<exists>j<length xs. j \<noteq> i \<and> xs ! j = Some x)"
proof
  assume "Some x \<in> set (xs[i := y])"
  then obtain j where "j < length xs" "xs[i := y] ! j = Some x"
    by (auto simp: in_set_conv_nth)
  then show "y = Some x \<or> (\<exists>j<length xs. j \<noteq> i \<and> xs ! j = Some x)"
    by (cases "j = i") (auto simp: assms)
next
  assume "y = Some x \<or> (\<exists>j<length xs. j \<noteq> i \<and> xs ! j = Some x)"
  then show "Some x \<in> set (xs[i := y])"
  proof
    assume "y = Some x"
    with assms show ?thesis by (simp add: set_update_memI)
  next
    assume "\<exists>j<length xs. j \<noteq> i \<and> xs ! j = Some x"
    then obtain j where "j < length xs" "j \<noteq> i" "xs ! j = Some x" by blast
    then show ?thesis by (metis length_list_update nth_list_update_neq nth_mem)
  qed
qed

lemma Some_in_set_iff: "Some x \<in> set xs \<longleftrightarrow> (\<exists>j<length xs. xs ! j = Some x)"
  by (auto simp: in_set_conv_nth)

lemma length_filter_all_iff: "length (filter P xs) = length xs \<longleftrightarrow> (\<forall>x\<in>set xs. P x)"
proof (induction xs)
  case Nil
  then show ?case by simp
next
  case (Cons x xs)
  have "length (filter P xs) \<noteq> Suc (length xs)"
    using length_filter_le [of P xs] by linarith
  with Cons show ?case by auto
qed

lemma length_flatten: "length (flatten xs) = length (filter is_some xs)"
  by (induction xs rule: flatten.induct) auto

lemma distinct_flattenI:
  "\<forall>i j. i < j \<longrightarrow> j < length xs \<longrightarrow> xs ! i \<noteq> None \<longrightarrow> xs ! i \<noteq> xs ! j \<Longrightarrow>
   distinct (flatten xs)"
proof (induction xs)
  case Nil
  then show ?case by simp
next
  case (Cons x xs)
  have "\<forall>i j. i < j \<longrightarrow> j < length xs \<longrightarrow> xs ! i \<noteq> None \<longrightarrow> xs ! i \<noteq> xs ! j"
    using Cons.prems by (metis (no_types) Suc_less_eq length_Cons nth_Cons_Suc)
  then have d: "distinct (flatten xs)" by (rule Cons.IH)
  have "x \<noteq> None \<Longrightarrow> x \<notin> set xs"
    using Cons.prems by (metis Suc_less_eq in_set_conv_nth length_Cons nth_Cons_0 nth_Cons_Suc zero_less_Suc)
  with d show ?case by (cases x) (auto simp: set_flatten)
qed

lemma length_write_at [simp]:
  "i + length xs \<le> length buf \<Longrightarrow> length (write_at i xs buf) = length buf"
  by (simp add: write_at_def)

lemma take_write_at_0 [simp]: "take (length xs) (write_at 0 xs buf) = xs"
  by (simp add: write_at_def)

lemma nth_write_at:
  "i + length xs \<le> length buf \<Longrightarrow> j < length buf \<Longrightarrow>
   write_at i xs buf ! j = (if i \<le> j \<and> j < i + length xs then xs ! (j - i) else buf ! j)"
  by (auto simp: write_at_def nth_append)

section \<open>Machine integers\<close>

definition checked_add :: "'l::len word \<Rightarrow> 'l word \<Rightarrow> 'l word option" where
  "checked_add a b = (if unat a + unat b < 2 ^ LENGTH('l) then Some (a + b) else None)"

definition checked_sub :: "'l::len word \<Rightarrow> 'l word \<Rightarrow> 'l word option" where
  "checked_sub a b = (if b \<le> a then Some (a - b) else None)"

definition checked_mul :: "'l::len word \<Rightarrow> 'l word \<Rightarrow> 'l word option" where
  "checked_mul a b = (if unat a * unat b < 2 ^ LENGTH('l) then Some (a * b) else None)"

definition saturating_add :: "'l::len word \<Rightarrow> 'l word \<Rightarrow> 'l word" where
  "saturating_add a b = (if unat a + unat b < 2 ^ LENGTH('l) then a + b else - 1)"

definition saturating_sub :: "'l::len word \<Rightarrow> 'l word \<Rightarrow> 'l word" where
  "saturating_sub a b = (if b \<le> a then a - b else 0)"

definition saturating_mul :: "'l::len word \<Rightarrow> 'l word \<Rightarrow> 'l word" where
  "saturating_mul a b = (if unat a * unat b < 2 ^ LENGTH('l) then a * b else - 1)"

definition is_power_of_two :: "'l::len word \<Rightarrow> bool" where
  "is_power_of_two w = (w \<noteq> 0 \<and> w AND (w - 1) = 0)"

text \<open>\<open>a.is_multiple_of(b)\<close>: with \<open>b = 0\<close> it holds for zero only.\<close>

definition is_multiple_of :: "'l::len word \<Rightarrow> 'l word \<Rightarrow> bool" where
  "is_multiple_of a b = (if b = 0 then a = 0 else a mod b = 0)"

lemma unat_add_exact:
  "unat a + unat b < 2 ^ LENGTH('l) \<Longrightarrow> unat (a + b) = unat a + unat b"
  for a b :: "'l::len word"
  by (simp add: unat_word_ariths)

lemma checked_add_Some_iff:
  "checked_add (a::'l::len word) b = Some c \<longleftrightarrow> unat c = unat a + unat b"
proof (cases "unat a + unat b < 2 ^ LENGTH('l)")
  case True
  then show ?thesis
    by (auto simp: checked_add_def word_unat_eq_iff unat_add_exact)
next
  case False
  moreover from False have "unat c \<noteq> unat a + unat b"
    by (metis unsigned_less)
  ultimately show ?thesis
    by (simp add: checked_add_def)
qed

lemma checked_add_None_iff:
  "checked_add (a::'l::len word) b = None \<longleftrightarrow> 2 ^ LENGTH('l) \<le> unat a + unat b"
  by (auto simp: checked_add_def)

lemma unat_sub_le: "b \<le> a \<Longrightarrow> unat (a - b) = unat a - unat b"
  for a b :: "'l::len word"
  by (rule unat_sub)

lemma checked_sub_Some_iff:
  "checked_sub (a::'l::len word) b = Some c \<longleftrightarrow> unat a = unat b + unat c"
  by (auto simp: checked_sub_def word_le_nat_alt unat_sub_le word_unat_eq_iff
      split: if_splits)

lemma unat_max_word: "unat (- 1 :: 'l::len word) = 2 ^ LENGTH('l) - 1"
  by (simp add: unsigned_minus_1_eq_mask mask_eq_exp_minus_1)

lemma unat_saturating_add:
  "unat (saturating_add a b) = min (unat a + unat b) (2 ^ LENGTH('l) - 1)"
  for a b :: "'l::len word"
  by (auto simp: saturating_add_def unat_word_ariths unat_max_word)

lemma unat_saturating_mul:
  "unat (saturating_mul a b) = min (unat a * unat b) (2 ^ LENGTH('l) - 1)"
  for a b :: "'l::len word"
  by (auto simp: saturating_mul_def unat_word_ariths unat_max_word)

lemma unat_saturating_sub: "unat (saturating_sub a b) = unat a - unat b"
  for a b :: "'l::len word"
  by (auto simp: saturating_sub_def word_le_nat_alt unat_sub_le)

lemma is_multiple_of_unat:
  "is_multiple_of a b \<longleftrightarrow> unat b dvd unat a"
  for a b :: "'l::len word"
  by (cases "b = 0")
     (auto simp: is_multiple_of_def word_unat_eq_iff unat_mod_distrib mod_eq_0_iff_dvd)

section \<open>Arrays of one value\<close>

lemma upd_replicate_0: "0 < n \<Longrightarrow> (replicate n x)[0 := y] = y # replicate (n - 1) x"
  by (cases n) auto

lemma position_replicate: "0 < n \<Longrightarrow> P x \<Longrightarrow> position P (replicate n x) = Some 0"
  by (cases n) auto

lemma flatten_replicate_None [simp]: "flatten (replicate n None) = []"
  by (induction n) auto

section \<open>Small numbers as 64-bit words\<close>

lemma unat_of_nat_small: "n < 2 ^ 64 \<Longrightarrow> unat (word_of_nat n :: u64) = n"
  by (simp add: unat_of_nat take_bit_nat_eq_self)

lemma of_nat_less_small:
  "m < 2 ^ 64 \<Longrightarrow> n < 2 ^ 64 \<Longrightarrow> (word_of_nat m :: u64) < word_of_nat n \<longleftrightarrow> m < n"
  by (simp add: word_less_nat_alt unat_of_nat_small)

lemma of_nat_le_small:
  "m < 2 ^ 64 \<Longrightarrow> n < 2 ^ 64 \<Longrightarrow> (word_of_nat m :: u64) \<le> word_of_nat n \<longleftrightarrow> m \<le> n"
  by (simp add: word_le_nat_alt unat_of_nat_small)

lemma of_nat_div_small:
  assumes "m < 2 ^ 64" "n < 2 ^ 64"
  shows "(word_of_nat m :: u64) div word_of_nat n = word_of_nat (m div n)"
proof (rule unsigned_word_eqI)
  have "m div n < 2 ^ 64" using assms(1) by (meson div_le_dividend le_less_trans)
  then show "unat ((word_of_nat m :: u64) div word_of_nat n) = unat (word_of_nat (m div n) :: u64)"
    using assms by (simp add: unat_div unat_of_nat_small)
qed

lemma saturating_add_small:
  assumes "m + n < 2 ^ 64"
  shows "saturating_add (word_of_nat m :: u64) (word_of_nat n) = word_of_nat (m + n)"
  using assms by (simp add: saturating_add_def unat_of_nat_small)

end
