(* ===== verification/Bounded_Fifo.thy ===== *)
theory Bounded_Fifo
  imports Kernel_Prelude
begin

text \<open>
  The ring-buffer arithmetic that the kernel's queues share (a head index, a number of items,
  indices modulo the capacity) and the interface of a bounded first-in first-out queue as a
  locale.  The IPC channel, the shared ring, the event queue and the input queue interpret it.
\<close>

section \<open>Ring arithmetic\<close>

text \<open>The items of a ring, oldest first.\<close>

definition ring_items :: "'a list \<Rightarrow> nat \<Rightarrow> nat \<Rightarrow> 'a list" where
  "ring_items q head len = map (\<lambda>k. q ! ((head + k) mod length q)) [0..<len]"

text \<open>A ring of option cells whose occupied cells are exactly the items.\<close>

definition ring_occupied :: "'a option list \<Rightarrow> nat \<Rightarrow> nat \<Rightarrow> bool" where
  "ring_occupied q head len \<longleftrightarrow>
     (\<forall>k<length q. is_some (q ! ((head + k) mod length q)) \<longleftrightarrow> k < len)"

datatype 'a fifo_op = Push 'a | Pop

text \<open>
  A run of pushes and pops: the items accepted, the items delivered and the final queue.  A
  push that is refused and a pop of an empty queue change nothing.
\<close>

fun fifo_run ::
  "('a \<Rightarrow> 'q \<Rightarrow> 'q option) \<Rightarrow> ('q \<Rightarrow> ('a \<times> 'q) option) \<Rightarrow> 'a fifo_op list \<Rightarrow> 'q \<Rightarrow>
   'a list \<times> 'a list \<times> 'q" where
  "fifo_run push pop [] q = ([], [], q)"
| "fifo_run push pop (Push x # ops) q =
     (case push x q of
        None \<Rightarrow> fifo_run push pop ops q
      | Some q' \<Rightarrow> (case fifo_run push pop ops q' of (ins, outs, r) \<Rightarrow> (x # ins, outs, r)))"
| "fifo_run push pop (Pop # ops) q =
     (case pop q of
        None \<Rightarrow> fifo_run push pop ops q
      | Some (x, q') \<Rightarrow>
          (case fifo_run push pop ops q' of (ins, outs, r) \<Rightarrow> (ins, x # outs, r)))"

lemma ring_index_inj:
  assumes "(h + k) mod n = (h + l) mod n" "k < n" "l < n"
  shows "k = (l::nat)"
proof -
  have "(h + k) mod n = (h + l) mod n \<longleftrightarrow> k mod n = l mod n"
    by (simp add: nat_mod_eq_iff)
  with assms show ?thesis by simp
qed

lemma ring_index_neq_head:
  assumes "Suc k < n" "h < n"
  shows "h \<noteq> (h + Suc k) mod (n::nat)"
proof
  assume "h = (h + Suc k) mod n"
  with assms have "(h + Suc k) mod n = (h + 0) mod n" by simp
  then have "Suc k = 0" by (rule ring_index_inj) (use assms in auto)
  then show False by simp
qed

lemma ring_tail_pop:
  "0 < n \<Longrightarrow> ((h + 1) mod c + (n - 1)) mod c = (h + n) mod (c::nat)"
  by (cases n) (simp_all add: mod_add_left_eq)

lemma length_ring_items [simp]: "length (ring_items q h n) = n"
  by (simp add: ring_items_def)

lemma ring_items_0 [simp]: "ring_items q h 0 = []"
  by (simp add: ring_items_def)

lemma nth_ring_items: "k < n \<Longrightarrow> ring_items q h n ! k = q ! ((h + k) mod length q)"
  by (simp add: ring_items_def)

lemma ring_items_push:
  assumes "n < length q"
  shows "ring_items (q[(h + n) mod length q := x]) h (Suc n) = ring_items q h n @ [x]"
proof -
  have "(h + n) mod length q \<noteq> (h + k) mod length q" if "k < n" for k
    using ring_index_inj [of h n "length q" k] that assms by auto
  moreover have "(h + n) mod length q < length q"
    using assms by (intro mod_less_divisor) linarith
  ultimately show ?thesis
    by (simp add: ring_items_def)
qed

lemma ring_items_pop:
  assumes "0 < n" "n \<le> length q" "h < length q"
  shows "ring_items q h n = q ! h # ring_items (q[h := x]) ((h + 1) mod length q) (n - 1)"
proof (rule nth_equalityI)
  fix i assume i: "i < length (ring_items q h n)"
  show "ring_items q h n ! i =
    (q ! h # ring_items (q[h := x]) ((h + 1) mod length q) (n - 1)) ! i"
  proof (cases i)
    case 0
    with assms show ?thesis by (simp add: nth_ring_items)
  next
    case (Suc k)
    with i have k: "k < n - 1" by simp
    have eq: "((h + 1) mod length q + k) mod length q = (h + Suc k) mod length q"
      by (simp add: mod_add_left_eq)
    have "h \<noteq> (h + Suc k) mod length q"
      by (rule ring_index_neq_head) (use k assms in auto)
    with Suc k eq show ?thesis by (simp add: nth_ring_items)
  qed
qed (use assms in simp)

lemma ring_occupied_push:
  assumes "n < length q" "ring_occupied q h n"
  shows "ring_occupied (q[(h + n) mod length q := Some x]) h (Suc n)"
  unfolding ring_occupied_def
proof (intro allI impI)
  fix k assume k: "k < length (q[(h + n) mod length q := Some x])"
  show "is_some (q[(h + n) mod length q := Some x] !
      ((h + k) mod length (q[(h + n) mod length q := Some x]))) = (k < Suc n)"
  proof (cases "k = n")
    case True
    have "(h + n) mod length q < length q" using assms(1) by (intro mod_less_divisor) linarith
    with True show ?thesis by simp
  next
    case False
    then have "(h + n) mod length q \<noteq> (h + k) mod length q"
      using ring_index_inj [of h n "length q" k] k assms(1) by auto
    with False k assms(2) show ?thesis by (auto simp: ring_occupied_def)
  qed
qed

lemma ring_occupied_pop:
  assumes "0 < n" "n \<le> length q" "h < length q" "ring_occupied q h n"
  shows "ring_occupied (q[h := None]) ((h + 1) mod length q) (n - 1)"
  unfolding ring_occupied_def
proof (intro allI impI)
  fix k assume "k < length (q[h := None])"
  then have k: "k < length q" by simp
  have eq: "((h + 1) mod length q + k) mod length q = (h + Suc k) mod length q"
    by (simp add: mod_add_left_eq)
  show "is_some (q[h := None] ! (((h + 1) mod length q + k) mod length (q[h := None]))) = (k < n - 1)"
  proof (cases "Suc k = length q")
    case True
    then have "(h + Suc k) mod length q = h" using assms(3) by simp
    with assms True eq show ?thesis by simp
  next
    case False
    with k have k': "Suc k < length q" by simp
    have "h \<noteq> (h + Suc k) mod length q"
      using k' assms(3) by (rule ring_index_neq_head)
    with k' eq assms(4) show ?thesis by (auto simp: ring_occupied_def)
  qed
qed

lemma ring_occupied_head:
  "ring_occupied q h n \<Longrightarrow> 0 < n \<Longrightarrow> h < length q \<Longrightarrow> \<exists>x. q ! h = Some x"
  by (force simp: ring_occupied_def is_some_iff)

lemma ring_items_Cons:
  assumes "0 < n" "n \<le> length q" "h < length q"
  shows "ring_items q h n = q ! h # ring_items q ((h + 1) mod length q) (n - 1)"
  using ring_items_pop [OF assms, of "q ! h"] by simp

lemma ring_items_cong:
  assumes "\<And>k. k < n \<Longrightarrow> q ! ((h + k) mod length q) = q' ! ((h + k) mod length q)"
    and "length q' = length q"
  shows "ring_items q h n = ring_items q' h n"
  using assms by (simp add: ring_items_def)

section \<open>The interface of a bounded queue\<close>

locale bounded_fifo =
  fixes push :: "'a \<Rightarrow> 'q \<Rightarrow> 'q option"
    and pop :: "'q \<Rightarrow> ('a \<times> 'q) option"
    and items :: "'q \<Rightarrow> 'a list"
    and ready :: "'a \<Rightarrow> 'q \<Rightarrow> bool"
    and inv :: "'q \<Rightarrow> bool"
    and cap :: nat
  assumes push_None: "inv q \<Longrightarrow> push x q = None \<longleftrightarrow> \<not> ready x q \<or> length (items q) = cap"
    and push_items: "inv q \<Longrightarrow> push x q = Some q' \<Longrightarrow> items q' = items q @ [x]"
    and push_inv: "inv q \<Longrightarrow> push x q = Some q' \<Longrightarrow> inv q'"
    and push_ready: "inv q \<Longrightarrow> push x q = Some q' \<Longrightarrow> ready y q' = ready y q"
    and pop_None: "inv q \<Longrightarrow> pop q = None \<longleftrightarrow> items q = []"
    and pop_items: "inv q \<Longrightarrow> pop q = Some (x, q') \<Longrightarrow> items q = x # items q'"
    and pop_inv: "inv q \<Longrightarrow> pop q = Some (x, q') \<Longrightarrow> inv q'"
    and items_bound: "inv q \<Longrightarrow> length (items q) \<le> cap"
begin

lemma push_Some:
  assumes "inv q" "ready x q" "length (items q) < cap"
  obtains q' where "push x q = Some q'" "items q' = items q @ [x]" "inv q'"
  using assms push_None [of q x] push_items push_inv by (metis less_irrefl option.exhaust)

lemma run_conserves:
  "inv q \<Longrightarrow> fifo_run push pop ops q = (ins, outs, r) \<Longrightarrow>
   inv r \<and> items q @ ins = outs @ items r"
proof (induction ops arbitrary: q ins outs)
  case Nil
  then show ?case by simp
next
  case (Cons a ops)
  show ?case
  proof (cases a)
    case (Push x)
    show ?thesis
    proof (cases "push x q")
      case None
      with Push Cons show ?thesis by simp
    next
      case (Some q')
      with Cons.prems(1) have q': "inv q'" "items q' = items q @ [x]"
        by (auto dest: push_inv push_items)
      obtain ins' where run: "fifo_run push pop ops q' = (ins', outs, r)" "ins = x # ins'"
        using Push Some Cons.prems(2) by (auto split: prod.splits)
      from Cons.IH [OF q'(1) run(1)] q'(2) run(2) show ?thesis by simp
    qed
  next
    case Pop
    show ?thesis
    proof (cases "pop q")
      case None
      with Pop Cons show ?thesis by simp
    next
      case (Some p)
      then obtain x q' where p: "pop q = Some (x, q')" by (cases p) auto
      with Cons.prems(1) have q': "inv q'" "items q = x # items q'"
        by (auto dest: pop_inv pop_items)
      obtain outs' where run: "fifo_run push pop ops q' = (ins, outs', r)" "outs = x # outs'"
        using Pop p Cons.prems(2) by (auto split: prod.splits)
      from Cons.IH [OF q'(1) run(1)] q'(2) run(2) show ?thesis by simp
    qed
  qed
qed

lemma run_push_all:
  "inv q \<Longrightarrow> \<forall>x\<in>set xs. ready x q \<Longrightarrow> length (items q) + length xs \<le> cap \<Longrightarrow>
   \<exists>r. fifo_run push pop (map Push xs) q = (xs, [], r)"
proof (induction xs arbitrary: q)
  case Nil
  then show ?case by simp
next
  case (Cons x xs)
  then obtain q' where q': "push x q = Some q'" "items q' = items q @ [x]" "inv q'"
    using push_Some [of q x] by (auto simp: less_eq_Suc_le)
  with Cons.prems(1,2) have "\<forall>y\<in>set xs. ready y q'"
    using push_ready by auto
  with Cons.IH [of q'] Cons.prems(3) q' show ?case by fastforce
qed

lemma run_pop_all:
  "inv q \<Longrightarrow> \<exists>r. fifo_run push pop (replicate (length (items q)) Pop) q = ([], items q, r)"
proof (induction "items q" arbitrary: q)
  case Nil
  then show ?case by (metis fifo_run.simps(1) list.size(3) replicate_0)
next
  case (Cons x xs)
  then obtain p where "pop q = Some p"
    using pop_None [of q] by (cases "pop q") auto
  then obtain y q' where p: "pop q = Some (y, q')" by (cases p) auto
  with Cons.prems have q': "inv q'" "items q = y # items q'"
    by (auto dest: pop_inv pop_items)
  with Cons.hyps(2) have "xs = items q'" "y = x" by auto
  with Cons.hyps(1) [of q'] q' obtain r where
    "fifo_run push pop (replicate (length (items q')) Pop) q' = ([], items q', r)"
    by blast
  with p q' show ?case by auto
qed

end

end
