(* ===== verification/Process_Ids.thy ===== *)
theory Process_Ids
  imports Kernel_Prelude
begin

text \<open>
  The identifiers of \<open>src/process.rs\<close>: process and thread ids pack a slot number (plus one) in
  the low half of a 32-bit word and the slot's generation in the high half; a file descriptor is
  the slot itself.  The codec lemmas show that packing loses nothing.
\<close>

definition MAX_PROCESSES :: nat where [kernel_defs]: "MAX_PROCESSES = 32"
definition MAX_THREADS :: nat where [kernel_defs]: "MAX_THREADS = 64"
definition MAX_PROCESS_THREADS :: nat where [kernel_defs]: "MAX_PROCESS_THREADS = 4"
definition MAX_FDS :: nat where [kernel_defs]: "MAX_FDS = 32"

datatype process_id = ProcessId u32
datatype thread_id = ThreadId u32
datatype file_descriptor = FileDescriptor u32

text \<open>The packing shared by the two id types.\<close>

definition pack_id :: "nat \<Rightarrow> u16 \<Rightarrow> u32" where
  "pack_id slot generation = push_bit 16 (ucast generation) OR (word_of_nat slot + 1)"

definition unpack_slot :: "nat \<Rightarrow> u32 \<Rightarrow> nat option" where
  "unpack_slot limit raw =
     (let slot = unat (raw AND 0xffff) in
      if slot \<noteq> 0 \<and> slot \<le> limit then Some (slot - 1) else None)"

definition unpack_generation :: "u32 \<Rightarrow> u16" where
  "unpack_generation raw = ucast (drop_bit 16 raw)"

definition INIT :: process_id where "INIT = ProcessId 1"

definition process_id_from_raw :: "u32 \<Rightarrow> process_id" where
  "process_id_from_raw value = ProcessId value"

definition process_id_new :: "nat \<Rightarrow> u16 \<Rightarrow> process_id" where
  "process_id_new slot generation = ProcessId (pack_id slot generation)"

fun process_id_get :: "process_id \<Rightarrow> u32" where
  "process_id_get (ProcessId raw) = raw"

definition process_id_slot :: "process_id \<Rightarrow> nat option" where
  "process_id_slot p = unpack_slot MAX_PROCESSES (process_id_get p)"

definition thread_id_new :: "nat \<Rightarrow> u16 \<Rightarrow> thread_id" where
  "thread_id_new slot generation = ThreadId (pack_id slot generation)"

fun thread_id_get :: "thread_id \<Rightarrow> u32" where
  "thread_id_get (ThreadId raw) = raw"

definition thread_id_slot :: "thread_id \<Rightarrow> nat option" where
  "thread_id_slot t = unpack_slot MAX_THREADS (thread_id_get t)"

definition fd_new :: "nat \<Rightarrow> file_descriptor" where
  "fd_new slot = FileDescriptor (word_of_nat slot)"

definition fd_from_raw :: "u32 \<Rightarrow> file_descriptor" where
  "fd_from_raw value = FileDescriptor value"

fun fd_get :: "file_descriptor \<Rightarrow> u32" where
  "fd_get (FileDescriptor raw) = raw"

definition fd_slot :: "file_descriptor \<Rightarrow> nat option" where
  "fd_slot fd = (if fd_get fd < word_of_nat MAX_FDS then Some (unat (fd_get fd)) else None)"

lemma low_word_take_bit: "slot < 65535 \<Longrightarrow> take_bit 16 (word_of_nat slot + 1 :: u32) = word_of_nat slot + 1"
proof -
  assume s: "slot < 65535"
  have "(word_of_nat slot + 1 :: u32) = word_of_nat (Suc slot)" by simp
  moreover have "take_bit 16 (word_of_nat (Suc slot) :: u32) = word_of_nat (take_bit 16 (Suc slot))"
    by (simp only: of_nat_take_bit [symmetric] take_bit_of_nat)
  moreover have "take_bit 16 (Suc slot) = Suc slot"
    using s by (simp add: take_bit_nat_eq_self)
  ultimately show ?thesis by (simp add: add.commute)
qed

lemma unat_low_word: "slot < 65535 \<Longrightarrow> unat (word_of_nat slot + 1 :: u32) = Suc slot"
  by (simp add: unat_word_ariths unat_of_nat take_bit_nat_eq_self)

lemma unpack_slot_pack:
  assumes "slot < limit" "limit \<le> 65535"
  shows "unpack_slot limit (pack_id slot generation) = Some slot"
proof -
  have "pack_id slot generation AND 0xffff = take_bit 16 (pack_id slot generation)"
    by (simp add: take_bit_eq_mask mask_eq_exp_minus_1)
  also have "\<dots> = take_bit 16 (word_of_nat slot + 1)"
    by (simp add: pack_id_def take_bit_or take_bit_push_bit)
  also have "\<dots> = word_of_nat slot + 1"
    using assms by (intro low_word_take_bit) simp
  finally show ?thesis
    using assms by (simp add: unpack_slot_def unat_low_word)
qed

lemma unpack_generation_pack:
  assumes "slot < 65535"
  shows "unpack_generation (pack_id slot generation) = generation"
proof (rule bit_word_eqI)
  fix n assume n: "n < LENGTH(16)"
  have "\<not> bit (word_of_nat slot + 1 :: u32) (16 + n)"
    using low_word_take_bit [OF assms] by (metis bit_take_bit_iff le_add1 not_le)
  with n show "bit (unpack_generation (pack_id slot generation)) n = bit generation n"
    by (simp add: unpack_generation_def pack_id_def bit_simps)
qed

lemma unpack_slot_lt: "unpack_slot limit raw = Some s \<Longrightarrow> s < limit"
  by (auto simp: unpack_slot_def Let_def split: if_splits)

text \<open>An id is determined by its slot and its generation.\<close>

lemma pack_unpack:
  assumes "unpack_slot limit raw = Some s" "limit \<le> 65535"
  shows "raw = pack_id s (unpack_generation raw)"
proof -
  from assms have u: "unat (raw AND 0xffff) = Suc s"
    by (auto simp: unpack_slot_def Let_def split: if_splits)
  have tb: "raw AND 0xffff = take_bit 16 raw"
    by (simp add: take_bit_eq_mask mask_eq_exp_minus_1)
  have "word_of_nat (unat (take_bit 16 raw)) = take_bit 16 raw"
    by simp
  with u have low: "word_of_nat s + 1 = take_bit 16 raw"
    unfolding tb by (simp add: add.commute)
  show ?thesis
  proof (rule bit_word_eqI)
    fix n assume n: "n < LENGTH(32)"
    then show "bit raw n = bit (pack_id s (unpack_generation raw)) n"
      by (auto simp: pack_id_def low unpack_generation_def bit_simps)
  qed
qed

end
