(* ===== verification/Slot_Table.thy ===== *)
theory Slot_Table
  imports Process_Ids
begin

text \<open>
  The interface of a table of fixed slots whose entries carry generation-tagged ids, as a locale:
  a lookup by id that checks the slot, its generation and the id stored in the entry.  The
  process table interprets it twice, for processes and for threads.
\<close>

definition slots_wf :: "('r \<Rightarrow> u32) \<Rightarrow> nat \<Rightarrow> 'r option list \<Rightarrow> u16 list \<Rightarrow> bool" where
  "slots_wf rid limit xs gs \<longleftrightarrow>
     length xs = limit \<and> length gs = limit \<and>
     (\<forall>i<limit. \<forall>r. xs ! i = Some r \<longrightarrow> rid r = pack_id i (gs ! i))"

lemma slots_wf_update:
  assumes "slots_wf rid limit xs gs" "i < limit" "\<And>r. v = Some r \<Longrightarrow> rid r = pack_id i (gs ! i)"
  shows "slots_wf rid limit (xs[i := v]) gs"
  using assms by (auto simp: slots_wf_def nth_list_update)

lemma slots_wf_free:
  assumes "slots_wf rid limit xs gs" "i < limit"
  shows "slots_wf rid limit (xs[i := None]) (gs[i := g])"
  using assms by (auto simp: slots_wf_def nth_list_update)

lemma slots_wf_map:
  assumes "slots_wf rid limit xs gs" "\<And>r. rid (f r) = rid r"
  shows "slots_wf rid limit (map (map_option f) xs) gs"
  using assms by (auto simp: slots_wf_def)

locale slot_table =
  fixes slots :: "'s \<Rightarrow> 'r option list" and gens :: "'s \<Rightarrow> u16 list" and rid :: "'r \<Rightarrow> 'i"
    and raw :: "'i \<Rightarrow> u32" and limit :: nat and get :: "'s \<Rightarrow> 'i \<Rightarrow> 'r option"
  assumes limit_bound: "limit \<le> 65535"
    and raw_inj: "raw x = raw y \<Longrightarrow> x = y"
    and get_eq: "get s x =
      (case unpack_slot limit (raw x) of
         None \<Rightarrow> None
       | Some i \<Rightarrow>
           if gens s ! i \<noteq> unpack_generation (raw x) then None
           else (case slots s ! i of
                   None \<Rightarrow> None
                 | Some r \<Rightarrow> if rid r = x then Some r else None))"
begin

lemma get_cong: "slots s' = slots s \<Longrightarrow> gens s' = gens s \<Longrightarrow> get s' = get s"
  by (simp add: fun_eq_iff get_eq split: option.split)

lemma entry_slot:
  assumes "slots_wf (\<lambda>r. raw (rid r)) limit (slots s) (gens s)" "i < limit" "slots s ! i = Some r"
  shows "unpack_slot limit (raw (rid r)) = Some i" "unpack_generation (raw (rid r)) = gens s ! i"
  using assms limit_bound by (simp_all add: slots_wf_def unpack_slot_pack unpack_generation_pack)

lemma get_entry:
  assumes "slots_wf (\<lambda>r. raw (rid r)) limit (slots s) (gens s)" "i < limit" "slots s ! i = Some r"
  shows "get s (rid r) = Some r"
  using entry_slot [OF assms] assms(3) by (simp add: get_eq)

lemma get_SomeD:
  assumes "get s x = Some r"
  obtains i where "unpack_slot limit (raw x) = Some i" "i < limit" "slots s ! i = Some r" "rid r = x"
    "gens s ! i = unpack_generation (raw x)"
  using assms unpack_slot_lt by (auto simp: get_eq split: option.splits if_splits)

text \<open>The id of a slot at its present generation is the only one that can be found there.\<close>

lemma slot_id_unique:
  assumes "unpack_slot limit (raw x) = Some i" "gens s ! i = unpack_generation (raw x)"
    and "raw y = pack_id i (gens s ! i)"
  shows "x = y"
  using pack_unpack [OF assms(1) limit_bound] assms(2,3) by (intro raw_inj) simp

text \<open>Storing an entry in a slot changes the lookup at the id of that slot only.\<close>

lemma get_store:
  assumes "slots_wf (\<lambda>r. raw (rid r)) limit (slots s) (gens s)" "i < limit"
    and "slots s' = (slots s)[i := Some r']" "gens s' = gens s"
    and "raw (rid r') = pack_id i (gens s ! i)"
  shows "get s' = (get s)(rid r' \<mapsto> r')"
proof
  fix x
  have i: "unpack_slot limit (raw (rid r')) = Some i" "unpack_generation (raw (rid r')) = gens s ! i"
    using assms(2,5) limit_bound by (simp_all add: unpack_slot_pack unpack_generation_pack)
  show "get s' x = ((get s)(rid r' \<mapsto> r')) x"
  proof (cases "x = rid r'")
    case True
    then show ?thesis using i assms by (simp add: get_eq slots_wf_def)
  next
    case False
    have "get s' x = get s x" if "unpack_slot limit (raw x) = Some j" for j
      using slot_id_unique [of x i s "rid r'"] that False assms(3-5)
      by (cases "j = i") (auto simp: get_eq)
    moreover have "get s' x = get s x" if "unpack_slot limit (raw x) = None"
      using that by (simp add: get_eq)
    ultimately show ?thesis using False by (cases "unpack_slot limit (raw x)") auto
  qed
qed

text \<open>Clearing a slot removes its entry, whatever generation the slot gets.\<close>

lemma get_clear:
  assumes "slots_wf (\<lambda>r. raw (rid r)) limit (slots s) (gens s)" "i < limit" "slots s ! i = Some r"
    and "slots s' = (slots s)[i := None]" "gens s' = (gens s)[i := g]"
  shows "get s' = (get s)(rid r := None)"
proof
  fix x
  have len: "length (slots s) = limit" "length (gens s) = limit"
    using assms(1) by (simp_all add: slots_wf_def)
  have same: "x = rid r" if "unpack_slot limit (raw x) = Some i" "gens s ! i = unpack_generation (raw x)"
    using slot_id_unique [OF that] assms(1-3) by (simp add: slots_wf_def)
  show "get s' x = ((get s)(rid r := None)) x"
  proof (cases "unpack_slot limit (raw x) = Some i")
    case True
    then show ?thesis using same assms(2-5) len by (auto simp: get_eq)
  next
    case False
    have "x \<noteq> rid r" using entry_slot(1) [OF assms(1-3)] False by auto
    then show ?thesis using False assms(4,5) by (auto simp: get_eq split: option.splits)
  qed
qed

lemma get_map:
  assumes "slots_wf (\<lambda>r. raw (rid r)) limit (slots s) (gens s)"
    and "slots s' = map (map_option f) (slots s)" "gens s' = gens s" "\<And>r. rid (f r) = rid r"
  shows "get s' x = map_option f (get s x)"
proof (cases "unpack_slot limit (raw x)")
  case None
  then show ?thesis by (simp add: get_eq)
next
  case (Some i)
  with unpack_slot_lt [OF Some] assms show ?thesis
    by (cases "slots s ! i") (auto simp: get_eq slots_wf_def)
qed

text \<open>A free slot's next id is not in use, and a generation that has passed never is.\<close>

lemma get_fresh:
  assumes "i < limit" "slots s ! i = None" "raw x = pack_id i (gens s ! i)"
  shows "get s x = None"
  using assms limit_bound by (simp add: get_eq unpack_slot_pack)

lemma get_stale:
  assumes "unpack_slot limit (raw x) = Some i" "gens s ! i \<noteq> unpack_generation (raw x)"
  shows "get s x = None"
  using assms by (simp add: get_eq)

lemma get_new:
  assumes "slots_wf (\<lambda>r. raw (rid r)) limit (slots s) (gens s)" "i < limit" "slots s ! i = None"
    and "slots s' = (slots s)[i := Some r']" "gens s' = gens s"
    and "raw (rid r') = pack_id i (gens s ! i)"
  shows "get s' = (get s)(rid r' \<mapsto> r')" "get s (rid r') = None"
  using get_store [OF assms(1,2,4-6)] get_fresh [OF assms(2,3,6)] by simp_all

end

end
