(* ===== verification/Wait_Queue.thy ===== *)
theory Wait_Queue
  imports Kernel_Prelude
begin

text \<open>
  The shared part of \<open>src/ipc.rs\<close>: its constants, its error type, the message cell, and the
  bounded set of waiting threads (\<open>WaitQueue\<close>).  The invariant says that a queue is four slots
  with no thread in it twice and never thread zero; enqueue and wake keep it, and together they
  neither lose nor invent a waiter.
\<close>

definition CHANNEL_CAPACITY :: nat where [kernel_defs]: "CHANNEL_CAPACITY = 4"
definition EVENT_CAPACITY :: nat where [kernel_defs]: "EVENT_CAPACITY = 8"
definition MAX_MESSAGE :: nat where [kernel_defs]: "MAX_MESSAGE = 64"
definition RING_CAPACITY :: nat where [kernel_defs]: "RING_CAPACITY = 4"
definition WAITERS :: nat where [kernel_defs]: "WAITERS = 4"

datatype ipc_error =
    Ipc_Closed | Ipc_Empty | Ipc_Full | Ipc_TooLarge | Ipc_BufferTooSmall
  | Ipc_PermissionDenied | Ipc_Revoked | Ipc_WaitQueueFull | Ipc_AlreadyWaiting
  | Ipc_InvalidWaiter

datatype wait_result = Completed | Blocked

record ipc_event =
  ev_kind :: u16
  ev_data :: u64

record message =
  msg_length :: nat
  msg_bytes :: "u8 list"

definition message_EMPTY :: message where
  "message_EMPTY = \<lparr>msg_length = 0, msg_bytes = replicate MAX_MESSAGE 0\<rparr>"

record wait_queue =
  waiters :: "u32 option list"

definition wait_queue_new :: wait_queue where
  "wait_queue_new = \<lparr>waiters = replicate WAITERS None\<rparr>"

definition enqueue :: "u32 \<Rightarrow> wait_queue \<Rightarrow> (ipc_error + unit) \<times> wait_queue" where
  "enqueue waiter q =
     (if waiter = 0 then (Err Ipc_InvalidWaiter, q)
      else if Some waiter \<in> set (waiters q) then (Err Ipc_AlreadyWaiting, q)
      else (case position is_none (waiters q) of
              None \<Rightarrow> (Err Ipc_WaitQueueFull, q)
            | Some slot \<Rightarrow> (Ok (), q\<lparr>waiters := (waiters q)[slot := Some waiter]\<rparr>)))"

definition wake_one :: "wait_queue \<Rightarrow> u32 option \<times> wait_queue" where
  "wake_one q =
     (case position is_some (waiters q) of
        None \<Rightarrow> (None, q)
      | Some slot \<Rightarrow> (waiters q ! slot, q\<lparr>waiters := (waiters q)[slot := None]\<rparr>))"

definition wq_contains :: "u32 \<Rightarrow> wait_queue \<Rightarrow> bool" where
  "wq_contains waiter q = (Some waiter \<in> set (waiters q))"

definition wq_len :: "wait_queue \<Rightarrow> nat" where
  "wq_len q = length (filter is_some (waiters q))"

section \<open>Invariant and behaviour\<close>

text \<open>The threads in a wait queue.\<close>

definition wq_set :: "wait_queue \<Rightarrow> u32 set" where
  "wq_set q = {w. Some w \<in> set (waiters q)}"

definition wq_inv :: "wait_queue \<Rightarrow> bool" where
  "wq_inv q \<longleftrightarrow>
     length (waiters q) = WAITERS \<and> Some 0 \<notin> set (waiters q) \<and>
     (\<forall>i j. i < j \<longrightarrow> j < length (waiters q) \<longrightarrow> waiters q ! i \<noteq> None \<longrightarrow>
        waiters q ! i \<noteq> waiters q ! j)"

lemma wq_inv_new [simp, inv_intros]: "wq_inv wait_queue_new"
  by (auto simp: wq_inv_def wait_queue_new_def)

lemma enqueue_inv [inv_intros]:
  assumes "wq_inv q" "enqueue w q = (r, q')"
  shows "wq_inv q'"
proof -
  { fix slot
    assume w: "w \<noteq> 0" "Some w \<notin> set (waiters q)"
      and slot: "position is_none (waiters q) = Some slot"
    have "wq_inv (q\<lparr>waiters := (waiters q)[slot := Some w]\<rparr>)"
      using assms(1) w position_SomeD [OF slot, unfolded is_none_iff] set_update_subset_insert [of "waiters q" slot "Some w"]
      unfolding wq_inv_def
      by (auto simp: nth_list_update) (metis nth_mem order.strict_trans)+ }
  with assms show ?thesis
    by (auto simp: enqueue_def split: if_splits option.splits)
qed

lemma wake_one_inv [inv_intros]:
  assumes "wq_inv q" "wake_one q = (r, q')"
  shows "wq_inv q'"
proof -
  { fix slot
    assume slot: "position is_some (waiters q) = Some slot"
    have "wq_inv (q\<lparr>waiters := (waiters q)[slot := None]\<rparr>)"
      using assms(1) position_lt [OF slot] set_update_subset_insert [of "waiters q" slot None]
      unfolding wq_inv_def by (auto simp: nth_list_update) }
  with assms show ?thesis
    by (auto simp: wake_one_def split: option.splits)
qed

lemma wq_inv_wake_snd [simp]: "wq_inv q \<Longrightarrow> wq_inv (snd (wake_one q))"
  by (cases "wake_one q") (auto intro: wake_one_inv)

lemma wq_inv_enqueue_snd [simp]: "wq_inv q \<Longrightarrow> wq_inv (snd (enqueue w q))"
  by (cases "enqueue w q") (auto intro: enqueue_inv)

lemma wq_len_card:
  assumes "wq_inv q"
  shows "wq_len q = card (wq_set q)"
proof -
  have "distinct (flatten (waiters q))"
    using assms by (intro distinct_flattenI) (auto simp: wq_inv_def)
  moreover have "wq_set q = set (flatten (waiters q))"
    by (auto simp: wq_set_def set_flatten)
  ultimately show ?thesis
    by (simp add: wq_len_def length_flatten [symmetric] distinct_card)
qed

lemma wq_len_full_iff:
  assumes "wq_inv q"
  shows "wq_len q = WAITERS \<longleftrightarrow> position is_none (waiters q) = None"
  using assms length_filter_all_iff [of is_some "waiters q"]
  by (simp add: wq_len_def wq_inv_def position_None_iff)

lemma enqueue_set: "enqueue w q = (Ok (), q') \<Longrightarrow> wq_set q' = insert w (wq_set q)"
proof -
  assume e: "enqueue w q = (Ok (), q')"
  then obtain slot where slot: "position is_none (waiters q) = Some slot"
    and q': "q' = q\<lparr>waiters := (waiters q)[slot := Some w]\<rparr>"
    by (auto simp: enqueue_def split: if_splits option.splits)
  from position_SomeD [OF slot] have s: "slot < length (waiters q)" "waiters q ! slot = None"
    by (auto simp: is_none_iff)
  show ?thesis
    unfolding q' wq_set_def using s
    by (auto simp: Some_in_update Some_in_set_iff [of _ "waiters q"])
qed

lemma wake_one_None_iff: "fst (wake_one q) = None \<longleftrightarrow> wq_set q = {}"
proof (cases "position is_some (waiters q)")
  case None
  moreover from None have "wq_set q = {}"
    by (auto simp: wq_set_def position_None_iff)
  ultimately show ?thesis
    by (simp add: wake_one_def)
next
  case (Some slot)
  then obtain w where w: "slot < length (waiters q)" "waiters q ! slot = Some w"
    using position_SomeD [OF Some] by (auto simp: is_some_iff)
  then have "w \<in> wq_set q" by (metis (mono_tags) mem_Collect_eq nth_mem wq_set_def)
  with Some w show ?thesis
    by (auto simp: wake_one_def)
qed

lemma wake_one_set:
  assumes "wq_inv q" "wake_one q = (Some w, q')"
  shows "w \<in> wq_set q" "wq_set q' = wq_set q - {w}"
proof -
  from assms(2) obtain slot where slot: "position is_some (waiters q) = Some slot"
    and w: "waiters q ! slot = Some w" and q': "q' = q\<lparr>waiters := (waiters q)[slot := None]\<rparr>"
    by (auto simp: wake_one_def split: option.splits)
  from position_SomeD [OF slot] have s: "slot < length (waiters q)" by simp
  with w show "w \<in> wq_set q" by (auto simp: wq_set_def in_set_conv_nth)
  have u: "i = slot" if "i < length (waiters q)" "waiters q ! i = Some w" for i
    using assms(1) that w s unfolding wq_inv_def
    by (metis linorder_neqE_nat option.distinct(1))
  have "Some v \<in> set ((waiters q)[slot := None]) \<longleftrightarrow> Some v \<in> set (waiters q) \<and> v \<noteq> w" for v
  proof -
    have "(\<exists>j<length (waiters q). j \<noteq> slot \<and> waiters q ! j = Some v) \<longleftrightarrow>
      (\<exists>j<length (waiters q). waiters q ! j = Some v) \<and> v \<noteq> w"
      using u w s by (metis option.inject)
    then show ?thesis
      using s by (simp add: Some_in_update Some_in_set_iff [of v "waiters q"])
  qed
  then show "wq_set q' = wq_set q - {w}"
    unfolding q' wq_set_def by auto
qed

lemma enqueue_cases:
  assumes "wq_inv q"
  shows "fst (enqueue w q) =
    (if w = 0 then Err Ipc_InvalidWaiter
     else if w \<in> wq_set q then Err Ipc_AlreadyWaiting
     else if card (wq_set q) = WAITERS then Err Ipc_WaitQueueFull
     else Ok ())"
  using wq_len_full_iff [OF assms] wq_len_card [OF assms]
  by (auto simp: enqueue_def wq_set_def split: option.splits)

lemma wq_card_bound: "wq_inv q \<Longrightarrow> card (wq_set q) \<le> WAITERS"
  using length_filter_le [of is_some "waiters q"]
  by (simp add: wq_len_card [symmetric] wq_len_def wq_inv_def)

lemma enqueue_Ok_iff:
  assumes "wq_inv q"
  shows "fst (enqueue w q) = Ok () \<longleftrightarrow> w \<noteq> 0 \<and> w \<notin> wq_set q \<and> card (wq_set q) < WAITERS"
  using enqueue_cases [OF assms, of w] wq_card_bound [OF assms] by auto

lemma enqueue_Err_unchanged: "enqueue w q = (Err e, q') \<Longrightarrow> q' = q"
  by (auto simp: enqueue_def split: if_splits option.splits)

lemma finite_wq_set [simp]: "finite (wq_set q)"
proof -
  have "wq_set q = set (flatten (waiters q))" by (auto simp: wq_set_def set_flatten)
  then show ?thesis by simp
qed

text \<open>A waiter that takes slot zero is the next one woken, whoever waited before it.\<close>

lemma wake_one_slot_zero:
  assumes "waiters q = None # ws" "enqueue w q = (Ok (), q')"
  shows "wake_one q' = (Some w, q)"
  using assms by (cases q) (auto simp: enqueue_def wake_one_def split: if_splits)

section \<open>Properties\<close>

text \<open>
  Claim C31.  A wait queue is a set of at most four distinct non-zero threads.  \<open>enqueue\<close> refuses
  thread 0, a thread that already waits and a fifth thread, each with its own error and without
  a change, and otherwise inserts the thread; \<open>wake_one\<close> removes one waiting thread and returns
  it, and returns nothing exactly when no thread waits.
\<close>

theorem wait_queue_is_bounded_set:
  assumes "wq_inv q"
  shows "card (wq_set q) \<le> WAITERS \<and>
    (case enqueue w q of
       (Inl e, q') \<Rightarrow> q' = q \<and>
         e = (if w = 0 then Ipc_InvalidWaiter
              else if w \<in> wq_set q then Ipc_AlreadyWaiting else Ipc_WaitQueueFull) \<and>
         (w = 0 \<or> w \<in> wq_set q \<or> card (wq_set q) = WAITERS)
     | (Inr _, q') \<Rightarrow> w \<noteq> 0 \<and> w \<notin> wq_set q \<and> wq_inv q' \<and> wq_set q' = insert w (wq_set q)) \<and>
    (case wake_one q of
       (None, q') \<Rightarrow> wq_set q = {} \<and> q' = q
     | (Some t, q') \<Rightarrow> t \<in> wq_set q \<and> wq_set q' = wq_set q - {t} \<and> wq_inv q')"
proof (intro conjI)
  show "card (wq_set q) \<le> WAITERS" by (rule wq_card_bound [OF assms])
  show "case enqueue w q of
       (Inl e, q') \<Rightarrow> q' = q \<and>
         e = (if w = 0 then Ipc_InvalidWaiter
              else if w \<in> wq_set q then Ipc_AlreadyWaiting else Ipc_WaitQueueFull) \<and>
         (w = 0 \<or> w \<in> wq_set q \<or> card (wq_set q) = WAITERS)
     | (Inr _, q') \<Rightarrow> w \<noteq> 0 \<and> w \<notin> wq_set q \<and> wq_inv q' \<and> wq_set q' = insert w (wq_set q)"
    using enqueue_cases [OF assms, of w] enqueue_Err_unchanged enqueue_set enqueue_inv [OF assms]
    by (auto split: prod.splits sum.splits if_splits)
  show "case wake_one q of
       (None, q') \<Rightarrow> wq_set q = {} \<and> q' = q
     | (Some t, q') \<Rightarrow> t \<in> wq_set q \<and> wq_set q' = wq_set q - {t} \<and> wq_inv q'"
  proof (cases "wake_one q")
    case (Pair r q')
    show ?thesis
    proof (cases r)
      case None
      then have "fst (wake_one q) = None" using Pair by simp
      then have "wq_set q = {}" by (simp only: wake_one_None_iff)
      moreover have "q' = q"
        using Pair None position_SomeD [of is_some "waiters q"]
        by (auto simp: wake_one_def is_some_iff split: option.splits)
      ultimately show ?thesis using Pair None by simp
    next
      case (Some t)
      with Pair wake_one_set [OF assms, of t q'] wake_one_inv [OF assms, of r q']
      show ?thesis by simp
    qed
  qed
qed

theorem wait_queue_is_bounded_set_witness:
  "wq_inv \<lparr>waiters = [Some 7, None, Some 9, None]\<rparr> \<and>
   enqueue 3 \<lparr>waiters = [Some 7, None, Some 9, None]\<rparr> =
     (Ok (), \<lparr>waiters = [Some 7, Some 3, Some 9, None]\<rparr>) \<and>
   wq_set \<lparr>waiters = [Some 7, Some 3, Some 9, None]\<rparr> =
     insert 3 (wq_set \<lparr>waiters = [Some 7, None, Some 9, None]\<rparr>)"
proof -
  have "wq_inv \<lparr>waiters = [Some 7, None, Some 9, None]\<rparr>"
    by (auto simp: wq_inv_def kernel_defs nth_Cons less_Suc_eq split: nat.splits)
  moreover have "enqueue 3 \<lparr>waiters = [Some 7, None, Some 9, None]\<rparr> =
     (Ok (), \<lparr>waiters = [Some 7, Some 3, Some 9, None]\<rparr>)"
    by (simp add: enqueue_def)
  ultimately show ?thesis
    using wait_queue_is_bounded_set [of "\<lparr>waiters = [Some 7, None, Some 9, None]\<rparr>" 3] by simp
qed

end
