(* ===== verification/Ipc_Channel.thy ===== *)
theory Ipc_Channel
  imports Wait_Queue Bounded_Fifo Step_Systems
begin

text \<open>
  \<open>Channel\<close> of \<open>src/ipc.rs\<close>: a four-slot message queue that copies payloads of up to 64 bytes,
  with a wait queue on each side.  \<open>channel_abs\<close> reads the ring as a list of payloads; every
  operation is shown to refine its specification on lists, error branches included.
\<close>

record channel =
  ch_queue :: "message option list"
  ch_head :: nat
  ch_tail :: nat
  ch_length :: nat
  ch_senders :: nat
  ch_receivers :: nat
  ch_send_waiters :: wait_queue
  ch_receive_waiters :: wait_queue

definition channel_new :: channel where
  "channel_new =
     \<lparr>ch_queue = replicate CHANNEL_CAPACITY None, ch_head = 0, ch_tail = 0, ch_length = 0,
      ch_senders = 1, ch_receivers = 1,
      ch_send_waiters = wait_queue_new, ch_receive_waiters = wait_queue_new\<rparr>"

definition send :: "u8 list \<Rightarrow> channel \<Rightarrow> (ipc_error + unit) \<times> channel" where
  "send bytes c =
     (if ch_receivers c = 0 then (Err Ipc_Closed, c)
      else if length bytes > MAX_MESSAGE then (Err Ipc_TooLarge, c)
      else if ch_length c = CHANNEL_CAPACITY then (Err Ipc_Full, c)
      else
        let message = message_EMPTY
              \<lparr>msg_length := length bytes,
               msg_bytes := write_at 0 bytes (msg_bytes message_EMPTY)\<rparr>
        in (Ok (),
            c\<lparr>ch_queue := (ch_queue c)[ch_tail c := Some message],
              ch_tail := (ch_tail c + 1) mod CHANNEL_CAPACITY,
              ch_length := ch_length c + 1,
              ch_receive_waiters := snd (wake_one (ch_receive_waiters c))\<rparr>))"

text \<open>The caller's output buffer is passed in and returned.\<close>

definition receive :: "u8 list \<Rightarrow> channel \<Rightarrow> (ipc_error + nat) \<times> u8 list \<times> channel" where
  "receive output c =
     (if ch_length c = 0 then
        (if ch_senders c = 0 then (Err Ipc_Closed, output, c) else (Err Ipc_Empty, output, c))
      else
        (case ch_queue c ! ch_head c of
           None \<Rightarrow> (Err Ipc_Empty, output, c)
         | Some message \<Rightarrow>
             if length output < msg_length message then (Err Ipc_BufferTooSmall, output, c)
             else
               (Ok (msg_length message),
                write_at 0 (take (msg_length message) (msg_bytes message)) output,
                c\<lparr>ch_queue := (ch_queue c)[ch_head c := None],
                  ch_head := (ch_head c + 1) mod CHANNEL_CAPACITY,
                  ch_length := ch_length c - 1,
                  ch_send_waiters := snd (wake_one (ch_send_waiters c))\<rparr>)))"

definition send_blocking ::
  "u32 \<Rightarrow> u8 list \<Rightarrow> channel \<Rightarrow> (ipc_error + wait_result) \<times> channel" where
  "send_blocking waiter bytes c =
     (case send bytes c of
        (Inr _, c') \<Rightarrow> (Ok Completed, c')
      | (Inl error, c') \<Rightarrow>
          if error = Ipc_Full then
            (case enqueue waiter (ch_send_waiters c') of
               (Inl e, q) \<Rightarrow> (Err e, c'\<lparr>ch_send_waiters := q\<rparr>)
             | (Inr _, q) \<Rightarrow> (Ok Blocked, c'\<lparr>ch_send_waiters := q\<rparr>))
          else (Err error, c'))"

definition receive_blocking ::
  "u32 \<Rightarrow> u8 list \<Rightarrow> channel \<Rightarrow> (ipc_error + nat option) \<times> u8 list \<times> channel" where
  "receive_blocking waiter output c =
     (case receive output c of
        (Inr n, out, c') \<Rightarrow> (Ok (Some n), out, c')
      | (Inl error, out, c') \<Rightarrow>
          if error = Ipc_Empty then
            (case enqueue waiter (ch_receive_waiters c') of
               (Inl e, q) \<Rightarrow> (Err e, out, c'\<lparr>ch_receive_waiters := q\<rparr>)
             | (Inr _, q) \<Rightarrow> (Ok None, out, c'\<lparr>ch_receive_waiters := q\<rparr>))
          else (Err error, out, c'))"

definition close_sender :: "channel \<Rightarrow> channel" where
  "close_sender c =
     c\<lparr>ch_senders := 0, ch_receive_waiters := snd (wake_one (ch_receive_waiters c))\<rparr>"

definition close_receiver :: "channel \<Rightarrow> channel" where
  "close_receiver c =
     c\<lparr>ch_receivers := 0, ch_send_waiters := snd (wake_one (ch_send_waiters c))\<rparr>"

definition channel_pending :: "channel \<Rightarrow> nat" where
  "channel_pending c = ch_length c"

section \<open>Specification\<close>

text \<open>What a channel promises: a bounded list of payloads and two open flags.\<close>

record channel_spec =
  cs_items :: "u8 list list"
  cs_sender :: bool
  cs_receiver :: bool

definition spec_send :: "u8 list \<Rightarrow> channel_spec \<Rightarrow> (ipc_error + unit) \<times> channel_spec" where
  "spec_send bytes s =
     (if \<not> cs_receiver s then (Err Ipc_Closed, s)
      else if 64 < length bytes then (Err Ipc_TooLarge, s)
      else if length (cs_items s) = 4 then (Err Ipc_Full, s)
      else (Ok (), s\<lparr>cs_items := cs_items s @ [bytes]\<rparr>))"

definition spec_receive ::
  "u8 list \<Rightarrow> channel_spec \<Rightarrow> (ipc_error + nat) \<times> u8 list \<times> channel_spec" where
  "spec_receive output s =
     (case cs_items s of
        [] \<Rightarrow> (Err (if cs_sender s then Ipc_Empty else Ipc_Closed), output, s)
      | m # ms \<Rightarrow>
          if length output < length m then (Err Ipc_BufferTooSmall, output, s)
          else (Ok (length m), m @ drop (length m) output, s\<lparr>cs_items := ms\<rparr>))"

fun payload :: "message option \<Rightarrow> u8 list" where
  "payload None = []"
| "payload (Some m) = take (msg_length m) (msg_bytes m)"

fun cell_ok :: "message option \<Rightarrow> bool" where
  "cell_ok None = True"
| "cell_ok (Some m) \<longleftrightarrow> length (msg_bytes m) = MAX_MESSAGE \<and> msg_length m \<le> MAX_MESSAGE"

definition channel_abs :: "channel \<Rightarrow> channel_spec" where
  "channel_abs c =
     \<lparr>cs_items = map payload (ring_items (ch_queue c) (ch_head c) (ch_length c)),
      cs_sender = (ch_senders c \<noteq> 0), cs_receiver = (ch_receivers c \<noteq> 0)\<rparr>"

definition channel_inv :: "channel \<Rightarrow> bool" where
  "channel_inv c \<longleftrightarrow>
     length (ch_queue c) = CHANNEL_CAPACITY \<and> ch_head c < CHANNEL_CAPACITY \<and>
     ch_length c \<le> CHANNEL_CAPACITY \<and>
     ch_tail c = (ch_head c + ch_length c) mod CHANNEL_CAPACITY \<and>
     ring_occupied (ch_queue c) (ch_head c) (ch_length c) \<and>
     list_all cell_ok (ch_queue c) \<and>
     wq_inv (ch_send_waiters c) \<and> wq_inv (ch_receive_waiters c)"

text \<open>One push and one pop of a whole message, for runs of the queue.\<close>

definition channel_push :: "u8 list \<Rightarrow> channel \<Rightarrow> channel option" where
  "channel_push bytes c = (case send bytes c of (Inl _, _) \<Rightarrow> None | (Inr _, c') \<Rightarrow> Some c')"

definition channel_pop :: "channel \<Rightarrow> (u8 list \<times> channel) option" where
  "channel_pop c =
     (case receive (replicate MAX_MESSAGE 0) c of
        (Inl _, _, _) \<Rightarrow> None
      | (Inr n, out, c') \<Rightarrow> Some (take n out, c'))"

section \<open>Refinement\<close>

lemma channel_inv_new [inv_intros]: "channel_inv channel_new"
  by (simp add: channel_inv_def channel_new_def ring_occupied_def kernel_defs list_all_iff)

lemma channel_abs_new:
  "channel_abs channel_new = \<lparr>cs_items = [], cs_sender = True, cs_receiver = True\<rparr>"
  by (simp add: channel_abs_def channel_new_def)

text \<open>The message cell that \<open>send\<close> writes.\<close>

definition message_of :: "u8 list \<Rightarrow> message" where
  "message_of bytes =
     \<lparr>msg_length = length bytes, msg_bytes = write_at 0 bytes (replicate MAX_MESSAGE 0)\<rparr>"

lemma payload_message_of [simp]:
  "take (msg_length (message_of bytes)) (msg_bytes (message_of bytes)) = bytes"
  by (simp add: message_of_def)

lemma cell_ok_message_of: "length bytes \<le> MAX_MESSAGE \<Longrightarrow> cell_ok (Some (message_of bytes))"
  by (simp add: message_of_def)

lemma send_Ok_iff:
  "send bytes c = (Ok (), c') \<longleftrightarrow>
   ch_receivers c \<noteq> 0 \<and> length bytes \<le> MAX_MESSAGE \<and> ch_length c \<noteq> CHANNEL_CAPACITY \<and>
   c' = c\<lparr>ch_queue := (ch_queue c)[ch_tail c := Some (message_of bytes)],
          ch_tail := (ch_tail c + 1) mod CHANNEL_CAPACITY,
          ch_length := ch_length c + 1,
          ch_receive_waiters := snd (wake_one (ch_receive_waiters c))\<rparr>"
  by (auto simp: send_def message_of_def message_EMPTY_def)

lemma send_Err_unchanged: "send bytes c = (Err e, c') \<Longrightarrow> c' = c"
  by (auto simp: send_def Let_def split: if_splits)

lemma send_inv [inv_intros]:
  assumes inv: "channel_inv c" and s: "send bytes c = (r, c')"
  shows "channel_inv c'"
proof (cases r)
  case (Inl e)
  with s inv show ?thesis by (auto dest: send_Err_unchanged)
next
  case (Inr u)
  with s have ok: "length bytes \<le> MAX_MESSAGE" "ch_length c \<noteq> CHANNEL_CAPACITY"
    and c': "c' = c\<lparr>ch_queue := (ch_queue c)[ch_tail c := Some (message_of bytes)],
          ch_tail := (ch_tail c + 1) mod CHANNEL_CAPACITY,
          ch_length := ch_length c + 1,
          ch_receive_waiters := snd (wake_one (ch_receive_waiters c))\<rparr>"
    by (auto simp: send_Ok_iff)
  from inv ok(2) have lt: "ch_length c < length (ch_queue c)"
    by (simp add: channel_inv_def)
  from inv have "ring_occupied (ch_queue c) (ch_head c) (ch_length c)"
    by (simp add: channel_inv_def)
  from ring_occupied_push [OF lt this, of "message_of bytes"] inv ok lt
  show ?thesis
    using set_update_subset_insert [of "ch_queue c" "ch_tail c" "Some (message_of bytes)"]
      cell_ok_message_of [OF ok(1)]
    by (auto simp: channel_inv_def c' list_all_iff mod_Suc_eq)
qed

lemma receive_Ok_iff:
  "receive output c = (Ok n, out, c') \<longleftrightarrow>
   ch_length c \<noteq> 0 \<and>
   (\<exists>m. ch_queue c ! ch_head c = Some m \<and> msg_length m \<le> length output \<and> n = msg_length m \<and>
      out = write_at 0 (take (msg_length m) (msg_bytes m)) output \<and>
      c' = c\<lparr>ch_queue := (ch_queue c)[ch_head c := None],
             ch_head := (ch_head c + 1) mod CHANNEL_CAPACITY,
             ch_length := ch_length c - 1,
             ch_send_waiters := snd (wake_one (ch_send_waiters c))\<rparr>)"
  by (auto simp: receive_def split: option.splits)

lemma receive_Err_unchanged: "receive output c = (Err e, out, c') \<Longrightarrow> out = output \<and> c' = c"
  by (auto simp: receive_def split: if_splits option.splits)

lemma receive_inv [inv_intros]:
  assumes inv: "channel_inv c" and r: "receive output c = (r, out, c')"
  shows "channel_inv c'"
proof (cases r)
  case (Inl e)
  with r inv show ?thesis by (auto dest: receive_Err_unchanged)
next
  case (Inr n)
  with r have ok: "ch_length c \<noteq> 0"
    and c': "c' = c\<lparr>ch_queue := (ch_queue c)[ch_head c := None],
             ch_head := (ch_head c + 1) mod CHANNEL_CAPACITY,
             ch_length := ch_length c - 1,
             ch_send_waiters := snd (wake_one (ch_send_waiters c))\<rparr>"
    by (auto simp: receive_Ok_iff)
  from inv have "ring_occupied (ch_queue c) (ch_head c) (ch_length c)"
    and "ch_length c \<le> length (ch_queue c)" and "ch_head c < length (ch_queue c)"
    by (simp_all add: channel_inv_def)
  with ok have "ring_occupied ((ch_queue c)[ch_head c := None])
      ((ch_head c + 1) mod length (ch_queue c)) (ch_length c - 1)"
    by (intro ring_occupied_pop) auto
  moreover have "((ch_head c + 1) mod CHANNEL_CAPACITY + (ch_length c - 1)) mod CHANNEL_CAPACITY
      = (ch_head c + ch_length c) mod CHANNEL_CAPACITY"
    using ok by (intro ring_tail_pop) simp
  ultimately show ?thesis
    using inv set_update_subset_insert [of "ch_queue c" "ch_head c" None]
    by (auto simp: channel_inv_def c' list_all_iff kernel_defs)
qed

lemma send_refines:
  assumes "channel_inv c"
  shows "apsnd channel_abs (send bytes c) = spec_send bytes (channel_abs c)"
proof (cases "send bytes c")
  case (Pair r c')
  show ?thesis
  proof (cases r)
    case (Inl e)
    with Pair have "send bytes c = (Err e, c)" by (auto dest: send_Err_unchanged)
    then show ?thesis
      by (auto simp: send_def spec_send_def channel_abs_def Let_def kernel_defs split: if_splits)
  next
    case (Inr u)
    with Pair have ok: "ch_receivers c \<noteq> 0" "length bytes \<le> MAX_MESSAGE"
      "ch_length c \<noteq> CHANNEL_CAPACITY"
      and c': "c' = c\<lparr>ch_queue := (ch_queue c)[ch_tail c := Some (message_of bytes)],
          ch_tail := (ch_tail c + 1) mod CHANNEL_CAPACITY,
          ch_length := ch_length c + 1,
          ch_receive_waiters := snd (wake_one (ch_receive_waiters c))\<rparr>"
      by (auto simp: send_Ok_iff)
    from assms ok have "ch_length c < length (ch_queue c)"
      by (simp add: channel_inv_def)
    from ring_items_push [OF this, of "ch_head c" "Some (message_of bytes)"] assms
    have "map payload (ring_items (ch_queue c') (ch_head c') (ch_length c')) =
      map payload (ring_items (ch_queue c) (ch_head c) (ch_length c)) @ [bytes]"
      by (simp add: c' channel_inv_def)
    with Pair Inr ok show ?thesis
      by (simp add: spec_send_def channel_abs_def kernel_defs) (simp add: c')
  qed
qed

lemma channel_head_payload:
  assumes "channel_inv c" "ch_length c \<noteq> 0"
  obtains m where "ch_queue c ! ch_head c = Some m" "cell_ok (Some m)"
    "length (payload (Some m)) = msg_length m"
    "cs_items (channel_abs c) = payload (Some m) # tl (cs_items (channel_abs c))"
proof -
  from assms obtain m where m: "ch_queue c ! ch_head c = Some m"
    using ring_occupied_head [of "ch_queue c" "ch_head c" "ch_length c"]
    by (auto simp: channel_inv_def)
  have "cell_ok (ch_queue c ! ch_head c)"
    using assms(1) nth_mem [of "ch_head c" "ch_queue c"]
    unfolding channel_inv_def list_all_iff by metis
  with m have ok: "cell_ok (Some m)" by simp
  moreover have "cs_items (channel_abs c) = payload (Some m) # tl (cs_items (channel_abs c))"
    using ring_items_Cons [of "ch_length c" "ch_queue c" "ch_head c"] assms m
    by (simp add: channel_inv_def channel_abs_def)
  ultimately show thesis using m that by simp
qed

lemma receive_refines:
  assumes "channel_inv c"
  shows "apsnd (apsnd channel_abs) (receive output c) = spec_receive output (channel_abs c)"
proof (cases "ch_length c = 0")
  case True
  then show ?thesis by (simp add: receive_def spec_receive_def channel_abs_def)
next
  case False
  from channel_head_payload [OF assms False] obtain m where
    m: "ch_queue c ! ch_head c = Some m" and len: "length (payload (Some m)) = msg_length m"
    and "cs_items (channel_abs c) = payload (Some m) # tl (cs_items (channel_abs c))" .
  then obtain ms where items: "cs_items (channel_abs c) = payload (Some m) # ms" by metis
  show ?thesis
  proof (cases "length output < msg_length m")
    case True
    with m False items len show ?thesis
      by (simp add: receive_def spec_receive_def)
  next
    case enough: False
    define c' where "c' = c\<lparr>ch_queue := (ch_queue c)[ch_head c := None],
             ch_head := (ch_head c + 1) mod CHANNEL_CAPACITY,
             ch_length := ch_length c - 1,
             ch_send_waiters := snd (wake_one (ch_send_waiters c))\<rparr>"
    have r: "receive output c = (Ok (msg_length m), write_at 0 (payload (Some m)) output, c')"
      using m False enough by (simp add: receive_def c'_def)
    have "channel_abs c' = (channel_abs c)\<lparr>cs_items := tl (cs_items (channel_abs c))\<rparr>"
      using ring_items_pop [of "ch_length c" "ch_queue c" "ch_head c" None] assms False
      by (simp add: channel_abs_def c'_def channel_inv_def)
    then have "channel_abs c' = (channel_abs c)\<lparr>cs_items := ms\<rparr>"
      using items by simp
    with r items len enough show ?thesis
      by (simp add: spec_receive_def write_at_def)
  qed
qed

section \<open>The channel as a bounded queue\<close>

lemma channel_push_Some_iff: "channel_push bytes c = Some c' \<longleftrightarrow> send bytes c = (Ok (), c')"
  by (auto simp: channel_push_def split: prod.splits sum.splits)

lemma channel_push_spec:
  assumes "channel_inv c" "channel_push bytes c = Some c'"
  shows "channel_inv c'" "ch_receivers c' = ch_receivers c"
    "cs_items (channel_abs c') = cs_items (channel_abs c) @ [bytes]"
proof -
  have s: "send bytes c = (Ok (), c')" using assms(2) by (simp add: channel_push_Some_iff)
  show "channel_inv c'" using assms(1) s by (rule send_inv)
  show "ch_receivers c' = ch_receivers c" using s by (simp add: send_Ok_iff)
  show "cs_items (channel_abs c') = cs_items (channel_abs c) @ [bytes]"
    using send_refines [OF assms(1), of bytes] s by (auto simp: spec_send_def split: if_splits)
qed

lemma channel_push_None:
  assumes "channel_inv c"
  shows "channel_push bytes c = None \<longleftrightarrow>
    \<not> (ch_receivers c \<noteq> 0 \<and> length bytes \<le> 64) \<or> length (cs_items (channel_abs c)) = 4"
  by (simp add: channel_push_def send_def channel_abs_def kernel_defs Let_def not_less
      split: if_split)

lemma channel_pop_cases:
  assumes "channel_inv c"
  shows "channel_pop c =
    (case cs_items (channel_abs c) of [] \<Rightarrow> None
     | m # ms \<Rightarrow> Some (m, snd (snd (receive (replicate MAX_MESSAGE 0) c))))"
proof (cases "ch_length c = 0")
  case True
  then show ?thesis
    by (simp add: channel_pop_def receive_def channel_abs_def)
next
  case False
  from channel_head_payload [OF assms False] obtain m where
    m: "ch_queue c ! ch_head c = Some m" "cell_ok (Some m)"
      "length (payload (Some m)) = msg_length m"
      "cs_items (channel_abs c) = payload (Some m) # tl (cs_items (channel_abs c))" .
  then obtain ms where items: "cs_items (channel_abs c) = payload (Some m) # ms" by metis
  moreover from m(2,3) have "take (msg_length m) (write_at 0 (payload (Some m)) buf) = payload (Some m)" for buf
    using take_write_at_0 [of "payload (Some m)" buf] by simp
  ultimately show ?thesis
    using False m(1,2) by (simp add: channel_pop_def receive_def)
qed

lemma channel_pop_spec:
  assumes "channel_inv c" "channel_pop c = Some (m, c')"
  shows "channel_inv c'" "cs_items (channel_abs c) = m # cs_items (channel_abs c')"
proof -
  obtain r out where r: "receive (replicate MAX_MESSAGE 0) c = (r, out, c')"
    using assms by (cases "receive (replicate MAX_MESSAGE 0) c")
      (auto simp: channel_pop_cases split: list.splits)
  from assms(1) r show "channel_inv c'" by (rule receive_inv)
  from assms obtain ms where "cs_items (channel_abs c) = m # ms"
    by (auto simp: channel_pop_cases split: list.splits)
  moreover have "r \<noteq> Err e" for e
    using assms(2) r by (auto simp: channel_pop_def)
  ultimately show "cs_items (channel_abs c) = m # cs_items (channel_abs c')"
    using receive_refines [OF assms(1), of "replicate MAX_MESSAGE 0"] r
    by (auto simp: spec_receive_def split: if_splits)
qed

interpretation chan: bounded_fifo channel_push channel_pop "\<lambda>c. cs_items (channel_abs c)"
  "\<lambda>bytes c. ch_receivers c \<noteq> 0 \<and> length bytes \<le> 64" channel_inv 4
proof (unfold_locales, goal_cases)
  case (1 c bytes)
  then show ?case by (rule channel_push_None)
next
  case (2 c bytes c')
  then show ?case by (rule channel_push_spec)
next
  case (3 c bytes c')
  then show ?case by (rule channel_push_spec)
next
  case (4 c bytes c' other)
  then show ?case by (simp only: channel_push_spec(2))
next
  case (5 c)
  then show ?case by (simp add: channel_pop_cases split: list.splits)
next
  case (6 c m c')
  then show ?case by (rule channel_pop_spec)
next
  case (7 c m c')
  then show ?case by (rule channel_pop_spec)
next
  case (8 c)
  then show ?case by (simp add: channel_inv_def channel_abs_def kernel_defs)
qed

section \<open>Blocking and closing\<close>

text \<open>A blocking call ends in the state of the plain call, but for its own wait queue.\<close>

lemma send_blocking_state:
  assumes "send bytes c = (r0, c0)" "send_blocking w bytes c = (r, c')"
  shows "c' = c0 \<or> c' = c0\<lparr>ch_send_waiters := snd (enqueue w (ch_send_waiters c0))\<rparr>"
proof (cases r0)
  case (Inl e)
  with assms show ?thesis
    by (cases "enqueue w (ch_send_waiters c0)")
       (auto simp: send_blocking_def split: sum.splits if_splits)
qed (use assms in \<open>simp add: send_blocking_def\<close>)

lemma receive_blocking_state:
  assumes "receive output c = (r0, o0, c0)" "receive_blocking w output c = (r, out, c')"
  shows "c' = c0 \<or> c' = c0\<lparr>ch_receive_waiters := snd (enqueue w (ch_receive_waiters c0))\<rparr>"
proof (cases r0)
  case (Inl e)
  with assms show ?thesis
    by (cases "enqueue w (ch_receive_waiters c0)")
       (auto simp: receive_blocking_def split: sum.splits if_splits)
qed (use assms in \<open>simp add: receive_blocking_def\<close>)

lemma channel_inv_waiters:
  "channel_inv c \<Longrightarrow> channel_inv (c\<lparr>ch_send_waiters := snd (enqueue w (ch_send_waiters c))\<rparr>)"
  "channel_inv c \<Longrightarrow> channel_inv (c\<lparr>ch_receive_waiters := snd (enqueue w (ch_receive_waiters c))\<rparr>)"
  by (simp_all add: channel_inv_def)

lemma send_blocking_inv [inv_intros]:
  assumes "channel_inv c" "send_blocking w bytes c = (r, c')"
  shows "channel_inv c'"
proof -
  obtain r0 c0 where s: "send bytes c = (r0, c0)" by fastforce
  with assms(1) have "channel_inv c0" by (rule send_inv)
  with send_blocking_state [OF s assms(2)] show ?thesis
    by (auto intro: channel_inv_waiters)
qed

lemma receive_blocking_inv [inv_intros]:
  assumes "channel_inv c" "receive_blocking w output c = (r, out, c')"
  shows "channel_inv c'"
proof -
  obtain r0 o0 c0 where s: "receive output c = (r0, o0, c0)" by (metis prod_cases3)
  with assms(1) have "channel_inv c0" by (rule receive_inv)
  with receive_blocking_state [OF s assms(2)] show ?thesis
    by (auto intro: channel_inv_waiters)
qed

lemma close_inv [inv_intros]:
  "channel_inv c \<Longrightarrow> channel_inv (close_sender c)"
  "channel_inv c \<Longrightarrow> channel_inv (close_receiver c)"
  by (simp_all add: channel_inv_def close_sender_def close_receiver_def)

text \<open>The operations of a channel as steps.\<close>

inductive channel_step :: "channel \<Rightarrow> channel \<Rightarrow> bool" where
  step_send: "send bytes c = (r, c') \<Longrightarrow> channel_step c c'"
| step_receive: "receive output c = (n, out, c') \<Longrightarrow> channel_step c c'"
| step_send_blocking: "send_blocking w bytes c = (r, c') \<Longrightarrow> channel_step c c'"
| step_receive_blocking: "receive_blocking w output c = (n, out, c') \<Longrightarrow> channel_step c c'"
| step_close_sender: "channel_step c (close_sender c)"
| step_close_receiver: "channel_step c (close_receiver c)"

lemma channel_step_inv: "channel_step c c' \<Longrightarrow> channel_inv c \<Longrightarrow> channel_inv c'"
  by (induction rule: channel_step.induct) (auto intro: inv_intros)

interpretation chansys: step_invariant "\<lambda>c. c = channel_new" channel_step channel_inv
  by unfold_locales (auto intro: inv_intros channel_step_inv)

lemma send_wakes:
  assumes "send bytes c = (Ok (), c')"
  shows "ch_receive_waiters c' = snd (wake_one (ch_receive_waiters c))"
    "ch_send_waiters c' = ch_send_waiters c"
  using assms by (simp_all add: send_Ok_iff)

lemma wake_set_card:
  assumes "wq_inv q"
  shows "card (wq_set (snd (wake_one q))) = card (wq_set q) - 1"
proof (cases "wake_one q")
  case (Pair r q')
  show ?thesis
  proof (cases r)
    case None
    with Pair have "fst (wake_one q) = None" by simp
    then have "wq_set q = {}" by (simp only: wake_one_None_iff)
    moreover have "q' = q"
      using Pair None position_SomeD [of is_some "waiters q"]
      by (auto simp: wake_one_def is_some_iff split: option.splits)
    ultimately show ?thesis using Pair by simp
  next
    case (Some t)
    with Pair wake_one_set [OF assms, of t q'] show ?thesis by simp
  qed
qed

section \<open>Properties\<close>

text \<open>
  Claim C7.  In every state a channel can reach through its operations (sends, receives, their
  blocking forms, closing either end), \<open>send\<close> and \<open>receive\<close> behave exactly as the same
  operations on a list of at most four payloads: result, error, received bytes and remaining
  messages agree on every branch.
\<close>

theorem channel_refines_spec:
  assumes "reachable (\<lambda>c. c = channel_new) channel_step c"
  shows "apsnd channel_abs (send bytes c) = spec_send bytes (channel_abs c) \<and>
    apsnd (apsnd channel_abs) (receive output c) = spec_receive output (channel_abs c) \<and>
    length (cs_items (channel_abs c)) \<le> 4"
  using chansys.reachable_inv [OF assms]
  by (simp add: send_refines receive_refines chan.items_bound)

theorem channel_refines_spec_witness:
  "reachable (\<lambda>c. c = channel_new) channel_step (snd (send [1, 2] channel_new)) \<and>
   apsnd (apsnd channel_abs) (receive [9, 9, 9] (snd (send [1, 2] channel_new))) =
   (Ok 2, [1, 2, 9], \<lparr>cs_items = [], cs_sender = True, cs_receiver = True\<rparr>)"
proof -
  have r: "reachable (\<lambda>c. c = channel_new) channel_step (snd (send [1, 2] channel_new))"
    by (rule reach_step, rule reach_init, simp, rule step_send, rule prod.collapse [symmetric])
  have "channel_abs (snd (send [1, 2] channel_new)) =
      \<lparr>cs_items = [[1, 2]], cs_sender = True, cs_receiver = True\<rparr>"
    using channel_refines_spec [OF reach_init, of channel_new "[1, 2]" "[]"]
    by (cases "send [1, 2] channel_new") (simp add: channel_abs_new spec_send_def)
  with r channel_refines_spec [OF r, of "[]" "[9, 9, 9]"] show ?thesis
    by (simp add: spec_receive_def)
qed





end
