(* ===== verification/Ipc_Ring.thy ===== *)
theory Ipc_Ring
  imports Wait_Queue Bounded_Fifo Step_Systems Process_Ids
begin

text \<open>
  \<open>SharedRing\<close> of \<open>src/ipc.rs\<close>: a four-slot ring of 64-byte records between one producer and
  one consumer process, which either of them can revoke.  The cells are read as the list of
  published records; access control, order and revocation are proved on that reading.
\<close>

record shared_ring =
  sr_producer :: process_id
  sr_consumer :: process_id
  sr_slots :: "u8 list list"
  sr_lengths :: "nat list"
  sr_head :: nat
  sr_tail :: nat
  sr_length :: nat
  sr_active :: bool
  sr_producer_waiters :: wait_queue
  sr_consumer_waiters :: wait_queue

definition shared_ring_new :: "process_id \<Rightarrow> process_id \<Rightarrow> shared_ring" where
  "shared_ring_new producer consumer =
     \<lparr>sr_producer = producer, sr_consumer = consumer,
      sr_slots = replicate RING_CAPACITY (replicate MAX_MESSAGE 0),
      sr_lengths = replicate RING_CAPACITY 0,
      sr_head = 0, sr_tail = 0, sr_length = 0, sr_active = True,
      sr_producer_waiters = wait_queue_new, sr_consumer_waiters = wait_queue_new\<rparr>"

definition check_active :: "shared_ring \<Rightarrow> ipc_error + unit" where
  "check_active r = (if sr_active r then Ok () else Err Ipc_Revoked)"

definition publish :: "process_id \<Rightarrow> u8 list \<Rightarrow> shared_ring \<Rightarrow> (ipc_error + unit) \<times> shared_ring" where
  "publish caller bytes r =
     (case check_active r of
        Inl e \<Rightarrow> (Err e, r)
      | Inr _ \<Rightarrow>
          if caller \<noteq> sr_producer r then (Err Ipc_PermissionDenied, r)
          else if length bytes > MAX_MESSAGE then (Err Ipc_TooLarge, r)
          else if sr_length r = RING_CAPACITY then (Err Ipc_Full, r)
          else
            (Ok (),
             r\<lparr>sr_slots := (sr_slots r)[sr_tail r := write_at 0 bytes (sr_slots r ! sr_tail r)],
               sr_lengths := (sr_lengths r)[sr_tail r := length bytes],
               sr_tail := (sr_tail r + 1) mod RING_CAPACITY,
               sr_length := sr_length r + 1,
               sr_consumer_waiters := snd (wake_one (sr_consumer_waiters r))\<rparr>))"

definition consume ::
  "process_id \<Rightarrow> u8 list \<Rightarrow> shared_ring \<Rightarrow> (ipc_error + nat) \<times> u8 list \<times> shared_ring" where
  "consume caller output r =
     (case check_active r of
        Inl e \<Rightarrow> (Err e, output, r)
      | Inr _ \<Rightarrow>
          if caller \<noteq> sr_consumer r then (Err Ipc_PermissionDenied, output, r)
          else if sr_length r = 0 then (Err Ipc_Empty, output, r)
          else
            let len = sr_lengths r ! sr_head r in
            if length output < len then (Err Ipc_BufferTooSmall, output, r)
            else
              (Ok len,
               write_at 0 (take len (sr_slots r ! sr_head r)) output,
               r\<lparr>sr_lengths := (sr_lengths r)[sr_head r := 0],
                 sr_head := (sr_head r + 1) mod RING_CAPACITY,
                 sr_length := sr_length r - 1,
                 sr_producer_waiters := snd (wake_one (sr_producer_waiters r))\<rparr>))"

definition publish_blocking ::
  "process_id \<Rightarrow> u32 \<Rightarrow> u8 list \<Rightarrow> shared_ring \<Rightarrow> (ipc_error + wait_result) \<times> shared_ring" where
  "publish_blocking caller waiter bytes r =
     (case publish caller bytes r of
        (Inr _, r') \<Rightarrow> (Ok Completed, r')
      | (Inl error, r') \<Rightarrow>
          if error = Ipc_Full then
            (case enqueue waiter (sr_producer_waiters r') of
               (Inl e, q) \<Rightarrow> (Err e, r'\<lparr>sr_producer_waiters := q\<rparr>)
             | (Inr _, q) \<Rightarrow> (Ok Blocked, r'\<lparr>sr_producer_waiters := q\<rparr>))
          else (Err error, r'))"

definition consume_blocking ::
  "process_id \<Rightarrow> u32 \<Rightarrow> u8 list \<Rightarrow> shared_ring \<Rightarrow>
   (ipc_error + nat option) \<times> u8 list \<times> shared_ring" where
  "consume_blocking caller waiter output r =
     (case consume caller output r of
        (Inr n, out, r') \<Rightarrow> (Ok (Some n), out, r')
      | (Inl error, out, r') \<Rightarrow>
          if error = Ipc_Empty then
            (case enqueue waiter (sr_consumer_waiters r') of
               (Inl e, q) \<Rightarrow> (Err e, out, r'\<lparr>sr_consumer_waiters := q\<rparr>)
             | (Inr _, q) \<Rightarrow> (Ok None, out, r'\<lparr>sr_consumer_waiters := q\<rparr>))
          else (Err error, out, r'))"

definition revoke :: "process_id \<Rightarrow> shared_ring \<Rightarrow> (ipc_error + unit) \<times> shared_ring" where
  "revoke caller r =
     (case check_active r of
        Inl e \<Rightarrow> (Err e, r)
      | Inr _ \<Rightarrow>
          if caller \<noteq> sr_producer r \<and> caller \<noteq> sr_consumer r
          then (Err Ipc_PermissionDenied, r)
          else (Ok (), r\<lparr>sr_active := False\<rparr>))"

definition ring_pending :: "shared_ring \<Rightarrow> nat" where
  "ring_pending r = sr_length r"

section \<open>The published records\<close>

definition sr_cells :: "shared_ring \<Rightarrow> u8 list list" where
  "sr_cells r = map2 take (sr_lengths r) (sr_slots r)"

definition sr_items :: "shared_ring \<Rightarrow> u8 list list" where
  "sr_items r = ring_items (sr_cells r) (sr_head r) (sr_length r)"

definition shared_ring_inv :: "shared_ring \<Rightarrow> bool" where
  "shared_ring_inv r \<longleftrightarrow>
     length (sr_slots r) = RING_CAPACITY \<and> length (sr_lengths r) = RING_CAPACITY \<and>
     (\<forall>s\<in>set (sr_slots r). length s = MAX_MESSAGE) \<and>
     (\<forall>n\<in>set (sr_lengths r). n \<le> MAX_MESSAGE) \<and>
     sr_head r < RING_CAPACITY \<and> sr_length r \<le> RING_CAPACITY \<and>
     sr_tail r = (sr_head r + sr_length r) mod RING_CAPACITY \<and>
     wq_inv (sr_producer_waiters r) \<and> wq_inv (sr_consumer_waiters r)"

text \<open>One push by the producer and one pop by the consumer of a whole record.\<close>

definition ring_push :: "u8 list \<Rightarrow> shared_ring \<Rightarrow> shared_ring option" where
  "ring_push bytes r =
     (case publish (sr_producer r) bytes r of (Inl _, _) \<Rightarrow> None | (Inr _, r') \<Rightarrow> Some r')"

definition ring_pop :: "shared_ring \<Rightarrow> (u8 list \<times> shared_ring) option" where
  "ring_pop r =
     (case consume (sr_consumer r) (replicate MAX_MESSAGE 0) r of
        (Inl _, _, _) \<Rightarrow> None
      | (Inr n, out, r') \<Rightarrow> Some (take n out, r'))"

lemma shared_ring_inv_new [inv_intros]: "shared_ring_inv (shared_ring_new p c)"
  by (simp add: shared_ring_inv_def shared_ring_new_def kernel_defs)

lemma map2_update:
  assumes "length xs = length ys" "i < length xs"
  shows "map2 f (xs[i := x]) (ys[i := y]) = (map2 f xs ys)[i := f x y]"
  using assms by (intro nth_equalityI) (auto simp: nth_list_update)

lemma length_sr_cells [simp]: "shared_ring_inv r \<Longrightarrow> length (sr_cells r) = RING_CAPACITY"
  by (simp add: sr_cells_def shared_ring_inv_def)

lemma publish_Ok_iff:
  "publish caller bytes r = (Ok (), r') \<longleftrightarrow>
   sr_active r \<and> caller = sr_producer r \<and> length bytes \<le> MAX_MESSAGE \<and>
   sr_length r \<noteq> RING_CAPACITY \<and>
   r' = r\<lparr>sr_slots := (sr_slots r)[sr_tail r := write_at 0 bytes (sr_slots r ! sr_tail r)],
          sr_lengths := (sr_lengths r)[sr_tail r := length bytes],
          sr_tail := (sr_tail r + 1) mod RING_CAPACITY,
          sr_length := sr_length r + 1,
          sr_consumer_waiters := snd (wake_one (sr_consumer_waiters r))\<rparr>"
  by (auto simp: publish_def check_active_def)

lemma publish_Err_unchanged: "publish caller bytes r = (Err e, r') \<Longrightarrow> r' = r"
  by (auto simp: publish_def check_active_def split: if_splits)

lemma publish_Err_iff:
  "publish caller bytes r = (Err e, r) \<longleftrightarrow>
   (if \<not> sr_active r then e = Ipc_Revoked
    else if caller \<noteq> sr_producer r then e = Ipc_PermissionDenied
    else if MAX_MESSAGE < length bytes then e = Ipc_TooLarge
    else sr_length r = RING_CAPACITY \<and> e = Ipc_Full)"
  by (auto simp: publish_def check_active_def)

lemma consume_Ok_iff:
  "consume caller output r = (Ok n, out, r') \<longleftrightarrow>
   sr_active r \<and> caller = sr_consumer r \<and> sr_length r \<noteq> 0 \<and>
   n = sr_lengths r ! sr_head r \<and> n \<le> length output \<and>
   out = write_at 0 (take n (sr_slots r ! sr_head r)) output \<and>
   r' = r\<lparr>sr_lengths := (sr_lengths r)[sr_head r := 0],
          sr_head := (sr_head r + 1) mod RING_CAPACITY,
          sr_length := sr_length r - 1,
          sr_producer_waiters := snd (wake_one (sr_producer_waiters r))\<rparr>"
  by (auto simp: consume_def check_active_def Let_def)

lemma consume_Err_unchanged: "consume caller output r = (Err e, out, r') \<Longrightarrow> out = output \<and> r' = r"
  by (auto simp: consume_def check_active_def Let_def split: if_splits)

lemma publish_inv [inv_intros]:
  assumes "shared_ring_inv r" "publish caller bytes r = (x, r')"
  shows "shared_ring_inv r'"
proof (cases x)
  case (Inl e)
  with assms show ?thesis by (auto dest: publish_Err_unchanged)
next
  case (Inr u)
  with assms(2) have ok: "length bytes \<le> MAX_MESSAGE" "sr_length r \<noteq> RING_CAPACITY"
    and r': "r' = r\<lparr>sr_slots := (sr_slots r)[sr_tail r := write_at 0 bytes (sr_slots r ! sr_tail r)],
          sr_lengths := (sr_lengths r)[sr_tail r := length bytes],
          sr_tail := (sr_tail r + 1) mod RING_CAPACITY,
          sr_length := sr_length r + 1,
          sr_consumer_waiters := snd (wake_one (sr_consumer_waiters r))\<rparr>"
    by (auto simp: publish_Ok_iff)
  have t: "sr_tail r < length (sr_slots r)"
    using assms(1) by (simp add: shared_ring_inv_def kernel_defs)
  then have "length (sr_slots r ! sr_tail r) = MAX_MESSAGE"
    using assms(1) by (simp add: shared_ring_inv_def)
  with ok assms(1) t show ?thesis
    by (auto simp: shared_ring_inv_def r' mod_Suc_eq dest!: set_update_subset_insert [THEN subsetD])
qed

lemma consume_inv [inv_intros]:
  assumes "shared_ring_inv r" "consume caller output r = (x, out, r')"
  shows "shared_ring_inv r'"
proof (cases x)
  case (Inl e)
  with assms show ?thesis by (auto dest: consume_Err_unchanged)
next
  case (Inr n)
  with assms(2) have ok: "sr_length r \<noteq> 0"
    and r': "r' = r\<lparr>sr_lengths := (sr_lengths r)[sr_head r := 0],
          sr_head := (sr_head r + 1) mod RING_CAPACITY,
          sr_length := sr_length r - 1,
          sr_producer_waiters := snd (wake_one (sr_producer_waiters r))\<rparr>"
    by (auto simp: consume_Ok_iff)
  have "((sr_head r + 1) mod RING_CAPACITY + (sr_length r - 1)) mod RING_CAPACITY
      = (sr_head r + sr_length r) mod RING_CAPACITY"
    using ok by (intro ring_tail_pop) simp
  with assms(1) show ?thesis
    by (auto simp: shared_ring_inv_def r' kernel_defs
        dest!: set_update_subset_insert [THEN subsetD])
qed

lemma revoke_inv [inv_intros]:
  "shared_ring_inv r \<Longrightarrow> revoke caller r = (x, r') \<Longrightarrow> shared_ring_inv r'"
  by (auto simp: revoke_def check_active_def shared_ring_inv_def split: if_splits)

lemma publish_items:
  assumes "shared_ring_inv r" "publish caller bytes r = (Ok (), r')"
  shows "sr_items r' = sr_items r @ [bytes]"
proof -
  from assms(2) have ok: "length bytes \<le> MAX_MESSAGE" "sr_length r \<noteq> RING_CAPACITY"
    and r': "r' = r\<lparr>sr_slots := (sr_slots r)[sr_tail r := write_at 0 bytes (sr_slots r ! sr_tail r)],
          sr_lengths := (sr_lengths r)[sr_tail r := length bytes],
          sr_tail := (sr_tail r + 1) mod RING_CAPACITY,
          sr_length := sr_length r + 1,
          sr_consumer_waiters := snd (wake_one (sr_consumer_waiters r))\<rparr>"
    by (auto simp: publish_Ok_iff)
  have lens: "length (sr_lengths r) = RING_CAPACITY" "length (sr_slots r) = RING_CAPACITY"
    "sr_tail r = (sr_head r + sr_length r) mod RING_CAPACITY" "sr_tail r < RING_CAPACITY"
    using assms(1) by (auto simp: shared_ring_inv_def kernel_defs)
  have cells: "sr_cells r' = (sr_cells r)[sr_tail r := bytes]"
    using lens by (simp add: sr_cells_def r' map2_update)
  have "sr_length r < length (sr_cells r)"
    using assms(1) ok by (simp add: shared_ring_inv_def sr_cells_def)
  from ring_items_push [OF this, of "sr_head r" bytes] cells lens assms(1)
  show ?thesis by (simp add: sr_items_def) (simp add: r')
qed

lemma sr_items_Cons:
  assumes "shared_ring_inv r" "sr_length r \<noteq> 0"
  shows "sr_items r = take (sr_lengths r ! sr_head r) (sr_slots r ! sr_head r) # tl (sr_items r)"
  using assms ring_items_Cons [of "sr_length r" "sr_cells r" "sr_head r"]
  by (simp add: sr_items_def shared_ring_inv_def sr_cells_def)

lemma sr_head_length:
  assumes "shared_ring_inv r"
  shows "length (take (sr_lengths r ! sr_head r) (sr_slots r ! sr_head r)) = sr_lengths r ! sr_head r"
    "sr_lengths r ! sr_head r \<le> MAX_MESSAGE"
  using assms by (auto simp: shared_ring_inv_def)

lemma consume_items:
  assumes "shared_ring_inv r" "consume caller output r = (Ok n, out, r')"
  shows "sr_items r = take n out # sr_items r'" "out = take n out @ drop n output"
    "n = length (hd (sr_items r))"
proof -
  from assms(2) have ok: "sr_length r \<noteq> 0" "n = sr_lengths r ! sr_head r" "n \<le> length output"
    and out: "out = write_at 0 (take n (sr_slots r ! sr_head r)) output"
    and r': "r' = r\<lparr>sr_lengths := (sr_lengths r)[sr_head r := 0],
          sr_head := (sr_head r + 1) mod RING_CAPACITY,
          sr_length := sr_length r - 1,
          sr_producer_waiters := snd (wake_one (sr_producer_waiters r))\<rparr>"
    by (auto simp: consume_Ok_iff)
  have len: "length (take n (sr_slots r ! sr_head r)) = n"
    using sr_head_length [OF assms(1)] ok(2) by simp
  then have tk: "take n out = take n (sr_slots r ! sr_head r)"
    unfolding out using take_write_at_0 [of "take n (sr_slots r ! sr_head r)" "output"] by simp
  have lens: "length (sr_lengths r) = RING_CAPACITY" "length (sr_slots r) = RING_CAPACITY"
    "sr_head r < RING_CAPACITY" "sr_length r \<le> RING_CAPACITY"
    using assms(1) by (auto simp: shared_ring_inv_def)
  have "sr_cells r' = (sr_cells r)[sr_head r := []]"
    using map2_update [of "sr_lengths r" "sr_slots r" "sr_head r" take 0 "sr_slots r ! sr_head r"] lens
    by (simp add: sr_cells_def r')
  moreover have "ring_items (sr_cells r) (sr_head r) (sr_length r) =
      sr_cells r ! sr_head r #
      ring_items ((sr_cells r)[sr_head r := []]) ((sr_head r + 1) mod RING_CAPACITY) (sr_length r - 1)"
    using ring_items_pop [of "sr_length r" "sr_cells r" "sr_head r" "[]"] lens ok assms(1) by simp
  moreover have "sr_cells r ! sr_head r = take n (sr_slots r ! sr_head r)"
    using lens ok by (simp add: sr_cells_def)
  ultimately show items: "sr_items r = take n out # sr_items r'"
    by (simp add: sr_items_def tk) (simp add: r')
  show "out = take n out @ drop n output"
    unfolding tk using len by (simp add: out write_at_def)
  show "n = length (hd (sr_items r))"
    unfolding items tk using len by simp
qed

section \<open>The ring as a bounded queue\<close>

lemma ring_push_Some_iff: "ring_push bytes r = Some r' \<longleftrightarrow> publish (sr_producer r) bytes r = (Ok (), r')"
  by (auto simp: ring_push_def split: prod.splits sum.splits)

lemma ring_push_spec:
  assumes "shared_ring_inv r" "ring_push bytes r = Some r'"
  shows "shared_ring_inv r'" "sr_active r' = sr_active r" "sr_items r' = sr_items r @ [bytes]"
proof -
  from assms(2) have p: "publish (sr_producer r) bytes r = (Ok (), r')"
    by (simp add: ring_push_Some_iff)
  with assms(1) show "shared_ring_inv r'" by (rule publish_inv)
  from p show "sr_active r' = sr_active r" by (simp add: publish_Ok_iff)
  from assms(1) p show "sr_items r' = sr_items r @ [bytes]" by (rule publish_items)
qed

lemma ring_push_None:
  "ring_push bytes r = None \<longleftrightarrow> \<not> (sr_active r \<and> length bytes \<le> 64) \<or> length (sr_items r) = 4"
  by (simp add: ring_push_def publish_def check_active_def sr_items_def kernel_defs not_less
      split: if_split)

lemma ring_pop_cases:
  assumes "shared_ring_inv r"
  shows "ring_pop r = None \<longleftrightarrow> \<not> sr_active r \<or> sr_items r = []"
proof -
  have "sr_lengths r ! sr_head r \<le> MAX_MESSAGE" by (rule sr_head_length [OF assms])
  moreover have "sr_items r = [] \<longleftrightarrow> sr_length r = 0"
    by (metis length_0_conv length_ring_items sr_items_def)
  ultimately show ?thesis
    by (simp add: ring_pop_def consume_def check_active_def Let_def split: if_split)
qed

lemma ring_pop_spec:
  assumes "shared_ring_inv r" "ring_pop r = Some (m, r')"
  shows "shared_ring_inv r'" "sr_active r' = sr_active r" "sr_items r = m # sr_items r'"
proof -
  from assms(2) obtain n out where
    c: "consume (sr_consumer r) (replicate MAX_MESSAGE 0) r = (Ok n, out, r')" and m: "m = take n out"
    by (auto simp: ring_pop_def split: prod.splits sum.splits)
  from assms(1) c show "shared_ring_inv r'" by (rule consume_inv)
  from c show "sr_active r' = sr_active r" by (simp add: consume_Ok_iff)
  from consume_items(1) [OF assms(1) c] m show "sr_items r = m # sr_items r'" by simp
qed

interpretation shring: bounded_fifo ring_push ring_pop sr_items
  "\<lambda>bytes r. length bytes \<le> 64" "\<lambda>r. shared_ring_inv r \<and> sr_active r" 4
proof (unfold_locales, goal_cases)
  case (1 r bytes)
  then show ?case by (simp add: ring_push_None)
next
  case (2 r bytes r')
  then show ?case by (blast intro: ring_push_spec)
next
  case (3 r bytes r')
  then show ?case using ring_push_spec by blast
next
  case (4 r bytes r' other)
  then show ?case by simp
next
  case (5 r)
  then show ?case by (simp add: ring_pop_cases)
next
  case (6 r m r')
  then show ?case by (blast intro: ring_pop_spec)
next
  case (7 r m r')
  then show ?case using ring_pop_spec by blast
next
  case (8 r)
  then show ?case by (simp add: sr_items_def shared_ring_inv_def kernel_defs)
qed

section \<open>Blocking calls\<close>

lemma publish_blocking_state:
  assumes "publish caller bytes r = (x0, r0)" "publish_blocking caller w bytes r = (x, r')"
  shows "r' = r0 \<or> r' = r0\<lparr>sr_producer_waiters := snd (enqueue w (sr_producer_waiters r0))\<rparr>"
proof (cases x0)
  case (Inl e)
  with assms show ?thesis
    by (cases "enqueue w (sr_producer_waiters r0)")
       (auto simp: publish_blocking_def split: sum.splits if_splits)
qed (use assms in \<open>simp add: publish_blocking_def\<close>)

lemma consume_blocking_state:
  assumes "consume caller output r = (x0, o0, r0)" "consume_blocking caller w output r = (x, out, r')"
  shows "r' = r0 \<or> r' = r0\<lparr>sr_consumer_waiters := snd (enqueue w (sr_consumer_waiters r0))\<rparr>"
proof (cases x0)
  case (Inl e)
  with assms show ?thesis
    by (cases "enqueue w (sr_consumer_waiters r0)")
       (auto simp: consume_blocking_def split: sum.splits if_splits)
qed (use assms in \<open>simp add: consume_blocking_def\<close>)

lemma shared_ring_inv_waiters:
  "shared_ring_inv r \<Longrightarrow>
   shared_ring_inv (r\<lparr>sr_producer_waiters := snd (enqueue w (sr_producer_waiters r))\<rparr>)"
  "shared_ring_inv r \<Longrightarrow>
   shared_ring_inv (r\<lparr>sr_consumer_waiters := snd (enqueue w (sr_consumer_waiters r))\<rparr>)"
  by (simp_all add: shared_ring_inv_def)

lemma publish_blocking_inv [inv_intros]:
  assumes "shared_ring_inv r" "publish_blocking caller w bytes r = (x, r')"
  shows "shared_ring_inv r'"
proof -
  obtain x0 r0 where s: "publish caller bytes r = (x0, r0)" by fastforce
  with assms(1) have "shared_ring_inv r0" by (rule publish_inv)
  with publish_blocking_state [OF s assms(2)] show ?thesis
    by (auto intro: shared_ring_inv_waiters)
qed

lemma consume_blocking_inv [inv_intros]:
  assumes "shared_ring_inv r" "consume_blocking caller w output r = (x, out, r')"
  shows "shared_ring_inv r'"
proof -
  obtain x0 o0 r0 where s: "consume caller output r = (x0, o0, r0)" by (metis prod_cases3)
  with assms(1) have "shared_ring_inv r0" by (rule consume_inv)
  with consume_blocking_state [OF s assms(2)] show ?thesis
    by (auto intro: shared_ring_inv_waiters)
qed

text \<open>The operations of a shared ring as steps, by any caller.\<close>

inductive ring_step :: "shared_ring \<Rightarrow> shared_ring \<Rightarrow> bool" where
  step_publish: "publish caller bytes r = (x, r') \<Longrightarrow> ring_step r r'"
| step_consume: "consume caller output r = (x, out, r') \<Longrightarrow> ring_step r r'"
| step_publish_blocking: "publish_blocking caller w bytes r = (x, r') \<Longrightarrow> ring_step r r'"
| step_consume_blocking: "consume_blocking caller w output r = (x, out, r') \<Longrightarrow> ring_step r r'"
| step_revoke: "revoke caller r = (x, r') \<Longrightarrow> ring_step r r'"

lemma revoke_Ok_iff:
  "revoke caller r = (Ok (), r') \<longleftrightarrow>
   sr_active r \<and> (caller = sr_producer r \<or> caller = sr_consumer r) \<and> r' = r\<lparr>sr_active := False\<rparr>"
  by (auto simp: revoke_def check_active_def)

lemma ring_step_inv: "ring_step r r' \<Longrightarrow> shared_ring_inv r \<Longrightarrow> shared_ring_inv r'"
  by (induction rule: ring_step.induct) (auto intro: inv_intros)

interpretation ringsys: step_invariant
  "\<lambda>r. r = shared_ring_new p c" ring_step shared_ring_inv
  by unfold_locales (auto intro: inv_intros ring_step_inv)

text \<open>A revoked ring refuses everything, so it never changes again.\<close>

lemma revoked_calls:
  assumes "\<not> sr_active r"
  shows "publish caller bytes r = (Err Ipc_Revoked, r)"
    "consume caller output r = (Err Ipc_Revoked, output, r)"
    "publish_blocking caller w bytes r = (Err Ipc_Revoked, r)"
    "consume_blocking caller w output r = (Err Ipc_Revoked, output, r)"
    "revoke caller r = (Err Ipc_Revoked, r)"
  using assms
  by (simp_all add: publish_def consume_def publish_blocking_def consume_blocking_def revoke_def
      check_active_def)

lemma ring_step_revoked: "ring_step r r' \<Longrightarrow> \<not> sr_active r \<Longrightarrow> r' = r"
  by (induction rule: ring_step.induct) (simp_all add: revoked_calls)

interpretation ringrev: step_monotone ring_step "\<lambda>r r'. \<not> sr_active r \<longrightarrow> r' = r"
  by unfold_locales (auto dest: ring_step_revoked)

section \<open>Properties\<close>





text \<open>
  Whatever the interleaving of publishes and consumes on a new ring, the records
  consumed so far followed by the records still queued are the records published so far.  The
  bytes left in a reused slot by an older, longer record never show.
\<close>

theorem ring_fifo:
  assumes "fifo_run ring_push ring_pop ops (shared_ring_new p c) = (sent, received, r)"
  shows "sent = received @ sr_items r \<and> length (sr_items r) \<le> RING_CAPACITY"
proof -
  have "sr_items (shared_ring_new p c) = []"
    by (simp add: sr_items_def shared_ring_new_def)
  moreover have "shared_ring_inv (shared_ring_new p c) \<and> sr_active (shared_ring_new p c)"
    by (simp add: shared_ring_inv_new) (simp add: shared_ring_new_def)
  ultimately show ?thesis
    using shring.run_conserves [OF _ assms] shring.items_bound [of r] by (simp add: kernel_defs)
qed

theorem ring_fifo_witness:
  "fst (fifo_run ring_push ring_pop [Push [1, 2, 3], Pop, Push [4]]
     (shared_ring_new (ProcessId 1) (ProcessId 2))) = [[1, 2, 3], [4]] \<and>
   sr_items (snd (snd (fifo_run ring_push ring_pop [Push [1, 2, 3], Pop, Push [4]]
     (shared_ring_new (ProcessId 1) (ProcessId 2))))) = [[4]]"
proof -
  let ?run = "fifo_run ring_push ring_pop [Push [1, 2, 3], Pop, Push [4]]
     (shared_ring_new (ProcessId 1) (ProcessId 2))"
  have "fst ?run = [[1, 2, 3], [4]]" "fst (snd ?run) = [[1, 2, 3]]" by code_simp+
  moreover have "?run = (fst ?run, fst (snd ?run), snd (snd ?run))" by simp
  ultimately show ?thesis using ring_fifo [of _ "ProcessId 1" "ProcessId 2"] by fastforce
qed

end
