(* ===== verification/Ipc_Events.thy ===== *)
theory Ipc_Events
  imports Wait_Queue Bounded_Fifo Step_Systems
begin

text \<open>
  \<open>EventQueue\<close> of \<open>src/ipc.rs\<close>: an eight-slot queue of typed completion events with one wait
  queue, which can be closed; events pushed before the close stay readable.
\<close>

record event_queue =
  eq_entries :: "ipc_event option list"
  eq_head :: nat
  eq_tail :: nat
  eq_length :: nat
  eq_closed :: bool
  eq_waiters :: wait_queue

definition event_queue_new :: event_queue where
  "event_queue_new =
     \<lparr>eq_entries = replicate EVENT_CAPACITY None, eq_head = 0, eq_tail = 0, eq_length = 0,
      eq_closed = False, eq_waiters = wait_queue_new\<rparr>"

definition event_push :: "ipc_event \<Rightarrow> event_queue \<Rightarrow> (ipc_error + unit) \<times> event_queue" where
  "event_push event q =
     (if eq_closed q then (Err Ipc_Closed, q)
      else if eq_length q = EVENT_CAPACITY then (Err Ipc_Full, q)
      else
        (Ok (),
         q\<lparr>eq_entries := (eq_entries q)[eq_tail q := Some event],
           eq_tail := (eq_tail q + 1) mod EVENT_CAPACITY,
           eq_length := eq_length q + 1,
           eq_waiters := snd (wake_one (eq_waiters q))\<rparr>))"

definition event_pop :: "event_queue \<Rightarrow> (ipc_error + ipc_event) \<times> event_queue" where
  "event_pop q =
     (if eq_length q = 0 then
        (if eq_closed q then (Err Ipc_Closed, q) else (Err Ipc_Empty, q))
      else
        (case eq_entries q ! eq_head q of
           None \<Rightarrow> (Err Ipc_Empty, q)
         | Some event \<Rightarrow>
             (Ok event,
              q\<lparr>eq_entries := (eq_entries q)[eq_head q := None],
                eq_head := (eq_head q + 1) mod EVENT_CAPACITY,
                eq_length := eq_length q - 1\<rparr>)))"

definition pop_blocking :: "u32 \<Rightarrow> event_queue \<Rightarrow> (ipc_error + ipc_event option) \<times> event_queue" where
  "pop_blocking waiter q =
     (case event_pop q of
        (Inr event, q') \<Rightarrow> (Ok (Some event), q')
      | (Inl error, q') \<Rightarrow>
          if error = Ipc_Empty then
            (case enqueue waiter (eq_waiters q') of
               (Inl e, w) \<Rightarrow> (Err e, q'\<lparr>eq_waiters := w\<rparr>)
             | (Inr _, w) \<Rightarrow> (Ok None, q'\<lparr>eq_waiters := w\<rparr>))
          else (Err error, q'))"

definition event_close :: "event_queue \<Rightarrow> event_queue" where
  "event_close q = q\<lparr>eq_closed := True, eq_waiters := snd (wake_one (eq_waiters q))\<rparr>"

section \<open>The queued events\<close>

definition eq_cells :: "event_queue \<Rightarrow> ipc_event option list" where
  "eq_cells q = ring_items (eq_entries q) (eq_head q) (eq_length q)"

definition eq_items :: "event_queue \<Rightarrow> ipc_event list" where
  "eq_items q = map the (eq_cells q)"

definition event_queue_inv :: "event_queue \<Rightarrow> bool" where
  "event_queue_inv q \<longleftrightarrow>
     length (eq_entries q) = EVENT_CAPACITY \<and> eq_head q < EVENT_CAPACITY \<and>
     eq_length q \<le> EVENT_CAPACITY \<and>
     eq_tail q = (eq_head q + eq_length q) mod EVENT_CAPACITY \<and>
     ring_occupied (eq_entries q) (eq_head q) (eq_length q) \<and> wq_inv (eq_waiters q)"

definition evq_push :: "ipc_event \<Rightarrow> event_queue \<Rightarrow> event_queue option" where
  "evq_push event q = (case event_push event q of (Inl _, _) \<Rightarrow> None | (Inr _, q') \<Rightarrow> Some q')"

definition evq_pop :: "event_queue \<Rightarrow> (ipc_event \<times> event_queue) option" where
  "evq_pop q = (case event_pop q of (Inl _, _) \<Rightarrow> None | (Inr e, q') \<Rightarrow> Some (e, q'))"

lemma event_queue_inv_new [inv_intros]: "event_queue_inv event_queue_new"
  by (simp add: event_queue_inv_def event_queue_new_def ring_occupied_def kernel_defs)

lemma length_eq_items [simp]: "length (eq_items q) = eq_length q"
  by (simp add: eq_items_def eq_cells_def)

lemma event_push_Ok_iff:
  "event_push event q = (Ok (), q') \<longleftrightarrow>
   \<not> eq_closed q \<and> eq_length q \<noteq> EVENT_CAPACITY \<and>
   q' = q\<lparr>eq_entries := (eq_entries q)[eq_tail q := Some event],
          eq_tail := (eq_tail q + 1) mod EVENT_CAPACITY,
          eq_length := eq_length q + 1,
          eq_waiters := snd (wake_one (eq_waiters q))\<rparr>"
  by (auto simp: event_push_def)

lemma event_push_Err_unchanged: "event_push event q = (Err e, q') \<Longrightarrow> q' = q"
  by (auto simp: event_push_def split: if_splits)

lemma event_pop_Ok_iff:
  "event_pop q = (Ok event, q') \<longleftrightarrow>
   eq_length q \<noteq> 0 \<and> eq_entries q ! eq_head q = Some event \<and>
   q' = q\<lparr>eq_entries := (eq_entries q)[eq_head q := None],
          eq_head := (eq_head q + 1) mod EVENT_CAPACITY,
          eq_length := eq_length q - 1\<rparr>"
  by (auto simp: event_pop_def split: option.splits)

lemma event_pop_Err_unchanged: "event_pop q = (Err e, q') \<Longrightarrow> q' = q"
  by (auto simp: event_pop_def split: if_splits option.splits)

lemma event_push_spec:
  assumes inv: "event_queue_inv q" and p: "event_push event q = (Ok (), q')"
  shows "event_queue_inv q'" "eq_items q' = eq_items q @ [event]" "eq_closed q' = eq_closed q"
proof -
  from p have ok: "eq_length q \<noteq> EVENT_CAPACITY"
    and q': "q' = q\<lparr>eq_entries := (eq_entries q)[eq_tail q := Some event],
          eq_tail := (eq_tail q + 1) mod EVENT_CAPACITY,
          eq_length := eq_length q + 1,
          eq_waiters := snd (wake_one (eq_waiters q))\<rparr>"
    by (auto simp: event_push_Ok_iff)
  have lt: "eq_length q < length (eq_entries q)"
    using inv ok by (simp add: event_queue_inv_def)
  have occ: "ring_occupied (eq_entries q) (eq_head q) (eq_length q)"
    using inv by (simp add: event_queue_inv_def)
  from ring_occupied_push [OF lt occ, of event] inv lt show "event_queue_inv q'"
    by (simp add: event_queue_inv_def q' mod_Suc_eq)
  from ring_items_push [OF lt, of "eq_head q" "Some event"] inv
  show "eq_items q' = eq_items q @ [event]"
    by (simp add: event_queue_inv_def eq_items_def eq_cells_def q')
  show "eq_closed q' = eq_closed q" by (simp add: q')
qed

lemma event_pop_spec:
  assumes inv: "event_queue_inv q" and p: "event_pop q = (Ok event, q')"
  shows "event_queue_inv q'" "eq_items q = event # eq_items q'" "eq_closed q' = eq_closed q"
proof -
  from p have ok: "eq_length q \<noteq> 0" "eq_entries q ! eq_head q = Some event"
    and q': "q' = q\<lparr>eq_entries := (eq_entries q)[eq_head q := None],
          eq_head := (eq_head q + 1) mod EVENT_CAPACITY,
          eq_length := eq_length q - 1\<rparr>"
    by (auto simp: event_pop_Ok_iff)
  have "ring_occupied ((eq_entries q)[eq_head q := None])
      ((eq_head q + 1) mod length (eq_entries q)) (eq_length q - 1)"
    using inv ok by (intro ring_occupied_pop) (auto simp: event_queue_inv_def)
  moreover have "((eq_head q + 1) mod EVENT_CAPACITY + (eq_length q - 1)) mod EVENT_CAPACITY
      = (eq_head q + eq_length q) mod EVENT_CAPACITY"
    using ok by (intro ring_tail_pop) simp
  ultimately show "event_queue_inv q'"
    using inv by (auto simp: event_queue_inv_def q' kernel_defs)
  from ring_items_pop [of "eq_length q" "eq_entries q" "eq_head q" None] inv ok
  show "eq_items q = event # eq_items q'"
    by (simp add: event_queue_inv_def eq_items_def eq_cells_def q')
  show "eq_closed q' = eq_closed q" by (simp add: q')
qed

lemma event_pop_head:
  assumes "event_queue_inv q" "eq_length q \<noteq> 0"
  shows "\<exists>event. eq_entries q ! eq_head q = Some event"
  using assms ring_occupied_head [of "eq_entries q" "eq_head q" "eq_length q"]
  by (simp add: event_queue_inv_def)

lemma evq_push_Some_iff: "evq_push e q = Some q' \<longleftrightarrow> event_push e q = (Ok (), q')"
  by (auto simp: evq_push_def split: prod.splits sum.splits)

lemma evq_pop_Some_iff: "evq_pop q = Some (e, q') \<longleftrightarrow> event_pop q = (Ok e, q')"
  by (auto simp: evq_pop_def split: prod.splits sum.splits)

interpretation evq: bounded_fifo evq_push evq_pop eq_items
  "\<lambda>e q. \<not> eq_closed q" event_queue_inv 8
proof (unfold_locales, goal_cases)
  case (1 q e)
  then show ?case by (simp add: evq_push_def event_push_def kernel_defs split: if_split)
next
  case (2 q e q')
  then show ?case by (simp add: evq_push_Some_iff event_push_spec)
next
  case (3 q e q')
  then show ?case by (metis evq_push_Some_iff event_push_spec(1))
next
  case (4 q e q' other)
  then show ?case by (metis evq_push_Some_iff event_push_spec(3))
next
  case (5 q)
  have "eq_items q = [] \<longleftrightarrow> eq_length q = 0" by (metis length_0_conv length_eq_items)
  with 5 event_pop_head [OF 5] show ?case by (auto simp: evq_pop_def event_pop_def)
next
  case (6 q e q')
  then show ?case by (metis evq_pop_Some_iff event_pop_spec(2))
next
  case (7 q e q')
  then show ?case by (metis evq_pop_Some_iff event_pop_spec(1))
next
  case (8 q)
  then show ?case by (simp add: event_queue_inv_def kernel_defs)
qed

lemma pop_blocking_state:
  assumes "event_pop q = (x0, q0)" "pop_blocking w q = (x, q')"
  shows "q' = q0 \<or> q' = q0\<lparr>eq_waiters := snd (enqueue w (eq_waiters q0))\<rparr>"
proof (cases x0)
  case (Inl e)
  with assms show ?thesis
    by (cases "enqueue w (eq_waiters q0)")
       (auto simp: pop_blocking_def split: sum.splits if_splits)
qed (use assms in \<open>simp add: pop_blocking_def\<close>)

lemma pop_blocking_inv [inv_intros]:
  assumes "event_queue_inv q" "pop_blocking w q = (x, q')"
  shows "event_queue_inv q'"
proof -
  obtain x0 q0 where s: "event_pop q = (x0, q0)" by fastforce
  have "event_queue_inv q0"
    using assms(1) s event_pop_spec(1) event_pop_Err_unchanged by (cases x0) blast+
  with pop_blocking_state [OF s assms(2)] show ?thesis
    by (auto simp: event_queue_inv_def)
qed

lemma event_close_inv [inv_intros]: "event_queue_inv q \<Longrightarrow> event_queue_inv (event_close q)"
  by (simp add: event_queue_inv_def event_close_def)

text \<open>No pop opens or closes a queue.\<close>

lemma evq_pops_closed:
  "fifo_run evq_push evq_pop (replicate n Pop) q = (ins, outs, r) \<Longrightarrow> eq_closed r = eq_closed q"
proof (induction n arbitrary: q ins outs)
  case (Suc n)
  have "eq_closed q' = eq_closed q" if "evq_pop q = Some (e, q')" for e q'
    using that by (simp add: evq_pop_Some_iff event_pop_Ok_iff)
  with Suc show ?case by (auto split: option.splits prod.splits)
qed simp

section \<open>Properties\<close>

text \<open>
  Closing an event queue loses no event: popping a closed queue delivers exactly the
  events that were queued, in order, and then reports \<open>Closed\<close>; a push after the close is
  refused and changes nothing.
\<close>

theorem events_survive_close:
  assumes "event_queue_inv q"
  shows "\<exists>r. fifo_run evq_push evq_pop (replicate (length (eq_items q)) Pop) (event_close q) =
      ([], eq_items q, r) \<and> event_pop r = (Err Ipc_Closed, r) \<and>
      event_push e (event_close q) = (Err Ipc_Closed, event_close q)"
proof -
  have items: "eq_items (event_close q) = eq_items q"
    by (simp add: eq_items_def eq_cells_def event_close_def)
  have inv: "event_queue_inv (event_close q)" by (rule event_close_inv [OF assms])
  obtain r where run: "fifo_run evq_push evq_pop (replicate (length (eq_items q)) Pop)
      (event_close q) = ([], eq_items q, r)"
    using evq.run_pop_all [OF inv] items by auto
  have "eq_length r = 0"
    using evq.run_conserves [OF inv run] items by (metis append_Nil2 append_self_conv length_eq_items list.size(3))
  moreover have "eq_closed r" using evq_pops_closed [OF run] by (simp add: event_close_def)
  ultimately show ?thesis
    using run by (auto simp: event_pop_def event_push_def event_close_def)
qed

theorem events_survive_close_witness:
  "\<exists>r. fifo_run evq_push evq_pop [Pop]
      (event_close (snd (event_push \<lparr>ev_kind = 1, ev_data = 42\<rparr> event_queue_new))) =
      ([], [\<lparr>ev_kind = 1, ev_data = 42\<rparr>], r) \<and> event_pop r = (Err Ipc_Closed, r)"
proof -
  define q where "q = snd (event_push \<lparr>ev_kind = 1, ev_data = 42\<rparr> event_queue_new)"
  have p: "event_push \<lparr>ev_kind = 1, ev_data = 42\<rparr> event_queue_new = (Ok (), q)"
    by (simp add: q_def event_push_def event_queue_new_def kernel_defs)
  have "event_queue_inv q" and "eq_items q = [\<lparr>ev_kind = 1, ev_data = 42\<rparr>]"
    using event_push_spec [OF event_queue_inv_new p]
    by (simp_all add: eq_items_def eq_cells_def event_queue_new_def)
  then show ?thesis
    using events_survive_close [of q "\<lparr>ev_kind = 0, ev_data = 0\<rparr>"] by (auto simp: q_def)
qed

end
