(* ===== verification/Process_Table.thy ===== *)
theory Process_Table
  imports Process_Ids Step_Systems
begin

text \<open>
  \<open>ProcessTable\<close> of \<open>src/process.rs\<close>: processes and threads in fixed slots with generation-tagged
  ids, process creation, exit, wait and reaping, file descriptors, signals, credentials and the
  thread states.  A Rust method on \<open>&mut self\<close> becomes a function that returns its result with
  the new table; a change made before an error return stays in the returned table.
\<close>

datatype process_state = P_Creating | P_Running | P_Exiting | P_Zombie | P_Reaped

datatype thread_state = T_Created | T_Ready | T_Running | T_Blocked | T_Sleeping | T_Exited

datatype thread_kind = Kernel_Thread | User_Thread

record context_switch =
  cx_from :: "thread_id option"
  cx_to :: thread_id
  cx_to_kind :: thread_kind

record credentials =
  real_uid :: u32
  effective_uid :: u32
  saved_uid :: u32
  real_gid :: u32
  effective_gid :: u32
  saved_gid :: u32
  capabilities :: u64

datatype capability = Cap_Mount | Cap_RawIo | Cap_NetAdmin | Cap_NetRaw | Cap_MemoryMap | Cap_DeviceAdmin

datatype process_error =
    Pe_InvalidId | Pe_InvalidState | Pe_ProcessCapacity | Pe_ThreadCapacity | Pe_FdCapacity
  | Pe_InvalidFd | Pe_NoChild | Pe_GenerationExhausted | Pe_PermissionDenied

fun capability_bit :: "capability \<Rightarrow> nat" where
  "capability_bit Cap_Mount = 0"
| "capability_bit Cap_RawIo = 1"
| "capability_bit Cap_NetAdmin = 2"
| "capability_bit Cap_NetRaw = 3"
| "capability_bit Cap_MemoryMap = 4"
| "capability_bit Cap_DeviceAdmin = 5"

definition BOOTSTRAP :: credentials where
  "BOOTSTRAP =
     \<lparr>real_uid = 0, effective_uid = 0, saved_uid = 0, real_gid = 0, effective_gid = 0,
      saved_gid = 0, capabilities = - 1\<rparr>"

definition has_capability :: "credentials \<Rightarrow> nat \<Rightarrow> bool" where
  "has_capability c cap \<longleftrightarrow> cap < 64 \<and> capabilities c AND push_bit cap 1 \<noteq> 0"

definition credentials_authorize :: "credentials \<Rightarrow> capability \<Rightarrow> process_error + unit" where
  "credentials_authorize c cap =
     (if has_capability c (capability_bit cap) then Ok () else Err Pe_PermissionDenied)"

record fd_entry =
  fe_open_file :: u32
  fe_close_on_exec :: bool
  fe_nonblocking :: bool
  fe_readable :: bool
  fe_writable :: bool

definition standard_fds :: "fd_entry option list" where
  "standard_fds =
     (replicate MAX_FDS None)
       [0 := Some \<lparr>fe_open_file = 0, fe_close_on_exec = False, fe_nonblocking = True,
                   fe_readable = True, fe_writable = False\<rparr>,
        1 := Some \<lparr>fe_open_file = 1, fe_close_on_exec = False, fe_nonblocking = False,
                   fe_readable = False, fe_writable = True\<rparr>,
        2 := Some \<lparr>fe_open_file = 2, fe_close_on_exec = False, fe_nonblocking = False,
                   fe_readable = False, fe_writable = True\<rparr>]"

record process_record =
  pr_id :: process_id
  pr_parent :: "process_id option"
  pr_state :: process_state
  pr_credentials :: credentials
  pr_exit_status :: "u32 option"
  pr_pending_signals :: u64
  pr_pending_events :: u64
  pr_threads :: "thread_id option list"
  pr_fds :: "fd_entry option list"

definition process_record_new ::
  "process_id \<Rightarrow> process_id option \<Rightarrow> credentials \<Rightarrow> process_record" where
  "process_record_new pid parent creds =
     \<lparr>pr_id = pid, pr_parent = parent, pr_state = P_Creating, pr_credentials = creds,
      pr_exit_status = None, pr_pending_signals = 0, pr_pending_events = 0,
      pr_threads = replicate MAX_PROCESS_THREADS None, pr_fds = standard_fds\<rparr>"

record thread_record =
  th_id :: thread_id
  th_process :: "process_id option"
  th_state :: thread_state
  th_kind :: thread_kind
  th_runtime_ticks :: u64
  th_preemptions :: u64
  th_context_switches :: u64

record process_table =
  pt_processes :: "process_record option list"
  pt_process_generations :: "u16 list"
  pt_threads :: "thread_record option list"
  pt_thread_generations :: "u16 list"

definition process_table_new :: process_table where
  "process_table_new =
     \<lparr>pt_processes = replicate MAX_PROCESSES None,
      pt_process_generations = replicate MAX_PROCESSES 0,
      pt_threads = replicate MAX_THREADS None,
      pt_thread_generations = replicate MAX_THREADS 0\<rparr>"

section \<open>Slot access\<close>

definition process_get :: "process_table \<Rightarrow> process_id \<Rightarrow> process_error + process_record" where
  "process_get t pid =
     (case process_id_slot pid of
        None \<Rightarrow> Err Pe_InvalidId
      | Some slot \<Rightarrow>
          if pt_process_generations t ! slot \<noteq> unpack_generation (process_id_get pid)
          then Err Pe_InvalidId
          else
            (case pt_processes t ! slot of
               None \<Rightarrow> Err Pe_InvalidId
             | Some record \<Rightarrow> if pr_id record = pid then Ok record else Err Pe_InvalidId))"

definition thread_get :: "process_table \<Rightarrow> thread_id \<Rightarrow> process_error + thread_record" where
  "thread_get t tid =
     (case thread_id_slot tid of
        None \<Rightarrow> Err Pe_InvalidId
      | Some slot \<Rightarrow>
          if pt_thread_generations t ! slot \<noteq> unpack_generation (thread_id_get tid)
          then Err Pe_InvalidId
          else
            (case pt_threads t ! slot of
               None \<Rightarrow> Err Pe_InvalidId
             | Some record \<Rightarrow> if th_id record = tid then Ok record else Err Pe_InvalidId))"

text \<open>
  \<open>process_mut\<close> and \<open>thread_mut\<close> hand out a mutable reference; the model takes what the caller
  does with it, a function from the record to a result and the changed record.
\<close>

definition process_mut ::
  "process_id \<Rightarrow> (process_record \<Rightarrow> (process_error + 'a) \<times> process_record) \<Rightarrow> process_table \<Rightarrow>
   (process_error + 'a) \<times> process_table" where
  "process_mut pid body t =
     (case process_id_slot pid of
        None \<Rightarrow> (Err Pe_InvalidId, t)
      | Some slot \<Rightarrow>
          if pt_process_generations t ! slot \<noteq> unpack_generation (process_id_get pid)
          then (Err Pe_InvalidId, t)
          else
            (case pt_processes t ! slot of
               None \<Rightarrow> (Err Pe_InvalidId, t)
             | Some record \<Rightarrow>
                 if pr_id record = pid then
                   (case body record of
                      (r, record') \<Rightarrow>
                        (r, t\<lparr>pt_processes := (pt_processes t)[slot := Some record']\<rparr>))
                 else (Err Pe_InvalidId, t)))"

definition thread_mut ::
  "thread_id \<Rightarrow> (thread_record \<Rightarrow> (process_error + 'a) \<times> thread_record) \<Rightarrow> process_table \<Rightarrow>
   (process_error + 'a) \<times> process_table" where
  "thread_mut tid body t =
     (case thread_id_slot tid of
        None \<Rightarrow> (Err Pe_InvalidId, t)
      | Some slot \<Rightarrow>
          if pt_thread_generations t ! slot \<noteq> unpack_generation (thread_id_get tid)
          then (Err Pe_InvalidId, t)
          else
            (case pt_threads t ! slot of
               None \<Rightarrow> (Err Pe_InvalidId, t)
             | Some record \<Rightarrow>
                 if th_id record = tid then
                   (case body record of
                      (r, record') \<Rightarrow>
                        (r, t\<lparr>pt_threads := (pt_threads t)[slot := Some record']\<rparr>))
                 else (Err Pe_InvalidId, t)))"

definition set_process_state :: "process_id \<Rightarrow> process_state \<Rightarrow> process_table \<Rightarrow>
   (process_error + unit) \<times> process_table" where
  "set_process_state pid s = process_mut pid (\<lambda>r. (Ok (), r\<lparr>pr_state := s\<rparr>))"

definition set_thread_state :: "thread_id \<Rightarrow> thread_state \<Rightarrow> process_table \<Rightarrow>
   (process_error + unit) \<times> process_table" where
  "set_thread_state tid s = thread_mut tid (\<lambda>r. (Ok (), r\<lparr>th_state := s\<rparr>))"

section \<open>Creation\<close>

definition allocate_thread ::
  "process_id option \<Rightarrow> thread_kind \<Rightarrow> process_table \<Rightarrow> (process_error + thread_id) \<times> process_table"
where
  "allocate_thread process kind t =
     try_res (ok_or (position is_none (pt_threads t)) Pe_ThreadCapacity) t (\<lambda>slot.
     try_res
       (case process of
          None \<Rightarrow> Ok None
        | Some p \<Rightarrow>
            and_then (process_get t p) (\<lambda>record.
            and_then (ok_or (position is_none (pr_threads record)) Pe_ThreadCapacity) (\<lambda>index.
            Ok (Some index)))) t (\<lambda>thread_index.
     let tid = thread_id_new slot (pt_thread_generations t ! slot);
         t1 = t\<lparr>pt_threads := (pt_threads t)[slot := Some
                \<lparr>th_id = tid, th_process = process, th_state = T_Created, th_kind = kind,
                 th_runtime_ticks = 0, th_preemptions = 0, th_context_switches = 0\<rparr>]\<rparr>
     in (case (process, thread_index) of
           (Some p, Some index) \<Rightarrow>
             try_st (process_mut p
                 (\<lambda>r. (Ok (), r\<lparr>pr_threads := (pr_threads r)[index := Some tid]\<rparr>)) t1)
               (\<lambda>_ t2. (Ok tid, t2))
         | _ \<Rightarrow> (Ok tid, t1))))"

definition create_init :: "process_table \<Rightarrow> (process_error + process_id \<times> thread_id) \<times> process_table"
where
  "create_init t =
     (if is_some (pt_processes t ! 0) then (Err Pe_InvalidState, t)
      else
        let process = process_id_new 0 (pt_process_generations t ! 0);
            t1 = t\<lparr>pt_processes := (pt_processes t)
                    [0 := Some (process_record_new process None BOOTSTRAP)]\<rparr>
        in (case allocate_thread (Some process) User_Thread t1 of
              (Inl error, t2) \<Rightarrow> (Err error, t2\<lparr>pt_processes := (pt_processes t2)[0 := None]\<rparr>)
            | (Inr thread, t2) \<Rightarrow>
                try_st (set_process_state process P_Running t2) (\<lambda>_ t3.
                try_st (set_thread_state thread T_Ready t3) (\<lambda>_ t4.
                (Ok (process, thread), t4)))))"

definition spawn_child ::
  "process_id \<Rightarrow> credentials \<Rightarrow> process_table \<Rightarrow>
   (process_error + process_id \<times> thread_id) \<times> process_table" where
  "spawn_child parent creds t =
     try_res (process_get t parent) t (\<lambda>record.
     if pr_state record \<noteq> P_Running then (Err Pe_InvalidState, t)
     else
       try_res (ok_or (position is_none (pt_processes t)) Pe_ProcessCapacity) t (\<lambda>slot.
       let process = process_id_new slot (pt_process_generations t ! slot);
           t1 = t\<lparr>pt_processes := (pt_processes t)
                   [slot := Some (process_record_new process (Some parent) creds)]\<rparr>
       in (case allocate_thread (Some process) User_Thread t1 of
             (Inl error, t2) \<Rightarrow> (Err error, t2\<lparr>pt_processes := (pt_processes t2)[slot := None]\<rparr>)
           | (Inr thread, t2) \<Rightarrow>
               try_st (set_process_state process P_Running t2) (\<lambda>_ t3.
               try_st (set_thread_state thread T_Ready t3) (\<lambda>_ t4.
               (Ok (process, thread), t4))))))"

definition spawn_kernel_thread :: "process_table \<Rightarrow> (process_error + thread_id) \<times> process_table" where
  "spawn_kernel_thread t =
     try_st (allocate_thread None Kernel_Thread t) (\<lambda>thread t1.
     try_st (set_thread_state thread T_Ready t1) (\<lambda>_ t2. (Ok thread, t2)))"

section \<open>Exit and wait\<close>

definition exit_thread_of :: "process_id \<Rightarrow> thread_record option \<Rightarrow> thread_record option" where
  "exit_thread_of process thread =
     map_option (\<lambda>th. if th_process th = Some process then th\<lparr>th_state := T_Exited\<rparr> else th) thread"

definition reparent_child_of :: "process_id \<Rightarrow> process_record option \<Rightarrow> process_record option" where
  "reparent_child_of process record =
     map_option (\<lambda>r. if pr_parent r = Some process then r\<lparr>pr_parent := Some INIT\<rparr> else r) record"

definition process_exit :: "process_id \<Rightarrow> u32 \<Rightarrow> process_table \<Rightarrow> (process_error + unit) \<times> process_table"
where
  "process_exit process status t =
     (if process = INIT then (Err Pe_InvalidState, t)
      else
        try_res (process_get t process) t (\<lambda>record.
        if pr_state record \<noteq> P_Running then (Err Pe_InvalidState, t)
        else
          try_st (process_mut process
              (\<lambda>r. (Ok (), r\<lparr>pr_state := P_Exiting, pr_exit_status := Some status,
                            pr_fds := replicate MAX_FDS None\<rparr>)) t) (\<lambda>_ t1.
          let t2 = t1\<lparr>pt_threads := map (exit_thread_of process) (pt_threads t1)\<rparr>;
              t3 = t2\<lparr>pt_processes := map (reparent_child_of process) (pt_processes t2)\<rparr>
          in try_st (set_process_state process P_Zombie t3) (\<lambda>_ t4. (Ok (), t4)))))"

fun reap_threads :: "thread_id list \<Rightarrow> process_table \<Rightarrow> (process_error + unit) \<times> process_table" where
  "reap_threads [] t = (Ok (), t)"
| "reap_threads (thread # rest) t =
     (case thread_id_slot thread of
        None \<Rightarrow> (Err Pe_InvalidId, t)
      | Some slot \<Rightarrow>
          if map_option th_id (pt_threads t ! slot) \<noteq> Some thread then (Err Pe_InvalidId, t)
          else
            let t1 = t\<lparr>pt_threads := (pt_threads t)[slot := None]\<rparr> in
            (case checked_add (pt_thread_generations t1 ! slot) 1 of
               None \<Rightarrow> (Err Pe_GenerationExhausted, t1)
             | Some g \<Rightarrow>
                 reap_threads rest
                   (t1\<lparr>pt_thread_generations := (pt_thread_generations t1)[slot := g]\<rparr>)))"

definition reap :: "process_id \<Rightarrow> process_table \<Rightarrow> (process_error + unit) \<times> process_table" where
  "reap process t =
     try_res (ok_or (process_id_slot process) Pe_InvalidId) t (\<lambda>slot.
     try_res (process_get t process) t (\<lambda>record.
     if pr_state record \<noteq> P_Zombie then (Err Pe_InvalidState, t)
     else
       try_st (reap_threads (flatten (pr_threads record)) t) (\<lambda>_ t1.
       let t2 = t1\<lparr>pt_processes := (pt_processes t1)[slot := None]\<rparr> in
       (case checked_add (pt_process_generations t2 ! slot) 1 of
          None \<Rightarrow> (Err Pe_GenerationExhausted, t2)
        | Some g \<Rightarrow>
            (Ok (), t2\<lparr>pt_process_generations := (pt_process_generations t2)[slot := g]\<rparr>)))))"

definition wait_candidate ::
  "process_id \<Rightarrow> process_id option \<Rightarrow> process_table \<Rightarrow> process_error + process_id" where
  "wait_candidate parent child t =
     (case child of
        Some c \<Rightarrow>
          and_then (process_get t c) (\<lambda>record.
          if pr_parent record \<noteq> Some parent \<or> pr_state record \<noteq> P_Zombie then Err Pe_NoChild
          else Ok c)
      | None \<Rightarrow>
          ok_or (map_option pr_id (List.find
              (\<lambda>record. pr_parent record = Some parent \<and> pr_state record = P_Zombie)
              (flatten (pt_processes t)))) Pe_NoChild)"

definition process_wait ::
  "process_id \<Rightarrow> process_id option \<Rightarrow> process_table \<Rightarrow>
   (process_error + process_id \<times> u32) \<times> process_table" where
  "process_wait parent child t =
     try_res (process_get t parent) t (\<lambda>_.
     try_res (wait_candidate parent child t) t (\<lambda>candidate.
     try_res (process_get t candidate) t (\<lambda>record.
     try_res (ok_or (pr_exit_status record) Pe_InvalidState) t (\<lambda>status.
     try_st (reap candidate t) (\<lambda>_ t1. (Ok (candidate, status), t1))))))"

section \<open>File descriptors, signals and credentials\<close>

definition open_fd ::
  "process_id \<Rightarrow> u32 \<Rightarrow> bool \<Rightarrow> bool \<Rightarrow> process_table \<Rightarrow>
   (process_error + file_descriptor) \<times> process_table" where
  "open_fd process open_file readable writable t =
     try_res (process_get t process) t (\<lambda>record.
     if pr_state record \<noteq> P_Running then (Err Pe_InvalidState, t)
     else
       process_mut process (\<lambda>r.
         (case position is_none (pr_fds r) of
            None \<Rightarrow> (Err Pe_FdCapacity, r)
          | Some slot \<Rightarrow>
              (Ok (fd_new slot),
               r\<lparr>pr_fds := (pr_fds r)[slot := Some
                  \<lparr>fe_open_file = open_file, fe_close_on_exec = False, fe_nonblocking = False,
                   fe_readable = readable, fe_writable = writable\<rparr>]\<rparr>))) t)"

definition close_fd ::
  "process_id \<Rightarrow> file_descriptor \<Rightarrow> process_table \<Rightarrow> (process_error + unit) \<times> process_table" where
  "close_fd process fd t =
     try_res (ok_or (fd_slot fd) Pe_InvalidFd) t (\<lambda>slot.
     process_mut process (\<lambda>r.
       (case pr_fds r ! slot of None \<Rightarrow> Err Pe_InvalidFd | Some _ \<Rightarrow> Ok (),
        r\<lparr>pr_fds := (pr_fds r)[slot := None]\<rparr>)) t)"

definition set_close_on_exec ::
  "process_id \<Rightarrow> file_descriptor \<Rightarrow> bool \<Rightarrow> process_table \<Rightarrow>
   (process_error + unit) \<times> process_table" where
  "set_close_on_exec process fd enabled t =
     try_res (ok_or (fd_slot fd) Pe_InvalidFd) t (\<lambda>slot.
     process_mut process (\<lambda>r.
       (case pr_fds r ! slot of
          None \<Rightarrow> (Err Pe_InvalidFd, r)
        | Some entry \<Rightarrow>
            (Ok (), r\<lparr>pr_fds := (pr_fds r)[slot := Some (entry\<lparr>fe_close_on_exec := enabled\<rparr>)]\<rparr>))) t)"

fun closes_on_exec :: "fd_entry option \<Rightarrow> bool" where
  "closes_on_exec None = False"
| "closes_on_exec (Some entry) = fe_close_on_exec entry"

definition close_on_exec :: "process_id \<Rightarrow> process_table \<Rightarrow> (process_error + nat) \<times> process_table" where
  "close_on_exec process t =
     process_mut process (\<lambda>r.
       (Ok (length (filter closes_on_exec (pr_fds r))),
        r\<lparr>pr_fds := map (\<lambda>entry. if closes_on_exec entry then None else entry) (pr_fds r)\<rparr>)) t"

definition fd_info ::
  "process_id \<Rightarrow> file_descriptor \<Rightarrow> process_table \<Rightarrow>
   process_error + u32 \<times> bool \<times> bool \<times> bool \<times> bool" where
  "fd_info process fd t =
     and_then (ok_or (fd_slot fd) Pe_InvalidFd) (\<lambda>slot.
     and_then (process_get t process) (\<lambda>record.
     and_then (ok_or (pr_fds record ! slot) Pe_InvalidFd) (\<lambda>entry.
     Ok (fe_open_file entry, fe_close_on_exec entry, fe_nonblocking entry,
         fe_readable entry, fe_writable entry))))"

definition fd_access ::
  "process_id \<Rightarrow> file_descriptor \<Rightarrow> process_table \<Rightarrow> process_error + bool \<times> bool \<times> bool" where
  "fd_access process fd t =
     and_then (ok_or (fd_slot fd) Pe_InvalidFd) (\<lambda>slot.
     and_then (process_get t process) (\<lambda>record.
     and_then (ok_or (pr_fds record ! slot) Pe_InvalidFd) (\<lambda>entry.
     Ok (fe_nonblocking entry, fe_readable entry, fe_writable entry))))"

definition raise_signal ::
  "process_id \<Rightarrow> u8 \<Rightarrow> process_table \<Rightarrow> (process_error + unit) \<times> process_table" where
  "raise_signal process signal t =
     (if signal \<ge> 64 then (Err Pe_InvalidState, t)
      else process_mut process (\<lambda>r.
        (Ok (), r\<lparr>pr_pending_signals := pr_pending_signals r OR push_bit (unat signal) 1\<rparr>)) t)"

definition signal_pending :: "process_id \<Rightarrow> u8 \<Rightarrow> process_table \<Rightarrow> process_error + bool" where
  "signal_pending process signal t =
     (if signal \<ge> 64 then Err Pe_InvalidState
      else and_then (process_get t process) (\<lambda>record.
        Ok (pr_pending_signals record AND push_bit (unat signal) 1 \<noteq> 0)))"

definition raise_event ::
  "process_id \<Rightarrow> u8 \<Rightarrow> process_table \<Rightarrow> (process_error + unit) \<times> process_table" where
  "raise_event process event t =
     (if event \<ge> 64 then (Err Pe_InvalidState, t)
      else process_mut process (\<lambda>r.
        (Ok (), r\<lparr>pr_pending_events := pr_pending_events r OR push_bit (unat event) 1\<rparr>)) t)"

definition process_credentials :: "process_id \<Rightarrow> process_table \<Rightarrow> process_error + credentials" where
  "process_credentials process t =
     and_then (process_get t process) (\<lambda>record. Ok (pr_credentials record))"

definition process_state_of :: "process_id \<Rightarrow> process_table \<Rightarrow> process_error + process_state" where
  "process_state_of process t =
     and_then (process_get t process) (\<lambda>record. Ok (pr_state record))"

definition process_authorize ::
  "process_id \<Rightarrow> capability \<Rightarrow> process_table \<Rightarrow> process_error + unit" where
  "process_authorize process cap t =
     and_then (process_credentials process t) (\<lambda>creds. credentials_authorize creds cap)"

section \<open>Threads\<close>

definition thread_state_of :: "thread_id \<Rightarrow> process_table \<Rightarrow> process_error + thread_state" where
  "thread_state_of thread t = and_then (thread_get t thread) (\<lambda>record. Ok (th_state record))"

definition thread_kind_of :: "thread_id \<Rightarrow> process_table \<Rightarrow> process_error + thread_kind" where
  "thread_kind_of thread t = and_then (thread_get t thread) (\<lambda>record. Ok (th_kind record))"

definition thread_owner :: "thread_id \<Rightarrow> process_table \<Rightarrow> process_error + process_id option" where
  "thread_owner thread t = and_then (thread_get t thread) (\<lambda>record. Ok (th_process record))"

definition account_thread ::
  "thread_id \<Rightarrow> u64 \<Rightarrow> process_table \<Rightarrow> (process_error + unit) \<times> process_table" where
  "account_thread thread ticks = thread_mut thread (\<lambda>r.
     if th_state r \<noteq> T_Running then (Err Pe_InvalidState, r)
     else (Ok (), r\<lparr>th_runtime_ticks := saturating_add (th_runtime_ticks r) ticks\<rparr>))"

definition block_thread ::
  "thread_id \<Rightarrow> bool \<Rightarrow> process_table \<Rightarrow> (process_error + unit) \<times> process_table" where
  "block_thread thread sleeping = thread_mut thread (\<lambda>r.
     if th_state r \<noteq> T_Ready \<and> th_state r \<noteq> T_Running then (Err Pe_InvalidState, r)
     else (Ok (), r\<lparr>th_state := (if sleeping then T_Sleeping else T_Blocked)\<rparr>))"

definition wake_thread :: "thread_id \<Rightarrow> process_table \<Rightarrow> (process_error + unit) \<times> process_table" where
  "wake_thread thread = thread_mut thread (\<lambda>r.
     if th_state r \<noteq> T_Blocked \<and> th_state r \<noteq> T_Sleeping then (Err Pe_InvalidState, r)
     else (Ok (), r\<lparr>th_state := T_Ready\<rparr>))"

definition preempt_thread :: "thread_id \<Rightarrow> process_table \<Rightarrow> (process_error + unit) \<times> process_table" where
  "preempt_thread thread = thread_mut thread (\<lambda>r.
     if th_state r \<noteq> T_Running then (Err Pe_InvalidState, r)
     else (Ok (), r\<lparr>th_state := T_Ready, th_preemptions := saturating_add (th_preemptions r) 1\<rparr>))"

definition switch_to ::
  "thread_id option \<Rightarrow> thread_id \<Rightarrow> process_table \<Rightarrow>
   (process_error + context_switch) \<times> process_table" where
  "switch_to from to t =
     (if from = Some to then (Err Pe_InvalidState, t)
      else
        try_res
          (case from of
             None \<Rightarrow> Ok ()
           | Some f \<Rightarrow> and_then (thread_get t f) (\<lambda>r.
               if th_state r \<noteq> T_Running then Err Pe_InvalidState else Ok ())) t (\<lambda>_.
        try_res (thread_get t to) t (\<lambda>target.
        let to_kind = th_kind target in
        if th_state target \<noteq> T_Ready then (Err Pe_InvalidState, t)
        else
          try_st
            (case from of
               None \<Rightarrow> (Ok (), t)
             | Some f \<Rightarrow> set_thread_state f T_Ready t) (\<lambda>_ t1.
          try_st (thread_mut to (\<lambda>next.
              (Ok (), next\<lparr>th_state := T_Running,
                          th_context_switches := saturating_add (th_context_switches next) 1\<rparr>)) t1) (\<lambda>_ t2.
          (Ok \<lparr>cx_from = from, cx_to = to, cx_to_kind = to_kind\<rparr>, t2))))))"

definition thread_accounting :: "thread_id \<Rightarrow> process_table \<Rightarrow> process_error + u64 \<times> u64 \<times> u64" where
  "thread_accounting thread t =
     and_then (thread_get t thread) (\<lambda>record.
     Ok (th_runtime_ticks record, th_preemptions record, th_context_switches record))"

definition pick_ready :: "process_table \<Rightarrow> thread_id option" where
  "pick_ready t =
     map_option th_id (List.find (\<lambda>thread. th_state thread = T_Ready) (flatten (pt_threads t)))"

end
