(* ===== verification/Process_Invariant.thy ===== *)
theory Process_Invariant
  imports Process_Table Slot_Table
begin

text \<open>
  The process table read as two maps, from live process ids and live thread ids to their records,
  with the effect of every operation on them, and the table's invariant: slots agree with ids,
  every thread is listed by exactly its process, every parent is a running process, only zombies
  have an exit status.
\<close>

section \<open>The table as two maps\<close>

definition pmap :: "process_table \<Rightarrow> process_id \<Rightarrow> process_record option" where
  "pmap t pid = (case process_get t pid of Inl _ \<Rightarrow> None | Inr r \<Rightarrow> Some r)"

definition tmap :: "process_table \<Rightarrow> thread_id \<Rightarrow> thread_record option" where
  "tmap t tid = (case thread_get t tid of Inl _ \<Rightarrow> None | Inr r \<Rightarrow> Some r)"

definition table_wf :: "process_table \<Rightarrow> bool" where
  "table_wf t \<longleftrightarrow>
     slots_wf (\<lambda>r. process_id_get (pr_id r)) MAX_PROCESSES (pt_processes t)
       (pt_process_generations t) \<and>
     slots_wf (\<lambda>r. thread_id_get (th_id r)) MAX_THREADS (pt_threads t) (pt_thread_generations t)"

lemma process_get_map: "process_get t pid = ok_or (pmap t pid) Pe_InvalidId"
  by (auto simp: pmap_def process_get_def split: option.splits)

lemma thread_get_map: "thread_get t tid = ok_or (tmap t tid) Pe_InvalidId"
  by (auto simp: tmap_def thread_get_def split: option.splits)

interpretation ptab: slot_table pt_processes pt_process_generations pr_id process_id_get
  MAX_PROCESSES pmap
proof (unfold_locales, goal_cases)
  case 1
  then show ?case by (simp add: kernel_defs)
next
  case (2 x y)
  then show ?case by (cases x, cases y) simp
next
  case (3 s x)
  then show ?case
    by (simp add: pmap_def process_get_def process_id_slot_def split: option.splits)
qed

interpretation ttab: slot_table pt_threads pt_thread_generations th_id thread_id_get
  MAX_THREADS tmap
proof (unfold_locales, goal_cases)
  case 1
  then show ?case by (simp add: kernel_defs)
next
  case (2 x y)
  then show ?case by (cases x, cases y) simp
next
  case (3 s x)
  then show ?case
    by (simp add: tmap_def thread_get_def thread_id_slot_def split: option.splits)
qed

lemma pmap_id: "pmap t pid = Some r \<Longrightarrow> pr_id r = pid"
  by (rule ptab.get_SomeD)

lemma tmap_id: "tmap t tid = Some r \<Longrightarrow> th_id r = tid"
  by (rule ttab.get_SomeD)

lemma pmap_threads_irrelevant [simp]:
  "pmap (t\<lparr>pt_threads := x\<rparr>) = pmap t" "pmap (t\<lparr>pt_thread_generations := y\<rparr>) = pmap t"
  by (rule ptab.get_cong; simp)+

lemma tmap_processes_irrelevant [simp]:
  "tmap (t\<lparr>pt_processes := x\<rparr>) = tmap t" "tmap (t\<lparr>pt_process_generations := y\<rparr>) = tmap t"
  by (rule ttab.get_cong; simp)+

lemma process_mut_None: "pmap t pid = None \<Longrightarrow> process_mut pid body t = (Err Pe_InvalidId, t)"
  by (auto simp: process_mut_def pmap_def process_get_def split: option.splits if_splits)

lemma thread_mut_None: "tmap t tid = None \<Longrightarrow> thread_mut tid body t = (Err Pe_InvalidId, t)"
  by (auto simp: thread_mut_def tmap_def thread_get_def split: option.splits if_splits)

lemma process_mut_Some:
  assumes "table_wf t" "pmap t pid = Some r" "body r = (x, r')" "pr_id r' = pid"
  obtains i where "i < MAX_PROCESSES" "pt_processes t ! i = Some r"
    "process_mut pid body t = (x, t\<lparr>pt_processes := (pt_processes t)[i := Some r']\<rparr>)"
    "pmap (t\<lparr>pt_processes := (pt_processes t)[i := Some r']\<rparr>) = (pmap t)(pid \<mapsto> r')"
    "table_wf (t\<lparr>pt_processes := (pt_processes t)[i := Some r']\<rparr>)"
proof -
  from ptab.get_SomeD [OF assms(2)] obtain i where
    i: "unpack_slot MAX_PROCESSES (process_id_get pid) = Some i" "i < MAX_PROCESSES"
      "pt_processes t ! i = Some r" "pr_id r = pid"
      "pt_process_generations t ! i = unpack_generation (process_id_get pid)" .
  have wf: "slots_wf (\<lambda>r. process_id_get (pr_id r)) MAX_PROCESSES (pt_processes t)
       (pt_process_generations t)"
    using assms(1) by (simp add: table_wf_def)
  then have "process_id_get (pr_id r) = pack_id i (pt_process_generations t ! i)"
    using i(2,3) unfolding slots_wf_def by blast
  then have raw: "process_id_get (pr_id r') = pack_id i (pt_process_generations t ! i)"
    by (simp only: i(4) assms(4))
  let ?t = "t\<lparr>pt_processes := (pt_processes t)[i := Some r']\<rparr>"
  have "pmap ?t = (pmap t)(pid \<mapsto> r')"
    using ptab.get_store [OF wf i(2), of ?t r'] raw assms(4) by simp
  moreover have "table_wf ?t"
    using assms(1) slots_wf_update [OF wf i(2), of "Some r'"] raw by (simp add: table_wf_def)
  moreover have "process_mut pid body t = (x, ?t)"
    using i assms(3) by (simp add: process_mut_def process_id_slot_def)
  ultimately show thesis using i that by blast
qed

lemma thread_mut_Some:
  assumes "table_wf t" "tmap t tid = Some r" "body r = (x, r')" "th_id r' = tid"
  obtains i where "i < MAX_THREADS" "pt_threads t ! i = Some r"
    "thread_mut tid body t = (x, t\<lparr>pt_threads := (pt_threads t)[i := Some r']\<rparr>)"
    "tmap (t\<lparr>pt_threads := (pt_threads t)[i := Some r']\<rparr>) = (tmap t)(tid \<mapsto> r')"
    "table_wf (t\<lparr>pt_threads := (pt_threads t)[i := Some r']\<rparr>)"
proof -
  from ttab.get_SomeD [OF assms(2)] obtain i where
    i: "unpack_slot MAX_THREADS (thread_id_get tid) = Some i" "i < MAX_THREADS"
      "pt_threads t ! i = Some r" "th_id r = tid"
      "pt_thread_generations t ! i = unpack_generation (thread_id_get tid)" .
  have wf: "slots_wf (\<lambda>r. thread_id_get (th_id r)) MAX_THREADS (pt_threads t)
       (pt_thread_generations t)"
    using assms(1) by (simp add: table_wf_def)
  then have "thread_id_get (th_id r) = pack_id i (pt_thread_generations t ! i)"
    using i(2,3) unfolding slots_wf_def by blast
  then have raw: "thread_id_get (th_id r') = pack_id i (pt_thread_generations t ! i)"
    by (simp only: i(4) assms(4))
  let ?t = "t\<lparr>pt_threads := (pt_threads t)[i := Some r']\<rparr>"
  have "tmap ?t = (tmap t)(tid \<mapsto> r')"
    using ttab.get_store [OF wf i(2), of ?t r'] raw assms(4) by simp
  moreover have "table_wf ?t"
    using assms(1) slots_wf_update [OF wf i(2), of "Some r'"] raw by (simp add: table_wf_def)
  moreover have "thread_mut tid body t = (x, ?t)"
    using i assms(3) by (simp add: thread_mut_def thread_id_slot_def)
  ultimately show thesis using i that by blast
qed

text \<open>A table that has become the maps \<open>P\<close> and \<open>T\<close> with the generations of the old one.\<close>

definition tab_upd ::
  "process_table \<Rightarrow> (process_id \<Rightarrow> process_record option) \<Rightarrow> (thread_id \<Rightarrow> thread_record option) \<Rightarrow>
   process_table \<Rightarrow> bool" where
  "tab_upd t P T t' \<longleftrightarrow>
     table_wf t' \<and> pmap t' = P \<and> tmap t' = T \<and>
     pt_process_generations t' = pt_process_generations t \<and>
     pt_thread_generations t' = pt_thread_generations t"

lemma tab_upd_trans: "tab_upd t P T t' \<Longrightarrow> tab_upd t' P' T' t'' \<Longrightarrow> tab_upd t P' T' t''"
  by (simp add: tab_upd_def)

lemma tab_updD:
  assumes "tab_upd t P T t'"
  shows "table_wf t'" "pmap t' = P" "tmap t' = T"
    "pt_process_generations t' = pt_process_generations t"
    "pt_thread_generations t' = pt_thread_generations t"
  using assms by (simp_all add: tab_upd_def)

lemma tab_upd_refl: "table_wf t \<Longrightarrow> tab_upd t (pmap t) (tmap t) t"
  by (simp add: tab_upd_def)

lemma process_mut_cases:
  assumes "table_wf t" "\<And>r. pr_id (snd (body r)) = pr_id r" "process_mut pid body t = (x, t')"
  obtains "pmap t pid = None" "x = Err Pe_InvalidId" "t' = t"
  | r r' where "pmap t pid = Some r" "pr_id r = pid" "body r = (x, r')"
      "tab_upd t ((pmap t)(pid \<mapsto> r')) (tmap t) t'"
proof (cases "pmap t pid")
  case None
  from process_mut_None [OF None, of body] assms(3) have "x = Err Pe_InvalidId" "t' = t" by auto
  with None that(1) show thesis by blast
next
  case (Some r)
  obtain y r' where b: "body r = (y, r')" by fastforce
  have "pr_id r = pid" by (rule pmap_id [OF Some])
  with assms(2) [of r] b have "pr_id r' = pid" by simp
  from process_mut_Some [where body = body, OF assms(1) Some b this] obtain i where
    "i < MAX_PROCESSES" "pt_processes t ! i = Some r" and
    "process_mut pid body t = (y, t\<lparr>pt_processes := (pt_processes t)[i := Some r']\<rparr>)"
    "pmap (t\<lparr>pt_processes := (pt_processes t)[i := Some r']\<rparr>) = (pmap t)(pid \<mapsto> r')"
    "table_wf (t\<lparr>pt_processes := (pt_processes t)[i := Some r']\<rparr>)" .
  with assms(3) have "y = x" "tab_upd t ((pmap t)(pid \<mapsto> r')) (tmap t) t'"
    by (auto simp: tab_upd_def)
  with that(2) [OF Some \<open>pr_id r = pid\<close>] b show thesis by blast
qed

lemma thread_mut_cases:
  assumes "table_wf t" "\<And>r. th_id (snd (body r)) = th_id r" "thread_mut tid body t = (x, t')"
  obtains "tmap t tid = None" "x = Err Pe_InvalidId" "t' = t"
  | r r' where "tmap t tid = Some r" "th_id r = tid" "body r = (x, r')"
      "tab_upd t (pmap t) ((tmap t)(tid \<mapsto> r')) t'"
proof (cases "tmap t tid")
  case None
  from thread_mut_None [OF None, of body] assms(3) have "x = Err Pe_InvalidId" "t' = t" by auto
  with None that(1) show thesis by blast
next
  case (Some r)
  obtain y r' where b: "body r = (y, r')" by fastforce
  have "th_id r = tid" by (rule tmap_id [OF Some])
  with assms(2) [of r] b have "th_id r' = tid" by simp
  from thread_mut_Some [where body = body, OF assms(1) Some b this] obtain i where
    "i < MAX_THREADS" "pt_threads t ! i = Some r" and
    "thread_mut tid body t = (y, t\<lparr>pt_threads := (pt_threads t)[i := Some r']\<rparr>)"
    "tmap (t\<lparr>pt_threads := (pt_threads t)[i := Some r']\<rparr>) = (tmap t)(tid \<mapsto> r')"
    "table_wf (t\<lparr>pt_threads := (pt_threads t)[i := Some r']\<rparr>)" .
  with assms(3) have "y = x" "tab_upd t (pmap t) ((tmap t)(tid \<mapsto> r')) t'"
    by (auto simp: tab_upd_def)
  with that(2) [OF Some \<open>th_id r = tid\<close>] b show thesis by blast
qed

lemma process_mut_ok:
  assumes "table_wf t" "pmap t pid = Some r" "\<And>r. pr_id (snd (body r)) = pr_id r"
  obtains t' where "process_mut pid body t = (fst (body r), t')"
    "tab_upd t ((pmap t)(pid \<mapsto> snd (body r))) (tmap t) t'"
proof -
  obtain x t' where p: "process_mut pid body t = (x, t')" by fastforce
  from assms(1) assms(3) p show thesis
  proof (cases rule: process_mut_cases)
    case (2 r0 r')
    with assms(2) that p show thesis by simp
  qed (use assms(2) in simp)
qed

lemma thread_mut_ok:
  assumes "table_wf t" "tmap t tid = Some r" "\<And>r. th_id (snd (body r)) = th_id r"
  obtains t' where "thread_mut tid body t = (fst (body r), t')"
    "tab_upd t (pmap t) ((tmap t)(tid \<mapsto> snd (body r))) t'"
proof -
  obtain x t' where p: "thread_mut tid body t = (x, t')" by fastforce
  from assms(1) assms(3) p show thesis
  proof (cases rule: thread_mut_cases)
    case (2 r0 r')
    with assms(2) that p show thesis by simp
  qed (use assms(2) in simp)
qed

section \<open>The effect of creation\<close>

definition thread_new :: "thread_id \<Rightarrow> process_id option \<Rightarrow> thread_kind \<Rightarrow> thread_record" where
  "thread_new tid process kind =
     \<lparr>th_id = tid, th_process = process, th_state = T_Created, th_kind = kind,
      th_runtime_ticks = 0, th_preemptions = 0, th_context_switches = 0\<rparr>"

lemma table_lengths:
  assumes "table_wf t"
  shows "length (pt_processes t) = 32" "length (pt_process_generations t) = 32"
    "length (pt_threads t) = 64" "length (pt_thread_generations t) = 64"
  using assms by (simp_all add: table_wf_def slots_wf_def kernel_defs)

lemma store_new_thread:
  assumes wf: "table_wf t" and slot: "position is_none (pt_threads t) = Some slot"
  defines "tid \<equiv> thread_id_new slot (pt_thread_generations t ! slot)"
  shows "tmap t tid = None"
    "tab_upd t (pmap t) ((tmap t)(tid \<mapsto> thread_new tid process kind))
       (t\<lparr>pt_threads := (pt_threads t)[slot := Some (thread_new tid process kind)]\<rparr>)"
proof -
  let ?r = "thread_new tid process kind"
  have lt: "slot < MAX_THREADS" "pt_threads t ! slot = None"
    using position_SomeD [OF slot] table_lengths(3) [OF wf] by (auto simp: is_none_iff kernel_defs)
  have wf': "slots_wf (\<lambda>r. thread_id_get (th_id r)) MAX_THREADS (pt_threads t)
       (pt_thread_generations t)"
    using wf by (simp add: table_wf_def)
  have raw: "thread_id_get (th_id ?r) = pack_id slot (pt_thread_generations t ! slot)"
    by (simp add: thread_new_def tid_def thread_id_new_def)
  have tid: "th_id ?r = tid" by (simp add: thread_new_def)
  note new = ttab.get_new [OF wf' lt, of "t\<lparr>pt_threads := (pt_threads t)[slot := Some ?r]\<rparr>" ?r]
  show "tmap t tid = None" using new(2) raw tid by simp
  show "tab_upd t (pmap t) ((tmap t)(tid \<mapsto> ?r)) (t\<lparr>pt_threads := (pt_threads t)[slot := Some ?r]\<rparr>)"
    using new(1) raw tid wf slots_wf_update [OF wf' lt(1), of "Some ?r"]
    by (simp add: tab_upd_def table_wf_def)
qed

lemma store_new_process:
  assumes wf: "table_wf t" and slot: "slot < 32" "pt_processes t ! slot = None"
    and pid: "pid = process_id_new slot (pt_process_generations t ! slot)" and r: "pr_id r = pid"
  shows "pmap t pid = None"
    "tab_upd t ((pmap t)(pid \<mapsto> r)) (tmap t) (t\<lparr>pt_processes := (pt_processes t)[slot := Some r]\<rparr>)"
proof -
  have lt: "slot < MAX_PROCESSES" using slot by (simp add: kernel_defs)
  have wf': "slots_wf (\<lambda>r. process_id_get (pr_id r)) MAX_PROCESSES (pt_processes t)
       (pt_process_generations t)"
    using wf by (simp add: table_wf_def)
  have raw: "process_id_get (pr_id r) = pack_id slot (pt_process_generations t ! slot)"
    by (simp add: r pid process_id_new_def)
  note new = ptab.get_new [OF wf' lt slot(2), of "t\<lparr>pt_processes := (pt_processes t)[slot := Some r]\<rparr>" r]
  show "pmap t pid = None" using new(2) raw r by simp
  show "tab_upd t ((pmap t)(pid \<mapsto> r)) (tmap t) (t\<lparr>pt_processes := (pt_processes t)[slot := Some r]\<rparr>)"
    using new(1) raw r wf slots_wf_update [OF wf' lt, of "Some r"]
    by (simp add: tab_upd_def table_wf_def)
qed

lemma allocate_thread_cases:
  assumes wf: "table_wf t" and a: "allocate_thread (Some p) kind t = (x, t')"
  obtains e where "x = Err e" "t' = t"
  | tid r k where "x = Ok tid" "tmap t tid = None" "pmap t p = Some r"
      "position is_none (pr_threads r) = Some k"
      "tab_upd t ((pmap t)(p \<mapsto> r\<lparr>pr_threads := (pr_threads r)[k := Some tid]\<rparr>))
         ((tmap t)(tid \<mapsto> thread_new tid (Some p) kind)) t'"
proof -
  consider "position is_none (pt_threads t) = None" | "pmap t p = None"
    | r where "pmap t p = Some r" "position is_none (pr_threads r) = None"
    | slot r k where "position is_none (pt_threads t) = Some slot" "pmap t p = Some r"
        "position is_none (pr_threads r) = Some k"
    by (cases "position is_none (pt_threads t)"; cases "pmap t p";
        cases "position is_none (pr_threads (the (pmap t p)))") auto
  then show thesis
  proof cases
    case (4 slot r k)
    define tid where "tid = thread_id_new slot (pt_thread_generations t ! slot)"
    let ?t1 = "t\<lparr>pt_threads := (pt_threads t)[slot := Some (thread_new tid (Some p) kind)]\<rparr>"
    note new = store_new_thread [OF wf 4(1), folded tid_def]
    have u1: "tab_upd t (pmap t) ((tmap t)(tid \<mapsto> thread_new tid (Some p) kind)) ?t1"
      by (rule new(2))
    then have wf1: "table_wf ?t1" and m1: "pmap ?t1 p = Some r"
      using 4(2) by (simp_all add: tab_upd_def)
    from process_mut_ok [OF wf1 m1, of "\<lambda>r. (Ok (), r\<lparr>pr_threads := (pr_threads r)[k := Some tid]\<rparr>)"]
    obtain t2 where t2: "process_mut p (\<lambda>r. (Ok (), r\<lparr>pr_threads := (pr_threads r)[k := Some tid]\<rparr>)) ?t1
        = (Ok (), t2)"
      and u2: "tab_upd ?t1 ((pmap ?t1)(p \<mapsto> r\<lparr>pr_threads := (pr_threads r)[k := Some tid]\<rparr>))
        (tmap ?t1) t2"
      by auto
    have "allocate_thread (Some p) kind t = (Ok tid, t2)"
      using t2 by (simp add: allocate_thread_def process_get_map 4 Let_def tid_def thread_new_def)
    moreover have "tab_upd t ((pmap t)(p \<mapsto> r\<lparr>pr_threads := (pr_threads r)[k := Some tid]\<rparr>))
         ((tmap t)(tid \<mapsto> thread_new tid (Some p) kind)) t2"
      using u1 u2 by (simp add: tab_upd_def)
    ultimately show thesis using a new(1) 4 by (intro that(2)) auto
  qed (use a that(1) in \<open>auto simp: allocate_thread_def process_get_map ok_or_def try_res_def and_then_def
        split: option.splits\<close>)
qed

text \<open>The record of a process that creation has finished, and its first thread.\<close>

definition started_process ::
  "process_id \<Rightarrow> process_id option \<Rightarrow> credentials \<Rightarrow> thread_id \<Rightarrow> process_record" where
  "started_process pid parent creds tid =
     (process_record_new pid parent creds)
       \<lparr>pr_threads := (replicate MAX_PROCESS_THREADS None)[0 := Some tid], pr_state := P_Running\<rparr>"

definition ready_thread :: "thread_id \<Rightarrow> process_id option \<Rightarrow> thread_kind \<Rightarrow> thread_record" where
  "ready_thread tid process kind = (thread_new tid process kind)\<lparr>th_state := T_Ready\<rparr>"

lemma set_process_state_ok:
  assumes "table_wf t" "pmap t pid = Some r"
  obtains t' where "set_process_state pid s t = (Ok (), t')"
    "tab_upd t ((pmap t)(pid \<mapsto> r\<lparr>pr_state := s\<rparr>)) (tmap t) t'"
proof -
  from process_mut_ok [OF assms, of "\<lambda>r. (Ok (), r\<lparr>pr_state := s\<rparr>)"] obtain t' where
    "process_mut pid (\<lambda>r. (Ok (), r\<lparr>pr_state := s\<rparr>)) t = (Ok (), t')"
    "tab_upd t ((pmap t)(pid \<mapsto> r\<lparr>pr_state := s\<rparr>)) (tmap t) t'" by auto
  then show thesis by (intro that) (simp_all add: set_process_state_def)
qed

lemma set_thread_state_ok:
  assumes "table_wf t" "tmap t tid = Some r"
  obtains t' where "set_thread_state tid s t = (Ok (), t')"
    "tab_upd t (pmap t) ((tmap t)(tid \<mapsto> r\<lparr>th_state := s\<rparr>)) t'"
proof -
  from thread_mut_ok [OF assms, of "\<lambda>r. (Ok (), r\<lparr>th_state := s\<rparr>)"] obtain t' where
    "thread_mut tid (\<lambda>r. (Ok (), r\<lparr>th_state := s\<rparr>)) t = (Ok (), t')"
    "tab_upd t (pmap t) ((tmap t)(tid \<mapsto> r\<lparr>th_state := s\<rparr>)) t'" by auto
  then show thesis by (intro that) (simp_all add: set_thread_state_def)
qed

text \<open>The tail that \<open>create_init\<close> and \<open>spawn_child\<close> share, from the free slot on.\<close>

definition populate ::
  "nat \<Rightarrow> process_id option \<Rightarrow> credentials \<Rightarrow> process_table \<Rightarrow>
   (process_error + process_id \<times> thread_id) \<times> process_table" where
  "populate slot parent creds t =
     (let process = process_id_new slot (pt_process_generations t ! slot);
          t1 = t\<lparr>pt_processes := (pt_processes t)
                  [slot := Some (process_record_new process parent creds)]\<rparr>
      in (case allocate_thread (Some process) User_Thread t1 of
            (Inl error, t2) \<Rightarrow> (Err error, t2\<lparr>pt_processes := (pt_processes t2)[slot := None]\<rparr>)
          | (Inr thread, t2) \<Rightarrow>
              try_st (set_process_state process P_Running t2) (\<lambda>_ t3.
              try_st (set_thread_state thread T_Ready t3) (\<lambda>_ t4.
              (Ok (process, thread), t4)))))"

lemma position_replicate_None: "position is_none (replicate MAX_PROCESS_THREADS None) = Some 0"
  by (simp add: kernel_defs numeral_eq_Suc)

lemma populate_cases:
  assumes wf: "table_wf t" and slot: "slot < 32" "pt_processes t ! slot = None"
    and p: "populate slot parent creds t = (x, t')"
  obtains e where "x = Err e" "t' = t"
  | pid tid where "x = Ok (pid, tid)" "pid = process_id_new slot (pt_process_generations t ! slot)"
      "pmap t pid = None" "tmap t tid = None"
      "tab_upd t ((pmap t)(pid \<mapsto> started_process pid parent creds tid))
         ((tmap t)(tid \<mapsto> ready_thread tid (Some pid) User_Thread)) t'"
proof -
  define pid where "pid = process_id_new slot (pt_process_generations t ! slot)"
  let ?r = "process_record_new pid parent creds"
  let ?t1 = "t\<lparr>pt_processes := (pt_processes t)[slot := Some ?r]\<rparr>"
  have id: "pr_id ?r = pid" by (simp add: process_record_new_def)
  note new = store_new_process [OF wf slot pid_def id]
  from new(2) have wf1: "table_wf ?t1" and m1: "pmap ?t1 = (pmap t)(pid \<mapsto> ?r)"
    by (simp_all add: tab_upd_def)
  obtain y t2 where a: "allocate_thread (Some pid) User_Thread ?t1 = (y, t2)" by fastforce
  show thesis
  proof (cases rule: allocate_thread_cases [OF wf1 a])
    case (1 e)
    have undo: "(pt_processes t)[slot := None] = pt_processes t"
      using slot(2) by (metis list_update_id)
    from 1 a p undo have "x = Err e" "t' = t"
      by (auto simp: populate_def pid_def [symmetric])
    then show thesis by (rule that(1))
  next
    case (2 tid r k)
    have r: "r = ?r" using 2(3) m1 by simp
    have k: "k = 0"
      using 2(4) by (simp add: r process_record_new_def position_replicate_None)
    let ?r2 = "?r\<lparr>pr_threads := (pr_threads ?r)[0 := Some tid]\<rparr>"
    have u2: "tab_upd t ((pmap t)(pid \<mapsto> ?r2)) ((tmap t)(tid \<mapsto> thread_new tid (Some pid) User_Thread)) t2"
      using 2(5) new(2) unfolding r k by (simp add: tab_upd_def)
    then have wf2: "table_wf t2" and m2: "pmap t2 pid = Some ?r2"
      by (simp_all add: tab_upd_def)
    from set_process_state_ok [OF wf2 m2] obtain t3 where
      t3: "set_process_state pid P_Running t2 = (Ok (), t3)"
      and u3: "tab_upd t2 ((pmap t2)(pid \<mapsto> ?r2\<lparr>pr_state := P_Running\<rparr>)) (tmap t2) t3" .
    from u2 u3 have wf3: "table_wf t3" and m3: "tmap t3 tid = Some (thread_new tid (Some pid) User_Thread)"
      by (simp_all add: tab_upd_def)
    from set_thread_state_ok [OF wf3 m3] obtain t4 where
      t4: "set_thread_state tid T_Ready t3 = (Ok (), t4)"
      and u4: "tab_upd t3 (pmap t3) ((tmap t3)(tid \<mapsto> (thread_new tid (Some pid) User_Thread)\<lparr>th_state := T_Ready\<rparr>)) t4" .
    have "x = Ok (pid, tid)" "t' = t4"
      using p a 2(1) t3 t4 by (simp_all add: populate_def pid_def [symmetric])
    moreover have "tab_upd t ((pmap t)(pid \<mapsto> started_process pid parent creds tid))
         ((tmap t)(tid \<mapsto> ready_thread tid (Some pid) User_Thread)) t4"
      using u2 u3 u4
      by (simp add: tab_upd_def started_process_def ready_thread_def process_record_new_def)
    moreover have "tmap t tid = None" using 2(2) by simp
    ultimately show thesis using new(1) by (intro that(2)) (auto simp: pid_def)
  qed
qed

lemma create_init_populate:
  "create_init t =
     (if is_some (pt_processes t ! 0) then (Err Pe_InvalidState, t)
      else populate 0 None BOOTSTRAP t)"
  by (simp add: create_init_def populate_def)

lemma spawn_child_populate:
  "spawn_child parent creds t =
     (case pmap t parent of
        None \<Rightarrow> (Err Pe_InvalidId, t)
      | Some record \<Rightarrow>
          if pr_state record \<noteq> P_Running then (Err Pe_InvalidState, t)
          else (case position is_none (pt_processes t) of
                  None \<Rightarrow> (Err Pe_ProcessCapacity, t)
                | Some slot \<Rightarrow> populate slot (Some parent) creds t))"
  by (simp add: spawn_child_def populate_def process_get_map ok_or_def try_res_def split: option.split)

lemma spawn_kernel_thread_cases:
  assumes wf: "table_wf t" and s: "spawn_kernel_thread t = (x, t')"
  obtains "x = Err Pe_ThreadCapacity" "t' = t"
  | tid where "x = Ok tid" "tmap t tid = None"
      "tab_upd t (pmap t) ((tmap t)(tid \<mapsto> ready_thread tid None Kernel_Thread)) t'"
proof (cases "position is_none (pt_threads t)")
  case None
  with s have "x = Err Pe_ThreadCapacity" "t' = t"
    by (auto simp: spawn_kernel_thread_def allocate_thread_def)
  then show thesis by (rule that(1))
next
  case (Some slot)
  define tid where "tid = thread_id_new slot (pt_thread_generations t ! slot)"
  let ?t1 = "t\<lparr>pt_threads := (pt_threads t)[slot := Some (thread_new tid None Kernel_Thread)]\<rparr>"
  note new = store_new_thread [OF wf Some, folded tid_def]
  have u1: "tab_upd t (pmap t) ((tmap t)(tid \<mapsto> thread_new tid None Kernel_Thread)) ?t1"
    by (rule new(2))
  then have wf1: "table_wf ?t1" and m1: "tmap ?t1 tid = Some (thread_new tid None Kernel_Thread)"
    by (simp_all add: tab_upd_def)
  from set_thread_state_ok [OF wf1 m1] obtain t2 where
    t2: "set_thread_state tid T_Ready ?t1 = (Ok (), t2)"
    and u2: "tab_upd ?t1 (pmap ?t1) ((tmap ?t1)(tid \<mapsto> (thread_new tid None Kernel_Thread)\<lparr>th_state := T_Ready\<rparr>)) t2" .
  have "allocate_thread None Kernel_Thread t = (Ok tid, ?t1)"
    using Some by (simp add: allocate_thread_def tid_def thread_new_def Let_def)
  with s t2 have "x = Ok tid" "t' = t2" by (simp_all add: spawn_kernel_thread_def)
  moreover have "tab_upd t (pmap t) ((tmap t)(tid \<mapsto> ready_thread tid None Kernel_Thread)) t2"
    using u1 u2 by (simp add: tab_upd_def ready_thread_def)
  ultimately show thesis using new(1) by (intro that(2)) auto
qed

section \<open>The effect of exit and of reaping\<close>

definition exited_process :: "u32 \<Rightarrow> process_record \<Rightarrow> process_record" where
  "exited_process status r =
     r\<lparr>pr_state := P_Zombie, pr_exit_status := Some status, pr_fds := replicate MAX_FDS None\<rparr>"

definition exit_threads_map ::
  "process_id \<Rightarrow> (thread_id \<Rightarrow> thread_record option) \<Rightarrow> thread_id \<Rightarrow> thread_record option" where
  "exit_threads_map pid T tid = exit_thread_of pid (T tid)"

definition reparent_map ::
  "process_id \<Rightarrow> (process_id \<Rightarrow> process_record option) \<Rightarrow> process_id \<Rightarrow> process_record option" where
  "reparent_map pid P q = reparent_child_of pid (P q)"

text \<open>Reparenting happens before the state becomes \<open>Zombie\<close>; the two commute.\<close>

definition exited_self :: "process_id \<Rightarrow> u32 \<Rightarrow> process_record \<Rightarrow> process_record" where
  "exited_self pid status r =
     exited_process status (if pr_parent r = Some pid then r\<lparr>pr_parent := Some INIT\<rparr> else r)"

lemma map_threads_exit:
  assumes "table_wf t"
  shows "tab_upd t (pmap t) (exit_threads_map pid (tmap t))
    (t\<lparr>pt_threads := map (exit_thread_of pid) (pt_threads t)\<rparr>)"
proof -
  let ?f = "\<lambda>th. if th_process th = Some pid then th\<lparr>th_state := T_Exited\<rparr> else th"
  let ?t = "t\<lparr>pt_threads := map (exit_thread_of pid) (pt_threads t)\<rparr>"
  have m: "map (exit_thread_of pid) (pt_threads t) = map (map_option ?f) (pt_threads t)"
    by (simp add: exit_thread_of_def)
  have wf: "slots_wf (\<lambda>r. thread_id_get (th_id r)) MAX_THREADS (pt_threads t)
      (pt_thread_generations t)"
    using assms by (simp add: table_wf_def)
  have "tmap ?t x = exit_threads_map pid (tmap t) x" for x
    using ttab.get_map [OF wf, of ?t ?f x]
    by (simp add: m exit_threads_map_def exit_thread_of_def)
  moreover have "table_wf ?t"
    using assms slots_wf_map [OF wf, of ?f] by (simp add: m table_wf_def)
  ultimately show ?thesis by (auto simp: tab_upd_def)
qed

lemma map_processes_reparent:
  assumes "table_wf t"
  shows "tab_upd t (reparent_map pid (pmap t)) (tmap t)
    (t\<lparr>pt_processes := map (reparent_child_of pid) (pt_processes t)\<rparr>)"
proof -
  let ?f = "\<lambda>r. if pr_parent r = Some pid then r\<lparr>pr_parent := Some INIT\<rparr> else r"
  let ?t = "t\<lparr>pt_processes := map (reparent_child_of pid) (pt_processes t)\<rparr>"
  have m: "map (reparent_child_of pid) (pt_processes t) = map (map_option ?f) (pt_processes t)"
    by (simp add: reparent_child_of_def)
  have wf: "slots_wf (\<lambda>r. process_id_get (pr_id r)) MAX_PROCESSES (pt_processes t)
      (pt_process_generations t)"
    using assms by (simp add: table_wf_def)
  have "pmap ?t x = reparent_map pid (pmap t) x" for x
    using ptab.get_map [OF wf, of ?t ?f x]
    by (simp add: m reparent_map_def reparent_child_of_def)
  moreover have "table_wf ?t"
    using assms slots_wf_map [OF wf, of ?f] by (simp add: m table_wf_def)
  ultimately show ?thesis by (auto simp: tab_upd_def)
qed

lemma process_exit_cases:
  assumes wf: "table_wf t" and x: "process_exit pid status t = (x, t')"
  obtains e where "x = Err e" "t' = t" "pid = INIT \<or> pmap t pid = None \<or> (\<exists>r. pmap t pid = Some r \<and> pr_state r \<noteq> P_Running)"
  | r where "x = Ok ()" "pid \<noteq> INIT" "pmap t pid = Some r" "pr_state r = P_Running"
      "tab_upd t ((reparent_map pid (pmap t))(pid \<mapsto> exited_self pid status r))
         (exit_threads_map pid (tmap t)) t'"
proof -
  consider "pid = INIT \<or> pmap t pid = None \<or> (\<exists>r. pmap t pid = Some r \<and> pr_state r \<noteq> P_Running)"
    | r where "pid \<noteq> INIT" "pmap t pid = Some r" "pr_state r = P_Running"
    by (cases "pmap t pid") auto
  then show thesis
  proof cases
    case 1
    with x have "\<exists>e. x = Err e \<and> t' = t"
      by (auto simp: process_exit_def process_get_map split: if_splits)
    with 1 that(1) show thesis by blast
  next
    case (2 r)
    let ?b = "\<lambda>r. (Ok (), r\<lparr>pr_state := P_Exiting, pr_exit_status := Some status,
                            pr_fds := replicate MAX_FDS None\<rparr>)"
    from process_mut_ok [OF wf 2(2), of ?b] obtain t1 where t1: "process_mut pid ?b t = (Ok (), t1)"
      and u1: "tab_upd t ((pmap t)(pid \<mapsto> snd (?b r))) (tmap t) t1" by auto
    let ?t2 = "t1\<lparr>pt_threads := map (exit_thread_of pid) (pt_threads t1)\<rparr>"
    have wf1: "table_wf t1" using u1 by (simp add: tab_upd_def)
    note u2 = map_threads_exit [OF wf1, of pid]
    then have wf2: "table_wf ?t2" by (simp add: tab_upd_def)
    let ?t3 = "?t2\<lparr>pt_processes := map (reparent_child_of pid) (pt_processes ?t2)\<rparr>"
    note u3 = map_processes_reparent [OF wf2, of pid]
    then have wf3: "table_wf ?t3" by (simp add: tab_upd_def)
    have m3: "pmap ?t3 pid = reparent_child_of pid (Some (snd (?b r)))"
      using u1 u2 u3 by (simp add: tab_upd_def reparent_map_def)
    then obtain r3 where r3: "pmap ?t3 pid = Some r3"
      and r3': "r3\<lparr>pr_state := P_Zombie\<rparr> = exited_self pid status r"
      by (auto simp: reparent_child_of_def exited_self_def exited_process_def)
    from set_process_state_ok [OF wf3 r3] obtain t4 where
      t4: "set_process_state pid P_Zombie ?t3 = (Ok (), t4)"
      and u4: "tab_upd ?t3 ((pmap ?t3)(pid \<mapsto> r3\<lparr>pr_state := P_Zombie\<rparr>)) (tmap ?t3) t4" .
    have "x = Ok ()" "t' = t4"
      using x 2 t1 t4 by (simp_all add: process_exit_def process_get_map Let_def)
    moreover have "tab_upd t ((reparent_map pid (pmap t))(pid \<mapsto> exited_self pid status r))
         (exit_threads_map pid (tmap t)) t4"
    proof -
      have P: "(pmap ?t3)(pid \<mapsto> r3\<lparr>pr_state := P_Zombie\<rparr>) =
          (reparent_map pid (pmap t))(pid \<mapsto> exited_self pid status r)"
        using u1 u2 u3 by (auto simp: tab_upd_def reparent_map_def r3')
      have T: "tmap ?t3 = exit_threads_map pid (tmap t)"
        using u1 u2 u3 by (simp add: tab_upd_def)
      from tab_upd_trans [OF tab_upd_trans [OF tab_upd_trans [OF u1 u2] u3] u4]
      show ?thesis unfolding P T .
    qed
    ultimately show thesis using 2 by (intro that(2)) simp_all
  qed
qed

text \<open>Generations only grow: \<open>checked_add\<close> refuses to wrap.\<close>

definition gens_le :: "u16 list \<Rightarrow> u16 list \<Rightarrow> bool" where
  "gens_le gs gs' \<longleftrightarrow> length gs' = length gs \<and> (\<forall>i<length gs. gs ! i \<le> gs' ! i)"

lemma gens_le_refl [simp]: "gens_le gs gs"
  by (simp add: gens_le_def)

lemma gens_le_trans: "gens_le a b \<Longrightarrow> gens_le b c \<Longrightarrow> gens_le a c"
  by (auto simp: gens_le_def intro: order_trans)

lemma checked_add_Some_less:
  fixes g :: u16
  shows "checked_add g 1 = Some g' \<Longrightarrow> g < g'"
  by (auto simp: checked_add_Some_iff word_less_nat_alt)

lemma gens_le_bump: "checked_add (gs ! i) 1 = Some g \<Longrightarrow> gens_le gs (gs[i := g])"
  using checked_add_Some_less [of "gs ! i" g]
  by (auto simp: gens_le_def) (metis less_imp_le nth_list_update_eq nth_list_update_neq order_refl)

lemma reap_threads_Ok:
  assumes "table_wf t" "distinct tids" "\<forall>tid\<in>set tids. \<exists>th. tmap t tid = Some th"
    and "reap_threads tids t = (x, t')"
  shows "(\<exists>u. x = Ok u) \<and> table_wf t' \<and> pmap t' = pmap t \<and> tmap t' = tmap t |` (- set tids) \<and>
      pt_processes t' = pt_processes t \<and>
      pt_process_generations t' = pt_process_generations t \<and>
      gens_le (pt_thread_generations t) (pt_thread_generations t')
    \<or> x = Err Pe_GenerationExhausted"
  using assms
proof (induction tids arbitrary: t)
  case Nil
  then show ?case by simp
next
  case (Cons tid rest)
  from Cons.prems(3) obtain th where th: "tmap t tid = Some th" by auto
  from ttab.get_SomeD [OF th] obtain i where
    i: "unpack_slot MAX_THREADS (thread_id_get tid) = Some i" "i < MAX_THREADS"
      "pt_threads t ! i = Some th" "th_id th = tid"
      "pt_thread_generations t ! i = unpack_generation (thread_id_get tid)" .
  let ?g = "checked_add (pt_thread_generations t ! i) 1"
  show ?case
  proof (cases ?g)
    case None
    with Cons.prems(4) i have "x = Err Pe_GenerationExhausted"
      by (simp add: thread_id_slot_def Let_def)
    then show ?thesis by simp
  next
    case (Some g)
    let ?t1 = "t\<lparr>pt_threads := (pt_threads t)[i := None],
                 pt_thread_generations := (pt_thread_generations t)[i := g]\<rparr>"
    have wf: "slots_wf (\<lambda>r. thread_id_get (th_id r)) MAX_THREADS (pt_threads t)
      (pt_thread_generations t)"
      using Cons.prems(1) by (simp add: table_wf_def)
    have m: "tmap ?t1 = (tmap t)(tid := None)"
      using ttab.get_clear [OF wf i(2,3), of ?t1 g] i(4) by simp
    have p: "pmap ?t1 = pmap t" by (rule ptab.get_cong) simp_all
    have w: "table_wf ?t1"
      using Cons.prems(1) slots_wf_free [OF wf i(2), of g] by (simp add: table_wf_def)
    have live: "\<forall>tid\<in>set rest. \<exists>th. tmap ?t1 tid = Some th"
      using Cons.prems(2,3) by (auto simp: m)
    have "reap_threads rest ?t1 = (x, t')"
      using Cons.prems(4) i Some by (simp add: thread_id_slot_def Let_def)
    moreover have "distinct rest" using Cons.prems(2) by simp
    moreover have "gens_le (pt_thread_generations t) (pt_thread_generations ?t1)"
      using gens_le_bump [OF Some] by simp
    moreover have "((tmap t)(tid := None)) |` (- set rest) = tmap t |` (- set (tid # rest))"
      by (auto simp: restrict_map_def fun_eq_iff)
    ultimately show ?thesis
      using Cons.IH [OF w _ live] m p gens_le_trans by (auto simp del: fun_upd_apply)
  qed
qed

lemma reap_cases:
  assumes wf: "table_wf t" and r: "pmap t pid = Some r"
    and threads: "distinct (flatten (pr_threads r))"
      "\<forall>tid. Some tid \<in> set (pr_threads r) \<longrightarrow> (\<exists>th. tmap t tid = Some th)"
    and x: "reap pid t = (x, t')"
  obtains "x = Err Pe_InvalidState" "t' = t" "pr_state r \<noteq> P_Zombie"
  | "x = Err Pe_GenerationExhausted"
  | i g where "x = Ok ()" "pr_state r = P_Zombie" "table_wf t'"
      "pmap t' = (pmap t)(pid := None)"
      "tmap t' = tmap t |` (- {tid. Some tid \<in> set (pr_threads r)})"
      "process_id_slot pid = Some i" "i < 32"
      "checked_add (pt_process_generations t ! i) 1 = Some g"
      "pt_process_generations t' = (pt_process_generations t)[i := g]"
      "gens_le (pt_thread_generations t) (pt_thread_generations t')"
proof -
  from ptab.get_SomeD [OF r] obtain i where
    i: "unpack_slot MAX_PROCESSES (process_id_get pid) = Some i" "i < MAX_PROCESSES"
      "pt_processes t ! i = Some r" "pr_id r = pid"
      "pt_process_generations t ! i = unpack_generation (process_id_get pid)" .
  then have slot: "process_id_slot pid = Some i" by (simp add: process_id_slot_def)
  obtain y t1 where y: "reap_threads (flatten (pr_threads r)) t = (y, t1)" by fastforce
  have set: "set (flatten (pr_threads r)) = {tid. Some tid \<in> set (pr_threads r)}"
    by (auto simp: set_flatten)
  from threads(2) have live: "\<forall>tid\<in>set (flatten (pr_threads r)). \<exists>th. tmap t tid = Some th"
    by (simp add: set_flatten)
  consider "pr_state r \<noteq> P_Zombie" | "pr_state r = P_Zombie" "y = Err Pe_GenerationExhausted"
    | u where "pr_state r = P_Zombie" "y = Ok u" "table_wf t1" "pmap t1 = pmap t"
      "tmap t1 = tmap t |` (- {tid. Some tid \<in> set (pr_threads r)})"
      "pt_processes t1 = pt_processes t" "pt_process_generations t1 = pt_process_generations t"
      "gens_le (pt_thread_generations t) (pt_thread_generations t1)"
    using reap_threads_Ok [OF wf threads(1) live y] unfolding set by blast
  then show thesis
  proof cases
    case 1
    with x r slot have "x = Err Pe_InvalidState" "t' = t" by (auto simp: reap_def process_get_map)
    with 1 that(1) show thesis by blast
  next
    case 2
    with x r slot y that(2) show thesis by (simp add: reap_def process_get_map)
  next
    case (3 u)
    let ?t2 = "t1\<lparr>pt_processes := (pt_processes t1)[i := None]\<rparr>"
    show thesis
    proof (cases "checked_add (pt_process_generations t1 ! i) 1")
      case None
      with 3 x r slot y that(2) show thesis by (simp add: reap_def process_get_map Let_def)
    next
      case (Some g)
      let ?t3 = "?t2\<lparr>pt_process_generations := (pt_process_generations ?t2)[i := g]\<rparr>"
      have e: "x = Ok ()" "t' = ?t3"
        using 3 x r slot y Some by (simp_all add: reap_def process_get_map Let_def)
      have wf1: "slots_wf (\<lambda>r. process_id_get (pr_id r)) MAX_PROCESSES (pt_processes t1)
        (pt_process_generations t1)"
        using 3(3) by (simp add: table_wf_def)
      have "pmap ?t3 = (pmap t1)(pid := None)"
        using ptab.get_clear [OF wf1 i(2), of r ?t3 g] i(3,4) 3(6) by simp
      moreover have "tmap ?t3 = tmap t1" by (rule ttab.get_cong) simp_all
      moreover have "table_wf ?t3"
        using 3(3) slots_wf_free [OF wf1 i(2), of g] by (simp add: table_wf_def)
      ultimately show thesis
        using 3 e Some slot i(2) by (intro that(3)) (simp_all add: kernel_defs)
    qed
  qed
qed

section \<open>The invariant\<close>

definition record_ok :: "process_record \<Rightarrow> bool" where
  "record_ok r \<longleftrightarrow>
     length (pr_threads r) = MAX_PROCESS_THREADS \<and> length (pr_fds r) = MAX_FDS \<and>
     distinct (flatten (pr_threads r)) \<and>
     (pr_state r = P_Running \<and> pr_exit_status r = None \<or>
      pr_state r = P_Zombie \<and> (\<exists>status. pr_exit_status r = Some status))"

definition owner_ok ::
  "(process_id \<Rightarrow> process_record option) \<Rightarrow> thread_record \<Rightarrow> bool" where
  "owner_ok P th \<longleftrightarrow>
     (case th_process th of
        None \<Rightarrow> th_kind th = Kernel_Thread \<and> th_state th \<noteq> T_Exited
      | Some p \<Rightarrow> th_kind th = User_Thread \<and>
          (\<exists>r. P p = Some r \<and> Some (th_id th) \<in> set (pr_threads r) \<and>
               (pr_state r = P_Zombie \<longrightarrow> th_state th = T_Exited) \<and>
               (th_state th = T_Exited \<longrightarrow> pr_state r = P_Zombie \<or> p = INIT)))"

definition family_ok ::
  "(process_id \<Rightarrow> process_record option) \<Rightarrow> process_id \<Rightarrow> process_record \<Rightarrow> bool" where
  "family_ok P p r \<longleftrightarrow>
     (p = INIT \<longleftrightarrow> pr_parent r = None) \<and> (p = INIT \<longrightarrow> pr_state r = P_Running) \<and>
     (\<exists>s. P INIT = Some s) \<and>
     (\<forall>q. pr_parent r = Some q \<longrightarrow> (\<exists>s. P q = Some s \<and> pr_state s = P_Running))"

definition links ::
  "(process_id \<Rightarrow> process_record option) \<Rightarrow> (thread_id \<Rightarrow> thread_record option) \<Rightarrow> bool" where
  "links P T \<longleftrightarrow>
     (\<forall>p r. P p = Some r \<longrightarrow>
        pr_id r = p \<and> record_ok r \<and> family_ok P p r \<and>
        (\<forall>tid. Some tid \<in> set (pr_threads r) \<longrightarrow>
           (\<exists>th. T tid = Some th \<and> th_process th = Some p))) \<and>
     (\<forall>tid th. T tid = Some th \<longrightarrow> th_id th = tid \<and> owner_ok P th)"

definition table_inv :: "process_table \<Rightarrow> bool" where
  "table_inv t \<longleftrightarrow>
     table_wf t \<and> links (pmap t) (tmap t) \<and> pt_process_generations t ! 0 = 0"

lemma table_invI:
  assumes "tab_upd t P T t'" "links P T" "pt_process_generations t ! 0 = 0"
  shows "table_inv t'"
  using assms by (simp add: tab_upd_def table_inv_def)

text \<open>Updating a process that keeps what the others depend on.\<close>

lemma links_upd_process:
  assumes "links P T" "P p = Some r"
    and "pr_id r' = p" "pr_parent r' = pr_parent r" "pr_state r' = pr_state r"
      "pr_exit_status r' = pr_exit_status r" "pr_threads r' = pr_threads r"
      "length (pr_fds r') = length (pr_fds r)"
  shows "links (P(p \<mapsto> r')) T"
proof -
  have "owner_ok (P(p \<mapsto> r')) th" if "owner_ok P th" for th
    using that assms(2-) by (auto simp: owner_ok_def split: option.splits)
  moreover have "family_ok (P(p \<mapsto> r')) q s" if "family_ok P q s" for q s
    using that assms(2-) by (auto simp: family_ok_def)
  moreover have "family_ok P p r' = family_ok P p r"
    using assms by (simp add: family_ok_def)
  moreover have "record_ok r' = record_ok r"
    using assms by (simp add: record_ok_def)
  ultimately show ?thesis
    using assms unfolding links_def by auto
qed

text \<open>Updating a thread that keeps its owner and does not enter or leave \<open>Exited\<close>.\<close>

lemma links_upd_thread:
  assumes "links P T" "T tid = Some th"
    and "th_id th' = tid" "th_process th' = th_process th" "th_kind th' = th_kind th"
      "th_state th' = T_Exited \<longleftrightarrow> th_state th = T_Exited"
  shows "links P (T(tid \<mapsto> th'))"
proof -
  have "th_id th = tid" using assms(1,2) unfolding links_def by blast
  with assms have "owner_ok P th' = owner_ok P th"
    by (simp add: owner_ok_def split: option.split)
  moreover have "th_process th = Some p" if "P p = Some r" "Some tid \<in> set (pr_threads r)" for p r
    using assms(1,2) that unfolding links_def by (metis option.inject)
  ultimately show ?thesis using assms unfolding links_def by simp
qed

lemma table_inv_new: "table_inv process_table_new"
proof -
  have wf: "table_wf process_table_new"
    by (simp add: table_wf_def slots_wf_def process_table_new_def)
  have "pmap process_table_new p = None" for p
    by (auto simp: ptab.get_eq process_table_new_def dest: unpack_slot_lt split: option.splits)
  moreover have "tmap process_table_new p = None" for p
    by (auto simp: ttab.get_eq process_table_new_def dest: unpack_slot_lt split: option.splits)
  ultimately show ?thesis
    using wf by (simp add: table_inv_def links_def) (simp add: process_table_new_def kernel_defs)
qed

lemma process_mut_inv:
  assumes inv: "table_inv t" and x: "process_mut pid body t = (x, t')"
    and keep: "\<And>r. let r' = snd (body r) in
      pr_id r' = pr_id r \<and> pr_parent r' = pr_parent r \<and> pr_state r' = pr_state r \<and>
      pr_exit_status r' = pr_exit_status r \<and> pr_threads r' = pr_threads r \<and>
      length (pr_fds r') = length (pr_fds r)"
  shows "table_inv t'"
proof -
  have wf: "table_wf t" using inv by (simp add: table_inv_def)
  have "\<And>r. pr_id (snd (body r)) = pr_id r" using keep by (simp add: Let_def)
  from process_mut_cases [OF wf this x] show ?thesis
  proof cases
    case 1
    with inv show ?thesis by simp
  next
    case (2 r r')
    from keep [of r] 2(3) have k: "pr_id r' = pr_id r" "pr_parent r' = pr_parent r"
      "pr_state r' = pr_state r" "pr_exit_status r' = pr_exit_status r"
      "pr_threads r' = pr_threads r" "length (pr_fds r') = length (pr_fds r)"
      by (simp_all add: Let_def)
    have "links (pmap t) (tmap t)" "pt_process_generations t ! 0 = 0"
      using inv by (simp_all add: table_inv_def)
    from links_upd_process [OF this(1) 2(1)] k 2(2) have "links ((pmap t)(pid \<mapsto> r')) (tmap t)"
      by simp
    with 2(4) \<open>pt_process_generations t ! 0 = 0\<close> show ?thesis by (blast intro: table_invI)
  qed
qed

lemma thread_mut_inv:
  assumes inv: "table_inv t" and x: "thread_mut tid body t = (x, t')"
    and keep: "\<And>r. let r' = snd (body r) in
      th_id r' = th_id r \<and> th_process r' = th_process r \<and> th_kind r' = th_kind r \<and>
      (th_state r' = T_Exited \<longleftrightarrow> th_state r = T_Exited)"
  shows "table_inv t'"
proof -
  have wf: "table_wf t" using inv by (simp add: table_inv_def)
  have "\<And>r. th_id (snd (body r)) = th_id r" using keep by (simp add: Let_def)
  from thread_mut_cases [OF wf this x] show ?thesis
  proof cases
    case 1
    with inv show ?thesis by simp
  next
    case (2 r r')
    from keep [of r] 2(3) have k: "th_id r' = th_id r" "th_process r' = th_process r"
      "th_kind r' = th_kind r" "th_state r' = T_Exited \<longleftrightarrow> th_state r = T_Exited"
      by (simp_all add: Let_def)
    have "links (pmap t) (tmap t)" "pt_process_generations t ! 0 = 0"
      using inv by (simp_all add: table_inv_def)
    from links_upd_thread [OF this(1) 2(1)] k 2(2) have "links (pmap t) ((tmap t)(tid \<mapsto> r'))"
      by simp
    with 2(4) \<open>pt_process_generations t ! 0 = 0\<close> show ?thesis by (blast intro: table_invI)
  qed
qed

lemma linksD_process:
  assumes "links P T" "P p = Some r"
  shows "pr_id r = p" "record_ok r" "family_ok P p r"
    "Some tid \<in> set (pr_threads r) \<Longrightarrow> \<exists>th. T tid = Some th \<and> th_process th = Some p"
  using assms unfolding links_def by blast+

lemma linksD_thread:
  assumes "links P T" "T tid = Some th"
  shows "th_id th = tid" "owner_ok P th"
  using assms unfolding links_def by blast+

lemma linksI:
  assumes "\<And>p r. P p = Some r \<Longrightarrow> pr_id r = p" "\<And>p r. P p = Some r \<Longrightarrow> record_ok r"
    "\<And>p r. P p = Some r \<Longrightarrow> family_ok P p r"
    "\<And>p r tid. P p = Some r \<Longrightarrow> Some tid \<in> set (pr_threads r) \<Longrightarrow>
       \<exists>th. T tid = Some th \<and> th_process th = Some p"
    "\<And>tid th. T tid = Some th \<Longrightarrow> th_id th = tid"
    "\<And>tid th. T tid = Some th \<Longrightarrow> owner_ok P th"
  shows "links P T"
  using assms unfolding links_def by blast

lemma owner_ok_fresh: "owner_ok P th \<Longrightarrow> P pid = None \<Longrightarrow> owner_ok (P(pid \<mapsto> r)) th"
  by (auto simp: owner_ok_def split: option.splits)

lemma family_ok_fresh: "family_ok P q s \<Longrightarrow> P pid = None \<Longrightarrow> family_ok (P(pid \<mapsto> r)) q s"
  by (auto simp: family_ok_def)

lemma started_process_threads:
  "Some x \<in> set (pr_threads (started_process pid parent creds tid)) \<longleftrightarrow> x = tid"
  by (auto simp: started_process_def kernel_defs numeral_eq_Suc)

lemma record_ok_started: "record_ok (started_process pid parent creds tid)"
  by (simp add: record_ok_def started_process_def process_record_new_def standard_fds_def
      kernel_defs numeral_eq_Suc)

lemma links_populate:
  assumes l: "links P T" and fresh: "P pid = None" "T tid = None"
    and parent: "pid = INIT \<longleftrightarrow> parent = None"
      "\<And>q. parent = Some q \<Longrightarrow> \<exists>s. P q = Some s \<and> pr_state s = P_Running"
      "pid \<noteq> INIT \<Longrightarrow> \<exists>s. P INIT = Some s"
  shows "links (P(pid \<mapsto> started_process pid parent creds tid))
    (T(tid \<mapsto> ready_thread tid (Some pid) User_Thread))"
proof -
  let ?r = "started_process pid parent creds tid" and ?th = "ready_thread tid (Some pid) User_Thread"
  have r: "pr_id ?r = pid" "pr_parent ?r = parent" "pr_state ?r = P_Running"
    by (simp_all add: started_process_def process_record_new_def)
  have th: "th_id ?th = tid" "th_process ?th = Some pid" "th_kind ?th = User_Thread" "th_state ?th = T_Ready"
    by (simp_all add: ready_thread_def thread_new_def)
  have fam: "family_ok (P(pid \<mapsto> ?r)) pid ?r"
    using parent fresh(1) r by (auto simp: family_ok_def)
  have own: "owner_ok (P(pid \<mapsto> ?r)) ?th"
    using th r by (simp add: owner_ok_def started_process_threads)
  show ?thesis
  proof (rule linksI, goal_cases)
    case (1 p r')
    then show ?case using r l by (auto split: if_splits dest: linksD_process(1))
  next
    case (2 p r')
    then show ?case using l by (auto simp: record_ok_started split: if_splits dest: linksD_process(2))
  next
    case (3 p r')
    then show ?case using fam family_ok_fresh [OF linksD_process(3) [OF l] fresh(1)]
      by (auto split: if_splits)
  next
    case (4 p r' x)
    show ?case
    proof (cases "p = pid")
      case True
      with 4 have "x = tid" using started_process_threads [of x pid parent creds tid] by simp
      with True th(2) show ?thesis by simp
    next
      case False
      with 4 linksD_process(4) [OF l] fresh(2) show ?thesis by fastforce
    qed
  next
    case (5 x th')
    then show ?case using th l by (auto split: if_splits dest: linksD_thread(1))
  next
    case (6 x th')
    then show ?case using own owner_ok_fresh [OF linksD_thread(2) [OF l] fresh(1)]
      by (auto split: if_splits)
  qed
qed

lemma links_kernel_thread:
  assumes l: "links P T" and fresh: "T tid = None"
  shows "links P (T(tid \<mapsto> ready_thread tid None Kernel_Thread))"
proof (rule linksI, goal_cases)
  case (4 p r x)
  with linksD_process(4) [OF l] fresh show ?case by fastforce
next
  case (5 x th)
  then show ?case
    using l by (auto simp: ready_thread_def thread_new_def split: if_splits dest: linksD_thread(1))
next
  case (6 x th)
  then show ?case
    using l by (auto simp: ready_thread_def thread_new_def owner_ok_def split: if_splits
        dest: linksD_thread(2))
qed (use linksD_process [OF l] in auto)

lemma exited_self_props:
  "pr_id (exited_self pid status r) = pr_id r" "pr_state (exited_self pid status r) = P_Zombie"
  "pr_threads (exited_self pid status r) = pr_threads r"
  "pr_parent (exited_self pid status r) = (if pr_parent r = Some pid then Some INIT else pr_parent r)"
  "record_ok r \<Longrightarrow> record_ok (exited_self pid status r)"
  by (simp_all add: exited_self_def exited_process_def record_ok_def)

lemma reparent_map_SomeD:
  assumes "reparent_map pid P q = Some s"
  obtains s0 where "P q = Some s0" "pr_id s = pr_id s0" "pr_threads s = pr_threads s0"
    "pr_state s = pr_state s0" "record_ok s0 \<Longrightarrow> record_ok s"
    "pr_parent s = (if pr_parent s0 = Some pid then Some INIT else pr_parent s0)"
  using assms
  by (cases "P q") (auto simp: reparent_map_def reparent_child_of_def record_ok_def split: if_splits)

lemma links_exit:
  assumes l: "links P T" and p: "P pid = Some r" "pr_state r = P_Running" "pid \<noteq> INIT"
  shows "links ((reparent_map pid P)(pid \<mapsto> exited_self pid status r)) (exit_threads_map pid T)"
proof -
  let ?P = "(reparent_map pid P)(pid \<mapsto> exited_self pid status r)"
  let ?T = "exit_threads_map pid T"
  note self = exited_self_props [where pid = pid and status = status and r = r]
  have P: "\<exists>s0. P q = Some s0 \<and> pr_id s = pr_id s0 \<and> pr_threads s = pr_threads s0 \<and>
      (record_ok s0 \<longrightarrow> record_ok s) \<and> (q \<noteq> pid \<longrightarrow> pr_state s = pr_state s0) \<and>
      pr_parent s = (if pr_parent s0 = Some pid then Some INIT else pr_parent s0)"
    if s: "?P q = Some s" for q s
  proof (cases "q = pid")
    case True
    with s have "s = exited_self pid status r" by simp
    with True p(1) self show ?thesis by blast
  next
    case False
    with s have "reparent_map pid P q = Some s" by simp
    then show ?thesis by (rule reparent_map_SomeD) blast
  qed
  have P': "\<exists>s. ?P q = Some s \<and> pr_threads s = pr_threads s0 \<and>
      pr_state s = (if q = pid then P_Zombie else pr_state s0)"
    if "P q = Some s0" for q s0
    using that p(1) self by (auto simp: reparent_map_def reparent_child_of_def)
  have T: "\<exists>th0. T x = Some th0 \<and> th_id th = th_id th0 \<and> th_process th = th_process th0 \<and>
      th_kind th = th_kind th0 \<and>
      th_state th = (if th_process th0 = Some pid then T_Exited else th_state th0)"
    if "?T x = Some th" for x th
    using that by (auto simp: exit_threads_map_def exit_thread_of_def)
  have init: "\<exists>s. ?P INIT = Some s \<and> pr_state s = P_Running"
  proof -
    from linksD_process(3) [OF l p(1)] obtain s where s: "P INIT = Some s"
      by (auto simp: family_ok_def)
    with linksD_process(3) [OF l s] have "pr_state s = P_Running" by (simp add: family_ok_def)
    with P' [OF s] p(3) show ?thesis by auto
  qed
  show ?thesis
  proof (rule linksI, goal_cases)
    case (1 q s)
    from P [OF 1] linksD_process(1) [OF l] show ?case by metis
  next
    case (2 q s)
    from P [OF 2] linksD_process(2) [OF l] show ?case by metis
  next
    case (3 q s)
    from P [OF 3] obtain s0 where s0: "P q = Some s0" "q \<noteq> pid \<longrightarrow> pr_state s = pr_state s0"
      "pr_parent s = (if pr_parent s0 = Some pid then Some INIT else pr_parent s0)" by blast
    from linksD_process(3) [OF l s0(1)] have f: "family_ok P q s0" .
    then have root: "(q = INIT \<longleftrightarrow> pr_parent s = None) \<and> (q = INIT \<longrightarrow> pr_state s = P_Running)"
      using s0(2,3) p(3) by (auto simp: family_ok_def)
    have "\<exists>v. ?P u = Some v \<and> pr_state v = P_Running" if "pr_parent s = Some u" for u
    proof (cases "pr_parent s0 = Some pid")
      case True
      with that s0(3) init show ?thesis by simp
    next
      case False
      with that s0(3) f obtain v where v: "P u = Some v" "pr_state v = P_Running" "u \<noteq> pid"
        by (auto simp: family_ok_def)
      with P' [OF v(1)] show ?thesis by auto
    qed
    with root init show ?case unfolding family_ok_def by blast
  next
    case (4 q s x)
    from P [OF 4(1)] 4(2) linksD_process(4) [OF l]
    obtain th where "T x = Some th" "th_process th = Some q" by metis
    then show ?case by (auto simp: exit_threads_map_def exit_thread_of_def)
  next
    case (5 x th)
    from T [OF 5] linksD_thread(1) [OF l] show ?case by metis
  next
    case (6 x th)
    from T [OF 6] obtain th0 where th0: "T x = Some th0" "th_id th = th_id th0"
      "th_process th = th_process th0" "th_kind th = th_kind th0"
      "th_state th = (if th_process th0 = Some pid then T_Exited else th_state th0)" by blast
    from linksD_thread(2) [OF l th0(1)] have o: "owner_ok P th0" .
    show ?case
    proof (cases "th_process th0")
      case None
      with o th0 show ?thesis by (simp add: owner_ok_def)
    next
      case (Some q)
      with o obtain s0 where s0: "P q = Some s0" "Some (th_id th0) \<in> set (pr_threads s0)"
        "pr_state s0 = P_Zombie \<longrightarrow> th_state th0 = T_Exited"
        "th_state th0 = T_Exited \<longrightarrow> pr_state s0 = P_Zombie \<or> q = INIT" "th_kind th0 = User_Thread"
        by (auto simp: owner_ok_def)
      from P' [OF s0(1)] obtain s where "?P q = Some s" "pr_threads s = pr_threads s0"
        "pr_state s = (if q = pid then P_Zombie else pr_state s0)" by blast
      with s0 th0 Some show ?thesis by (auto simp: owner_ok_def)
    qed
  qed
qed

lemma links_reap:
  assumes l: "links P T" and p: "P pid = Some r" "pr_state r = P_Zombie"
  shows "links (P(pid := None)) (T |` (- {tid. Some tid \<in> set (pr_threads r)}))"
proof -
  let ?P = "P(pid := None)" and ?T = "T |` (- {tid. Some tid \<in> set (pr_threads r)})"
  have not_parent: "pr_parent s \<noteq> Some pid" if "P q = Some s" for q s
    using linksD_process(3) [OF l that] p by (auto simp: family_ok_def)
  have not_init: "pid \<noteq> INIT"
    using linksD_process(3) [OF l p(1)] p(2) by (auto simp: family_ok_def)
  have mine: "th_process th = Some pid" if "Some x \<in> set (pr_threads r)" "T x = Some th" for x th
    using linksD_process(4) [OF l p(1) that(1)] that(2) by simp
  show ?thesis
  proof (rule linksI, goal_cases)
    case (1 q s)
    then show ?case using linksD_process(1) [OF l] by (auto split: if_splits)
  next
    case (2 q s)
    then show ?case using linksD_process(2) [OF l] by (auto split: if_splits)
  next
    case (3 q s)
    then have s: "P q = Some s" by (simp split: if_splits)
    from linksD_process(3) [OF l s] not_parent [OF s] not_init show ?case
      by (auto simp: family_ok_def)
  next
    case (4 q s x)
    then have s: "P q = Some s" and q: "q \<noteq> pid" by (simp_all split: if_splits)
    from linksD_process(4) [OF l s 4(2)] obtain th where th: "T x = Some th" "th_process th = Some q"
      by blast
    with mine [of x th] q have "Some x \<notin> set (pr_threads r)" by auto
    with th show ?case by simp
  next
    case (5 x th)
    then show ?case using linksD_thread(1) [OF l] by (auto simp: restrict_map_def split: if_splits)
  next
    case (6 x th)
    then have th: "T x = Some th" "Some x \<notin> set (pr_threads r)"
      by (auto simp: restrict_map_def split: if_splits)
    from linksD_thread [OF l th(1)] th(2) p show ?case
      by (auto simp: owner_ok_def split: option.splits)
  qed
qed

section \<open>Every operation keeps the invariant\<close>

lemma INIT_slot: "process_id_slot INIT = Some 0" "unpack_generation (process_id_get INIT) = 0"
  by (simp_all add: process_id_slot_def unpack_slot_def INIT_def kernel_defs unpack_generation_def)

lemma process_id_new_INIT: "process_id_new 0 0 = INIT"
  by (simp add: process_id_new_def pack_id_def INIT_def)

lemma table_invD:
  assumes "table_inv t"
  shows "table_wf t" "links (pmap t) (tmap t)" "pt_process_generations t ! 0 = 0"
  using assms by (simp_all add: table_inv_def)

lemma create_init_inv [inv_intros]:
  assumes inv: "table_inv t" and x: "create_init t = (x, t')"
  shows "table_inv t'"
proof (cases "is_some (pt_processes t ! 0)")
  case True
  with x inv show ?thesis by (simp add: create_init_populate)
next
  case False
  then have none: "pt_processes t ! 0 = None" by simp
  from x False have pop: "populate 0 None BOOTSTRAP t = (x, t')" by (simp add: create_init_populate)
  have zero: "(0::nat) < 32" by simp
  from table_invD(1) [OF inv] zero none pop show ?thesis
  proof (cases rule: populate_cases)
    case (1 e)
    with inv show ?thesis by simp
  next
    case (2 pid tid)
    have "pid = INIT" using 2(2) table_invD(3) [OF inv] by (simp add: process_id_new_INIT)
    then have "links ((pmap t)(pid \<mapsto> started_process pid None BOOTSTRAP tid))
         ((tmap t)(tid \<mapsto> ready_thread tid (Some pid) User_Thread))"
      by (intro links_populate table_invD(2) [OF inv] 2(3,4)) simp_all
    with 2(5) table_invD(3) [OF inv] show ?thesis by (blast intro: table_invI)
  qed
qed

lemma spawn_child_inv [inv_intros]:
  assumes inv: "table_inv t" and x: "spawn_child parent creds t = (x, t')"
  shows "table_inv t'"
proof -
  consider "t' = t" | s slot where "pmap t parent = Some s" "pr_state s = P_Running"
      "position is_none (pt_processes t) = Some slot"
      "populate slot (Some parent) creds t = (x, t')"
    using x by (auto simp: spawn_child_populate split: option.splits if_splits)
  then show ?thesis
  proof cases
    case 1
    with inv show ?thesis by simp
  next
    case (2 s slot)
    have slot: "slot < 32" "pt_processes t ! slot = None"
      using position_SomeD [OF 2(3)] table_lengths(1) [OF table_invD(1) [OF inv]]
      by (auto simp: is_none_iff)
    from table_invD(1) [OF inv] slot 2(4) show ?thesis
    proof (cases rule: populate_cases)
      case (1 e)
      with inv show ?thesis by simp
    next
      case new: (2 pid tid)
      obtain root where root: "pmap t INIT = Some root"
        using linksD_process(3) [OF table_invD(2) [OF inv] 2(1)] by (auto simp: family_ok_def)
      with new(3) have "pid \<noteq> INIT" by auto
      then have "links ((pmap t)(pid \<mapsto> started_process pid (Some parent) creds tid))
           ((tmap t)(tid \<mapsto> ready_thread tid (Some pid) User_Thread))"
        using 2(1,2) root by (intro links_populate table_invD(2) [OF inv] new(3,4)) simp_all
      with new(5) table_invD(3) [OF inv] show ?thesis by (blast intro: table_invI)
    qed
  qed
qed

lemma spawn_kernel_thread_inv [inv_intros]:
  assumes inv: "table_inv t" and x: "spawn_kernel_thread t = (x, t')"
  shows "table_inv t'"
  using table_invD(1) [OF inv] x
proof (cases rule: spawn_kernel_thread_cases)
  case 1
  with inv show ?thesis by simp
next
  case (2 tid)
  from links_kernel_thread [OF table_invD(2) [OF inv] 2(2)] 2(3) table_invD(3) [OF inv]
  show ?thesis by (blast intro: table_invI)
qed

lemma process_exit_inv [inv_intros]:
  assumes inv: "table_inv t" and x: "process_exit pid status t = (x, t')"
  shows "table_inv t'"
  using table_invD(1) [OF inv] x
proof (cases rule: process_exit_cases)
  case (1 e)
  with inv show ?thesis by simp
next
  case (2 r)
  from links_exit [OF table_invD(2) [OF inv] 2(3,4,2)] 2(5) table_invD(3) [OF inv]
  show ?thesis by (blast intro: table_invI)
qed

lemma wait_candidate_zombie:
  assumes wf: "table_wf t" and c: "wait_candidate parent child t = Ok pid"
  obtains r where "pmap t pid = Some r" "pr_parent r = Some parent" "pr_state r = P_Zombie"
    "child = None \<or> child = Some pid"
proof (cases child)
  case None
  with c obtain r where f: "List.find (\<lambda>r. pr_parent r = Some parent \<and> pr_state r = P_Zombie)
      (flatten (pt_processes t)) = Some r" and pid: "pid = pr_id r"
    by (auto simp: wait_candidate_def)
  from find_flattenD [OF f] have r: "pr_parent r = Some parent" "pr_state r = P_Zombie"
    "Some r \<in> set (pt_processes t)" by auto
  then obtain i where "i < length (pt_processes t)" "pt_processes t ! i = Some r"
    by (auto simp: Some_in_set_iff)
  then have "pmap t (pr_id r) = Some r"
    using wf ptab.get_entry [of t i r] by (simp add: table_wf_def slots_wf_def)
  with r pid that None show thesis by blast
next
  case (Some q)
  with c show thesis
    by (auto simp: wait_candidate_def process_get_map and_then_Inr_iff split: if_splits intro: that)
qed

lemma process_wait_cases:
  assumes inv: "table_inv t" and x: "process_wait parent child t = (x, t')"
  obtains e where "x = Err e" "t' = t" "e \<noteq> Pe_GenerationExhausted"
  | "x = Err Pe_GenerationExhausted"
  | pid r status i g where "x = Ok (pid, status)" "pmap t pid = Some r" "pr_parent r = Some parent"
      "pr_state r = P_Zombie" "pr_exit_status r = Some status" "child = None \<or> child = Some pid"
      "table_wf t'" "pmap t' = (pmap t)(pid := None)"
      "tmap t' = tmap t |` (- {tid. Some tid \<in> set (pr_threads r)})"
      "process_id_slot pid = Some i" "i < 32"
      "checked_add (pt_process_generations t ! i) 1 = Some g"
      "pt_process_generations t' = (pt_process_generations t)[i := g]"
      "gens_le (pt_thread_generations t) (pt_thread_generations t')"
proof -
  note wf = table_invD(1) [OF inv] and l = table_invD(2) [OF inv]
  consider "pmap t parent = None" | e where "wait_candidate parent child t = Err e"
    | s pid where "pmap t parent = Some s" "wait_candidate parent child t = Ok pid"
    by (cases "pmap t parent"; cases "wait_candidate parent child t") auto
  then show thesis
  proof cases
    case 1
    with x that(1) [of Pe_InvalidId] show thesis by (simp add: process_wait_def process_get_map)
  next
    case (2 e)
    have "e \<noteq> Pe_GenerationExhausted"
      using 2 by (auto simp: wait_candidate_def process_get_map and_then_def ok_or_def
          split: option.splits if_splits)
    moreover have "(\<exists>e. x = Err e \<and> e \<noteq> Pe_GenerationExhausted) \<and> t' = t"
      using x 2 calculation by (cases "pmap t parent") (auto simp: process_wait_def process_get_map)
    ultimately show thesis using that(1) by blast
  next
    case (3 s pid)
    from wait_candidate_zombie [OF wf 3(2)] obtain r where
      r: "pmap t pid = Some r" "pr_parent r = Some parent" "pr_state r = P_Zombie"
        "child = None \<or> child = Some pid" .
    from linksD_process(2) [OF l r(1)] r(3) obtain status where
      st: "pr_exit_status r = Some status" and dist: "distinct (flatten (pr_threads r))"
      by (auto simp: record_ok_def)
    have live: "\<forall>tid. Some tid \<in> set (pr_threads r) \<longrightarrow> (\<exists>th. tmap t tid = Some th)"
      using linksD_process(4) [OF l r(1)] by blast
    obtain y t1 where y: "reap pid t = (y, t1)" by fastforce
    have x': "(x, t') = try_st (y, t1) (\<lambda>_ t1. (Ok (pid, status), t1))"
      using x 3 r(1) st y by (simp add: process_wait_def process_get_map)
    from wf r(1) dist live y show thesis
    proof (cases rule: reap_cases)
      case 1
      with r(3) show thesis by simp
    next
      case 2
      with x' that(2) show thesis by simp
    next
      case (3 i g)
      with x' have "x = Ok (pid, status)" "t' = t1" by simp_all
      with 3 r st that(3) show thesis by blast
    qed
  qed
qed

lemma process_wait_inv [inv_intros]:
  assumes inv: "table_inv t" and x: "process_wait parent child t = (x, t')"
    and ex: "x \<noteq> Err Pe_GenerationExhausted"
  shows "table_inv t'"
  using inv x
proof (cases rule: process_wait_cases)
  case (1 e)
  with inv show ?thesis by simp
next
  case 2
  with ex show ?thesis by simp
next
  case (3 pid r status i g)
  note l = table_invD(2) [OF inv]
  have "pid \<noteq> INIT"
    using linksD_process(3) [OF l 3(2)] 3(4) by (auto simp: family_ok_def)
  have "i \<noteq> 0"
  proof
    assume "i = 0"
    with 3(10) have "unpack_slot MAX_PROCESSES (process_id_get pid) = Some 0"
      by (simp add: process_id_slot_def)
    moreover from ptab.get_SomeD [OF 3(2)] this have
      "pt_process_generations t ! 0 = unpack_generation (process_id_get pid)"
      by (metis option.inject)
    ultimately have "pid = INIT"
      using ptab.slot_id_unique [of pid 0 t INIT] table_invD(3) [OF inv]
      by (simp add: process_id_new_INIT [symmetric] process_id_new_def)
    with \<open>pid \<noteq> INIT\<close> show False by simp
  qed
  with links_reap [OF l 3(2,4)] 3 table_invD(3) [OF inv] show ?thesis
    by (simp add: table_inv_def)
qed

lemma open_fd_inv [inv_intros]:
  assumes inv: "table_inv t" and x: "open_fd p f a b t = (x, t')"
  shows "table_inv t'"
  using x unfolding open_fd_def
proof (cases rule: try_res_cases)
  case (2 r)
  show ?thesis
  proof (cases "pr_state r = P_Running")
    case True
    with 2(2) show ?thesis
      by (auto simp: Let_def split: option.split intro: process_mut_inv [OF inv])
  qed (use 2 inv in simp)
qed (use inv in simp)

lemma fd_ops_inv [inv_intros]:
  assumes "table_inv t"
  shows "close_fd p fd t = (y, t') \<Longrightarrow> table_inv t'"
    "set_close_on_exec p fd c t = (y, t') \<Longrightarrow> table_inv t'"
    "close_on_exec p t = (z, t') \<Longrightarrow> table_inv t'"
    "raise_signal p n t = (y, t') \<Longrightarrow> table_inv t'"
    "raise_event p n t = (y, t') \<Longrightarrow> table_inv t'"
  using assms
  by (auto simp: close_fd_def set_close_on_exec_def close_on_exec_def raise_signal_def
      raise_event_def Let_def split: if_splits option.splits
      elim!: try_res_cases elim: process_mut_inv [rotated])

lemma thread_ops_inv [inv_intros]:
  assumes "table_inv t"
  shows "account_thread tid n t = (x, t') \<Longrightarrow> table_inv t'"
    "block_thread tid c t = (x, t') \<Longrightarrow> table_inv t'"
    "wake_thread tid t = (x, t') \<Longrightarrow> table_inv t'"
    "preempt_thread tid t = (x, t') \<Longrightarrow> table_inv t'"
  using assms
  by (auto simp: account_thread_def block_thread_def wake_thread_def preempt_thread_def Let_def
      elim: thread_mut_inv [rotated])

end
