(* ===== verification/Process_Steps.thy ===== *)
theory Process_Steps
  imports Process_Invariant
begin

text \<open>
  The process table as a transition system: the effect of a context switch, the step relation
  with one rule per operation, and the properties of the table over all its reachable states:
  creation, exit, waiting and the lifetime of ids.
\<close>

section \<open>Context switches\<close>

definition switched_in :: "thread_record \<Rightarrow> thread_record" where
  "switched_in th =
     th\<lparr>th_state := T_Running, th_context_switches := saturating_add (th_context_switches th) 1\<rparr>"

definition switch_map ::
  "thread_id option \<Rightarrow> thread_id \<Rightarrow> (thread_id \<Rightarrow> thread_record option) \<Rightarrow> thread_id \<Rightarrow> thread_record option"
where
  "switch_map from to T =
     (case from of
        None \<Rightarrow> T
      | Some f \<Rightarrow> T(f := map_option (\<lambda>th. th\<lparr>th_state := T_Ready\<rparr>) (T f)))
     (to := map_option switched_in (T to))"

lemma switch_to_cases:
  assumes wf: "table_wf t" and x: "switch_to from to t = (x, t')"
  obtains e where "x = Err e" "t' = t"
  | th where "x = Ok \<lparr>cx_from = from, cx_to = to, cx_to_kind = th_kind th\<rparr>" "from \<noteq> Some to"
      "tmap t to = Some th" "th_state th = T_Ready"
      "\<And>f. from = Some f \<Longrightarrow> \<exists>fr. tmap t f = Some fr \<and> th_state fr = T_Running"
      "tab_upd t (pmap t) (switch_map from to (tmap t)) t'"
proof -
  let ?in = "\<lambda>next. (Ok () :: process_error + unit, next\<lparr>th_state := T_Running,
                th_context_switches := saturating_add (th_context_switches next) 1\<rparr>)"
  consider "(\<exists>e. x = Err e) \<and> t' = t"
    | th where "from = None" "tmap t to = Some th" "th_state th = T_Ready"
    | f fr th where "from = Some f" "f \<noteq> to" "tmap t f = Some fr" "th_state fr = T_Running"
        "tmap t to = Some th" "th_state th = T_Ready"
  proof (cases "from")
    case None
    then show thesis
      using x that(1,2) by (cases "tmap t to") (auto simp: switch_to_def thread_get_map Let_def split: if_splits)
  next
    case (Some f)
    consider "f = to" | "f \<noteq> to" "tmap t f = None" | fr where "f \<noteq> to" "tmap t f = Some fr" by fastforce
    then show thesis
      using Some x that(1,3)
      by cases ((cases "tmap t to")?, auto simp: switch_to_def thread_get_map Let_def split: if_splits)+
  qed
  then show thesis
  proof cases
    case 1
    with that(1) show thesis by blast
  next
    case (2 th)
    from thread_mut_ok [OF wf 2(2), of ?in] obtain t1 where
      t1: "thread_mut to ?in t = (Ok (), t1)" "tab_upd t (pmap t) ((tmap t)(to \<mapsto> switched_in th)) t1"
      by (auto simp: switched_in_def)
    with x 2 have "x = Ok \<lparr>cx_from = from, cx_to = to, cx_to_kind = th_kind th\<rparr>" "t' = t1"
      by (simp_all add: switch_to_def thread_get_map Let_def)
    with 2 t1(2) show thesis by (intro that(2)) (auto simp: switch_map_def)
  next
    case (3 f fr th)
    from set_thread_state_ok [OF wf 3(3)] obtain t1 where
      t1: "set_thread_state f T_Ready t = (Ok (), t1)"
      and u1: "tab_upd t (pmap t) ((tmap t)(f \<mapsto> fr\<lparr>th_state := T_Ready\<rparr>)) t1" .
    then have wf1: "table_wf t1" and m1: "tmap t1 to = Some th"
      using 3 by (simp_all add: tab_upd_def)
    from thread_mut_ok [OF wf1 m1, of ?in] obtain t2 where
      t2: "thread_mut to ?in t1 = (Ok (), t2)" "tab_upd t1 (pmap t1) ((tmap t1)(to \<mapsto> switched_in th)) t2"
      by (auto simp: switched_in_def)
    with x 3 t1 have "x = Ok \<lparr>cx_from = from, cx_to = to, cx_to_kind = th_kind th\<rparr>" "t' = t2"
      by (simp_all add: switch_to_def thread_get_map Let_def)
    moreover have "tab_upd t (pmap t) (switch_map from to (tmap t)) t2"
      using u1 t2(2) 3 by (simp add: tab_upd_def switch_map_def)
    ultimately show thesis using 3 by (intro that(2)) auto
  qed
qed

lemma links_switch:
  assumes l: "links P T" and to: "T to = Some th" "th_state th = T_Ready" "from \<noteq> Some to"
    and "\<And>f. from = Some f \<Longrightarrow> \<exists>fr. T f = Some fr \<and> th_state fr = T_Running"
  shows "links P (switch_map from to T)"
proof (cases "from")
  case None
  then show ?thesis
    using links_upd_thread [OF l to(1), of "switched_in th"] linksD_thread(1) [OF l to(1)] to
    by (simp add: switch_map_def switched_in_def)
next
  case (Some f)
  with assms(5) obtain fr where fr: "T f = Some fr" "th_state fr = T_Running" by blast
  have "links P (T(f \<mapsto> fr\<lparr>th_state := T_Ready\<rparr>))"
    using links_upd_thread [OF l fr(1), of "fr\<lparr>th_state := T_Ready\<rparr>"] linksD_thread(1) [OF l fr(1)] fr
    by simp
  from links_upd_thread [OF this, of to th "switched_in th"] linksD_thread(1) [OF l to(1)] to Some fr
  show ?thesis by (simp add: switch_map_def switched_in_def)
qed

lemma switch_to_inv [inv_intros]:
  assumes inv: "table_inv t" and x: "switch_to from to t = (x, t')"
  shows "table_inv t'"
  using table_invD(1) [OF inv] x
proof (cases rule: switch_to_cases)
  case (1 e)
  with inv show ?thesis by simp
next
  case (2 th)
  from links_switch [OF table_invD(2) [OF inv] 2(3,4,2,5)] 2(6) table_invD(3) [OF inv]
  show ?thesis by (blast intro: table_invI)
qed

section \<open>Steps\<close>

text \<open>
  One rule per operation.  The rule for \<open>wait\<close> leaves out the exhaustion of a 16-bit generation,
  after which the code itself leaves the table inconsistent.
\<close>

inductive table_step :: "process_table \<Rightarrow> process_table \<Rightarrow> bool" where
  ts_create_init: "create_init t = (x, t') \<Longrightarrow> table_step t t'"
| ts_spawn_child: "spawn_child parent creds t = (x, t') \<Longrightarrow> table_step t t'"
| ts_spawn_kernel_thread: "spawn_kernel_thread t = (y, t') \<Longrightarrow> table_step t t'"
| ts_exit: "process_exit p status t = (u, t') \<Longrightarrow> table_step t t'"
| ts_wait: "process_wait p child t = (v, t') \<Longrightarrow> v \<noteq> Err Pe_GenerationExhausted \<Longrightarrow> table_step t t'"
| ts_open_fd: "open_fd p f a b t = (d, t') \<Longrightarrow> table_step t t'"
| ts_close_fd: "close_fd p fd t = (u, t') \<Longrightarrow> table_step t t'"
| ts_set_close_on_exec: "set_close_on_exec p fd a t = (u, t') \<Longrightarrow> table_step t t'"
| ts_close_on_exec: "close_on_exec p t = (n, t') \<Longrightarrow> table_step t t'"
| ts_raise_signal: "raise_signal p s t = (u, t') \<Longrightarrow> table_step t t'"
| ts_raise_event: "raise_event p s t = (u, t') \<Longrightarrow> table_step t t'"
| ts_account: "account_thread tid ticks t = (u, t') \<Longrightarrow> table_step t t'"
| ts_block: "block_thread tid a t = (u, t') \<Longrightarrow> table_step t t'"
| ts_wake: "wake_thread tid t = (u, t') \<Longrightarrow> table_step t t'"
| ts_preempt: "preempt_thread tid t = (u, t') \<Longrightarrow> table_step t t'"
| ts_switch: "switch_to from to t = (c, t') \<Longrightarrow> table_step t t'"

lemma table_step_inv: "table_step t t' \<Longrightarrow> table_inv t \<Longrightarrow> table_inv t'"
  by (induction rule: table_step.induct) (auto intro: inv_intros)

interpretation tabsys: step_invariant "\<lambda>t. t = process_table_new" table_step table_inv
  by unfold_locales (auto intro: table_inv_new table_step_inv)

section \<open>Generations over steps\<close>

lemma try_st_keeps:
  assumes "pt_process_generations (snd m) = g"
    "\<And>x s. pt_process_generations s = g \<Longrightarrow> pt_process_generations (snd (f x s)) = g"
  shows "pt_process_generations (snd (try_st m f)) = g"
  using assms by (auto simp: try_st_def split: prod.split sum.split)

lemma try_res_keeps:
  assumes "pt_process_generations s = g" "\<And>x. pt_process_generations (snd (f x)) = g"
  shows "pt_process_generations (snd (try_res r s f)) = g"
  using assms by (simp add: try_res_def split: sum.split)

lemma process_mut_gens:
  "pt_process_generations (snd (process_mut p body t)) = pt_process_generations t"
  by (simp add: process_mut_def split: option.split prod.split)

lemma thread_mut_gens:
  "pt_process_generations (snd (thread_mut tid body t)) = pt_process_generations t"
  by (simp add: thread_mut_def split: option.split prod.split)

lemma allocate_thread_gens:
  "pt_process_generations (snd (allocate_thread p k t)) = pt_process_generations t"
  by (auto simp: allocate_thread_def Let_def process_mut_gens split: option.split
      intro!: try_res_keeps try_st_keeps)

lemma populate_gens:
  "pt_process_generations (snd (populate slot parent creds t)) = pt_process_generations t"
proof -
  let ?p = "process_id_new slot (pt_process_generations t ! slot)"
  let ?t1 = "t\<lparr>pt_processes := (pt_processes t)[slot := Some (process_record_new ?p parent creds)]\<rparr>"
  have "pt_process_generations (snd (allocate_thread (Some ?p) User_Thread ?t1)) =
      pt_process_generations t"
    by (simp add: allocate_thread_gens)
  then show ?thesis
    by (auto simp: populate_def Let_def set_process_state_def set_thread_state_def
        process_mut_gens thread_mut_gens split: prod.split sum.split intro!: try_st_keeps)
qed

lemmas gens_simps = allocate_thread_gens process_mut_gens thread_mut_gens populate_gens

lemma creation_gens:
  "pt_process_generations (snd (create_init t)) = pt_process_generations t"
  "pt_process_generations (snd (spawn_child parent creds t)) = pt_process_generations t"
  by (simp_all add: create_init_populate spawn_child_populate gens_simps split: option.split)

lemma kernel_thread_gens:
  "pt_process_generations (snd (spawn_kernel_thread t)) = pt_process_generations t"
  unfolding spawn_kernel_thread_def set_thread_state_def
  by (intro try_st_keeps) (simp_all add: gens_simps)

lemma exit_gens:
  "pt_process_generations (snd (process_exit p status t)) = pt_process_generations t"
  by (auto simp: process_exit_def set_process_state_def Let_def gens_simps
      intro!: try_res_keeps try_st_keeps)

lemma fd_gens:
  "pt_process_generations (snd (open_fd p f a b t)) = pt_process_generations t"
  "pt_process_generations (snd (close_fd p fd t)) = pt_process_generations t"
  "pt_process_generations (snd (set_close_on_exec p fd a t)) = pt_process_generations t"
  by (auto simp: open_fd_def close_fd_def set_close_on_exec_def gens_simps intro!: try_res_keeps)

lemma flag_gens:
  "pt_process_generations (snd (close_on_exec p t)) = pt_process_generations t"
  "pt_process_generations (snd (raise_signal p s t)) = pt_process_generations t"
  "pt_process_generations (snd (raise_event p s t)) = pt_process_generations t"
  by (simp_all add: close_on_exec_def raise_signal_def raise_event_def gens_simps)

lemma thread_gens:
  "pt_process_generations (snd (account_thread tid ticks t)) = pt_process_generations t"
  "pt_process_generations (snd (block_thread tid a t)) = pt_process_generations t"
  "pt_process_generations (snd (wake_thread tid t)) = pt_process_generations t"
  "pt_process_generations (snd (preempt_thread tid t)) = pt_process_generations t"
  by (simp_all add: account_thread_def block_thread_def wake_thread_def preempt_thread_def gens_simps)

lemma switch_gens:
  "pt_process_generations (snd (switch_to from to t)) = pt_process_generations t"
  by (auto simp: switch_to_def set_thread_state_def Let_def gens_simps split: option.split
      intro!: try_res_keeps try_st_keeps)

lemmas step_gens = creation_gens kernel_thread_gens exit_gens fd_gens flag_gens thread_gens switch_gens

lemma process_wait_gens:
  assumes "table_inv t" "process_wait p child t = (x, t')" "x \<noteq> Err Pe_GenerationExhausted"
  shows "gens_le (pt_process_generations t) (pt_process_generations t')"
  using assms(1,2)
proof (cases rule: process_wait_cases)
  case (3 pid r status i g)
  then show ?thesis using gens_le_bump [of "pt_process_generations t" i g] by simp
qed (use assms(3) in auto)

lemma table_step_gens:
  assumes "table_step t t'" "table_inv t"
  shows "gens_le (pt_process_generations t) (pt_process_generations t')"
  using assms
proof cases
  case (ts_wait p child v)
  with assms(2) show ?thesis by (blast intro: process_wait_gens)
qed (metis step_gens snd_conv gens_le_refl)+

interpretation tabgens: step_monotone table_step
  "\<lambda>t t'. table_inv t \<longrightarrow>
     table_inv t' \<and> gens_le (pt_process_generations t) (pt_process_generations t')"
  by unfold_locales (auto intro: gens_le_trans table_step_gens table_step_inv)

text \<open>An id is spent when its slot has moved on to a later generation.\<close>

lemma spent_id_dead:
  assumes "process_id_slot pid = Some i" "i < 32" "length gs = 32"
    "unpack_generation (process_id_get pid) < gs ! i" "gens_le gs (pt_process_generations u)"
  shows "pmap u pid = None"
proof -
  from assms(2,3,5) have "gs ! i \<le> pt_process_generations u ! i" by (simp add: gens_le_def)
  with assms(4) have "pt_process_generations u ! i \<noteq> unpack_generation (process_id_get pid)" by auto
  then show ?thesis
    using ptab.get_stale [of pid i u] assms(1) by (simp add: process_id_slot_def)
qed

section \<open>A sample run\<close>

text \<open>
  The table after boot (\<open>demo_boot\<close>), after \<open>INIT\<close> has spawned a child (\<open>demo_child\<close>) and
  after the child has exited with status 7 (\<open>demo_zombie\<close>).
\<close>

definition demo_boot :: process_table where
  "demo_boot = snd (create_init process_table_new)"

definition demo_child :: process_table where
  "demo_child = snd (spawn_child INIT BOOTSTRAP demo_boot)"

definition demo_zombie :: process_table where
  "demo_zombie = snd (process_exit (ProcessId 2) 7 demo_child)"

lemmas table_eval =
  create_init_def spawn_child_def process_exit_def process_wait_def wait_candidate_def reap_def
  process_table_new_def allocate_thread_def kernel_defs process_id_new_def pack_id_def
  thread_id_new_def process_get_def thread_get_def process_mut_def thread_mut_def
  set_process_state_def set_thread_state_def process_id_slot_def thread_id_slot_def
  unpack_slot_def unpack_generation_def process_record_new_def INIT_def upd_replicate_0
  position_replicate Let_def exit_thread_of_def reparent_child_of_def started_process_def
  ready_thread_def thread_new_def exited_process_def checked_add_def

lemma demo_boot_run: "create_init process_table_new = (Ok (INIT, ThreadId 1), demo_boot)"
  by (simp add: demo_boot_def table_eval)

lemma demo_boot_eq:
  "demo_boot =
     \<lparr>pt_processes = Some (started_process INIT None BOOTSTRAP (ThreadId 1)) # replicate 31 None,
      pt_process_generations = replicate 32 0,
      pt_threads = Some (ready_thread (ThreadId 1) (Some INIT) User_Thread) # replicate 63 None,
      pt_thread_generations = replicate 64 0\<rparr>"
  by (simp add: demo_boot_def table_eval)

lemma demo_child_run: "spawn_child INIT BOOTSTRAP demo_boot = (Ok (ProcessId 2, ThreadId 2), demo_child)"
  by (simp add: demo_child_def demo_boot_eq table_eval)

lemma demo_child_eq:
  "demo_child =
     \<lparr>pt_processes = Some (started_process INIT None BOOTSTRAP (ThreadId 1)) #
        Some (started_process (ProcessId 2) (Some INIT) BOOTSTRAP (ThreadId 2)) # replicate 30 None,
      pt_process_generations = replicate 32 0,
      pt_threads = Some (ready_thread (ThreadId 1) (Some INIT) User_Thread) #
        Some (ready_thread (ThreadId 2) (Some (ProcessId 2)) User_Thread) # replicate 62 None,
      pt_thread_generations = replicate 64 0\<rparr>"
  by (simp add: demo_child_def demo_boot_eq table_eval)

lemma demo_zombie_run: "process_exit (ProcessId 2) 7 demo_child = (Ok (), demo_zombie)"
  by (simp add: demo_zombie_def demo_child_eq table_eval)

lemma demo_zombie_eq:
  "demo_zombie =
     \<lparr>pt_processes = Some (started_process INIT None BOOTSTRAP (ThreadId 1)) #
        Some (exited_process 7 (started_process (ProcessId 2) (Some INIT) BOOTSTRAP (ThreadId 2))) #
        replicate 30 None,
      pt_process_generations = replicate 32 0,
      pt_threads = Some (ready_thread (ThreadId 1) (Some INIT) User_Thread) #
        Some ((ready_thread (ThreadId 2) (Some (ProcessId 2)) User_Thread)\<lparr>th_state := T_Exited\<rparr>) #
        replicate 62 None,
      pt_thread_generations = replicate 64 0\<rparr>"
  by (simp add: demo_zombie_def demo_child_eq table_eval)

lemma demo_wait_run: "\<exists>t'. process_wait INIT None demo_zombie = (Ok (ProcessId 2, 7), t')"
  by (simp add: demo_zombie_eq table_eval)

lemma demo_reachable:
  "reachable (\<lambda>t. t = process_table_new) table_step demo_boot"
  "reachable (\<lambda>t. t = process_table_new) table_step demo_child"
  "reachable (\<lambda>t. t = process_table_new) table_step demo_zombie"
proof -
  have "reachable (\<lambda>t. t = process_table_new) table_step process_table_new"
    by (rule reach_init) simp
  from reach_step [of _ table_step, OF this ts_create_init [OF demo_boot_run]]
  show boot: "reachable (\<lambda>t. t = process_table_new) table_step demo_boot" .
  from reach_step [of _ table_step, OF boot ts_spawn_child [OF demo_child_run]]
  show child: "reachable (\<lambda>t. t = process_table_new) table_step demo_child" .
  from reach_step [of _ table_step, OF child ts_exit [OF demo_zombie_run]]
  show "reachable (\<lambda>t. t = process_table_new) table_step demo_zombie" .
qed

section \<open>Properties\<close>

lemma process_get_Ok: "process_get t p = Ok r \<longleftrightarrow> pmap t p = Some r"
  by (simp add: process_get_map)

lemma process_get_Err: "process_get t p = Err e \<longleftrightarrow> pmap t p = None \<and> e = Pe_InvalidId"
  by (auto simp: process_get_map)

lemma thread_get_Ok: "thread_get t p = Ok r \<longleftrightarrow> tmap t p = Some r"
  by (simp add: thread_get_map)



text \<open>
  Claim C20.  Exit.  A successful exit turns the process into a zombie that holds the status and
  no file descriptor, marks all its threads \<open>Exited\<close>, hands all its children to \<open>INIT\<close>, and
  leaves every other process as it was.  It fails, changing nothing, exactly for \<open>INIT\<close>, for an
  id that is not live and for a process that is not running.
\<close>

theorem exit_makes_zombie:
  assumes "reachable (\<lambda>t. t = process_table_new) table_step t"
  shows "case process_exit p status t of
      (Inl e, t') \<Rightarrow> t' = t \<and>
        (p = INIT \<or> process_state_of p t \<noteq> Ok P_Running)
    | (Inr _, t') \<Rightarrow>
        p \<noteq> INIT \<and> process_state_of p t = Ok P_Running \<and>
        (\<exists>r. process_get t' p = Ok r \<and> pr_state r = P_Zombie \<and>
           pr_exit_status r = Some status \<and> pr_fds r = replicate MAX_FDS None) \<and>
        (\<forall>tid th. thread_get t' tid = Ok th \<longrightarrow> th_process th = Some p \<longrightarrow> th_state th = T_Exited) \<and>
        (\<forall>q r. q \<noteq> p \<longrightarrow> process_get t q = Ok r \<longrightarrow>
           process_get t' q = Ok (if pr_parent r = Some p then r\<lparr>pr_parent := Some INIT\<rparr> else r)) \<and>
        (\<forall>q r. process_get t' q = Ok r \<longrightarrow> pr_parent r \<noteq> Some p)"
proof -
  have inv: "table_inv t" by (rule tabsys.reachable_inv [OF assms])
  obtain x t' where x: "process_exit p status t = (x, t')" by fastforce
  from table_invD(1) [OF inv] x show ?thesis
  proof (cases rule: process_exit_cases)
    case (1 e)
    then show ?thesis
      using x by (auto simp: process_state_of_def process_get_map)
  next
    case (2 r)
    have P: "pmap t' = (reparent_map p (pmap t))(p \<mapsto> exited_self p status r)"
      and T: "tmap t' = exit_threads_map p (tmap t)"
      using 2(5) by (simp_all add: tab_upd_def)
    have inv': "table_inv t'" using process_exit_inv [OF inv x] .
    have threads: "th_state th = T_Exited" if "thread_get t' tid = Ok th" "th_process th = Some p" for tid th
    proof -
      from that(1) have "tmap t' tid = Some th" by (simp add: thread_get_Ok)
      with T obtain th0 where "tmap t tid = Some th0"
        "th = (if th_process th0 = Some p then th0\<lparr>th_state := T_Exited\<rparr> else th0)"
        by (auto simp: exit_threads_map_def exit_thread_of_def)
      with that(2) show ?thesis by (auto split: if_splits)
    qed
    have orphan: "pr_parent s \<noteq> Some p" if "process_get t' q = Ok s" for q s
    proof
      assume "pr_parent s = Some p"
      with linksD_process(3) [OF table_invD(2) [OF inv'] that [unfolded process_get_Ok]] obtain s' where
        "pmap t' p = Some s'" "pr_state s' = P_Running" by (auto simp: family_ok_def)
      with P have "pr_state (exited_self p status r) = P_Running" by simp
      then show False by (simp add: exited_self_props)
    qed
    have zombie: "\<exists>r. process_get t' p = Ok r \<and> pr_state r = P_Zombie \<and>
        pr_exit_status r = Some status \<and> pr_fds r = replicate MAX_FDS None"
      using P by (simp add: process_get_map exited_self_def exited_process_def)
    have others: "process_get t' q =
        Ok (if pr_parent s = Some p then s\<lparr>pr_parent := Some INIT\<rparr> else s)"
      if "q \<noteq> p" "process_get t q = Ok s" for q s
      using that P by (simp add: process_get_map reparent_map_def reparent_child_of_def)
    have "process_state_of p t = Ok P_Running"
      using 2(3,4) by (simp add: process_state_of_def process_get_map)
    then show ?thesis
      unfolding x 2(1) prod.case sum.case using 2(2) zombie threads others orphan by blast
  qed
qed

theorem exit_makes_zombie_witness:
  "reachable (\<lambda>t. t = process_table_new) table_step demo_child \<and>
   process_exit (ProcessId 2) 7 demo_child = (Ok (), demo_zombie) \<and>
   (\<exists>r. process_get demo_zombie (ProcessId 2) = Ok r \<and> pr_state r = P_Zombie \<and>
      pr_exit_status r = Some 7)"
  using exit_makes_zombie [OF demo_reachable(2), of "ProcessId 2" 7] demo_reachable(2)
    demo_zombie_run by auto

text \<open>
  Claim C21.  Waiting.  A successful \<open>wait\<close> returns a zombie child of the caller (the named one,
  if one is named) with its exit status, removes it and its threads from the table and leaves
  every other process unchanged.
\<close>

theorem wait_reaps_zombie_child:
  assumes "reachable (\<lambda>t. t = process_table_new) table_step t"
    and "process_wait parent child t = (Ok (pid, status), t')"
  shows "(\<exists>r. process_get t pid = Ok r \<and> pr_parent r = Some parent \<and> pr_state r = P_Zombie \<and>
      pr_exit_status r = Some status) \<and>
    (child = None \<or> child = Some pid) \<and>
    process_get t' pid = Err Pe_InvalidId \<and>
    (\<forall>q. q \<noteq> pid \<longrightarrow> process_get t' q = process_get t q) \<and>
    (\<forall>tid th. thread_get t tid = Ok th \<longrightarrow>
       thread_get t' tid = (if th_process th = Some pid then Err Pe_InvalidId else Ok th))"
proof -
  have inv: "table_inv t" by (rule tabsys.reachable_inv [OF assms(1)])
  note l = table_invD(2) [OF inv]
  from inv assms(2) show ?thesis
  proof (cases rule: process_wait_cases)
    case (3 pid' r status' i g)
    have own: "th_process th = Some pid \<longleftrightarrow> Some tid \<in> set (pr_threads r)"
      if th: "tmap t tid = Some th" for tid th
    proof
      assume "th_process th = Some pid"
      with linksD_thread [OF l th] 3(1,2) show "Some tid \<in> set (pr_threads r)"
        by (auto simp: owner_ok_def)
    next
      assume "Some tid \<in> set (pr_threads r)"
      from linksD_process(4) [OF l 3(2) this] th 3(1) show "th_process th = Some pid" by simp
    qed
    from 3 own show ?thesis
      by (auto simp: process_get_map thread_get_map restrict_map_def)
  qed simp_all
qed

theorem wait_reaps_zombie_child_witness:
  "\<exists>t'. process_wait INIT None demo_zombie = (Ok (ProcessId 2, 7), t') \<and>
     process_get t' (ProcessId 2) = Err Pe_InvalidId \<and>
     process_get t' INIT = process_get demo_zombie INIT"
proof -
  obtain t' where w: "process_wait INIT None demo_zombie = (Ok (ProcessId 2, 7), t')"
    using demo_wait_run by blast
  have "INIT \<noteq> ProcessId 2" by (simp add: INIT_def)
  with w wait_reaps_zombie_child [OF demo_reachable(3) w] show ?thesis by blast
qed



lemma zombie_child_found:
  assumes wf: "table_wf t"
  shows "List.find (\<lambda>r. pr_parent r = Some parent \<and> pr_state r = P_Zombie) (flatten (pt_processes t)) = None \<longleftrightarrow>
    \<not> (\<exists>q r. pmap t q = Some r \<and> pr_parent r = Some parent \<and> pr_state r = P_Zombie)"
proof -
  have "(\<exists>q. pmap t q = Some r) \<longleftrightarrow> Some r \<in> set (pt_processes t)" for r
  proof
    assume "\<exists>q. pmap t q = Some r"
    then obtain q where "pmap t q = Some r" by blast
    from ptab.get_SomeD [OF this] table_lengths(1) [OF wf] show "Some r \<in> set (pt_processes t)"
      by (metis MAX_PROCESSES_def nth_mem)
  next
    assume "Some r \<in> set (pt_processes t)"
    then obtain i where "i < length (pt_processes t)" "pt_processes t ! i = Some r"
      by (auto simp: Some_in_set_iff)
    then show "\<exists>q. pmap t q = Some r"
      using wf ptab.get_entry [of t i r] by (auto simp: table_wf_def slots_wf_def)
  qed
  then show ?thesis by (auto simp: find_None_iff set_flatten)
qed



lemma fd_slot_new: "k < 32 \<Longrightarrow> fd_slot (fd_new k) = Some k"
  by (simp add: fd_slot_def fd_new_def kernel_defs word_less_nat_alt unat_of_nat take_bit_nat_eq_self)

lemma fd_slot_Some: "fd_slot fd = Some k \<Longrightarrow> fd = fd_new k \<and> k < 32"
  by (cases fd) (auto simp: fd_slot_def fd_new_def kernel_defs word_less_nat_alt split: if_splits)

lemma open_fd_running:
  assumes inv: "table_inv t" and r: "pmap t p = Some r" "pr_state r = P_Running"
    and k: "position is_none (pr_fds r) = Some k"
  obtains t' where "open_fd p f a b t = (Ok (fd_new k), t')" "table_inv t'" "k < 32"
    "pmap t' = (pmap t)(p \<mapsto> r\<lparr>pr_fds := (pr_fds r)[k := Some
        \<lparr>fe_open_file = f, fe_close_on_exec = False, fe_nonblocking = False,
         fe_readable = a, fe_writable = b\<rparr>]\<rparr>)"
proof -
  have len: "length (pr_fds r) = 32"
    using linksD_process(2) [OF table_invD(2) [OF inv] r(1)] by (simp add: record_ok_def kernel_defs)
  obtain x t' where x: "open_fd p f a b t = (x, t')" by fastforce
  let ?body = "\<lambda>r. case position is_none (pr_fds r) of
            None \<Rightarrow> (Err Pe_FdCapacity, r)
          | Some slot \<Rightarrow>
              (Ok (fd_new slot),
               r\<lparr>pr_fds := (pr_fds r)[slot := Some
                  \<lparr>fe_open_file = f, fe_close_on_exec = False, fe_nonblocking = False,
                   fe_readable = a, fe_writable = b\<rparr>]\<rparr>)"
  have m: "process_mut p ?body t = (x, t')"
    using x r by (simp add: open_fd_def process_get_map)
  have "pr_id (snd (?body r)) = pr_id r" for r by (simp split: option.split)
  from process_mut_cases [OF table_invD(1) [OF inv] this m] show thesis
  proof cases
    case 1
    with r(1) show thesis by simp
  next
    case (2 r1 r')
    with r(1) k have "x = Ok (fd_new k)" "r' = r\<lparr>pr_fds := (pr_fds r)[k := Some
        \<lparr>fe_open_file = f, fe_close_on_exec = False, fe_nonblocking = False,
         fe_readable = a, fe_writable = b\<rparr>]\<rparr>"
      by auto
    with x tab_updD(2) [OF 2(4)] open_fd_inv [OF inv x] position_lt [OF k] len show thesis
      by (intro that) simp_all
  qed
qed

lemma close_fd_open:
  assumes inv: "table_inv t" and r: "pmap t p = Some r" "k < 32" "pr_fds r ! k = Some entry"
  obtains t' where "close_fd p (fd_new k) t = (Ok (), t')"
    "pmap t' = (pmap t)(p \<mapsto> r\<lparr>pr_fds := (pr_fds r)[k := None]\<rparr>)"
proof -
  let ?body = "\<lambda>r. (case pr_fds r ! k of None \<Rightarrow> Err Pe_InvalidFd | Some _ \<Rightarrow> Ok (),
        r\<lparr>pr_fds := (pr_fds r)[k := None]\<rparr>)"
  from process_mut_ok [OF table_invD(1) [OF inv] r(1), of ?body] obtain t' where
    "process_mut p ?body t = (Ok (), t')"
    "tab_upd t ((pmap t)(p \<mapsto> r\<lparr>pr_fds := (pr_fds r)[k := None]\<rparr>)) (tmap t) t'"
    using r(3) by auto
  then show thesis
    by (intro that tab_updD(2)) (simp_all add: close_fd_def fd_slot_new r(2))
qed

text \<open>
  File descriptors.  For a running process \<open>open_fd\<close> takes the lowest free descriptor
  and fails with \<open>FdCapacity\<close> exactly when none is free; the new descriptor then reads back what
  was opened, every other descriptor of the process reads as before, and closing it makes it
  invalid again.
\<close>

theorem fd_open_close:
  assumes "reachable (\<lambda>t. t = process_table_new) table_step t"
    and "process_get t p = Ok r" "pr_state r = P_Running"
  shows "case position is_none (pr_fds r) of
      None \<Rightarrow> fst (open_fd p f a b t) = Err Pe_FdCapacity
    | Some k \<Rightarrow> \<exists>t' t''.
        open_fd p f a b t = (Ok (fd_new k), t') \<and>
        fd_info p (fd_new k) t' = Ok (f, False, False, a, b) \<and>
        (\<forall>fd. fd \<noteq> fd_new k \<longrightarrow> fd_info p fd t' = fd_info p fd t) \<and>
        close_fd p (fd_new k) t' = (Ok (), t'') \<and>
        fd_info p (fd_new k) t'' = Err Pe_InvalidFd"
proof (cases "position is_none (pr_fds r)")
  case None
  have inv: "table_inv t" by (rule tabsys.reachable_inv [OF assms(1)])
  from assms(2) have g: "pmap t p = Some r" by (simp add: process_get_Ok)
  let ?body = "\<lambda>r. case position is_none (pr_fds r) of
            None \<Rightarrow> (Err Pe_FdCapacity, r)
          | Some slot \<Rightarrow>
              (Ok (fd_new slot),
               r\<lparr>pr_fds := (pr_fds r)[slot := Some
                  \<lparr>fe_open_file = f, fe_close_on_exec = False, fe_nonblocking = False,
                   fe_readable = a, fe_writable = b\<rparr>]\<rparr>)"
  have "pr_id (snd (?body r)) = pr_id r" for r by (simp split: option.split)
  from process_mut_ok [where body = ?body, OF table_invD(1) [OF inv] g this] obtain t' where
    "process_mut p ?body t = (fst (?body r), t')" .
  with None have "fst (process_mut p ?body t) = Err Pe_FdCapacity" by simp
  with None g assms(3) show ?thesis by (simp add: open_fd_def process_get_map)
next
  case (Some k)
  have inv: "table_inv t" by (rule tabsys.reachable_inv [OF assms(1)])
  from assms(2) have g: "pmap t p = Some r" by (simp add: process_get_Ok)
  have len: "length (pr_fds r) = 32"
    using linksD_process(2) [OF table_invD(2) [OF inv] g] by (simp add: record_ok_def kernel_defs)
  let ?e = "\<lparr>fe_open_file = f, fe_close_on_exec = False, fe_nonblocking = False,
         fe_readable = a, fe_writable = b\<rparr>"
  from open_fd_running [OF inv g assms(3) Some] obtain t' where
    t': "open_fd p f a b t = (Ok (fd_new k), t')" "table_inv t'" "k < 32"
    "pmap t' = (pmap t)(p \<mapsto> r\<lparr>pr_fds := (pr_fds r)[k := Some ?e]\<rparr>)" .
  have e: "pmap t' p = Some (r\<lparr>pr_fds := (pr_fds r)[k := Some ?e]\<rparr>)"
    "pr_fds (r\<lparr>pr_fds := (pr_fds r)[k := Some ?e]\<rparr>) ! k = Some ?e"
    using t'(3,4) len by simp_all
  from close_fd_open [OF t'(2) e(1) t'(3) e(2)] obtain t'' where
    t'': "close_fd p (fd_new k) t' = (Ok (), t'')"
    and "pmap t'' = (pmap t')(p \<mapsto> r\<lparr>pr_fds := (pr_fds r)[k := Some ?e],
      pr_fds := (pr_fds (r\<lparr>pr_fds := (pr_fds r)[k := Some ?e]\<rparr>))[k := None]\<rparr>)" .
  then have p'': "pmap t'' p = Some (r\<lparr>pr_fds := (pr_fds r)[k := None]\<rparr>)" by simp
  have "fd_info p fd t' = fd_info p fd t" if "fd \<noteq> fd_new k" for fd
  proof (cases "fd_slot fd")
    case None
    then show ?thesis by (simp add: fd_info_def)
  next
    case (Some j)
    with that have "j \<noteq> k" using fd_slot_Some [OF Some] by auto
    with Some t'(4) g show ?thesis by (simp add: fd_info_def process_get_map)
  qed
  moreover have "fd_info p (fd_new k) t' = Ok (f, False, False, a, b)"
    using t'(3,4) len by (simp add: fd_info_def fd_slot_new process_get_map)
  moreover have "fd_info p (fd_new k) t'' = Err Pe_InvalidFd"
    using p'' t'(3) len by (simp add: fd_info_def fd_slot_new process_get_map)
  ultimately show ?thesis using Some t'(1) t'' by auto
qed

theorem fd_open_close_witness:
  "reachable (\<lambda>t. t = process_table_new) table_step demo_child \<and>
   (\<exists>t'. open_fd (ProcessId 2) 9 True False demo_child = (Ok (fd_new 3), t') \<and>
      fd_info (ProcessId 2) (fd_new 3) t' = Ok (9, False, False, True, False))"
proof -
  let ?r = "started_process (ProcessId 2) (Some INIT) BOOTSTRAP (ThreadId 2)"
  have g: "process_get demo_child (ProcessId 2) = Ok ?r" "pr_state ?r = P_Running"
    by (simp_all add: demo_child_eq table_eval)
  have "position is_none (pr_fds ?r) = Some 3"
    by (simp add: started_process_def process_record_new_def standard_fds_def kernel_defs numeral_eq_Suc)
  with fd_open_close [OF demo_reachable(2) g, of 9 True False] demo_reachable(2) show ?thesis by auto
qed

end
