(* ===== verification/Process_Runtime.thy ===== *)
theory Process_Runtime
  imports Process_Steps
begin

text \<open>
  The process runtime of \<open>src/process.rs\<close>: the global table with the current process and thread.
  Each function is the body the code runs inside \<open>without_interrupts\<close>, so it is one atomic step.
  The invariant says that a thread runs exactly when it is the current one and that the current
  process is its owner.
\<close>

record runtime =
  rt_table :: process_table
  rt_init_thread :: "thread_id option"
  rt_current_process :: "process_id option"
  rt_current_thread :: "thread_id option"

definition runtime_new :: runtime where
  "runtime_new =
     \<lparr>rt_table = process_table_new, rt_init_thread = None, rt_current_process = None,
      rt_current_thread = None\<rparr>"

text \<open>Running a table operation inside the runtime.\<close>

definition on_table ::
  "(process_table \<Rightarrow> (process_error + 'a) \<times> process_table) \<Rightarrow> runtime \<Rightarrow> (process_error + 'a) \<times> runtime"
where
  "on_table f rt = (case f (rt_table rt) of (r, t) \<Rightarrow> (r, rt\<lparr>rt_table := t\<rparr>))"

definition set_current :: "thread_id \<Rightarrow> runtime \<Rightarrow> (process_error + unit) \<times> runtime" where
  "set_current thread rt =
     (let rt1 = rt\<lparr>rt_current_thread := Some thread\<rparr> in
      try_res (thread_owner thread (rt_table rt1)) rt1 (\<lambda>owner.
      (Ok (), rt1\<lparr>rt_current_process := owner\<rparr>)))"

text \<open>The runtime is reset first, so the result does not depend on its old state.\<close>

definition init_runtime :: "bool \<times> runtime" where
  "init_runtime =
     (case on_table create_init runtime_new of
        (Inl _, rt) \<Rightarrow> (False, rt)
      | (Inr (process, thread), rt) \<Rightarrow>
          (case on_table (switch_to None thread) rt of
             (Inl _, rt1) \<Rightarrow> (False, rt1)
           | (Inr _, rt1) \<Rightarrow>
               (True, rt1\<lparr>rt_current_process := Some process, rt_current_thread := Some thread,
                          rt_init_thread := Some thread\<rparr>)))"

definition spawn_child_current ::
  "credentials \<Rightarrow> runtime \<Rightarrow> (process_error + process_id \<times> thread_id) \<times> runtime" where
  "spawn_child_current creds rt =
     try_res (ok_or (rt_current_process rt) Pe_InvalidState) rt (\<lambda>parent.
     on_table (spawn_child parent creds) rt)"

definition switch_to_user ::
  "process_id \<Rightarrow> thread_id \<Rightarrow> runtime \<Rightarrow> (process_error + unit) \<times> runtime" where
  "switch_to_user process thread rt =
     try_res (ok_or (rt_current_thread rt) Pe_InvalidState) rt (\<lambda>current.
     try_res (thread_owner thread (rt_table rt)) rt (\<lambda>owner.
     if owner \<noteq> Some process then (Err Pe_InvalidState, rt)
     else
       try_res (thread_kind_of thread (rt_table rt)) rt (\<lambda>kind.
       if kind \<noteq> User_Thread then (Err Pe_InvalidState, rt)
       else
         try_st (on_table (switch_to (Some current) thread) rt) (\<lambda>_ rt1.
         set_current thread rt1))))"

definition restore_init :: "runtime \<Rightarrow> (process_error + unit) \<times> runtime" where
  "restore_init rt =
     (if is_some (rt_current_thread rt) then (Err Pe_InvalidState, rt)
      else
        try_res (ok_or (rt_init_thread rt) Pe_InvalidState) rt (\<lambda>init_thread.
        try_st (on_table (switch_to None init_thread) rt) (\<lambda>_ rt1.
        (Ok (), rt1\<lparr>rt_current_thread := Some init_thread, rt_current_process := Some INIT\<rparr>))))"

definition current_ids :: "runtime \<Rightarrow> (u32 \<times> u32) option" where
  "current_ids rt =
     (case rt_current_process rt of
        None \<Rightarrow> None
      | Some p \<Rightarrow>
          (case rt_current_thread rt of
             None \<Rightarrow> None
           | Some t \<Rightarrow> Some (process_id_get p, thread_id_get t)))"

definition exit_current :: "u32 \<Rightarrow> runtime \<Rightarrow> (process_error + unit) \<times> runtime" where
  "exit_current status rt =
     try_res (ok_or (rt_current_process rt) Pe_InvalidState) rt (\<lambda>process.
     try_res (ok_or (rt_current_thread rt) Pe_InvalidState) rt (\<lambda>thread.
     try_st
       (if process = INIT then on_table (set_thread_state thread T_Exited) rt
        else on_table (process_exit process status) rt) (\<lambda>_ rt1.
     (Ok (), rt1\<lparr>rt_current_process := None, rt_current_thread := None\<rparr>))))"

definition wait_current :: "u32 option \<Rightarrow> runtime \<Rightarrow> (process_error + u32 \<times> u32) \<times> runtime" where
  "wait_current child rt =
     try_res (ok_or (rt_current_process rt) Pe_InvalidState) rt (\<lambda>parent.
     try_st (on_table (process_wait parent (map_option process_id_from_raw child)) rt)
       (\<lambda>(process, status) rt1. (Ok (process_id_get process, status), rt1)))"

definition close_current :: "u32 \<Rightarrow> runtime \<Rightarrow> (process_error + unit) \<times> runtime" where
  "close_current fd rt =
     try_res (ok_or (rt_current_process rt) Pe_InvalidState) rt (\<lambda>process.
     on_table (close_fd process (fd_from_raw fd)) rt)"

definition current_fd_access :: "u32 \<Rightarrow> runtime \<Rightarrow> process_error + bool \<times> bool \<times> bool" where
  "current_fd_access fd rt =
     and_then (ok_or (rt_current_process rt) Pe_InvalidState) (\<lambda>process.
     fd_access process (fd_from_raw fd) (rt_table rt))"

definition yield_current :: "runtime \<Rightarrow> (process_error + unit) \<times> runtime" where
  "yield_current rt =
     try_res (ok_or (rt_current_thread rt) Pe_InvalidState) rt (\<lambda>current.
     (case pick_ready (rt_table rt) of
        None \<Rightarrow> (Ok (), rt)
      | Some next \<Rightarrow>
          if rt_current_process rt \<noteq> Some INIT \<and> rt_init_thread rt = Some next then (Ok (), rt)
          else
            try_st (on_table (switch_to (Some current) next) rt) (\<lambda>_ rt1.
            set_current next rt1)))"

definition sleep_current :: "runtime \<Rightarrow> (process_error + unit) \<times> runtime" where
  "sleep_current rt =
     try_res (ok_or (rt_current_thread rt) Pe_InvalidState) rt (\<lambda>current.
     try_st (on_table (block_thread current True) rt) (\<lambda>_ rt1.
     (case pick_ready (rt_table rt1) of
        None \<Rightarrow>
          try_st (on_table (wake_thread current) rt1) (\<lambda>_ rt2.
          try_st (on_table (switch_to None current) rt2) (\<lambda>_ rt3. (Ok (), rt3)))
      | Some next \<Rightarrow>
          let rt2 = rt1\<lparr>rt_current_thread := None, rt_current_process := None\<rparr> in
          try_st (on_table (switch_to None next) rt2) (\<lambda>_ rt3.
          set_current next rt3))))"

section \<open>The running threads\<close>

definition running :: "(thread_id \<Rightarrow> thread_record option) \<Rightarrow> thread_id set" where
  "running T = {tid. \<exists>th. T tid = Some th \<and> th_state th = T_Running}"

definition rt_inv :: "runtime \<Rightarrow> bool" where
  "rt_inv rt \<longleftrightarrow>
     table_inv (rt_table rt) \<and>
     running (tmap (rt_table rt)) = set_option (rt_current_thread rt) \<and>
     (case rt_current_thread rt of
        None \<Rightarrow> rt_current_process rt = None
      | Some tid \<Rightarrow> \<exists>th. tmap (rt_table rt) tid = Some th \<and> th_process th = rt_current_process rt) \<and>
     (\<forall>it. rt_init_thread rt = Some it \<longrightarrow>
        (\<exists>th. tmap (rt_table rt) it = Some th \<and> th_process th = Some INIT))"

lemma running_fresh: "T tid = None \<Longrightarrow> th_state th \<noteq> T_Running \<Longrightarrow> running (T(tid \<mapsto> th)) = running T"
  by (auto simp: running_def)

lemma running_upd:
  "running (T(tid \<mapsto> th)) = (if th_state th = T_Running then insert tid (running T) else running T - {tid})"
  by (auto simp: running_def)

lemma running_switch:
  assumes "T to = Some th" "from \<noteq> Some to"
  shows "running (switch_map from to T) = insert to (running T - set_option from)"
  using assms by (cases "from") (auto simp: running_def switch_map_def switched_in_def split: if_splits)

lemma running_exit:
  "running (exit_threads_map p T) = {tid \<in> running T. \<forall>th. T tid = Some th \<longrightarrow> th_process th \<noteq> Some p}"
proof (intro set_eqI iffI)
  fix tid assume "tid \<in> running (exit_threads_map p T)"
  then obtain th where "T tid = Some th" "th_process th \<noteq> Some p" "th_state th = T_Running"
    by (cases "T tid") (auto simp: running_def exit_threads_map_def exit_thread_of_def split: if_splits)
  then show "tid \<in> {tid \<in> running T. \<forall>th. T tid = Some th \<longrightarrow> th_process th \<noteq> Some p}"
    by (simp add: running_def)
qed (auto simp: running_def exit_threads_map_def exit_thread_of_def)

lemma running_restrict:
  assumes "\<And>tid th. tid \<notin> A \<Longrightarrow> T tid = Some th \<Longrightarrow> th_state th \<noteq> T_Running"
  shows "running (T |` A) = running T"
  using assms by (auto simp: running_def restrict_map_def)

lemma switch_map_owner:
  "(\<exists>th. switch_map from to T tid = Some th \<and> th_process th = q) \<longleftrightarrow>
   (\<exists>th. T tid = Some th \<and> th_process th = q)"
  by (cases "from") (auto simp: switch_map_def switched_in_def)

lemma pick_ready_Some:
  assumes "table_wf t" "pick_ready t = Some tid"
  obtains th where "tmap t tid = Some th" "th_state th = T_Ready"
proof -
  from assms(2) obtain th where f: "List.find (\<lambda>thread. th_state thread = T_Ready) (flatten (pt_threads t)) = Some th"
    and tid: "tid = th_id th" by (auto simp: pick_ready_def)
  from find_flattenD [OF f] obtain i where "i < length (pt_threads t)" "pt_threads t ! i = Some th"
    "th_state th = T_Ready"
    by (auto simp: Some_in_set_iff)
  then show thesis
    using assms(1) ttab.get_entry [of t i th] tid that by (simp add: table_wf_def slots_wf_def)
qed

lemma spawn_child_cases:
  assumes inv: "table_inv t" and x: "spawn_child parent creds t = (x, t')"
  obtains e where "x = Err e" "t' = t"
  | pid tid where "x = Ok (pid, tid)" "pmap t pid = None" "tmap t tid = None"
      "tab_upd t ((pmap t)(pid \<mapsto> started_process pid (Some parent) creds tid))
         ((tmap t)(tid \<mapsto> ready_thread tid (Some pid) User_Thread)) t'"
proof -
  consider e where "x = Err e" "t' = t" | slot where "position is_none (pt_processes t) = Some slot"
      "populate slot (Some parent) creds t = (x, t')"
    using x by (auto simp: spawn_child_populate split: option.splits if_splits)
  then show thesis
  proof cases
    case (1 e)
    with that(1) show thesis by simp
  next
    case (2 slot)
    have slot: "slot < 32" "pt_processes t ! slot = None"
      using position_SomeD [OF 2(1)] table_lengths(1) [OF table_invD(1) [OF inv]]
      by (auto simp: is_none_iff)
    from table_invD(1) [OF inv] slot 2(2) show thesis
    proof (cases rule: populate_cases)
      case (1 e)
      with that(1) show thesis by simp
    next
      case (2 pid tid)
      with that(2) show thesis by blast
    qed
  qed
qed

section \<open>The invariant\<close>

lemma rt_invD:
  assumes "rt_inv rt"
  shows "table_inv (rt_table rt)" "running (tmap (rt_table rt)) = set_option (rt_current_thread rt)"
    "rt_current_thread rt = None \<Longrightarrow> rt_current_process rt = None"
    "rt_current_thread rt = Some tid \<Longrightarrow>
       \<exists>th. tmap (rt_table rt) tid = Some th \<and> th_process th = rt_current_process rt"
    "rt_init_thread rt = Some it \<Longrightarrow>
       \<exists>th. tmap (rt_table rt) it = Some th \<and> th_process th = Some INIT"
  using assms by (auto simp: rt_inv_def)

text \<open>A table change that keeps owners and running threads keeps the runtime invariant.\<close>

lemma rt_inv_table:
  assumes "rt_inv rt" "table_inv t'" "running (tmap t') = running (tmap (rt_table rt))"
    and "\<And>tid th. tmap (rt_table rt) tid = Some th \<Longrightarrow>
      th_state th = T_Running \<or> th_process th = Some INIT \<Longrightarrow>
      \<exists>th'. tmap t' tid = Some th' \<and> th_process th' = th_process th"
  shows "rt_inv (rt\<lparr>rt_table := t'\<rparr>)"
proof -
  note d = rt_invD [OF assms(1)]
  have "\<exists>th. tmap t' tid = Some th \<and> th_process th = rt_current_process rt"
    if tid: "rt_current_thread rt = Some tid" for tid
  proof -
    from d(2) tid have "tid \<in> running (tmap (rt_table rt))" by simp
    then obtain th where "tmap (rt_table rt) tid = Some th" "th_state th = T_Running"
      by (auto simp: running_def)
    with assms(4) d(4) [OF tid] show ?thesis by fastforce
  qed
  moreover have "\<exists>th. tmap t' it = Some th \<and> th_process th = Some INIT"
    if "rt_init_thread rt = Some it" for it
    using d(5) [OF that] assms(4) by fastforce
  ultimately show ?thesis
    using assms d(2,3) by (auto simp: rt_inv_def split: option.split)
qed

text \<open>Making a ready thread the current one.\<close>

lemma rt_inv_switch:
  assumes inv: "rt_inv rt" and c: "rt_current_thread rt = from"
    and x: "switch_to from to (rt_table rt) = (Ok cx, t')"
    and p: "\<exists>th. tmap (rt_table rt) to = Some th \<and> th_process th = q"
  shows "rt_inv (rt\<lparr>rt_table := t', rt_current_thread := Some to, rt_current_process := q\<rparr>)"
proof -
  note d = rt_invD [OF inv]
  from table_invD(1) [OF d(1)] x show ?thesis
  proof (cases rule: switch_to_cases)
    case (2 th)
    have T: "tmap t' = switch_map from to (tmap (rt_table rt))" by (rule tab_updD(3) [OF 2(6)])
    have inv': "table_inv t'" by (rule switch_to_inv [OF d(1) x])
    have "running (tmap t') = {to}"
      using running_switch [where T = "tmap (rt_table rt)", OF 2(3,2)] d(2) c T by auto
    moreover have "\<exists>th. tmap t' to = Some th \<and> th_process th = q"
      using p by (simp add: T switch_map_owner)
    moreover have "\<exists>th. tmap t' it = Some th \<and> th_process th = Some INIT"
      if "rt_init_thread rt = Some it" for it
      using d(5) [OF that] by (simp add: T switch_map_owner)
    ultimately show ?thesis using inv' by (simp add: rt_inv_def)
  qed simp
qed

lemma set_current_eq:
  assumes "tmap (rt_table rt) tid = Some th"
  shows "set_current tid rt = (Ok (), rt\<lparr>rt_current_thread := Some tid, rt_current_process := th_process th\<rparr>)"
  using assms by (simp add: set_current_def thread_owner_def thread_get_map Let_def)

lemma init_runtime_eq:
  "init_runtime =
     (True, \<lparr>rt_table = snd (switch_to None (ThreadId 1) demo_boot), rt_init_thread = Some (ThreadId 1),
             rt_current_process = Some INIT, rt_current_thread = Some (ThreadId 1)\<rparr>)"
proof -
  have "\<exists>cx. fst (switch_to None (ThreadId 1) demo_boot) = Ok cx"
    by (simp add: switch_to_def demo_boot_eq table_eval)
  then obtain cx where "switch_to None (ThreadId 1) demo_boot =
      (Ok cx, snd (switch_to None (ThreadId 1) demo_boot))" by (metis prod.collapse)
  then show ?thesis
    by (cases "switch_to None (ThreadId 1) demo_boot")
      (simp add: init_runtime_def on_table_def runtime_new_def demo_boot_run)
qed

lemma init_runtime_inv [inv_intros]: "rt_inv (snd init_runtime)"
proof -
  have t: "table_inv demo_boot" by (rule tabsys.reachable_inv [OF demo_reachable(1)])
  have th: "tmap demo_boot (ThreadId 1) = Some (ready_thread (ThreadId 1) (Some INIT) User_Thread)"
    by (simp add: tmap_def demo_boot_eq table_eval)
  have none: "tmap demo_boot tid = Some th \<Longrightarrow> th_state th = T_Ready" for tid th
    by (erule ttab.get_SomeD)
      (auto simp: demo_boot_eq kernel_defs nth_Cons ready_thread_def split: nat.splits)
  let ?rt = "\<lparr>rt_table = demo_boot, rt_init_thread = Some (ThreadId 1), rt_current_process = None,
     rt_current_thread = None\<rparr>"
  have inv: "rt_inv ?rt"
    using t th none by (auto simp: rt_inv_def running_def ready_thread_def thread_new_def)
  have "\<exists>cx. fst (switch_to None (ThreadId 1) demo_boot) = Ok cx"
    by (simp add: switch_to_def demo_boot_eq table_eval)
  then obtain cx where x: "switch_to None (ThreadId 1) (rt_table ?rt) =
      (Ok cx, snd (switch_to None (ThreadId 1) demo_boot))" by (metis prod.collapse runtime.select_convs(1))
  have "\<exists>th. tmap (rt_table ?rt) (ThreadId 1) = Some th \<and> th_process th = Some INIT"
    using th by (simp add: ready_thread_def thread_new_def)
  from rt_inv_switch [OF inv _ x this] show ?thesis by (simp add: init_runtime_eq)
qed

lemma on_table_cases:
  assumes "on_table f rt = (x, rt')"
  obtains t' where "f (rt_table rt) = (x, t')" "rt' = rt\<lparr>rt_table := t'\<rparr>"
  using assms by (auto simp: on_table_def split: prod.splits)

lemma spawn_child_current_inv [inv_intros]:
  assumes inv: "rt_inv rt" and x: "spawn_child_current creds rt = (x, rt')"
  shows "rt_inv rt'"
  using x unfolding spawn_child_current_def
proof (cases rule: try_res_cases)
  case (1 e)
  with inv show ?thesis by simp
next
  case (2 parent)
  from 2(2) obtain t' where t': "spawn_child parent creds (rt_table rt) = (x, t')"
    and rt': "rt' = rt\<lparr>rt_table := t'\<rparr>" by (rule on_table_cases)
  note d = rt_invD [OF inv]
  from d(1) t' show ?thesis
  proof (cases rule: spawn_child_cases)
    case (1 e)
    then show ?thesis unfolding rt' using inv by simp
  next
    case (2 pid tid)
    then show ?thesis unfolding rt' using inv spawn_child_inv [OF d(1) t'] tab_updD(3) [OF 2(4)]
      by (intro rt_inv_table) (auto simp: running_fresh ready_thread_def)
  qed
qed

lemma switch_to_Err:
  assumes "table_wf t" "switch_to from to t = (Err e, t')"
  shows "t' = t"
  using assms by (cases rule: switch_to_cases) simp_all

lemma switch_current_inv:
  assumes inv: "rt_inv rt" and cur: "rt_current_thread rt = Some current"
    and x: "try_st (on_table (switch_to (Some current) next) rt) (\<lambda>_ rt1. set_current next rt1) = (x, rt')"
  shows "rt_inv rt'"
  using x
proof (cases rule: try_st_cases)
  case (1 e)
  from 1(1) obtain t' where t': "switch_to (Some current) next (rt_table rt) = (Err e, t')"
    "rt' = rt\<lparr>rt_table := t'\<rparr>" by (rule on_table_cases)
  from switch_to_Err [OF table_invD(1) [OF rt_invD(1) [OF inv]] t'(1)] t'(2) inv show ?thesis by simp
next
  case (2 cx rt1)
  from 2(1) obtain t' where t': "switch_to (Some current) next (rt_table rt) = (Ok cx, t')"
    "rt1 = rt\<lparr>rt_table := t'\<rparr>" by (rule on_table_cases)
  from table_invD(1) [OF rt_invD(1) [OF inv]] t'(1) show ?thesis
  proof (cases rule: switch_to_cases)
    case (2 th)
    have "\<exists>th'. tmap t' next = Some th' \<and> th_process th' = th_process th"
      using 2(3) by (simp add: tab_updD(3) [OF 2(6)] switch_map_owner)
    then obtain th' where th': "tmap t' next = Some th'" "th_process th' = th_process th" by blast
    then have "rt' = rt\<lparr>rt_table := t', rt_current_thread := Some next, rt_current_process := th_process th\<rparr>"
      using \<open>set_current next rt1 = (x, rt')\<close> t'(2) set_current_eq [of rt1 "next" th'] by simp
    with rt_inv_switch [OF inv cur t'(1), of "th_process th"] 2(3) show ?thesis by simp
  qed simp
qed

lemma switch_to_user_inv [inv_intros]:
  assumes inv: "rt_inv rt" and x: "switch_to_user process thread rt = (x, rt')"
  shows "rt_inv rt'"
proof -
  consider "rt' = rt" | current where "rt_current_thread rt = Some current"
      "try_st (on_table (switch_to (Some current) thread) rt) (\<lambda>_ rt1. set_current thread rt1) = (x, rt')"
    using x by (auto simp: switch_to_user_def elim!: try_res_cases split: if_splits)
  then show ?thesis
  proof cases
    case 1
    with inv show ?thesis by simp
  next
    case (2 current)
    with inv show ?thesis by (blast intro: switch_current_inv)
  qed
qed

lemma yield_current_inv [inv_intros]:
  assumes inv: "rt_inv rt" and x: "yield_current rt = (x, rt')"
  shows "rt_inv rt'"
proof -
  consider "rt' = rt" | current "next" where "rt_current_thread rt = Some current"
      "try_st (on_table (switch_to (Some current) next) rt) (\<lambda>_ rt1. set_current next rt1) = (x, rt')"
    using x by (auto simp: yield_current_def elim!: try_res_cases split: if_splits option.splits)
  then show ?thesis
  proof cases
    case 1
    with inv show ?thesis by simp
  next
    case (2 current "next")
    with inv show ?thesis by (blast intro: switch_current_inv)
  qed
qed

lemma restore_init_inv [inv_intros]:
  assumes inv: "rt_inv rt" and x: "restore_init rt = (x, rt')"
  shows "rt_inv rt'"
proof -
  note d = rt_invD [OF inv]
  consider "rt' = rt" | it where "rt_current_thread rt = None" "rt_init_thread rt = Some it"
      "try_st (on_table (switch_to None it) rt) (\<lambda>_ rt1.
        (Ok (), rt1\<lparr>rt_current_thread := Some it, rt_current_process := Some INIT\<rparr>)) = (x, rt')"
    using x by (auto simp: restore_init_def is_some_iff elim!: try_res_cases split: if_splits)
  then show ?thesis
  proof cases
    case 1
    with inv show ?thesis by simp
  next
    case (2 it)
    from 2(3) show ?thesis
    proof (cases rule: try_st_cases)
      case (1 e)
      from 1(1) obtain t' where t': "switch_to None it (rt_table rt) = (Err e, t')"
        "rt' = rt\<lparr>rt_table := t'\<rparr>" by (rule on_table_cases)
      from switch_to_Err [OF table_invD(1) [OF d(1)] t'(1)] t'(2) inv show ?thesis by simp
    next
      case ok: (2 cx rt1)
      from ok(1) obtain t' where t': "switch_to None it (rt_table rt) = (Ok cx, t')"
        "rt1 = rt\<lparr>rt_table := t'\<rparr>" by (rule on_table_cases)
      from rt_inv_switch [OF inv 2(1) t'(1) d(5) [OF 2(2)]] ok(2) t'(2)
      show ?thesis by auto
    qed
  qed
qed

text \<open>The runtime with no current thread, once the current one has left the processor.\<close>

lemma rt_inv_idle:
  assumes inv: "rt_inv rt" and cur: "rt_current_thread rt = Some tid"
    and t': "table_inv t'" "running (tmap t') = {}"
    and own: "\<And>it th. tmap (rt_table rt) it = Some th \<Longrightarrow> th_process th = Some INIT \<Longrightarrow>
      \<exists>th'. tmap t' it = Some th' \<and> th_process th' = Some INIT"
  shows "rt_inv (rt\<lparr>rt_table := t', rt_current_thread := None, rt_current_process := None\<rparr>)"
  using t' rt_invD(5) [OF inv] own by (auto simp: rt_inv_def)

lemma links_init_thread_exit:
  assumes l: "links P T" and th: "T tid = Some th" "th_process th = Some INIT"
  shows "links P (T(tid \<mapsto> th\<lparr>th_state := T_Exited\<rparr>))"
proof (rule linksI, goal_cases)
  case (4 p r x)
  with linksD_process(4) [OF l 4] th show ?case by fastforce
next
  case (5 x th')
  then show ?case using linksD_thread(1) [OF l] th by (auto split: if_splits)
next
  case (6 x th')
  have "owner_ok P (th\<lparr>th_state := T_Exited\<rparr>)"
    using linksD_thread(2) [OF l th(1)] th(2) by (auto simp: owner_ok_def)
  with 6 linksD_thread(2) [OF l] show ?case by (auto split: if_splits)
qed (use linksD_process [OF l] in auto)

lemma current_running:
  assumes "rt_inv rt" "rt_current_thread rt = Some tid"
  obtains th where "tmap (rt_table rt) tid = Some th" "th_state th = T_Running"
    "th_process th = rt_current_process rt"
proof -
  from rt_invD(2) [OF assms(1)] assms(2) have "tid \<in> running (tmap (rt_table rt))" by simp
  then obtain th where "tmap (rt_table rt) tid = Some th" "th_state th = T_Running"
    by (auto simp: running_def)
  with rt_invD(4) [OF assms] that show thesis by auto
qed

lemma exit_current_inv [inv_intros]:
  assumes inv: "rt_inv rt" and x: "exit_current status rt = (x, rt')"
  shows "rt_inv rt'"
proof -
  note d = rt_invD [OF inv]
  note wf = table_invD(1) [OF d(1)]
  consider "rt' = rt" | p tid where "rt_current_process rt = Some p" "rt_current_thread rt = Some tid"
      "try_st (if p = INIT then on_table (set_thread_state tid T_Exited) rt
        else on_table (process_exit p status) rt) (\<lambda>_ rt1.
        (Ok (), rt1\<lparr>rt_current_process := None, rt_current_thread := None\<rparr>)) = (x, rt')"
    using x by (auto simp: exit_current_def elim!: try_res_cases)
  then show ?thesis
  proof cases
    case 1
    with inv show ?thesis by simp
  next
    case (2 p tid)
    from inv 2(2) obtain th where th: "tmap (rt_table rt) tid = Some th" "th_state th = T_Running"
      "th_process th = rt_current_process rt" by (rule current_running)
    have run: "running (tmap (rt_table rt)) = {tid}" using d(2) 2(2) by simp
    show ?thesis
    proof (cases "p = INIT")
      case True
      from set_thread_state_ok [OF wf th(1), of T_Exited] obtain t' where
        t': "set_thread_state tid T_Exited (rt_table rt) = (Ok (), t')"
        and u: "tab_upd (rt_table rt) (pmap (rt_table rt)) ((tmap (rt_table rt))(tid \<mapsto> th\<lparr>th_state := T_Exited\<rparr>)) t'" .
      have "table_inv t'"
        using table_invI [OF u links_init_thread_exit [OF table_invD(2) [OF d(1)] th(1)]]
          th(3) 2(1) True table_invD(3) [OF d(1)] by simp
      moreover have "running (tmap t') = {}"
        using run by (simp add: tab_updD(3) [OF u] running_upd)
      moreover have "rt' = rt\<lparr>rt_table := t', rt_current_thread := None, rt_current_process := None\<rparr>"
        using 2(3) True t' by (auto simp: on_table_def)
      moreover have "\<exists>th'. tmap t' it = Some th' \<and> th_process th' = Some INIT"
        if "tmap (rt_table rt) it = Some th0" "th_process th0 = Some INIT" for it th0
        using that th(1) by (auto simp: tab_updD(3) [OF u])
      ultimately show ?thesis
        using rt_inv_idle [OF inv 2(2), of t'] by simp
    next
      case False
      obtain y t' where t': "process_exit p status (rt_table rt) = (y, t')" by fastforce
      from wf t' show ?thesis
      proof (cases rule: process_exit_cases)
        case (1 e)
        with 2(3) False t' inv show ?thesis by (simp add: on_table_def)
      next
        case ex: (2 r)
        have T: "tmap t' = exit_threads_map p (tmap (rt_table rt))" by (rule tab_updD(3) [OF ex(5)])
        have "running (tmap t') = {}"
          using run th 2(1) by (auto simp: T running_exit)
        moreover have "rt' = rt\<lparr>rt_table := t', rt_current_thread := None, rt_current_process := None\<rparr>"
          using 2(3) False t' ex(1) by (auto simp: on_table_def)
        moreover have "\<exists>th'. tmap t' it = Some th' \<and> th_process th' = Some INIT"
          if "tmap (rt_table rt) it = Some th0" "th_process th0 = Some INIT" for it th0
          using that False by (simp add: T exit_threads_map_def exit_thread_of_def)
        ultimately show ?thesis
          using rt_inv_idle [OF inv 2(2) process_exit_inv [OF d(1) t']] by simp
      qed
    qed
  qed
qed

lemma wait_current_inv [inv_intros]:
  assumes inv: "rt_inv rt" and x: "wait_current child rt = (x, rt')"
    and ex: "x \<noteq> Err Pe_GenerationExhausted"
  shows "rt_inv rt'"
proof -
  note d = rt_invD [OF inv]
  note l = table_invD(2) [OF d(1)]
  show ?thesis
    using x unfolding wait_current_def
  proof (cases rule: try_res_cases)
    case (1 e)
    with inv show ?thesis by simp
  next
    case (2 parent)
    let ?child = "map_option process_id_from_raw child"
    obtain y t' where t': "process_wait parent ?child (rt_table rt) = (y, t')" by fastforce
    then have on: "on_table (process_wait parent ?child) rt = (y, rt\<lparr>rt_table := t'\<rparr>)"
      by (simp add: on_table_def)
    have rt': "rt' = rt\<lparr>rt_table := t'\<rparr>" "y = Err e \<Longrightarrow> x = Err e" for e
      using 2(2) on by (auto simp: try_st_def split: sum.splits)
    have ex': "y \<noteq> Err Pe_GenerationExhausted" using ex rt'(2) by blast
    from d(1) t' show ?thesis
    proof (cases rule: process_wait_cases)
      case (1 e)
      with inv rt'(1) show ?thesis by simp
    next
      case 2
      with ex' show ?thesis by simp
    next
      case (3 pid r status i g)
      have gone: "th_state th = T_Exited \<and> th_process th = Some pid"
        if "tmap (rt_table rt) tid = Some th" "Some tid \<in> set (pr_threads r)" for tid th
      proof -
        from linksD_process(4) [OF l 3(2) that(2)] that(1) have "th_process th = Some pid" by simp
        with linksD_thread(2) [OF l that(1)] 3(2,4) show ?thesis by (auto simp: owner_ok_def)
      qed
      have init: "pid \<noteq> INIT"
        using linksD_process(3) [OF l 3(2)] 3(4) by (auto simp: family_ok_def)
      have "running (tmap t') = running (tmap (rt_table rt))"
        unfolding 3(9) using gone by (intro running_restrict) auto
      moreover have "\<exists>th'. tmap t' tid = Some th' \<and> th_process th' = th_process th"
        if "tmap (rt_table rt) tid = Some th" "th_state th = T_Running \<or> th_process th = Some INIT" for tid th
        using gone [OF that(1)] that init by (auto simp: 3(9) restrict_map_def)
      moreover have "table_inv t'" by (rule process_wait_inv [OF d(1) t' ex'])
      ultimately show ?thesis unfolding rt' using inv by (intro rt_inv_table) blast+
    qed
  qed
qed

lemma close_current_inv [inv_intros]:
  assumes inv: "rt_inv rt" and x: "close_current fd rt = (x, rt')"
  shows "rt_inv rt'"
  using x unfolding close_current_def
proof (cases rule: try_res_cases)
  case (1 e)
  with inv show ?thesis by simp
next
  case (2 p)
  note d = rt_invD [OF inv]
  from 2(2) obtain t' where t': "close_fd p (fd_from_raw fd) (rt_table rt) = (x, t')"
    and rt': "rt' = rt\<lparr>rt_table := t'\<rparr>" by (rule on_table_cases)
  have "tmap t' = tmap (rt_table rt)"
    using t' unfolding close_fd_def process_mut_def
    by (auto simp: ok_or_def try_res_def split: option.splits if_splits)
  then show ?thesis unfolding rt' using inv fd_ops_inv(1) [OF d(1) t'] by (intro rt_inv_table) auto
qed

lemma switch_idle_inv:
  assumes inv: "rt_inv rt" and x: "try_st (on_table (switch_to None next) rt) (\<lambda>_ rt1. set_current next rt1) = (x, rt')"
    and cur: "rt_current_thread rt = None"
  shows "rt_inv rt'"
  using x
proof (cases rule: try_st_cases)
  case (1 e)
  from 1(1) obtain t' where t': "switch_to None next (rt_table rt) = (Err e, t')"
    "rt' = rt\<lparr>rt_table := t'\<rparr>" by (rule on_table_cases)
  from switch_to_Err [OF table_invD(1) [OF rt_invD(1) [OF inv]] t'(1)] t'(2) inv show ?thesis by simp
next
  case (2 cx rt1)
  from 2(1) obtain t' where t': "switch_to None next (rt_table rt) = (Ok cx, t')"
    "rt1 = rt\<lparr>rt_table := t'\<rparr>" by (rule on_table_cases)
  from table_invD(1) [OF rt_invD(1) [OF inv]] t'(1) show ?thesis
  proof (cases rule: switch_to_cases)
    case sw: (2 th)
    have "\<exists>th'. tmap t' next = Some th' \<and> th_process th' = th_process th"
      using sw(3) by (simp add: tab_updD(3) [OF sw(6)] switch_map_owner)
    then obtain th' where th': "tmap t' next = Some th'" "th_process th' = th_process th" by blast
    then have "rt' = rt\<lparr>rt_table := t', rt_current_thread := Some next, rt_current_process := th_process th\<rparr>"
      using 2(2) t'(2) set_current_eq [of rt1 "next" th'] by simp
    with rt_inv_switch [OF inv cur t'(1), of "th_process th"] sw(3) show ?thesis by simp
  qed simp
qed

lemma block_thread_ok:
  assumes wf: "table_wf t" and th: "tmap t tid = Some th"
  shows "th_state th = T_Ready \<or> th_state th = T_Running \<Longrightarrow>
    \<exists>t'. block_thread tid sleeping t = (Ok (), t') \<and>
      tab_upd t (pmap t) ((tmap t)(tid \<mapsto> th\<lparr>th_state := (if sleeping then T_Sleeping else T_Blocked)\<rparr>)) t'"
proof -
  assume st: "th_state th = T_Ready \<or> th_state th = T_Running"
  let ?b = "\<lambda>r. if th_state r \<noteq> T_Ready \<and> th_state r \<noteq> T_Running then (Err Pe_InvalidState, r)
     else (Ok (), r\<lparr>th_state := (if sleeping then T_Sleeping else T_Blocked)\<rparr>)"
  have "th_id (snd (?b r)) = th_id r" for r by simp
  from thread_mut_ok [where body = ?b, OF wf th this] obtain t' where
    "thread_mut tid ?b t = (fst (?b th), t')" "tab_upd t (pmap t) ((tmap t)(tid \<mapsto> snd (?b th))) t'" .
  with st show ?thesis by (auto simp: block_thread_def)
qed

lemma wake_thread_ok:
  assumes wf: "table_wf t" and th: "tmap t tid = Some th"
  shows "th_state th = T_Sleeping \<or> th_state th = T_Blocked \<Longrightarrow>
    \<exists>t'. wake_thread tid t = (Ok (), t') \<and>
      tab_upd t (pmap t) ((tmap t)(tid \<mapsto> th\<lparr>th_state := T_Ready\<rparr>)) t'"
proof -
  assume st: "th_state th = T_Sleeping \<or> th_state th = T_Blocked"
  let ?b = "\<lambda>r. if th_state r \<noteq> T_Blocked \<and> th_state r \<noteq> T_Sleeping then (Err Pe_InvalidState, r)
     else (Ok (), r\<lparr>th_state := T_Ready\<rparr>)"
  have "th_id (snd (?b r)) = th_id r" for r by simp
  from thread_mut_ok [where body = ?b, OF wf th this] obtain t' where
    "thread_mut tid ?b t = (fst (?b th), t')" "tab_upd t (pmap t) ((tmap t)(tid \<mapsto> snd (?b th))) t'" .
  with st show ?thesis by (auto simp: wake_thread_def)
qed

lemma switch_to_ready:
  assumes wf: "table_wf t" and th: "tmap t tid = Some th" "th_state th = T_Ready"
  shows "is_ok (fst (switch_to None tid t))"
proof -
  let ?b = "\<lambda>next. (Ok () :: process_error + unit, next\<lparr>th_state := T_Running,
                th_context_switches := saturating_add (th_context_switches next) 1\<rparr>)"
  have "th_id (snd (?b r)) = th_id r" for r by simp
  from thread_mut_ok [where body = ?b, OF wf th(1) this] obtain t' where
    "thread_mut tid ?b t = (fst (?b th), t')" .
  with th show ?thesis by (simp add: switch_to_def thread_get_map Let_def)
qed

lemma sleep_current_inv [inv_intros]:
  assumes inv: "rt_inv rt" and x: "sleep_current rt = (x, rt')"
  shows "rt_inv rt'"
proof (cases "rt_current_thread rt")
  case None
  with x inv show ?thesis by (simp add: sleep_current_def)
next
  case (Some current)
  note d = rt_invD [OF inv]
  from inv Some obtain th where th: "tmap (rt_table rt) current = Some th" "th_state th = T_Running"
    "th_process th = rt_current_process rt" by (rule current_running)
  have id: "th_id th = current" by (rule tmap_id [OF th(1)])
  from block_thread_ok [OF table_invD(1) [OF d(1)] th(1), of True] th(2) obtain t1 where
    t1: "block_thread current True (rt_table rt) = (Ok (), t1)"
    and u1: "tab_upd (rt_table rt) (pmap (rt_table rt))
      ((tmap (rt_table rt))(current \<mapsto> th\<lparr>th_state := T_Sleeping\<rparr>)) t1"
    by auto
  note T1 = tab_updD(3) [OF u1]
  let ?idle = "rt\<lparr>rt_table := t1, rt_current_thread := None, rt_current_process := None\<rparr>"
  have run1: "running (tmap t1) = {}" using d(2) Some by (simp add: T1 running_upd)
  have idle: "rt_inv ?idle"
    using inv Some thread_ops_inv(2) [OF d(1) t1] run1
    by (rule rt_inv_idle) (use th T1 in auto)
  show ?thesis
  proof (cases "pick_ready t1")
    case (Some "next")
    with \<open>rt_current_thread rt = Some current\<close> x t1
    have "try_st (on_table (switch_to None next) ?idle) (\<lambda>_ rt3. set_current next rt3) = (x, rt')"
      by (simp add: sleep_current_def on_table_def Let_def)
    with idle show ?thesis by (rule switch_idle_inv) simp
  next
    case none: None
    have th1: "tmap t1 current = Some (th\<lparr>th_state := T_Sleeping\<rparr>)" by (simp add: T1)
    from wake_thread_ok [OF tab_updD(1) [OF u1] th1] obtain t2 where
      t2: "wake_thread current t1 = (Ok (), t2)"
      and u2: "tab_upd t1 (pmap t1) ((tmap t1)(current \<mapsto> th\<lparr>th_state := T_Ready\<rparr>)) t2"
      by auto
    note T2 = tab_updD(3) [OF u2]
    let ?idle2 = "rt\<lparr>rt_table := t2, rt_current_thread := None, rt_current_process := None\<rparr>"
    have idle2: "rt_inv ?idle2"
      using inv Some thread_ops_inv(3) [OF rt_invD(1) [OF idle, simplified] t2]
      by (rule rt_inv_idle) (use th T1 T2 run1 in \<open>auto simp: running_upd\<close>)
    have th2: "tmap t2 current = Some (th\<lparr>th_state := T_Ready\<rparr>)" by (simp add: T2)
    obtain y t3 where t3: "switch_to None current t2 = (y, t3)" by fastforce
    with switch_to_ready [OF tab_updD(1) [OF u2] th2] obtain cx where cx: "y = Ok cx"
      by (cases y) auto
    have "rt' = ?idle2\<lparr>rt_table := t3, rt_current_thread := Some current, rt_current_process := th_process th\<rparr>"
      using x Some t1 none t2 t3 cx th(3) by (auto simp: sleep_current_def on_table_def)
    with rt_inv_switch [OF idle2, of None current cx t3 "th_process th"] t3 cx th2 show ?thesis by simp
  qed
qed

section \<open>Steps\<close>

text \<open>
  The operations of the runtime on behalf of the running thread; as in the table, the exhaustion
  of a generation is left out.
\<close>

inductive rt_step :: "runtime \<Rightarrow> runtime \<Rightarrow> bool" where
  rs_spawn: "spawn_child_current creds rt = (s, rt') \<Longrightarrow> rt_step rt rt'"
| rs_switch: "switch_to_user p t rt = (x, rt') \<Longrightarrow> rt_step rt rt'"
| rs_restore: "restore_init rt = (x, rt') \<Longrightarrow> rt_step rt rt'"
| rs_exit: "exit_current status rt = (x, rt') \<Longrightarrow> rt_step rt rt'"
| rs_wait: "wait_current child rt = (w, rt') \<Longrightarrow> w \<noteq> Err Pe_GenerationExhausted \<Longrightarrow> rt_step rt rt'"
| rs_close: "close_current fd rt = (x, rt') \<Longrightarrow> rt_step rt rt'"
| rs_yield: "yield_current rt = (x, rt') \<Longrightarrow> rt_step rt rt'"
| rs_sleep: "sleep_current rt = (x, rt') \<Longrightarrow> rt_step rt rt'"

lemma rt_step_inv: "rt_step rt rt' \<Longrightarrow> rt_inv rt \<Longrightarrow> rt_inv rt'"
  by (induction rule: rt_step.induct) (auto intro: inv_intros)

interpretation rtsys: step_invariant "\<lambda>rt. rt = snd init_runtime" rt_step rt_inv
  by unfold_locales (auto intro: init_runtime_inv rt_step_inv)

section \<open>Properties\<close>

lemma thread_state_of_running: "thread_state_of tid t = Ok T_Running \<longleftrightarrow> tid \<in> running (tmap t)"
  by (cases "tmap t tid") (auto simp: thread_state_of_def thread_get_map running_def)



text \<open>The single steps of a child's life, each with the maps it leads to.\<close>

lemma switch_to_Ok:
  assumes wf: "table_wf t" and to: "tmap t to = Some th" "th_state th = T_Ready" "f \<noteq> to"
    and f: "tmap t f = Some fr" "th_state fr = T_Running"
  obtains cx t' where "switch_to (Some f) to t = (Ok cx, t')"
    "tab_upd t (pmap t) (switch_map (Some f) to (tmap t)) t'"
proof -
  obtain x t' where x: "switch_to (Some f) to t = (x, t')" by fastforce
  from set_thread_state_ok [OF wf f(1), of T_Ready] obtain t1 where
    t1: "set_thread_state f T_Ready t = (Ok (), t1)"
    and u1: "tab_upd t (pmap t) ((tmap t)(f \<mapsto> fr\<lparr>th_state := T_Ready\<rparr>)) t1" .
  have m1: "tmap t1 to = Some th" using tab_updD(3) [OF u1] to by simp
  let ?b = "\<lambda>next. (Ok () :: process_error + unit, next\<lparr>th_state := T_Running,
                th_context_switches := saturating_add (th_context_switches next) 1\<rparr>)"
  have "th_id (snd (?b r)) = th_id r" for r by simp
  from thread_mut_ok [where body = ?b, OF tab_updD(1) [OF u1] m1 this] obtain t2 where
    "thread_mut to ?b t1 = (fst (?b th), t2)" .
  with x to f t1 have ok: "\<exists>cx. x = Ok cx" by (auto simp: switch_to_def thread_get_map Let_def)
  from wf x show thesis
  proof (cases rule: switch_to_cases)
    case (1 e)
    with ok show thesis by simp
  next
    case (2 th')
    with x that show thesis by blast
  qed
qed

lemma switch_to_user_ok:
  assumes inv: "rt_inv rt" and cur: "rt_current_thread rt = Some c"
    and to: "tmap (rt_table rt) tid = Some th" "th_state th = T_Ready" "th_process th = Some p"
      "th_kind th = User_Thread"
  obtains t' where "switch_to_user p tid rt = (Ok (), rt\<lparr>rt_table := t', rt_current_thread := Some tid,
       rt_current_process := Some p\<rparr>)"
    "tab_upd (rt_table rt) (pmap (rt_table rt)) (switch_map (Some c) tid (tmap (rt_table rt))) t'"
proof -
  from inv cur obtain fr where fr: "tmap (rt_table rt) c = Some fr" "th_state fr = T_Running"
    "th_process fr = rt_current_process rt" by (rule current_running)
  have ne: "c \<noteq> tid" using fr to by auto
  from switch_to_Ok [OF table_invD(1) [OF rt_invD(1) [OF inv]] to(1,2) ne fr(1,2)] obtain cx t' where
    t': "switch_to (Some c) tid (rt_table rt) = (Ok cx, t')"
    and u: "tab_upd (rt_table rt) (pmap (rt_table rt)) (switch_map (Some c) tid (tmap (rt_table rt))) t'" .
  have "\<exists>th'. tmap t' tid = Some th' \<and> th_process th' = Some p"
    using to by (simp add: tab_updD(3) [OF u] switch_map_owner)
  then obtain th' where th': "tmap t' tid = Some th'" "th_process th' = Some p" by blast
  have "switch_to_user p tid rt = (Ok (), rt\<lparr>rt_table := t', rt_current_thread := Some tid,
       rt_current_process := Some p\<rparr>)"
    using cur to t' set_current_eq [of "rt\<lparr>rt_table := t'\<rparr>" tid th'] th'
    by (simp add: switch_to_user_def thread_owner_def thread_kind_of_def thread_get_map on_table_def)
  with u that show thesis by blast
qed

lemma exit_current_ok:
  assumes inv: "rt_inv rt" and cur: "rt_current_thread rt = Some c" "rt_current_process rt = Some p" "p \<noteq> INIT"
    and r: "pmap (rt_table rt) p = Some r" "pr_state r = P_Running"
  obtains t' where "exit_current status rt =
      (Ok (), rt\<lparr>rt_table := t', rt_current_process := None, rt_current_thread := None\<rparr>)"
    "tab_upd (rt_table rt) ((reparent_map p (pmap (rt_table rt)))(p \<mapsto> exited_self p status r))
         (exit_threads_map p (tmap (rt_table rt))) t'"
proof -
  obtain x t' where x: "process_exit p status (rt_table rt) = (x, t')" by fastforce
  from table_invD(1) [OF rt_invD(1) [OF inv]] x show thesis
  proof (cases rule: process_exit_cases)
    case (1 e)
    with cur r show thesis by auto
  next
    case (2 r')
    with r(1) have u: "tab_upd (rt_table rt) ((reparent_map p (pmap (rt_table rt)))(p \<mapsto> exited_self p status r))
         (exit_threads_map p (tmap (rt_table rt))) t'" by simp
    have "exit_current status rt =
      (Ok (), rt\<lparr>rt_table := t', rt_current_process := None, rt_current_thread := None\<rparr>)"
      using cur x 2(1) by (simp add: exit_current_def on_table_def)
    with u that show thesis by blast
  qed
qed

lemma restore_init_ok:
  assumes inv: "rt_inv rt" and it: "rt_current_thread rt = None" "rt_init_thread rt = Some it"
    "tmap (rt_table rt) it = Some th" "th_state th = T_Ready"
  obtains t' where "restore_init rt = (Ok (), rt\<lparr>rt_table := t', rt_current_thread := Some it,
      rt_current_process := Some INIT\<rparr>)" "pmap t' = pmap (rt_table rt)"
proof -
  note wf = table_invD(1) [OF rt_invD(1) [OF inv]]
  obtain x t' where x: "switch_to None it (rt_table rt) = (x, t')" by fastforce
  with switch_to_ready [OF wf it(3,4)] obtain cx where cx: "x = Ok cx" by (cases x) auto
  from wf x have "pmap t' = pmap (rt_table rt)"
    using cx by (cases rule: switch_to_cases) (auto dest: tab_updD)
  moreover have "restore_init rt = (Ok (), rt\<lparr>rt_table := t', rt_current_thread := Some it,
      rt_current_process := Some INIT\<rparr>)"
    using it x cx by (simp add: restore_init_def on_table_def)
  ultimately show thesis using that by blast
qed

lemma process_wait_zombie:
  assumes inv: "table_inv t" and par: "pmap t parent = Some s"
    and r: "pmap t p = Some r" "pr_parent r = Some parent" "pr_state r = P_Zombie"
      "pr_exit_status r = Some status"
  shows "fst (process_wait parent (Some p) t) \<in> {Ok (p, status), Err Pe_GenerationExhausted}"
proof -
  obtain x t' where x: "process_wait parent (Some p) t = (x, t')" by fastforce
  obtain y t1 where y: "reap p t = (y, t1)" by fastforce
  have x': "(x, t') = try_st (y, t1) (\<lambda>_ t1. (Ok (p, status), t1))"
    using x par r y by (simp add: process_wait_def wait_candidate_def process_get_map)
  note l = table_invD(2) [OF inv]
  have threads: "distinct (flatten (pr_threads r))"
    "\<forall>tid. Some tid \<in> set (pr_threads r) \<longrightarrow> (\<exists>th. tmap t tid = Some th)"
    using linksD_process(2,4) [OF l r(1)] by (auto simp: record_ok_def)
  from table_invD(1) [OF inv] r(1) threads y have "(\<exists>u. y = Ok u) \<or> y = Err Pe_GenerationExhausted"
    by (cases rule: reap_cases) (use r(3) in auto)
  with x x' show ?thesis by auto
qed

lemma child_started:
  assumes inv: "rt_inv rt" and cur: "rt_current_thread rt = rt_init_thread rt"
    and sp: "spawn_child_current creds rt = (Ok (p, t), rt1)"
  obtains it ith rt2 where "switch_to_user p t rt1 = (Ok (), rt2)" "rt_inv rt2" "p \<noteq> INIT"
    "rt_current_thread rt2 = Some t" "rt_current_process rt2 = Some p" "rt_init_thread rt2 = Some it"
    "pmap (rt_table rt2) p = Some (started_process p (Some INIT) creds t)"
    "tmap (rt_table rt2) it = Some ith" "th_state ith = T_Ready" "th_process ith = Some INIT"
proof -
  note d = rt_invD [OF inv]
  obtain it where it: "rt_current_thread rt = Some it" "rt_init_thread rt = Some it"
  proof (cases "rt_current_thread rt")
    case None
    with d(3) sp show thesis by (simp add: spawn_child_current_def)
  next
    case (Some i)
    with cur have "rt_init_thread rt = Some i" by simp
    with Some that show thesis by blast
  qed
  from d(5) [OF it(2)] d(4) [OF it(1)] have par: "rt_current_process rt = Some INIT" by auto
  from sp par obtain t1 where t1: "spawn_child INIT creds (rt_table rt) = (Ok (p, t), t1)"
    and rt1: "rt1 = rt\<lparr>rt_table := t1\<rparr>" by (auto simp: spawn_child_current_def elim: on_table_cases)
  from d(1) t1 obtain u1: "tab_upd (rt_table rt) ((pmap (rt_table rt))(p \<mapsto> started_process p (Some INIT) creds t))
         ((tmap (rt_table rt))(t \<mapsto> ready_thread t (Some p) User_Thread)) t1"
    and fresh: "pmap (rt_table rt) p = None" "tmap (rt_table rt) t = None"
    by (cases rule: spawn_child_cases) auto
  have inv1: "rt_inv rt1" by (rule spawn_child_current_inv [OF inv sp])
  from d(5) [OF it(2)] obtain ith where ith: "tmap (rt_table rt) it = Some ith" "th_process ith = Some INIT" by blast
  have ne: "it \<noteq> t" using ith fresh by auto
  have "\<exists>s. pmap (rt_table rt) INIT = Some s"
    using linksD_thread(2) [OF table_invD(2) [OF d(1)] ith(1)] ith(2) by (auto simp: owner_ok_def)
  with fresh(1) have p: "p \<noteq> INIT" by auto
  have th: "tmap (rt_table rt1) t = Some (ready_thread t (Some p) User_Thread)"
    using tab_updD(3) [OF u1] rt1 by simp
  have cur1: "rt_current_thread rt1 = Some it" "rt_init_thread rt1 = Some it" using it rt1 by simp_all
  from switch_to_user_ok [OF inv1 cur1(1) th, of p] obtain t2 where
    s2: "switch_to_user p t rt1 = (Ok (), rt1\<lparr>rt_table := t2, rt_current_thread := Some t,
       rt_current_process := Some p\<rparr>)"
    and u2: "tab_upd (rt_table rt1) (pmap (rt_table rt1)) (switch_map (Some it) t (tmap (rt_table rt1))) t2"
    by (auto simp: ready_thread_def thread_new_def)
  show thesis
    by (rule that [OF s2 switch_to_user_inv [OF inv1 s2] p, of it "ith\<lparr>th_state := T_Ready\<rparr>"])
      (use cur1 rt1 ne ith tab_updD(2,3) [OF u1] tab_updD(2,3) [OF u2] in \<open>simp_all add: switch_map_def\<close>)
qed

lemma child_finished:
  assumes inv: "rt_inv rt" and p: "p \<noteq> INIT"
    and cur: "rt_current_thread rt = Some t" "rt_current_process rt = Some p" "rt_init_thread rt = Some it"
    and r: "pmap (rt_table rt) p = Some (started_process p (Some INIT) creds t)"
    and it: "tmap (rt_table rt) it = Some ith" "th_state ith = T_Ready" "th_process ith = Some INIT"
  obtains rt1 rt2 where "exit_current status rt = (Ok (), rt1)" "current_ids rt1 = None"
    "restore_init rt1 = (Ok (), rt2)" "rt_inv rt2" "rt_current_process rt2 = Some INIT"
    "pmap (rt_table rt2) p = Some (exited_self p status (started_process p (Some INIT) creds t))"
proof -
  have "pr_state (started_process p (Some INIT) creds t) = P_Running"
    by (simp add: started_process_def)
  from exit_current_ok [OF inv cur(1,2) p r this, of status] obtain t1 where
    s1: "exit_current status rt = (Ok (), rt\<lparr>rt_table := t1, rt_current_process := None, rt_current_thread := None\<rparr>)"
    and u1: "tab_upd (rt_table rt) ((reparent_map p (pmap (rt_table rt)))(p \<mapsto> exited_self p status (started_process p (Some INIT) creds t)))
         (exit_threads_map p (tmap (rt_table rt))) t1" .
  let ?rt1 = "rt\<lparr>rt_table := t1, rt_current_process := None, rt_current_thread := None\<rparr>"
  have inv1: "rt_inv ?rt1" by (rule exit_current_inv [OF inv s1])
  have it1: "tmap (rt_table ?rt1) it = Some ith"
    using tab_updD(3) [OF u1] it p by (simp add: exit_threads_map_def exit_thread_of_def)
  from restore_init_ok [OF inv1 _ _ it1 it(2)] cur(3) obtain t2 where
    s2: "restore_init ?rt1 = (Ok (), ?rt1\<lparr>rt_table := t2, rt_current_thread := Some it,
      rt_current_process := Some INIT\<rparr>)" and p2: "pmap t2 = pmap t1" by auto
  show thesis
    by (rule that [OF s1 _ s2 restore_init_inv [OF inv1 s2]])
      (use p2 tab_updD(2) [OF u1] in \<open>simp_all add: current_ids_def\<close>)
qed

lemma wait_current_zombie:
  assumes inv: "rt_inv rt" and cur: "rt_current_process rt = Some parent"
    and r: "pmap (rt_table rt) p = Some r" "pr_parent r = Some parent" "pr_state r = P_Zombie"
      "pr_exit_status r = Some status"
  shows "fst (wait_current (Some (process_id_get p)) rt) \<in>
      {Ok (process_id_get p, status), Err Pe_GenerationExhausted}"
proof -
  have "\<exists>s. pmap (rt_table rt) parent = Some s"
    using linksD_process(3) [OF table_invD(2) [OF rt_invD(1) [OF inv]] r(1)] r(2)
    by (auto simp: family_ok_def)
  then obtain s where s: "pmap (rt_table rt) parent = Some s" by blast
  from process_wait_zombie [OF rt_invD(1) [OF inv] s r] show ?thesis
    by (cases p; cases "process_wait parent (Some p) (rt_table rt)")
      (auto simp: wait_current_def on_table_def cur process_id_from_raw_def try_st_def split: sum.splits)
qed



text \<open>
  Yielding.  With a current thread, \<open>yield\<close> always succeeds.  It changes nothing when
  no thread is ready, and also when the first ready thread is init's and the caller is not init;
  otherwise the first ready thread becomes the only running one and the caller becomes ready.
\<close>

theorem yield_switches_to_first_ready:
  assumes "reachable (\<lambda>rt. rt = snd init_runtime) rt_step rt" "rt_current_thread rt = Some c"
  shows "case pick_ready (rt_table rt) of
      None \<Rightarrow> yield_current rt = (Ok (), rt)
    | Some n \<Rightarrow>
        if rt_current_process rt \<noteq> Some INIT \<and> rt_init_thread rt = Some n
        then yield_current rt = (Ok (), rt)
        else \<exists>rt'. yield_current rt = (Ok (), rt') \<and> rt_current_thread rt' = Some n \<and>
          thread_state_of c (rt_table rt') = Ok T_Ready \<and>
          (\<forall>tid. thread_state_of tid (rt_table rt') = Ok T_Running \<longleftrightarrow> tid = n)"
proof (cases "pick_ready (rt_table rt)")
  case None
  with assms(2) show ?thesis by (simp add: yield_current_def)
next
  case (Some n)
  have inv: "rt_inv rt" by (rule rtsys.reachable_inv [OF assms(1)])
  note d = rt_invD [OF inv]
  from table_invD(1) [OF d(1)] Some obtain th where th: "tmap (rt_table rt) n = Some th" "th_state th = T_Ready"
    by (rule pick_ready_Some)
  from inv assms(2) obtain fr where fr: "tmap (rt_table rt) c = Some fr" "th_state fr = T_Running"
    by (rule current_running)
  have ne: "c \<noteq> n" using fr th by auto
  from switch_to_Ok [OF table_invD(1) [OF d(1)] th ne fr] obtain cx t' where
    t': "switch_to (Some c) n (rt_table rt) = (Ok cx, t')"
    and u: "tab_upd (rt_table rt) (pmap (rt_table rt)) (switch_map (Some c) n (tmap (rt_table rt))) t'" .
  note T = tab_updD(3) [OF u]
  have n: "tmap t' n = Some (switched_in th)" using th by (simp add: T switch_map_def)
  have "running (tmap t') = {n}"
    using running_switch [where T = "tmap (rt_table rt)", OF th(1), of "Some c"] ne d(2) assms(2) T by auto
  moreover have "thread_state_of c t' = Ok T_Ready"
    using fr ne by (simp add: thread_state_of_def thread_get_map T switch_map_def)
  ultimately show ?thesis
    using Some assms(2) t' set_current_eq [of "rt\<lparr>rt_table := t'\<rparr>" n] n
    by (simp add: yield_current_def on_table_def thread_state_of_running)
qed

theorem yield_switches_to_first_ready_witness:
  "\<exists>rt rt'. spawn_child_current BOOTSTRAP (snd init_runtime) = (Ok (ProcessId 2, ThreadId 2), rt) \<and>
     yield_current rt = (Ok (), rt') \<and> rt_current_thread rt' = Some (ThreadId 2)"
proof -
  define rt where "rt = snd (spawn_child_current BOOTSTRAP (snd init_runtime))"
  have s: "spawn_child_current BOOTSTRAP (snd init_runtime) = (Ok (ProcessId 2, ThreadId 2), rt)"
    by (simp add: rt_def spawn_child_current_def on_table_def init_runtime_eq switch_to_def demo_boot_eq table_eval)
  have r: "reachable (\<lambda>rt. rt = snd init_runtime) rt_step rt"
    by (rule reach_step, rule reach_init, simp, rule rs_spawn, rule s)
  have c: "rt_current_thread rt = Some (ThreadId 1)" "rt_current_process rt = Some INIT"
    "pick_ready (rt_table rt) = Some (ThreadId 2)"
    by (simp_all add: rt_def spawn_child_current_def on_table_def init_runtime_eq switch_to_def
        demo_boot_eq table_eval pick_ready_def)
  from yield_switches_to_first_ready [OF r c(1)] c(2,3) s show ?thesis by auto
qed

end
