(* ===== verification/Scheduler.thy ===== *)
theory Scheduler
  imports Step_Systems
begin

text \<open>
  The scheduler of \<open>src/sched.rs\<close> and the scheduler clock of \<open>src/time.rs\<close>.  Times are 64-bit
  words; where the source writes \<open>+\<close> the sum wraps, where it saturates so does the model.  The
  lemmas characterise the choice of the next task and bound how far the two tasks of the running
  system can drift apart.
\<close>

definition MAX_TASKS :: nat where [kernel_defs]: "MAX_TASKS = 16"
definition BASE_SLICE :: u64 where [kernel_defs]: "BASE_SLICE = 4"
definition INTERACTIVE_SLICE :: u64 where [kernel_defs]: "INTERACTIVE_SLICE = 2"

datatype task_state = Task_Ready | Task_Sleeping | Task_Done

record task =
  task_id :: usize
  task_weight :: u32
  task_latency :: u8
  task_vruntime :: u64
  task_deadline :: u64
  task_burst :: u64
  task_state :: task_state

definition task_new :: "usize \<Rightarrow> u32 \<Rightarrow> u8 \<Rightarrow> task" where
  "task_new tid weight latency =
     \<lparr>task_id = tid, task_weight = weight, task_latency = latency, task_vruntime = 0,
      task_deadline = 0, task_burst = 0, task_state = Task_Ready\<rparr>"

record scheduler =
  sc_tasks :: "task option list"
  sc_len :: nat
  sc_clock :: u64

record sched_status =
  st_current :: "usize option"
  st_next :: "usize option"
  st_clock :: u64
  st_timer_ticks :: u64
  st_tasks :: nat

definition scheduler_new :: scheduler where
  "scheduler_new = \<lparr>sc_tasks = replicate MAX_TASKS None, sc_len = 0, sc_clock = 0\<rparr>"

definition slice_for :: "task \<Rightarrow> u64" where
  "slice_for t =
     (let latency_bonus = min (ucast (task_latency t)) 3 in
      max (saturating_sub BASE_SLICE latency_bonus) INTERACTIVE_SLICE)"

definition sched_add :: "task \<Rightarrow> scheduler \<Rightarrow> bool \<times> scheduler" where
  "sched_add t s =
     (if sc_len s = MAX_TASKS \<or> task_weight t = 0 then (False, s)
      else
        let t = t\<lparr>task_deadline := sc_clock s + slice_for t\<rparr> in
        (True, s\<lparr>sc_tasks := (sc_tasks s)[sc_len s := Some t], sc_len := sc_len s + 1\<rparr>))"

definition task_key :: "task \<Rightarrow> u64" where
  "task_key t = task_deadline t + task_burst t div 2"

fun pick_loop :: "task option list \<Rightarrow> usize option \<Rightarrow> u64 \<Rightarrow> usize option" where
  "pick_loop [] best best_key = best"
| "pick_loop (None # rest) best best_key = None"
| "pick_loop (Some t # rest) best best_key =
     (if task_state t \<noteq> Task_Ready then pick_loop rest best best_key
      else if task_key t < best_key then pick_loop rest (Some (task_id t)) (task_key t)
      else pick_loop rest best best_key)"

definition sched_pick :: "scheduler \<Rightarrow> usize option" where
  "sched_pick s = pick_loop (take (sc_len s) (sc_tasks s)) None (- 1)"

definition charged :: "u64 \<Rightarrow> bool \<Rightarrow> task \<Rightarrow> task" where
  "charged rtime slept t =
     (let weighted = saturating_mul rtime 1024 div ucast (task_weight t);
          t1 = t\<lparr>task_vruntime := saturating_add (task_vruntime t) weighted\<rparr>;
          t2 = t1\<lparr>task_burst := (if slept then task_burst t1 div 2
                                 else saturating_add (task_burst t1) rtime)\<rparr>
      in t2\<lparr>task_deadline := task_vruntime t2 + slice_for t2 + task_burst t2 div 4\<rparr>)"

text \<open>The loop of \<open>charge\<close>: the first task with the id is charged, and only then does the clock move.\<close>

fun charge_loop :: "usize \<Rightarrow> u64 \<Rightarrow> bool \<Rightarrow> task option list \<Rightarrow> u64 \<Rightarrow> task option list \<times> u64" where
  "charge_loop tid rtime slept [] clock = ([], clock)"
| "charge_loop tid rtime slept (None # rest) clock =
     (case charge_loop tid rtime slept rest clock of (ts, c) \<Rightarrow> (None # ts, c))"
| "charge_loop tid rtime slept (Some t # rest) clock =
     (if task_id t \<noteq> tid then
        (case charge_loop tid rtime slept rest clock of (ts, c) \<Rightarrow> (Some t # ts, c))
      else (Some (charged rtime slept t) # rest, saturating_add clock rtime))"

definition sched_charge :: "usize \<Rightarrow> u64 \<Rightarrow> bool \<Rightarrow> scheduler \<Rightarrow> scheduler" where
  "sched_charge tid rtime slept s =
     (case charge_loop tid rtime slept (take (sc_len s) (sc_tasks s)) (sc_clock s) of
        (ts, c) \<Rightarrow> s\<lparr>sc_tasks := ts @ drop (sc_len s) (sc_tasks s), sc_clock := c\<rparr>)"

text \<open>The statics \<open>RUNTIME\<close>, \<open>CURRENT\<close> and \<open>TIMER_TICKS\<close>.\<close>

record sched_runtime =
  sr_sched :: scheduler
  sr_current :: "usize option"
  sr_timer_ticks :: u64

definition sched_init_runtime :: sched_runtime where
  "sched_init_runtime =
     (let s0 = scheduler_new;
          s1 = snd (sched_add (task_new 1 1024 3) s0);
          s2 = snd (sched_add (task_new 2 1024 1) s1)
      in \<lparr>sr_sched = s2, sr_current = sched_pick s2, sr_timer_ticks = 0\<rparr>)"

definition on_timer_tick :: "sched_runtime \<Rightarrow> sched_runtime" where
  "on_timer_tick r =
     (let s = (case sr_current r of
                 None \<Rightarrow> sr_sched r
               | Some tid \<Rightarrow> sched_charge tid 1 False (sr_sched r))
      in \<lparr>sr_sched = s, sr_current = sched_pick s,
          sr_timer_ticks = saturating_add (sr_timer_ticks r) 1\<rparr>)"

definition sched_status_of :: "sched_runtime \<Rightarrow> sched_status" where
  "sched_status_of r =
     \<lparr>st_current = sr_current r, st_next = sched_pick (sr_sched r), st_clock = sc_clock (sr_sched r),
      st_timer_ticks = sr_timer_ticks r, st_tasks = sc_len (sr_sched r)\<rparr>"

section \<open>The scheduler clock\<close>

text \<open>
  \<open>LAST_SCHEDULER_TICK\<close> is the state; the hardware counter and the timer frequency are read by
  the architecture layer and passed in.
\<close>

definition SCHEDULER_HZ :: u64 where [kernel_defs]: "SCHEDULER_HZ = 100"
definition FALLBACK_TICKS_PER_SCHEDULER_TICK :: u64 where
  [kernel_defs]: "FALLBACK_TICKS_PER_SCHEDULER_TICK = 50000000"

definition scheduler_ticks :: "u64 option \<Rightarrow> u64" where
  "scheduler_ticks timer_frequency_hz =
     (case timer_frequency_hz of
        Some hz \<Rightarrow> max (hz div SCHEDULER_HZ) 1
      | None \<Rightarrow> FALLBACK_TICKS_PER_SCHEDULER_TICK)"

definition poll_scheduler_tick :: "u64 \<Rightarrow> u64 option \<Rightarrow> u64 \<Rightarrow> bool \<times> u64" where
  "poll_scheduler_tick now timer_frequency_hz last_tick =
     (if now - last_tick < scheduler_ticks timer_frequency_hz then (False, last_tick) else (True, now))"

section \<open>The choice of the next task\<close>

definition sched_tasks :: "scheduler \<Rightarrow> task list" where
  "sched_tasks s = flatten (take (sc_len s) (sc_tasks s))"

definition sched_inv :: "scheduler \<Rightarrow> bool" where
  "sched_inv s \<longleftrightarrow>
     length (sc_tasks s) = MAX_TASKS \<and> sc_len s \<le> MAX_TASKS \<and>
     list_all (\<lambda>slot. \<exists>t. slot = Some t \<and> task_weight t \<noteq> 0) (take (sc_len s) (sc_tasks s))"

definition first_minimum :: "task list \<Rightarrow> nat \<Rightarrow> bool" where
  "first_minimum ts i \<longleftrightarrow>
     i < length ts \<and> task_state (ts ! i) = Task_Ready \<and>
     (\<forall>j<length ts. task_state (ts ! j) = Task_Ready \<longrightarrow> task_key (ts ! i) \<le> task_key (ts ! j)) \<and>
     (\<forall>j<i. task_state (ts ! j) = Task_Ready \<longrightarrow> task_key (ts ! i) < task_key (ts ! j))"

lemma first_minimum_Cons:
  assumes "first_minimum ts i" "task_state t = Task_Ready \<longrightarrow> task_key (ts ! i) < task_key t"
  shows "first_minimum (t # ts) (Suc i)"
  using assms by (auto simp: first_minimum_def nth_Cons split: nat.splits)

lemma pick_loop_cases:
  "(pick_loop (map Some ts) best key = best \<and>
      (\<forall>t\<in>set ts. task_state t = Task_Ready \<longrightarrow> key \<le> task_key t)) \<or>
   (\<exists>i. first_minimum ts i \<and> task_key (ts ! i) < key \<and>
      pick_loop (map Some ts) best key = Some (task_id (ts ! i)))"
proof (induction ts arbitrary: best key)
  case Nil
  then show ?case by simp
next
  case (Cons t ts)
  show ?case
  proof (cases "task_state t = Task_Ready \<and> task_key t < key")
    case True
    from Cons.IH [of "Some (task_id t)" "task_key t"] show ?thesis
    proof (elim disjE exE conjE)
      assume "pick_loop (map Some ts) (Some (task_id t)) (task_key t) = Some (task_id t)"
        and m: "\<forall>u\<in>set ts. task_state u = Task_Ready \<longrightarrow> task_key t \<le> task_key u"
      moreover have "first_minimum (t # ts) 0"
        using True m by (auto simp: first_minimum_def nth_Cons split: nat.splits)
      ultimately show ?thesis using True by (intro disjI2 exI [of _ 0]) simp
    next
      fix i
      assume i: "first_minimum ts i" "task_key (ts ! i) < task_key t"
        "pick_loop (map Some ts) (Some (task_id t)) (task_key t) = Some (task_id (ts ! i))"
      moreover from i(2) True have "task_key (ts ! i) < key" by (blast intro: order.strict_trans)
      ultimately show ?thesis
        using True first_minimum_Cons [OF i(1), of t] by (intro disjI2 exI [of _ "Suc i"]) simp
    qed
  next
    case False
    then have skip: "pick_loop (map Some (t # ts)) best key = pick_loop (map Some ts) best key" by auto
    from Cons.IH [of best key] show ?thesis
    proof (elim disjE exE conjE)
      assume "pick_loop (map Some ts) best key = best"
        "\<forall>u\<in>set ts. task_state u = Task_Ready \<longrightarrow> key \<le> task_key u"
      with skip False show ?thesis by (intro disjI1) auto
    next
      fix i
      assume i: "first_minimum ts i" "task_key (ts ! i) < key"
        "pick_loop (map Some ts) best key = Some (task_id (ts ! i))"
      have "task_key (ts ! i) < task_key t" if "task_state t = Task_Ready"
        using False that i(2) by simp
      then have "first_minimum (t # ts) (Suc i)" using first_minimum_Cons [OF i(1), of t] by blast
      with skip i(2,3) show ?thesis by (intro disjI2 exI [of _ "Suc i"]) (simp del: pick_loop.simps)
    qed
  qed
qed

lemma map_Some_flatten: "list_all (\<lambda>slot. \<exists>t. slot = Some t \<and> P t) xs \<Longrightarrow> map Some (flatten xs) = xs"
  by (induction xs rule: flatten.induct) auto

lemma sched_pick_tasks:
  assumes "sched_inv s"
  shows "sched_pick s = pick_loop (map Some (sched_tasks s)) None (- 1)"
  using assms map_Some_flatten [of "\<lambda>t. task_weight t \<noteq> 0" "take (sc_len s) (sc_tasks s)"]
  by (simp add: sched_pick_def sched_tasks_def sched_inv_def)

section \<open>Steps\<close>

inductive sched_step :: "scheduler \<Rightarrow> scheduler \<Rightarrow> bool" where
  ss_add: "sched_add t s = (b, s') \<Longrightarrow> sched_step s s'"
| ss_charge: "sched_step s (sched_charge tid rtime slept s)"

lemma sched_inv_new: "sched_inv scheduler_new"
  by (simp add: sched_inv_def scheduler_new_def)

lemma sched_add_inv [inv_intros]: "sched_inv s \<Longrightarrow> sched_add t s = (b, s') \<Longrightarrow> sched_inv s'"
  by (auto simp: sched_add_def sched_inv_def Let_def list_all_iff take_Suc_conv_app_nth split: if_splits)

lemma charge_loop_all:
  "charge_loop tid rtime slept xs clock = (ys, c) \<Longrightarrow>
   length ys = length xs \<and>
   (list_all (\<lambda>slot. \<exists>t. slot = Some t \<and> task_weight t \<noteq> 0) xs \<longrightarrow>
    list_all (\<lambda>slot. \<exists>t. slot = Some t \<and> task_weight t \<noteq> 0) ys)"
proof (induction tid rtime slept xs clock arbitrary: ys c rule: charge_loop.induct)
  case (3 tid rtime slept t rest clock)
  have "task_weight (charged rtime slept t) = task_weight t" by (simp add: charged_def Let_def)
  with 3 show ?case by (auto split: if_splits prod.splits)
qed (auto split: prod.splits)

lemma sched_charge_inv [inv_intros]:
  assumes "sched_inv s"
  shows "sched_inv (sched_charge tid rtime slept s)"
proof -
  obtain ys c where l: "charge_loop tid rtime slept (take (sc_len s) (sc_tasks s)) (sc_clock s) = (ys, c)"
    by fastforce
  from charge_loop_all [OF l] assms show ?thesis
    by (auto simp: sched_charge_def l sched_inv_def min_absorb2)
qed

interpretation schedsys: step_invariant "\<lambda>s. s = scheduler_new" sched_step sched_inv
  by unfold_locales (auto simp: sched_inv_new elim!: sched_step.cases intro: inv_intros)

section \<open>The two tasks of the running system\<close>

text \<open>A task of weight 1024 that has run for \<open>n\<close> ticks, and the runtime with two of them.\<close>

definition task_after :: "usize \<Rightarrow> u8 \<Rightarrow> nat \<Rightarrow> nat \<Rightarrow> task" where
  "task_after tid latency quantum n =
     \<lparr>task_id = tid, task_weight = 1024, task_latency = latency, task_vruntime = word_of_nat n,
      task_deadline = word_of_nat (n + quantum + n div 4), task_burst = word_of_nat n,
      task_state = Task_Ready\<rparr>"

definition two_tasks :: "nat \<Rightarrow> nat \<Rightarrow> scheduler" where
  "two_tasks m n =
     \<lparr>sc_tasks = Some (task_after 1 3 2 m) # Some (task_after 2 1 3 n) # replicate 14 None,
      sc_len = 2, sc_clock = word_of_nat (m + n)\<rparr>"

definition runtime_after :: "nat \<Rightarrow> nat \<Rightarrow> sched_runtime" where
  "runtime_after m n =
     \<lparr>sr_sched = two_tasks m n, sr_current = sched_pick (two_tasks m n),
      sr_timer_ticks = word_of_nat (m + n)\<rparr>"

lemma slice_for_after:
  "slice_for (task_after 1 3 s n) = 2" "slice_for (task_after 2 1 s n) = 3"
  by (simp_all add: slice_for_def task_after_def kernel_defs saturating_sub_def Let_def max_def min_def)

lemma task_key_after:
  assumes "n < 2 ^ 62"
  shows "task_key (task_after tid lat quantum n) = word_of_nat (n + quantum + n div 4 + n div 2)"
  using of_nat_div_small [of n 2] assms by (simp add: task_key_def task_after_def)

lemma charged_after:
  assumes n: "n < 2 ^ 62" and s: "slice_for (task_after tid lat quantum n) = word_of_nat quantum"
  shows "charged 1 False (task_after tid lat quantum n) = task_after tid lat quantum (n + 1)"
proof -
  define v :: u64 where "v = word_of_nat (n + 1)"
  have w: "saturating_mul (1 :: u64) 1024 div 1024 = 1"
    by (simp add: saturating_mul_def)
  have a: "saturating_add (word_of_nat n) 1 = v"
    using saturating_add_small [of n 1] n by (simp add: v_def)
  have d: "v div 4 = word_of_nat ((n + 1) div 4)"
    unfolding v_def using of_nat_div_small [of "n + 1" 4] n by simp
  have sl: "slice_for (task_after tid lat quantum n\<lparr>task_vruntime := x, task_burst := y\<rparr>) = word_of_nat quantum" for x y
    using s by (simp add: slice_for_def)
  have fields: "task_weight (task_after tid lat quantum n) = 1024"
    "task_vruntime (task_after tid lat quantum n) = word_of_nat n"
    "task_burst (task_after tid lat quantum n) = word_of_nat n"
    by (simp_all add: task_after_def)
  have "charged 1 False (task_after tid lat quantum n) =
    task_after tid lat quantum n\<lparr>task_vruntime := v, task_burst := v,
      task_deadline := v + word_of_nat quantum + word_of_nat ((n + 1) div 4)\<rparr>"
    by (simp add: charged_def Let_def fields w a d sl)
  also have "\<dots> = task_after tid lat quantum (n + 1)"
    by (simp add: task_after_def v_def)
  finally show ?thesis .
qed

definition drift :: "nat \<Rightarrow> nat" where
  "drift n = n + n div 4 + n div 2"

lemma pick_two_tasks:
  assumes "m < 2 ^ 62" "n < 2 ^ 62"
  shows "sched_pick (two_tasks m n) = (if drift m \<le> drift n + 1 then Some 1 else Some 2)"
proof -
  have k: "task_key (task_after 1 3 2 m) = word_of_nat (drift m + 2)"
    "task_key (task_after 2 1 3 n) = word_of_nat (drift n + 3)"
    using task_key_after [OF assms(1), of 1 3 2] task_key_after [OF assms(2), of 2 1 3]
    by (simp_all add: drift_def add_ac)
  have b: "drift m + 2 < 2 ^ 64 - 1" "drift n + 3 < 2 ^ 64 - 1"
    using assms by (simp_all add: drift_def)
  have max: "(- 1 :: u64) = word_of_nat (2 ^ 64 - 1)" by simp
  have "word_of_nat (drift m + 2) < (- 1 :: u64)" "word_of_nat (drift n + 3) < (- 1 :: u64)"
    unfolding max using b by (simp_all only: of_nat_less_small)
  moreover have "(word_of_nat (drift n + 3) :: u64) < word_of_nat (drift m + 2) \<longleftrightarrow> drift n + 3 < drift m + 2"
    using b by (intro of_nat_less_small) simp_all
  moreover have "task_state (task_after i l q x) = Task_Ready" "task_id (task_after i l q x) = i" for i l q x
    by (simp_all add: task_after_def)
  ultimately show ?thesis
    by (simp add: sched_pick_def two_tasks_def k del: of_nat_add)
qed

lemma charge_two_tasks:
  assumes "m < 2 ^ 62" "n < 2 ^ 62"
  shows "sched_charge 1 1 False (two_tasks m n) = two_tasks (m + 1) n"
    "sched_charge 2 1 False (two_tasks m n) = two_tasks m (n + 1)"
proof -
  have c: "saturating_add (word_of_nat (m + n) :: u64) 1 = word_of_nat (m + n + 1)"
    using saturating_add_small [of "m + n" 1] assms by simp
  have i: "task_id (task_after i l q x) = i" for i l q x by (simp add: task_after_def)
  have 1: "charged 1 False (task_after 1 3 2 m) = task_after 1 3 2 (m + 1)"
    using charged_after [OF assms(1), of 1 3 2] by (simp add: slice_for_after)
  have 2: "charged 1 False (task_after 2 1 3 n) = task_after 2 1 3 (n + 1)"
    using charged_after [OF assms(2), of 2 1 3] by (simp add: slice_for_after)
  show "sched_charge 1 1 False (two_tasks m n) = two_tasks (m + 1) n"
    using 1 c by (simp add: sched_charge_def two_tasks_def i add_ac)
  show "sched_charge 2 1 False (two_tasks m n) = two_tasks m (n + 1)"
    using 2 c by (simp add: sched_charge_def two_tasks_def i add_ac)
qed

lemma tick_two_tasks:
  assumes "m + n < 2 ^ 62"
  shows "on_timer_tick (runtime_after m n) =
    (if drift m \<le> drift n + 1 then runtime_after (m + 1) n else runtime_after m (n + 1))"
proof -
  have b: "m < 2 ^ 62" "n < 2 ^ 62" using assms by simp_all
  have c: "saturating_add (word_of_nat (m + n) :: u64) 1 = word_of_nat (m + n + 1)"
    using saturating_add_small [of "m + n" 1] assms by simp
  show ?thesis
    using pick_two_tasks [OF b] charge_two_tasks [OF b] c
    by (simp add: on_timer_tick_def runtime_after_def Let_def add_ac)
qed

lemma drift_step: "drift m \<le> drift n + 1 \<Longrightarrow> n \<le> m \<Longrightarrow> m \<le> n + 1"
  by (simp add: drift_def)

lemma init_runtime_after: "sched_init_runtime = runtime_after 0 0"
  by (simp add: sched_init_runtime_def runtime_after_def two_tasks_def task_after_def scheduler_new_def
      sched_add_def task_new_def slice_for_def kernel_defs upd_replicate_0 Let_def saturating_sub_def
      max_def min_def) (simp only: numeral_2_eq_2)

lemma ticks_two_tasks:
  "t < 2 ^ 62 \<Longrightarrow> \<exists>m n. m + n = t \<and> n \<le> m \<and> m \<le> n + 2 \<and>
     (on_timer_tick ^^ t) sched_init_runtime = runtime_after m n"
proof (induction t)
  case 0
  then show ?case by (auto simp: init_runtime_after)
next
  case (Suc t)
  then obtain m n where mn: "m + n = t" "n \<le> m" "m \<le> n + 2"
    "(on_timer_tick ^^ t) sched_init_runtime = runtime_after m n" by auto
  from Suc.prems mn(1) have "m + n < 2 ^ 62" by simp
  note tick = tick_two_tasks [OF this]
  show ?case
  proof (cases "drift m \<le> drift n + 1")
    case True
    with drift_step [OF True mn(2)] tick mn show ?thesis
      by (intro exI [of _ "m + 1"] exI [of _ n]) simp
  next
    case False
    then have "n + 1 \<le> m" using mn(2) by (cases "m = n") (auto simp: drift_def)
    with False tick mn show ?thesis
      by (intro exI [of _ m] exI [of _ "n + 1"]) simp
  qed
qed

section \<open>Properties\<close>

text \<open>
  Claim C16.  The scheduler picks, among the ready tasks, the earliest added one whose key
  (deadline plus half the burst) is minimal.  It picks none exactly when no ready task has a key
  below the largest 64-bit value, so a task whose key has reached that value is never run.
\<close>

theorem pick_is_first_minimum:
  assumes "reachable (\<lambda>s. s = scheduler_new) sched_step s"
  shows "case sched_pick s of
      None \<Rightarrow> \<forall>t\<in>set (sched_tasks s). task_state t = Task_Ready \<longrightarrow> task_key t = - 1
    | Some tid \<Rightarrow> \<exists>i. first_minimum (sched_tasks s) i \<and> task_id (sched_tasks s ! i) = tid"
proof -
  have inv: "sched_inv s" by (rule schedsys.reachable_inv [OF assms])
  have max: "- 1 \<le> (k :: u64) \<longleftrightarrow> k = - 1" for k by (metis order_antisym word_order.extremum order_refl)
  from pick_loop_cases [of "sched_tasks s" None "- 1"] show ?thesis
    by (auto simp: sched_pick_tasks [OF inv] max)
qed

theorem pick_is_first_minimum_witness:
  "reachable (\<lambda>s. s = scheduler_new) sched_step (snd (sched_add (task_new 7 1 0) scheduler_new)) \<and>
   (\<exists>i. first_minimum (sched_tasks (snd (sched_add (task_new 7 1 0) scheduler_new))) i)"
proof -
  let ?s = "snd (sched_add (task_new 7 1 0) scheduler_new)"
  have r: "reachable (\<lambda>s. s = scheduler_new) sched_step ?s"
    by (rule reach_step, rule reach_init, simp, rule ss_add, rule prod.collapse [symmetric])
  have "sched_pick ?s = Some 7"
    by (simp add: sched_pick_def sched_add_def task_new_def scheduler_new_def kernel_defs
        upd_replicate_0 slice_for_def saturating_sub_def Let_def task_key_def max_def min_def)
  with r pick_is_first_minimum [OF r] show ?thesis by auto
qed

text \<open>
  Claim C26.  Fairness of the running system.  After \<open>t\<close> timer ticks (up to 2 to the 62) the two
  tasks have together been charged exactly \<open>t\<close> ticks, the first at least as many as the second
  and at most two more; the clock and the tick counter read \<open>t\<close>.
\<close>

theorem timer_ticks_fair:
  assumes "t < 2 ^ 62"
  shows "\<exists>m n a b r. (on_timer_tick ^^ t) sched_init_runtime = r \<and>
      sc_tasks (sr_sched r) = Some a # Some b # replicate 14 None \<and>
      task_id a = 1 \<and> task_id b = 2 \<and>
      task_vruntime a = word_of_nat m \<and> task_vruntime b = word_of_nat n \<and>
      m + n = t \<and> n \<le> m \<and> m \<le> n + 2 \<and>
      sc_clock (sr_sched r) = word_of_nat t \<and> sr_timer_ticks r = word_of_nat t"
proof -
  from ticks_two_tasks [OF assms] obtain m n where "m + n = t" "n \<le> m" "m \<le> n + 2"
    "(on_timer_tick ^^ t) sched_init_runtime = runtime_after m n" by blast
  then show ?thesis
    by (intro exI [of _ m] exI [of _ n] exI [of _ "task_after 1 3 2 m"] exI [of _ "task_after 2 1 3 n"]
        exI [of _ "runtime_after m n"])
      (auto simp: runtime_after_def two_tasks_def task_after_def)
qed

theorem timer_ticks_fair_witness:
  "(1000 :: nat) < 2 ^ 62 \<and> sr_timer_ticks ((on_timer_tick ^^ 1000) sched_init_runtime) = 1000"
proof -
  have b: "(1000 :: nat) < 2 ^ 62" by simp
  from timer_ticks_fair [OF b] obtain r where "(on_timer_tick ^^ 1000) sched_init_runtime = r"
    "sr_timer_ticks r = word_of_nat 1000" by blast
  with b show ?thesis by simp
qed

end
