(* ===== verification/Input_Keys.thy ===== *)
theory Input_Keys
  imports Main
begin

text \<open>
  The key codes of \<open>src/input.rs\<close>, constructor by constructor.  They have a theory of their own
  because the datatype is large.
\<close>

datatype (plugins only: ) key_code =
    K_Escape | K_F1 | K_F2 | K_F3 | K_F4 | K_F5 | K_F6 | K_F7 | K_F8 | K_F9 | K_F10 | K_F11
    | K_F12 | K_Grave | K_Num1 | K_Num2 | K_Num3 | K_Num4 | K_Num5 | K_Num6 | K_Num7 | K_Num8
    | K_Num9 | K_Num0 | K_Minus | K_Equals | K_Backspace | K_Tab | K_Q | K_W | K_E | K_R | K_T
    | K_Y | K_U | K_I | K_O | K_P | K_LeftBracket | K_RightBracket | K_Backslash | K_CapsLock
    | K_A | K_S | K_D | K_F | K_G | K_H | K_J | K_K | K_L | K_Semicolon | K_Apostrophe | K_Enter
    | K_LeftShift | K_Z | K_X | K_C | K_V | K_B | K_N | K_M | K_Comma | K_Dot | K_Slash
    | K_RightShift | K_LeftCtrl | K_LeftAlt | K_Space | K_RightAlt | K_RightCtrl | K_LeftGui
    | K_RightGui | K_PrintScreen | K_ScrollLock | K_Pause | K_NumLock | K_KeypadSlash
    | K_KeypadEnter | K_Insert | K_Delete | K_Home | K_End | K_PageUp | K_PageDown | K_ArrowUp
    | K_ArrowDown | K_ArrowLeft | K_ArrowRight

end
