(* ===== verification/Input_Queue.thy ===== *)
theory Input_Queue
  imports Bounded_Fifo Step_Systems Input_Keys
begin

text \<open>
  The input events of \<open>src/input.rs\<close> and the queue between the interrupt handlers that push them
  and the consumer that pops them.  The queue is a ring of 256 cells with a head and a tail but
  no length, so one cell always stays free; a push on a full queue counts a dropped event.
\<close>

definition EVENT_QUEUE_CAPACITY :: nat where [kernel_defs]: "EVENT_QUEUE_CAPACITY = 256"

text \<open>The modifier and button sets are bit masks.\<close>

datatype modifiers = Modifiers u8
datatype buttons = Buttons u8

definition MOD_SHIFT :: u8 where "MOD_SHIFT = push_bit 0 1"
definition MOD_CTRL :: u8 where "MOD_CTRL = push_bit 1 1"
definition MOD_ALT :: u8 where "MOD_ALT = push_bit 2 1"
definition MOD_GUI :: u8 where "MOD_GUI = push_bit 3 1"
definition MOD_CAPS_LOCK :: u8 where "MOD_CAPS_LOCK = push_bit 4 1"
definition MOD_NUM_LOCK :: u8 where "MOD_NUM_LOCK = push_bit 5 1"
definition MOD_SCROLL_LOCK :: u8 where "MOD_SCROLL_LOCK = push_bit 6 1"

definition modifiers_empty :: modifiers where
  "modifiers_empty = Modifiers 0"

fun modifiers_bits :: "modifiers \<Rightarrow> u8" where
  "modifiers_bits (Modifiers b) = b"

definition modifiers_from_bits :: "u8 \<Rightarrow> modifiers" where
  "modifiers_from_bits bits = Modifiers bits"

definition modifiers_contains :: "modifiers \<Rightarrow> u8 \<Rightarrow> bool" where
  "modifiers_contains m bits \<longleftrightarrow> modifiers_bits m AND bits \<noteq> 0"

definition BTN_LEFT :: u8 where "BTN_LEFT = push_bit 0 1"
definition BTN_RIGHT :: u8 where "BTN_RIGHT = push_bit 1 1"
definition BTN_MIDDLE :: u8 where "BTN_MIDDLE = push_bit 2 1"
definition BTN_BACK :: u8 where "BTN_BACK = push_bit 3 1"
definition BTN_FORWARD :: u8 where "BTN_FORWARD = push_bit 4 1"

definition buttons_empty :: buttons where
  "buttons_empty = Buttons 0"

definition buttons_from_bits :: "u8 \<Rightarrow> buttons" where
  "buttons_from_bits bits = Buttons bits"

fun buttons_bits :: "buttons \<Rightarrow> u8" where
  "buttons_bits (Buttons b) = b"

record key_event =
  ke_code :: key_code
  ke_pressed :: bool
  ke_repeat :: bool
  ke_modifiers :: modifiers
  ke_text :: "u32 option"

record pointer_event =
  pe_dx :: u16
  pe_dy :: u16
  pe_wheel :: u8
  pe_buttons :: buttons
  pe_changed :: buttons

datatype input_event = Ev_Key key_event | Ev_Pointer pointer_event

text \<open>The statics \<open>HEAD\<close>, \<open>TAIL\<close>, \<open>DROPPED\<close> and \<open>EVENTS\<close>; \<open>DROPPED\<close> wraps.\<close>

record input_queue =
  iq_head :: nat
  iq_tail :: nat
  iq_dropped :: u64
  iq_events :: "input_event option list"

definition input_queue_init :: input_queue where
  "input_queue_init =
     \<lparr>iq_head = 0, iq_tail = 0, iq_dropped = 0, iq_events = replicate EVENT_QUEUE_CAPACITY None\<rparr>"

definition next_index :: "nat \<Rightarrow> nat" where
  "next_index index = (if index + 1 = EVENT_QUEUE_CAPACITY then 0 else index + 1)"

definition input_push :: "input_event \<Rightarrow> input_queue \<Rightarrow> bool \<times> input_queue" where
  "input_push event q =
     (let head = iq_head q; next = next_index head in
      if next = iq_tail q then (False, q\<lparr>iq_dropped := iq_dropped q + 1\<rparr>)
      else (True, q\<lparr>iq_events := (iq_events q)[head := Some event], iq_head := next\<rparr>))"

definition input_pop :: "input_queue \<Rightarrow> input_event option \<times> input_queue" where
  "input_pop q =
     (let tail = iq_tail q in
      if tail = iq_head q then (None, q)
      else (iq_events q ! tail, q\<lparr>iq_tail := next_index tail\<rparr>))"

definition input_dropped :: "input_queue \<Rightarrow> u64" where
  "input_dropped q = iq_dropped q"

definition input_reset :: "input_queue \<Rightarrow> input_queue" where
  "input_reset q = q\<lparr>iq_head := 0, iq_tail := 0, iq_dropped := 0\<rparr>"

section \<open>The queued events\<close>

definition iq_count :: "input_queue \<Rightarrow> nat" where
  "iq_count q = (iq_head q + EVENT_QUEUE_CAPACITY - iq_tail q) mod EVENT_QUEUE_CAPACITY"

definition iq_items :: "input_queue \<Rightarrow> input_event list" where
  "iq_items q = map the (ring_items (iq_events q) (iq_tail q) (iq_count q))"

definition input_queue_inv :: "input_queue \<Rightarrow> bool" where
  "input_queue_inv q \<longleftrightarrow>
     length (iq_events q) = EVENT_QUEUE_CAPACITY \<and>
     iq_head q < EVENT_QUEUE_CAPACITY \<and> iq_tail q < EVENT_QUEUE_CAPACITY \<and>
     (\<forall>c\<in>set (ring_items (iq_events q) (iq_tail q) (iq_count q)). is_some c)"

definition iq_push :: "input_event \<Rightarrow> input_queue \<Rightarrow> input_queue option" where
  "iq_push event q = (case input_push event q of (True, q') \<Rightarrow> Some q' | (False, _) \<Rightarrow> None)"

definition iq_pop :: "input_queue \<Rightarrow> (input_event \<times> input_queue) option" where
  "iq_pop q = (case input_pop q of (Some e, q') \<Rightarrow> Some (e, q') | (None, _) \<Rightarrow> None)"

lemma next_index_mod: "i < EVENT_QUEUE_CAPACITY \<Longrightarrow> next_index i = (i + 1) mod EVENT_QUEUE_CAPACITY"
  by (auto simp: next_index_def)

lemma next_index_lt: "i < EVENT_QUEUE_CAPACITY \<Longrightarrow> next_index i < EVENT_QUEUE_CAPACITY"
  by (auto simp: next_index_def)

lemma iq_head_mod:
  assumes "input_queue_inv q"
  shows "iq_head q = (iq_tail q + iq_count q) mod EVENT_QUEUE_CAPACITY"
  using assms by (simp add: iq_count_def input_queue_inv_def mod_add_right_eq)

lemma iq_count_lt: "iq_count q < EVENT_QUEUE_CAPACITY"
  by (simp add: iq_count_def kernel_defs)

lemma iq_count_push:
  assumes "input_queue_inv q" "next_index (iq_head q) \<noteq> iq_tail q"
  shows "(next_index (iq_head q) + EVENT_QUEUE_CAPACITY - iq_tail q) mod EVENT_QUEUE_CAPACITY =
    Suc (iq_count q)"
proof -
  have "iq_head q < 256" "iq_tail q < 256"
    using assms(1) by (simp_all add: input_queue_inv_def kernel_defs)
  with assms(2) show ?thesis
    by (cases "iq_tail q \<le> iq_head q")
      (auto simp: iq_count_def next_index_def kernel_defs mod_if)
qed

lemma iq_count_pop:
  assumes "input_queue_inv q" "iq_tail q \<noteq> iq_head q"
  shows "iq_count q \<noteq> 0"
    "(iq_head q + EVENT_QUEUE_CAPACITY - next_index (iq_tail q)) mod EVENT_QUEUE_CAPACITY = iq_count q - 1"
proof -
  have b: "iq_head q < 256" "iq_tail q < 256"
    using assms(1) by (simp_all add: input_queue_inv_def kernel_defs)
  then show "iq_count q \<noteq> 0"
    using assms(2) by (auto simp: iq_count_def kernel_defs mod_if)
  show "(iq_head q + EVENT_QUEUE_CAPACITY - next_index (iq_tail q)) mod EVENT_QUEUE_CAPACITY = iq_count q - 1"
    using b assms(2) by (cases "iq_tail q \<le> iq_head q")
      (auto simp: iq_count_def next_index_def kernel_defs mod_if)
qed

lemma iq_full_iff:
  assumes "input_queue_inv q"
  shows "next_index (iq_head q) = iq_tail q \<longleftrightarrow> iq_count q = 255"
proof -
  have "iq_head q < 256" "iq_tail q < 256"
    using assms by (simp_all add: input_queue_inv_def kernel_defs)
  then show ?thesis
    by (cases "iq_tail q \<le> iq_head q") (auto simp: iq_count_def next_index_def kernel_defs mod_if)
qed

lemma input_queue_inv_init [inv_intros]: "input_queue_inv input_queue_init"
  by (simp add: input_queue_inv_def input_queue_init_def iq_count_def kernel_defs ring_items_def)

lemma input_reset_inv [inv_intros]: "input_queue_inv q \<Longrightarrow> input_queue_inv (input_reset q)"
  by (simp add: input_queue_inv_def input_reset_def iq_count_def kernel_defs ring_items_def)

lemma iq_push_spec:
  assumes inv: "input_queue_inv q" and p: "iq_push e q = Some q'"
  shows "input_queue_inv q'" "iq_items q' = iq_items q @ [e]" "iq_dropped q' = iq_dropped q"
proof -
  from p have n: "next_index (iq_head q) \<noteq> iq_tail q"
    and q': "q' = q\<lparr>iq_events := (iq_events q)[iq_head q := Some e], iq_head := next_index (iq_head q)\<rparr>"
    by (auto simp: iq_push_def input_push_def Let_def split: if_splits)
  have len: "iq_count q < length (iq_events q)"
    using inv iq_count_lt by (simp add: input_queue_inv_def)
  have cnt: "iq_count q' = Suc (iq_count q)"
    using iq_count_push [OF inv n] by (simp add: iq_count_def q')
  have items: "ring_items (iq_events q') (iq_tail q') (iq_count q') =
      ring_items (iq_events q) (iq_tail q) (iq_count q) @ [Some e]"
    using ring_items_push [OF len, of "iq_tail q" "Some e"] inv iq_head_mod [OF inv] cnt
    by (simp add: input_queue_inv_def q')
  then show "iq_items q' = iq_items q @ [e]" by (simp add: iq_items_def)
  from items inv show "input_queue_inv q'"
    by (auto simp: input_queue_inv_def q' next_index_lt)
  show "iq_dropped q' = iq_dropped q" by (simp add: q')
qed

lemma iq_pop_spec:
  assumes inv: "input_queue_inv q" and ne: "iq_tail q \<noteq> iq_head q"
  shows "\<exists>e. input_pop q = (Some e, q\<lparr>iq_tail := next_index (iq_tail q)\<rparr>) \<and>
    iq_items q = e # iq_items (q\<lparr>iq_tail := next_index (iq_tail q)\<rparr>) \<and>
    input_queue_inv (q\<lparr>iq_tail := next_index (iq_tail q)\<rparr>)"
proof -
  let ?q = "q\<lparr>iq_tail := next_index (iq_tail q)\<rparr>"
  have len: "length (iq_events q) = EVENT_QUEUE_CAPACITY" "iq_tail q < EVENT_QUEUE_CAPACITY"
    using inv by (simp_all add: input_queue_inv_def)
  note cnt = iq_count_pop [OF inv ne]
  have head: "ring_items (iq_events q) (iq_tail q) (iq_count q) =
      iq_events q ! iq_tail q # ring_items (iq_events q) (next_index (iq_tail q)) (iq_count q - 1)"
    using ring_items_Cons [of "iq_count q" "iq_events q" "iq_tail q"] cnt(1) len iq_count_lt [of q]
    by (simp add: next_index_mod)
  have c': "iq_count ?q = iq_count q - 1" using cnt(2) by (simp add: iq_count_def)
  from inv head have "is_some (iq_events q ! iq_tail q)" by (simp add: input_queue_inv_def)
  then obtain e where e: "iq_events q ! iq_tail q = Some e" by (auto simp: is_some_iff)
  have "input_queue_inv ?q"
    using inv head c' by (auto simp: input_queue_inv_def next_index_lt)
  moreover have "iq_items q = e # iq_items ?q"
    using head e c' by (simp add: iq_items_def)
  moreover have "input_pop q = (Some e, ?q)" using ne e by (simp add: input_pop_def Let_def)
  ultimately show ?thesis by blast
qed

lemma iq_push_None: "input_queue_inv q \<Longrightarrow> iq_push e q = None \<longleftrightarrow> length (iq_items q) = 255"
  by (simp add: iq_push_def input_push_def Let_def iq_full_iff iq_items_def)

lemma iq_pop_None: "input_queue_inv q \<Longrightarrow> iq_pop q = None \<longleftrightarrow> iq_items q = []"
  using iq_pop_spec [of q]
  by (cases "iq_tail q = iq_head q")
    (auto simp: iq_pop_def input_pop_def Let_def iq_items_def iq_count_def ring_items_def)

lemma iq_pop_Some:
  assumes "input_queue_inv q" "iq_pop q = Some (e, q')"
  shows "iq_items q = e # iq_items q'" "input_queue_inv q'" "iq_dropped q' = iq_dropped q"
proof -
  have "iq_tail q \<noteq> iq_head q"
    using assms(2) by (auto simp: iq_pop_def input_pop_def Let_def split: if_splits)
  from iq_pop_spec [OF assms(1) this] assms(2)
  show "iq_items q = e # iq_items q'" "input_queue_inv q'" "iq_dropped q' = iq_dropped q"
    by (auto simp: iq_pop_def)
qed

text \<open>The input queue is a bounded queue of 255 events.\<close>

interpretation inq: bounded_fifo iq_push iq_pop iq_items "\<lambda>e q. True" input_queue_inv 255
proof (unfold_locales, goal_cases)
  case (8 q)
  then show ?case using iq_count_lt [of q] by (simp add: iq_items_def kernel_defs)
qed (simp add: iq_push_None iq_pop_None | (rule iq_push_spec iq_pop_Some, assumption+))+

text \<open>
  A history of pushes and pops with the events that were accepted, refused and delivered.
\<close>

fun input_run :: "input_event fifo_op list \<Rightarrow> input_queue \<Rightarrow>
    input_event list \<times> input_event list \<times> input_event list \<times> input_queue" where
  "input_run [] q = ([], [], [], q)"
| "input_run (Push e # ops) q =
     (case input_push e q of (ok, q') \<Rightarrow>
      case input_run ops q' of (ins, lost, outs, r) \<Rightarrow>
        if ok then (e # ins, lost, outs, r) else (ins, e # lost, outs, r))"
| "input_run (Pop # ops) q =
     (case input_pop q of (got, q') \<Rightarrow>
      case input_run ops q' of (ins, lost, outs, r) \<Rightarrow>
        (ins, lost, (case got of None \<Rightarrow> outs | Some e \<Rightarrow> e # outs), r))"

lemma input_push_cases:
  assumes "input_queue_inv q"
  obtains (accepted) q' where "input_push e q = (True, q')" "iq_push e q = Some q'"
      "length (iq_items q) < 255"
    | (refused) "input_push e q = (False, q\<lparr>iq_dropped := iq_dropped q + 1\<rparr>)"
      "length (iq_items q) = 255"
proof (cases "iq_push e q")
  case None
  then have "input_push e q = (False, q\<lparr>iq_dropped := iq_dropped q + 1\<rparr>)"
    by (simp add: iq_push_def input_push_def Let_def split: if_splits)
  with None iq_push_None [OF assms, of e] refused show ?thesis by blast
next
  case (Some q')
  moreover from Some have "input_push e q = (True, q')"
    by (auto simp: iq_push_def split: prod.splits bool.splits)
  moreover have "length (iq_items q) < 255"
    using inq.items_bound [OF assms] inq.push_None [OF assms, of e] Some by auto
  ultimately show ?thesis using accepted by blast
qed

lemma input_pop_cases:
  assumes "input_queue_inv q"
  obtains (empty) "input_pop q = (None, q)" "iq_items q = []"
    | (event) e q' where "input_pop q = (Some e, q')" "iq_pop q = Some (e, q')"
proof (cases "iq_tail q = iq_head q")
  case True
  then have "input_pop q = (None, q)" by (simp add: input_pop_def)
  moreover from this have "iq_pop q = None" by (simp add: iq_pop_def)
  ultimately show ?thesis using empty inq.pop_None [OF assms] by blast
next
  case False
  from iq_pop_spec [OF assms this] event show ?thesis by (auto simp: iq_pop_def)
qed

lemma iq_dropped_upd [simp]:
  "iq_items (q\<lparr>iq_dropped := d\<rparr>) = iq_items q"
  "input_queue_inv (q\<lparr>iq_dropped := d\<rparr>) = input_queue_inv q"
  by (simp_all add: iq_items_def iq_count_def input_queue_inv_def)

lemma input_run_conserves:
  assumes "input_queue_inv q" "input_run ops q = (ins, lost, outs, r)"
  shows "input_queue_inv r \<and> iq_items q @ ins = outs @ iq_items r \<and>
    iq_dropped r = iq_dropped q + of_nat (length lost) \<and>
    length ins + length lost = length (filter (\<lambda>p. p \<noteq> Pop) ops)"
  using assms
proof (induction ops q arbitrary: ins lost outs r rule: input_run.induct)
  case (1 q)
  then show ?case by simp
next
  case (2 e ops q)
  from 2(2) show ?case
  proof (cases rule: input_push_cases [where e = e])
    case (accepted q')
    with 2(3) obtain ins' where i: "ins = e # ins'" "input_run ops q' = (ins', lost, outs, r)"
      by (auto split: prod.splits)
    note q' = iq_push_spec [OF 2(2) accepted(2)]
    from 2(1) [OF accepted(1) [symmetric] q'(1) i(2)] i(1) q' show ?thesis by simp
  next
    case refused
    with 2(3) obtain lost' where i: "lost = e # lost'"
        "input_run ops (q\<lparr>iq_dropped := iq_dropped q + 1\<rparr>) = (ins, lost', outs, r)"
      by (auto split: prod.splits)
    from 2(1) [OF refused(1) [symmetric] _ i(2)] i(1) 2(2) show ?thesis by simp
  qed
next
  case (3 ops q)
  from 3(2) show ?case
  proof (cases rule: input_pop_cases)
    case empty
    with 3(3) have "input_run ops q = (ins, lost, outs, r)" by (auto split: prod.splits)
    from 3(1) [OF empty(1) [symmetric] 3(2) this] show ?thesis by simp
  next
    case (event e q')
    with 3(3) obtain outs' where i: "outs = e # outs'" "input_run ops q' = (ins, lost, outs', r)"
      by (auto split: prod.splits)
    note q' = iq_pop_Some [OF 3(2) event(2)]
    from 3(1) [OF event(1) [symmetric] q'(2) i(2)] i(1) q' show ?thesis by simp
  qed
qed

text \<open>
  Claim C33.  For every history of pushes and pops from the initial queue, the accepted events
  are the delivered ones followed by those still queued, in order; at most 255 are queued; the
  counter \<open>dropped\<close> is the number of refused pushes modulo \<open>2^64\<close>; and the next push is refused
  exactly when 255 events are queued.
\<close>

theorem input_queue_conserves_events:
  "case input_run ops input_queue_init of (ins, lost, outs, q) \<Rightarrow>
     ins = outs @ iq_items q \<and> length (iq_items q) \<le> 255 \<and>
     unat (input_dropped q) = length lost mod 2 ^ 64 \<and>
     (fst (input_push e q) \<longleftrightarrow> length (iq_items q) < 255)"
proof -
  obtain ins lost outs q where run: "input_run ops input_queue_init = (ins, lost, outs, q)"
    by (metis prod_cases4)
  note c = input_run_conserves [OF input_queue_inv_init run]
  have "iq_items input_queue_init = []" "iq_dropped input_queue_init = 0"
    by (simp_all add: iq_items_def input_queue_init_def iq_count_def ring_items_def)
  moreover have "fst (input_push e q) \<longleftrightarrow> length (iq_items q) < 255"
    by (rule input_push_cases [OF conjunct1 [OF c], of e]) simp_all
  moreover have "length (iq_items q) \<le> 255" using c inq.items_bound by blast
  ultimately show ?thesis using run c by (simp add: input_dropped_def unat_of_nat)
qed

end
