(* ===== verification/Irq.thy ===== *)
theory Irq
  imports Step_Systems
begin

unbundle bit_operations_syntax

text \<open>
  The interrupt registry of \<open>src/irq.rs\<close>: the handler table, the set of slots with deferred work
  as the 64-bit mask \<open>PENDING\<close>, and the counters.  A hard handler is a name, and what it returns
  is a parameter of the dispatch; the deferred pass yields the deferred handlers it calls.
  Counters wrap.
\<close>

definition MAX_HANDLERS :: nat where [kernel_defs]: "MAX_HANDLERS = 64"

datatype irq_kind = Irq_Legacy | Irq_Msi | Irq_MsiX | Irq_Gic

datatype irq_error = Irq_Capacity | Irq_Duplicate | Irq_InvalidRegistration | Irq_NotRegistered

record registration =
  rg_kind :: irq_kind
  rg_line :: u32
  rg_vector :: u8
  rg_hard :: nat
  rg_deferred :: "nat option"

record irq_state =
  irq_TIMER :: u64
  irq_SPURIOUS :: u64
  irq_EXCEPTIONS :: u64
  irq_UNHANDLED :: u64
  irq_DEFERRED :: u64
  irq_PENDING :: u64
  irq_HANDLERS :: "registration option list"

record irq_stats =
  ist_timer :: u64
  ist_spurious :: u64
  ist_exceptions :: u64
  ist_unhandled :: u64
  ist_deferred :: u64

definition irq_init :: irq_state where
  "irq_init = \<lparr>irq_TIMER = 0, irq_SPURIOUS = 0, irq_EXCEPTIONS = 0, irq_UNHANDLED = 0,
     irq_DEFERRED = 0, irq_PENDING = 0, irq_HANDLERS = replicate MAX_HANDLERS None\<rparr>"

definition irq_clash :: "irq_kind \<Rightarrow> u32 \<Rightarrow> u8 \<Rightarrow> registration option \<Rightarrow> bool" where
  "irq_clash kind line vector r =
     (case r of
        None \<Rightarrow> False
      | Some registration \<Rightarrow>
          rg_kind registration = kind \<and> rg_line registration = line \<or>
          rg_vector registration = vector)"

definition irq_register ::
  "irq_kind \<Rightarrow> u32 \<Rightarrow> u8 \<Rightarrow> nat \<Rightarrow> nat option \<Rightarrow> irq_state \<Rightarrow> (irq_error + nat) \<times> irq_state"
where
  "irq_register kind line vector hard deferred st =
     (if list_ex (irq_clash kind line vector) (irq_HANDLERS st) then (Err Irq_Duplicate, st)
      else
        (case position is_none (irq_HANDLERS st) of
           None \<Rightarrow> (Err Irq_Capacity, st)
         | Some slot \<Rightarrow>
             (Ok slot,
              st\<lparr>irq_HANDLERS := (irq_HANDLERS st)[slot := Some
                 \<lparr>rg_kind = kind, rg_line = line, rg_vector = vector, rg_hard = hard,
                  rg_deferred = deferred\<rparr>]\<rparr>)))"

text \<open>The mask \<open>1u64 << slot\<close>.\<close>

definition slot_bit :: "nat \<Rightarrow> u64" where
  "slot_bit i = push_bit i 1"

definition irq_unregister :: "usize \<Rightarrow> irq_state \<Rightarrow> (irq_error + unit) \<times> irq_state" where
  "irq_unregister reg st =
     (if of_nat MAX_HANDLERS \<le> reg then (Err Irq_InvalidRegistration, st)
      else
        let st = st\<lparr>irq_PENDING := irq_PENDING st AND NOT (slot_bit (unat reg))\<rparr>;
            entry = irq_HANDLERS st ! unat reg;
            st = st\<lparr>irq_HANDLERS := (irq_HANDLERS st)[unat reg := None]\<rparr>
        in if is_none entry then (Err Irq_NotRegistered, st) else (Ok (), st))"

definition irq_has_vector :: "u8 \<Rightarrow> registration option \<Rightarrow> bool" where
  "irq_has_vector vector r =
     (case r of None \<Rightarrow> False | Some registration \<Rightarrow> rg_vector registration = vector)"

definition irq_dispatch :: "(nat \<Rightarrow> bool) \<Rightarrow> u8 \<Rightarrow> irq_state \<Rightarrow> bool \<times> irq_state" where
  "irq_dispatch hard vector st =
     (case position (irq_has_vector vector) (irq_HANDLERS st) of
        None \<Rightarrow> (False, st\<lparr>irq_SPURIOUS := irq_SPURIOUS st + 1\<rparr>)
      | Some slot \<Rightarrow>
          let registration = the (irq_HANDLERS st ! slot) in
          if \<not> hard (rg_hard registration)
          then (False, st\<lparr>irq_UNHANDLED := irq_UNHANDLED st + 1\<rparr>)
          else if is_some (rg_deferred registration)
          then (True, st\<lparr>irq_PENDING := irq_PENDING st OR slot_bit slot\<rparr>)
          else (True, st))"

text \<open>
  The loop of \<open>run_deferred\<close> from \<open>slot\<close> on, with the handlers it calls; the argument counts the
  slots left.
\<close>

fun deferred_loop :: "u64 \<Rightarrow> registration option list \<Rightarrow> nat \<Rightarrow> nat \<Rightarrow> nat list" where
  "deferred_loop pending handlers slot 0 = []"
| "deferred_loop pending handlers slot (Suc left) =
     (if pending AND slot_bit slot = 0 then deferred_loop pending handlers (slot + 1) left
      else
        (case Option.bind (handlers ! slot) rg_deferred of
           Some deferred \<Rightarrow> deferred # deferred_loop pending handlers (slot + 1) left
         | None \<Rightarrow> deferred_loop pending handlers (slot + 1) left))"

definition run_deferred :: "irq_state \<Rightarrow> nat list \<times> irq_state" where
  "run_deferred st =
     (let pending = irq_PENDING st;
          st = st\<lparr>irq_PENDING := 0\<rparr>;
          called = deferred_loop pending (irq_HANDLERS st) 0 MAX_HANDLERS
      in (called, st\<lparr>irq_DEFERRED := irq_DEFERRED st + of_nat (length called)\<rparr>))"

definition irq_timer :: "irq_state \<Rightarrow> irq_state" where
  "irq_timer st = st\<lparr>irq_TIMER := irq_TIMER st + 1\<rparr>"

definition irq_spurious :: "irq_state \<Rightarrow> irq_state" where
  "irq_spurious st = st\<lparr>irq_SPURIOUS := irq_SPURIOUS st + 1\<rparr>"

definition irq_exception :: "irq_state \<Rightarrow> irq_state" where
  "irq_exception st = st\<lparr>irq_EXCEPTIONS := irq_EXCEPTIONS st + 1\<rparr>"

definition irq_stats_of :: "irq_state \<Rightarrow> irq_stats" where
  "irq_stats_of st = \<lparr>ist_timer = irq_TIMER st, ist_spurious = irq_SPURIOUS st,
     ist_exceptions = irq_EXCEPTIONS st, ist_unhandled = irq_UNHANDLED st,
     ist_deferred = irq_DEFERRED st\<rparr>"

text \<open>The self check of an interrupt storm: the loop counts the accepted dispatches.\<close>

fun storm_loop :: "(nat \<Rightarrow> bool) \<Rightarrow> u8 \<Rightarrow> nat \<Rightarrow> nat \<Rightarrow> irq_state \<Rightarrow> nat \<times> irq_state" where
  "storm_loop hard vector 0 accepted st = (accepted, st)"
| "storm_loop hard vector (Suc n) accepted st =
     (case irq_dispatch hard vector st of (ok, st) \<Rightarrow>
      storm_loop hard vector n (if ok then accepted + 1 else accepted) st)"

definition interrupt_storm_self_check ::
  "nat \<Rightarrow> nat \<Rightarrow> (nat \<Rightarrow> bool) \<Rightarrow> irq_state \<Rightarrow> bool \<times> irq_state"
where
  "interrupt_storm_self_check storm_hard storm_deferred hard st =
     (case irq_register Irq_Gic 0xfeed 201 storm_hard (Some storm_deferred) st of
        (Inl _, st) \<Rightarrow> (False, st)
      | (Inr reg, st) \<Rightarrow>
          (case storm_loop hard 201 4096 0 st of (accepted, st) \<Rightarrow>
           case run_deferred st of (deferred, st) \<Rightarrow>
           case irq_unregister (of_nat reg) st of (unregistered, st) \<Rightarrow>
             (accepted = 4096 \<and> length deferred = 1 \<and> is_ok unregistered, st)))"

section \<open>The invariant\<close>

definition irq_distinct :: "registration option list \<Rightarrow> bool" where
  "irq_distinct hs \<longleftrightarrow>
     (\<forall>i<length hs. \<forall>j<length hs. \<forall>r s. hs ! i = Some r \<longrightarrow> hs ! j = Some s \<longrightarrow> i \<noteq> j \<longrightarrow>
        rg_vector r \<noteq> rg_vector s \<and> \<not> (rg_kind r = rg_kind s \<and> rg_line r = rg_line s))"

definition irq_inv :: "irq_state \<Rightarrow> bool" where
  "irq_inv st \<longleftrightarrow>
     length (irq_HANDLERS st) = MAX_HANDLERS \<and> irq_distinct (irq_HANDLERS st) \<and>
     (\<forall>i<MAX_HANDLERS. bit (irq_PENDING st) i \<longrightarrow>
        (\<exists>r. irq_HANDLERS st ! i = Some r \<and> is_some (rg_deferred r)))"

inductive irq_step :: "irq_state \<Rightarrow> irq_state \<Rightarrow> bool" where
  step_register: "irq_register k l v h d st = (res, st') \<Longrightarrow> irq_step st st'"
| step_unregister: "irq_unregister i st = (res, st') \<Longrightarrow> irq_step st st'"
| step_dispatch: "irq_dispatch hard v st = (ok, st') \<Longrightarrow> irq_step st st'"
| step_deferred: "run_deferred st = (calls, st') \<Longrightarrow> irq_step st st'"
| step_timer: "irq_step st (irq_timer st)"
| step_spurious: "irq_step st (irq_spurious st)"
| step_exception: "irq_step st (irq_exception st)"
| step_init: "irq_step st irq_init"

lemma bit_slot_bit: "bit (slot_bit i) j \<longleftrightarrow> j = i \<and> i < 64"
  by (auto simp: slot_bit_def bit_simps)

lemma and_bit_eq_0: "i < 64 \<Longrightarrow> w AND slot_bit i = 0 \<longleftrightarrow> \<not> bit w i"
  using bit_eq_iff [of "w AND slot_bit i" 0] by (auto simp: bit_and_iff bit_slot_bit)

lemma bit_set_slot: "i < 64 \<Longrightarrow> bit (w OR slot_bit i) j \<longleftrightarrow> bit w j \<or> j = i"
  by (auto simp: bit_or_iff bit_slot_bit)

lemma bit_clear_slot: "j < 64 \<Longrightarrow> bit (w AND NOT (slot_bit i)) j \<longleftrightarrow> bit w j \<and> j \<noteq> i"
  by (auto simp: bit_and_iff bit_not_iff bit_slot_bit)

lemma nth_clear_Some: "hs[i := None] ! a = Some x \<Longrightarrow> a < length hs \<Longrightarrow> hs ! a = Some x"
  by (cases "a = i") simp_all

lemma irq_distinct_clear:
  assumes "irq_distinct hs"
  shows "irq_distinct (hs[i := None])"
  unfolding irq_distinct_def
proof (intro allI impI)
  fix a b x y
  assume *: "a < length (hs[i := None])" "b < length (hs[i := None])"
    "hs[i := None] ! a = Some x" "hs[i := None] ! b = Some y" "a \<noteq> b"
  have "hs ! a = Some x" "hs ! b = Some y"
    using nth_clear_Some [OF *(3)] nth_clear_Some [OF *(4)] *(1,2) by simp_all
  from assms [unfolded irq_distinct_def, rule_format, OF _ _ this *(5)] *(1,2)
  show "rg_vector x \<noteq> rg_vector y \<and> \<not> (rg_kind x = rg_kind y \<and> rg_line x = rg_line y)" by simp
qed

lemma irq_distinct_set:
  assumes "irq_distinct hs" "i < length hs"
    and "\<And>s. Some s \<in> set hs \<Longrightarrow>
      \<not> (rg_kind s = rg_kind r \<and> rg_line s = rg_line r) \<and> rg_vector s \<noteq> rg_vector r"
  shows "irq_distinct (hs[i := Some r])"
  unfolding irq_distinct_def
proof (intro allI impI)
  fix a b x y
  assume *: "a < length (hs[i := Some r])" "b < length (hs[i := Some r])"
    "hs[i := Some r] ! a = Some x" "hs[i := Some r] ! b = Some y" "a \<noteq> b"
  show "rg_vector x \<noteq> rg_vector y \<and> \<not> (rg_kind x = rg_kind y \<and> rg_line x = rg_line y)"
  proof (cases "a = i \<or> b = i")
    case True
    with * assms(2) assms(3) [of x] assms(3) [of y] show ?thesis
      by (auto simp: nth_list_update dest: nth_mem)
  next
    case False
    with * have "hs ! a = Some x" "hs ! b = Some y" by simp_all
    from assms(1) [unfolded irq_distinct_def, rule_format, OF _ _ this *(5)] *(1,2)
    show ?thesis by simp
  qed
qed

lemma irq_inv_init [inv_intros]: "irq_inv irq_init"
  by (simp add: irq_inv_def irq_init_def irq_distinct_def)

lemma irq_clash_iff:
  "irq_clash k l v x \<longleftrightarrow>
     (\<exists>r. x = Some r \<and> (rg_kind r = k \<and> rg_line r = l \<or> rg_vector r = v))"
  by (cases x) (auto simp: irq_clash_def)

lemma irq_has_vector_iff: "irq_has_vector v x \<longleftrightarrow> (\<exists>r. x = Some r \<and> rg_vector r = v)"
  by (cases x) (auto simp: irq_has_vector_def)

lemma irq_register_cases:
  assumes "irq_register k l v h d st = (res, st')"
  obtains (duplicate) r where "res = Err Irq_Duplicate" "st' = st" "Some r \<in> set (irq_HANDLERS st)"
      "rg_kind r = k \<and> rg_line r = l \<or> rg_vector r = v"
    | (capacity) "res = Err Irq_Capacity" "st' = st" "None \<notin> set (irq_HANDLERS st)"
    | (registered) slot where "res = Ok slot" "slot < length (irq_HANDLERS st)"
      "irq_HANDLERS st ! slot = None" "\<forall>j. j < slot \<longrightarrow> irq_HANDLERS st ! j \<noteq> None"
      "\<And>r. Some r \<in> set (irq_HANDLERS st) \<Longrightarrow>
         \<not> (rg_kind r = k \<and> rg_line r = l) \<and> rg_vector r \<noteq> v"
      "st' = st\<lparr>irq_HANDLERS := (irq_HANDLERS st)[slot := Some
         \<lparr>rg_kind = k, rg_line = l, rg_vector = v, rg_hard = h, rg_deferred = d\<rparr>]\<rparr>"
proof (cases "list_ex (irq_clash k l v) (irq_HANDLERS st)")
  case True
  then obtain r where "Some r \<in> set (irq_HANDLERS st)" "rg_kind r = k \<and> rg_line r = l \<or> rg_vector r = v"
    by (auto simp: list_ex_iff irq_clash_iff)
  with True assms duplicate show ?thesis by (auto simp: irq_register_def)
next
  case False
  then have nc: "\<And>r. Some r \<in> set (irq_HANDLERS st) \<Longrightarrow>
      \<not> (rg_kind r = k \<and> rg_line r = l) \<and> rg_vector r \<noteq> v"
    by (auto simp: list_ex_iff irq_clash_iff)
  show ?thesis
  proof (cases "position is_none (irq_HANDLERS st)")
    case None
    then have "None \<notin> set (irq_HANDLERS st)" by (auto simp: position_None_iff)
    with None False assms capacity show ?thesis by (auto simp: irq_register_def)
  next
    case (Some slot)
    note p = position_SomeD [OF Some]
    show ?thesis
      using registered [of slot] nc p False Some assms
      by (auto simp: irq_register_def is_none_iff)
  qed
qed

lemma irq_inv_register:
  assumes inv: "irq_inv st" and r: "irq_register k l v h d st = (res, st')"
  shows "irq_inv st'"
  using r
proof (cases rule: irq_register_cases)
  case (registered slot)
  have "irq_distinct (irq_HANDLERS st')"
    using irq_distinct_set [of "irq_HANDLERS st" slot
        "\<lparr>rg_kind = k, rg_line = l, rg_vector = v, rg_hard = h, rg_deferred = d\<rparr>"]
      inv registered(2,5) by (simp add: irq_inv_def registered(6))
  moreover have "\<not> bit (irq_PENDING st) slot"
    using inv registered(2,3) by (auto simp: irq_inv_def)
  ultimately show ?thesis
    using inv registered(2) by (auto simp: irq_inv_def registered(6) nth_list_update)
qed (use inv in simp_all)

lemma irq_unregister_cases:
  assumes "irq_unregister reg st = (res, st')"
  obtains (invalid) "res = Err Irq_InvalidRegistration" "st' = st" "64 \<le> unat reg"
    | (cleared) "unat reg < 64"
      "res = (if irq_HANDLERS st ! unat reg = None then Err Irq_NotRegistered else Ok ())"
      "st' = st\<lparr>irq_PENDING := irq_PENDING st AND NOT (slot_bit (unat reg)),
         irq_HANDLERS := (irq_HANDLERS st)[unat reg := None]\<rparr>"
proof (cases "of_nat MAX_HANDLERS \<le> reg")
  case True
  then have "64 \<le> unat reg" by (simp add: word_le_nat_alt kernel_defs)
  with True assms invalid show ?thesis by (simp add: irq_unregister_def)
next
  case False
  then have "unat reg < 64" by (simp add: word_le_nat_alt kernel_defs)
  with False assms cleared show ?thesis
    by (auto simp: irq_unregister_def Let_def is_none_iff split: if_splits)
qed

lemma irq_inv_unregister:
  assumes inv: "irq_inv st" and "irq_unregister reg st = (res, st')"
  shows "irq_inv st'"
  using assms(2)
proof (cases rule: irq_unregister_cases)
  case cleared
  with inv irq_distinct_clear [of "irq_HANDLERS st" "unat reg"] show ?thesis
    by (simp add: irq_inv_def kernel_defs bit_clear_slot)
qed (use inv in simp)

lemma irq_dispatch_cases:
  assumes "irq_dispatch hard v st = (ok, st')"
  obtains (spurious) "\<not> ok" "\<forall>r. Some r \<in> set (irq_HANDLERS st) \<longrightarrow> rg_vector r \<noteq> v"
      "st' = st\<lparr>irq_SPURIOUS := irq_SPURIOUS st + 1\<rparr>"
    | (found) slot r where "slot < length (irq_HANDLERS st)" "irq_HANDLERS st ! slot = Some r"
      "rg_vector r = v" "ok = hard (rg_hard r)"
      "st' = (if \<not> ok then st\<lparr>irq_UNHANDLED := irq_UNHANDLED st + 1\<rparr>
              else if is_some (rg_deferred r)
              then st\<lparr>irq_PENDING := irq_PENDING st OR slot_bit slot\<rparr> else st)"
proof (cases "position (irq_has_vector v) (irq_HANDLERS st)")
  case None
  then have "\<forall>r. Some r \<in> set (irq_HANDLERS st) \<longrightarrow> rg_vector r \<noteq> v"
    by (auto simp: position_None_iff irq_has_vector_iff)
  with None assms spurious show ?thesis by (auto simp: irq_dispatch_def)
next
  case (Some slot)
  with position_SomeD [OF Some] obtain r where r: "irq_HANDLERS st ! slot = Some r" "rg_vector r = v"
    by (auto simp: irq_has_vector_iff)
  show ?thesis
    by (rule found [of slot r]) (use Some r position_lt [OF Some] assms in
      \<open>auto simp: irq_dispatch_def Let_def split: if_splits\<close>)
qed

lemma irq_inv_dispatch:
  assumes inv: "irq_inv st" and d: "irq_dispatch hard v st = (ok, st')"
  shows "irq_inv st'"
  using d
proof (cases rule: irq_dispatch_cases)
  case spurious
  with inv show ?thesis by (simp add: irq_inv_def)
next
  case (found slot r)
  then have "slot < 64" using inv by (simp add: irq_inv_def kernel_defs)
  with found inv show ?thesis
    by (auto simp: irq_inv_def bit_set_slot)
qed

lemma irq_inv_counters [simp]:
  "irq_inv (st\<lparr>irq_TIMER := a\<rparr>) = irq_inv st"
  "irq_inv (st\<lparr>irq_SPURIOUS := a\<rparr>) = irq_inv st"
  "irq_inv (st\<lparr>irq_EXCEPTIONS := a\<rparr>) = irq_inv st"
  "irq_inv (st\<lparr>irq_DEFERRED := a\<rparr>) = irq_inv st"
  by (simp_all add: irq_inv_def)

lemma irq_inv_run_deferred:
  assumes "irq_inv st" "run_deferred st = (calls, st')"
  shows "irq_inv st'"
  using assms by (auto simp: run_deferred_def Let_def irq_inv_def)

interpretation irqsys: step_invariant "\<lambda>s. s = irq_init" irq_step irq_inv
proof
  fix s s' assume "irq_inv s" "irq_step s s'"
  from this(2,1) show "irq_inv s'"
    by (induction rule: irq_step.induct)
      (auto intro: irq_inv_register irq_inv_unregister irq_inv_dispatch irq_inv_run_deferred
        irq_inv_init simp: irq_timer_def irq_spurious_def irq_exception_def)
qed (simp add: irq_inv_init)

section \<open>Deferred work\<close>

text \<open>The deferred handlers of the slots whose bit is set, in slot order.\<close>

definition pending_work :: "u64 \<Rightarrow> registration option list \<Rightarrow> nat list" where
  "pending_work pending handlers =
     map (\<lambda>i. the (rg_deferred (the (handlers ! i)))) (filter (bit pending) [0..<MAX_HANDLERS])"

lemma deferred_loop_upt:
  assumes "\<forall>i<MAX_HANDLERS. bit pending i \<longrightarrow> (\<exists>r. handlers ! i = Some r \<and> is_some (rg_deferred r))"
    and "slot + n = MAX_HANDLERS"
  shows "deferred_loop pending handlers slot n =
    map (\<lambda>i. the (rg_deferred (the (handlers ! i)))) (filter (bit pending) [slot..<MAX_HANDLERS])"
  using assms(2)
proof (induction n arbitrary: slot)
  case 0
  then show ?case by simp
next
  case (Suc n)
  then have lt: "slot < MAX_HANDLERS" and IH: "deferred_loop pending handlers (slot + 1) n =
      map (\<lambda>i. the (rg_deferred (the (handlers ! i)))) (filter (bit pending) [slot + 1..<MAX_HANDLERS])"
    by simp_all
  have upt: "[slot..<MAX_HANDLERS] = slot # [slot + 1..<MAX_HANDLERS]"
    using lt by (simp add: upt_conv_Cons)
  show ?case
  proof (cases "bit pending slot")
    case True
    with assms(1) lt obtain r dd where "handlers ! slot = Some r" "rg_deferred r = Some dd"
      by (auto simp: is_some_iff)
    with True lt IH upt show ?thesis by (simp add: and_bit_eq_0 kernel_defs)
  next
    case False
    with lt IH upt show ?thesis by (simp add: and_bit_eq_0 kernel_defs)
  qed
qed

lemma run_deferred_eq:
  assumes "irq_inv st"
  shows "run_deferred st =
    (pending_work (irq_PENDING st) (irq_HANDLERS st),
     st\<lparr>irq_PENDING := 0, irq_DEFERRED := irq_DEFERRED st +
        of_nat (length (pending_work (irq_PENDING st) (irq_HANDLERS st)))\<rparr>)"
  using assms deferred_loop_upt [of "irq_PENDING st" "irq_HANDLERS st" 0 MAX_HANDLERS]
  by (simp add: run_deferred_def Let_def irq_inv_def pending_work_def)

text \<open>The slot of a registered vector is unique, so its dispatch is determined.\<close>

lemma irq_dispatch_registered:
  assumes inv: "irq_inv st" and i: "i < MAX_HANDLERS" "irq_HANDLERS st ! i = Some r"
  shows "irq_dispatch hard (rg_vector r) st =
    (hard (rg_hard r),
     if \<not> hard (rg_hard r) then st\<lparr>irq_UNHANDLED := irq_UNHANDLED st + 1\<rparr>
     else if is_some (rg_deferred r) then st\<lparr>irq_PENDING := irq_PENDING st OR slot_bit i\<rparr>
     else st)"
proof -
  obtain ok st' where d: "irq_dispatch hard (rg_vector r) st = (ok, st')" by fastforce
  have len: "length (irq_HANDLERS st) = MAX_HANDLERS" using inv by (simp add: irq_inv_def)
  from d show ?thesis
  proof (cases rule: irq_dispatch_cases)
    case spurious
    have "Some r \<in> set (irq_HANDLERS st)"
      using nth_mem [of i "irq_HANDLERS st"] i len by simp
    with spurious(2) show ?thesis by blast
  next
    case (found slot q)
    have "irq_distinct (irq_HANDLERS st)" using inv by (simp add: irq_inv_def)
    then have "slot = i"
      using i found(1-3) len unfolding irq_distinct_def by metis
    moreover from this found(2) i(2) have "q = r" by simp
    ultimately show ?thesis unfolding d found(5) found(4) by simp
  qed
qed

lemma irq_dispatch_unregistered:
  assumes "\<forall>r. Some r \<in> set (irq_HANDLERS st) \<longrightarrow> rg_vector r \<noteq> v"
  shows "irq_dispatch hard v st = (False, st\<lparr>irq_SPURIOUS := irq_SPURIOUS st + 1\<rparr>)"
proof -
  have "position (irq_has_vector v) (irq_HANDLERS st) = None"
    using assms by (auto simp: position_None_iff irq_has_vector_iff)
  then show ?thesis by (simp add: irq_dispatch_def)
qed

lemma storm_loop_eq:
  assumes "irq_inv st" "i < MAX_HANDLERS" "irq_HANDLERS st ! i = Some r" "hard (rg_hard r)"
    "is_some (rg_deferred r)"
  shows "storm_loop hard (rg_vector r) (Suc n) a st =
    (a + Suc n, st\<lparr>irq_PENDING := irq_PENDING st OR slot_bit i\<rparr>)"
  using assms
proof (induction n arbitrary: a st)
  case 0
  then show ?case by (simp add: irq_dispatch_registered)
next
  case (Suc n)
  let ?st = "st\<lparr>irq_PENDING := irq_PENDING st OR slot_bit i\<rparr>"
  have d: "irq_dispatch hard (rg_vector r) st = (True, ?st)"
    using Suc.prems by (simp add: irq_dispatch_registered)
  have "irq_inv ?st" by (rule irq_inv_dispatch [OF Suc.prems(1) d])
  from Suc.IH [OF this, of "Suc a"] Suc.prems
  have prev: "storm_loop hard (rg_vector r) (Suc n) (Suc a) ?st = (Suc a + Suc n, ?st)"
    by (simp add: or.assoc del: storm_loop.simps)
  show ?case by (subst storm_loop.simps(2)) (simp add: d prev del: storm_loop.simps)
qed

lemma filter_slot_bit:
  assumes "i < MAX_HANDLERS"
  shows "filter (bit (slot_bit i)) [0..<MAX_HANDLERS] = [i]"
proof -
  have "[0..<MAX_HANDLERS] = [0..<i] @ i # [Suc i..<MAX_HANDLERS]"
    using assms upt_add_eq_append [of 0 i "MAX_HANDLERS - i"] by (simp add: upt_conv_Cons)
  moreover have "filter (bit (slot_bit i)) [0..<i] = []"
      "filter (bit (slot_bit i)) [Suc i..<MAX_HANDLERS] = []"
    by (auto simp: filter_empty_conv bit_slot_bit)
  ultimately show ?thesis using assms by (simp add: bit_slot_bit kernel_defs)
qed

lemma pending_work_slot:
  assumes "i < MAX_HANDLERS" "handlers ! i = Some r" "rg_deferred r = Some d"
  shows "pending_work (slot_bit i) handlers = [d]"
  using assms by (simp add: pending_work_def filter_slot_bit)

text \<open>
  Claim C34.  In every reachable registry two registrations never share a vector nor a line of the
  same kind; a slot is pending only if it holds a registration with deferred work; and a deferred
  pass calls, in slot order, exactly the deferred handlers of the pending slots, once each, and
  leaves nothing pending.
\<close>

theorem irq_registry_consistent:
  assumes "reachable (\<lambda>s. s = irq_init) irq_step st" "run_deferred st = (calls, st')"
  shows "(\<forall>i<MAX_HANDLERS. \<forall>j<MAX_HANDLERS. \<forall>r s.
       irq_HANDLERS st ! i = Some r \<longrightarrow> irq_HANDLERS st ! j = Some s \<longrightarrow> i \<noteq> j \<longrightarrow>
       rg_vector r \<noteq> rg_vector s \<and> \<not> (rg_kind r = rg_kind s \<and> rg_line r = rg_line s)) \<and>
     (\<forall>k. bit (irq_PENDING st) k \<longrightarrow>
       (\<exists>r d. irq_HANDLERS st ! k = Some r \<and> rg_deferred r = Some d)) \<and>
     calls = map (\<lambda>k. the (rg_deferred (the (irq_HANDLERS st ! k))))
               (filter (bit (irq_PENDING st)) [0..<MAX_HANDLERS]) \<and>
     irq_PENDING st' = 0 \<and> irq_HANDLERS st' = irq_HANDLERS st \<and> fst (run_deferred st') = []"
proof -
  have inv: "irq_inv st" using assms(1) by (rule irqsys.reachable_inv)
  have lt: "k < MAX_HANDLERS" if "bit (irq_PENDING st) k" for k
    using bit_imp_le_length [OF that] by (simp add: kernel_defs)
  have st': "st' = st\<lparr>irq_PENDING := 0, irq_DEFERRED := irq_DEFERRED st + of_nat (length calls)\<rparr>"
    and calls: "calls = pending_work (irq_PENDING st) (irq_HANDLERS st)"
    using assms(2) unfolding run_deferred_eq [OF inv] by auto
  have "irq_inv st'" using irq_inv_run_deferred [OF inv assms(2)] .
  then have "fst (run_deferred st') = []"
    by (simp add: run_deferred_eq st' pending_work_def)
  with inv lt calls show ?thesis
    by (auto simp: irq_inv_def irq_distinct_def st' pending_work_def is_some_iff)
qed

definition irq_demo :: irq_state where
  "irq_demo = snd (irq_dispatch (\<lambda>_. True) 33 (snd (irq_register Irq_Legacy 1 33 0 (Some 7) irq_init)))"

lemma irq_demo_reachable: "reachable (\<lambda>s. s = irq_init) irq_step irq_demo"
  unfolding irq_demo_def
  by (rule reach_step, rule reach_step, rule reach_init, simp, rule step_register,
      rule prod.collapse [symmetric], rule step_dispatch, rule prod.collapse [symmetric])

theorem irq_registry_consistent_witness:
  "fst (run_deferred irq_demo) = [7] \<and> fst (run_deferred (snd (run_deferred irq_demo))) = []"
proof
  show "fst (run_deferred irq_demo) = [7]" by code_simp
  show "fst (run_deferred (snd (run_deferred irq_demo))) = []"
    using irq_registry_consistent [OF irq_demo_reachable prod.collapse [symmetric]] by blast
qed

text \<open>
  From a reachable registry with nothing pending, a free slot and neither vector 201
  nor line 0xfeed of kind \<open>Gic\<close> in use, the storm self check succeeds: all 4096 dispatches are
  accepted and coalesce into one deferred call.  It leaves the registry as it was, except for the
  count of deferred calls.
\<close>

theorem storm_self_check_passes:
  assumes "reachable (\<lambda>s. s = irq_init) irq_step st" "irq_PENDING st = 0"
    and "None \<in> set (irq_HANDLERS st)" "hard storm_hard"
    and "\<And>r. Some r \<in> set (irq_HANDLERS st) \<Longrightarrow>
      rg_vector r \<noteq> 201 \<and> \<not> (rg_kind r = Irq_Gic \<and> rg_line r = 0xfeed)"
  shows "interrupt_storm_self_check storm_hard storm_deferred hard st =
    (True, st\<lparr>irq_DEFERRED := irq_DEFERRED st + 1\<rparr>)"
proof -
  have inv: "irq_inv st" using assms(1) by (rule irqsys.reachable_inv)
  obtain res st1 where r: "irq_register Irq_Gic 0xfeed 201 storm_hard (Some storm_deferred) st = (res, st1)"
    by fastforce
  from r show ?thesis
  proof (cases rule: irq_register_cases)
    case (registered slot)
    let ?r = "\<lparr>rg_kind = Irq_Gic, rg_line = 0xfeed, rg_vector = 201, rg_hard = storm_hard,
      rg_deferred = Some storm_deferred\<rparr>"
    have inv1: "irq_inv st1" by (rule irq_inv_register [OF inv r])
    have slot: "slot < MAX_HANDLERS" using registered(2) inv by (simp add: irq_inv_def)
    have h1: "irq_HANDLERS st1 ! slot = Some ?r" using registered(2) by (simp add: registered(6))
    have storm: "storm_loop hard 201 4096 0 st1 = (4096, st1\<lparr>irq_PENDING := slot_bit slot\<rparr>)"
      using storm_loop_eq [OF inv1 slot h1, of hard 4095 0] assms(2,4)
      by (simp add: registered(6) del: storm_loop.simps)
    have "irq_inv (st1\<lparr>irq_PENDING := slot_bit slot\<rparr>)"
      using inv1 slot h1 by (auto simp: irq_inv_def bit_slot_bit)
    then have calls: "run_deferred (st1\<lparr>irq_PENDING := slot_bit slot\<rparr>) =
        ([storm_deferred], st1\<lparr>irq_PENDING := 0, irq_DEFERRED := irq_DEFERRED st1 + 1\<rparr>)"
      by (simp add: run_deferred_eq pending_work_slot [OF slot h1])
    have same: "(irq_HANDLERS st)[slot := None] = irq_HANDLERS st"
      using list_update_id [of "irq_HANDLERS st" slot] by (simp add: registered(3))
    have "\<not> of_nat MAX_HANDLERS \<le> (of_nat slot :: usize)" "unat (of_nat slot :: usize) = slot"
      using slot by (simp_all add: kernel_defs word_le_nat_alt unat_of_nat_small)
    then have "irq_unregister (of_nat slot) (st1\<lparr>irq_PENDING := 0, irq_DEFERRED := irq_DEFERRED st1 + 1\<rparr>) =
        (Ok (), st\<lparr>irq_DEFERRED := irq_DEFERRED st + 1\<rparr>)"
      using registered(2) assms(2)
      by (simp add: irq_unregister_def Let_def registered(6) same irq_state.equality)
    then show ?thesis
      by (simp add: interrupt_storm_self_check_def r registered(1) storm calls del: storm_loop.simps)
  qed (use assms(3,5) in auto)
qed

theorem storm_self_check_passes_witness:
  "interrupt_storm_self_check 3 4 (\<lambda>h. h = 3) irq_init = (True, irq_init\<lparr>irq_DEFERRED := 1\<rparr>)"
  using storm_self_check_passes [of irq_init "\<lambda>h. h = 3" 3 4, OF reach_init]
  by (simp add: irq_init_def kernel_defs)

end
