(* ===== verification/User_Copy.thy ===== *)
theory User_Copy
  imports Kernel_Prelude
begin

unbundle bit_operations_syntax

text \<open>
  Copies between kernel buffers and user memory (\<open>src/usercopy.rs\<close>) with the page fault path that
  ends a failed copy (\<open>norx_page_fault_dispatch\<close> in \<open>src/arch/x86_64/tables.rs\<close> and
  \<open>src/vm.rs\<close>).  User memory is a function from addresses to bytes with the addresses that can be
  read and written; the addresses of the assembled copy routine, the error code the processor
  pushes and the mapping of a lazy page are parameters.  A copy whose fault does not come back
  through the recovery address does not return: its value is \<open>None\<close>.
\<close>

definition MAX_COPY :: nat where [kernel_defs]: "MAX_COPY = 64 * 1024"
definition USER_LIMIT :: u64 where [kernel_defs]: "USER_LIMIT = 0x0000800000000000"

datatype usercopy_error = Uc_Null | Uc_NonCanonical | Uc_Overflow | Uc_TooLarge | Uc_Unmapped

record user_range =
  ur_address :: u64
  ur_length :: nat

definition validate :: "u64 \<Rightarrow> nat \<Rightarrow> usercopy_error + user_range" where
  "validate address len =
     (if address = 0 then Err Uc_Null
      else if len > MAX_COPY then Err Uc_TooLarge
      else
        and_then (ok_or (checked_add address (of_nat len)) Uc_Overflow) (\<lambda>end_addr.
        if address \<ge> USER_LIMIT \<or> end_addr > USER_LIMIT then Err Uc_NonCanonical
        else Ok \<lparr>ur_address = address, ur_length = len\<rparr>))"

section \<open>Page faults\<close>

definition LAZY_BASE :: usize where [kernel_defs]: "LAZY_BASE = 0x400000000000"
definition LAZY_PAGES :: usize where [kernel_defs]: "LAZY_PAGES = 16"
definition VM_PAGE_SIZE :: usize where [kernel_defs]: "VM_PAGE_SIZE = 4096"

definition is_lazy_address :: "usize \<Rightarrow> bool" where
  "is_lazy_address address \<longleftrightarrow>
     LAZY_BASE \<le> address \<and> address < LAZY_BASE + LAZY_PAGES * VM_PAGE_SIZE"

definition handle_page_fault :: "(usize \<Rightarrow> bool) \<Rightarrow> usize \<Rightarrow> u64 \<Rightarrow> bool" where
  "handle_page_fault map_lazy_page address code =
     (if code AND 1 \<noteq> 0 \<or> \<not> is_lazy_address address then False
      else map_lazy_page (address AND NOT (VM_PAGE_SIZE - 1)))"

text \<open>
  The assembled routine: its first address, its recovery address and the address of its
  \<open>rep movsb\<close>, the only instruction that touches user memory.
\<close>

record copy_env =
  ce_start :: u64
  ce_recovery :: u64
  ce_movsb :: u64
  ce_code :: u64
  ce_map_lazy_page :: "usize \<Rightarrow> bool"

definition layout_ok :: "copy_env \<Rightarrow> bool" where
  "layout_ok env \<longleftrightarrow> ce_start env \<le> ce_movsb env \<and> ce_movsb env < ce_recovery env"

definition handles_fault :: "copy_env \<Rightarrow> bool \<Rightarrow> u64 \<Rightarrow> bool" where
  "handles_fault env copy_active rip =
     (if \<not> copy_active then False
      else let start = ce_start env; end_addr = ce_recovery env in rip \<ge> start \<and> rip < end_addr)"

definition recovery_address :: "copy_env \<Rightarrow> u64" where
  "recovery_address env = ce_recovery env"

text \<open>The address execution resumes at; \<open>None\<close> is the fatal branch.\<close>

definition page_fault_dispatch :: "copy_env \<Rightarrow> bool \<Rightarrow> usize \<Rightarrow> u64 \<Rightarrow> u64 option" where
  "page_fault_dispatch env copy_active address rip =
     (if handles_fault env copy_active rip then Some (recovery_address env)
      else if handle_page_fault (ce_map_lazy_page env) address (ce_code env) then Some rip
      else None)"

section \<open>The copies\<close>

record user_memory =
  um_bytes :: "u64 \<Rightarrow> u8"
  um_readable :: "u64 \<Rightarrow> bool"
  um_writable :: "u64 \<Rightarrow> bool"

text \<open>The forward byte copy, with the address of the fault that stops it.\<close>

fun movsb_store :: "u64 \<Rightarrow> u8 list \<Rightarrow> user_memory \<Rightarrow> u64 option \<times> user_memory" where
  "movsb_store address [] m = (None, m)"
| "movsb_store address (b # bs) m =
     (if um_writable m address
      then movsb_store (address + 1) bs (m\<lparr>um_bytes := (um_bytes m)(address := b)\<rparr>)
      else (Some address, m))"

fun movsb_load :: "u64 \<Rightarrow> nat \<Rightarrow> user_memory \<Rightarrow> u64 option \<times> u8 list" where
  "movsb_load address 0 m = (None, [])"
| "movsb_load address (Suc n) m =
     (if um_readable m address
      then (case movsb_load (address + 1) n m of (fault, bs) \<Rightarrow> (fault, um_bytes m address # bs))
      else (Some address, []))"

text \<open>What the routine returns: 0 at its end, 14 from its recovery code.\<close>

definition copy_result :: "copy_env \<Rightarrow> bool \<Rightarrow> u64 option \<Rightarrow> u64 option" where
  "copy_result env copy_active fault =
     (case fault of
        None \<Rightarrow> Some 0
      | Some address \<Rightarrow>
          if page_fault_dispatch env copy_active address (ce_movsb env) = Some (ce_recovery env)
          then Some 14 else None)"

record usercopy =
  uc_active :: bool
  uc_memory :: user_memory

definition copy_to_user ::
  "copy_env \<Rightarrow> u64 \<Rightarrow> u8 list \<Rightarrow> usercopy \<Rightarrow> ((usercopy_error + nat) \<times> usercopy) option"
where
  "copy_to_user env address inp uc =
     (case validate address (length inp) of
        Inl e \<Rightarrow> Some (Err e, uc)
      | Inr _ \<Rightarrow>
          let uc = uc\<lparr>uc_active := True\<rparr> in
          case movsb_store address inp (uc_memory uc) of (fault, m) \<Rightarrow>
          case copy_result env (uc_active uc) fault of
            None \<Rightarrow> None
          | Some result \<Rightarrow>
              let uc = uc\<lparr>uc_memory := m, uc_active := False\<rparr> in
              Some (if result = 0 then Ok (length inp) else Err Uc_Unmapped, uc))"

definition copy_from_user ::
  "copy_env \<Rightarrow> u64 \<Rightarrow> u8 list \<Rightarrow> usercopy \<Rightarrow> ((usercopy_error + nat) \<times> u8 list \<times> usercopy) option"
where
  "copy_from_user env address out uc =
     (case validate address (length out) of
        Inl e \<Rightarrow> Some (Err e, out, uc)
      | Inr _ \<Rightarrow>
          let uc = uc\<lparr>uc_active := True\<rparr> in
          case movsb_load address (length out) (uc_memory uc) of (fault, bs) \<Rightarrow>
          case copy_result env (uc_active uc) fault of
            None \<Rightarrow> None
          | Some result \<Rightarrow>
              let uc = uc\<lparr>uc_active := False\<rparr> in
              Some (if result = 0 then Ok (length out) else Err Uc_Unmapped, write_at 0 bs out, uc))"

section \<open>Lemmas\<close>

text \<open>The addresses of a range.\<close>

definition span :: "u64 \<Rightarrow> nat \<Rightarrow> u64 set" where
  "span address n = (\<lambda>k. address + of_nat k) ` {..<n}"

lemma span_0 [simp]: "span a 0 = {}"
  by (simp add: span_def)

lemma span_Suc: "span a (Suc n) = insert a (span (a + 1) n)"
  by (simp add: span_def lessThan_Suc_eq_insert_0 image_image add.assoc)

lemma validate_Ok_iff:
  "validate a n = Ok r \<longleftrightarrow>
     a \<noteq> 0 \<and> n \<le> MAX_COPY \<and> unat a + n \<le> unat USER_LIMIT \<and> a < USER_LIMIT \<and>
     r = \<lparr>ur_address = a, ur_length = n\<rparr>"
proof (cases "n \<le> MAX_COPY")
  case True
  then have n: "unat (of_nat n :: u64) = n" by (intro unat_of_nat_small) (simp add: kernel_defs)
  have lim: "unat USER_LIMIT = 0x800000000000" by (simp add: kernel_defs)
  show ?thesis
  proof (cases "checked_add a (of_nat n)")
    case None
    with n have "2 ^ 64 \<le> unat a + n" by (simp add: checked_add_None_iff)
    with None True lim show ?thesis by (auto simp: validate_def)
  next
    case (Some c)
    with n have "unat c = unat a + n" by (simp add: checked_add_Some_iff)
    with Some True show ?thesis by (auto simp: validate_def word_le_nat_alt word_less_nat_alt)
  qed
next
  case False
  then show ?thesis by (auto simp: validate_def)
qed

lemma movsb_store_bytes:
  assumes "movsb_store a bs m = (fault, m')" "unat a + length bs < 2 ^ 64"
  shows "um_readable m' = um_readable m \<and> um_writable m' = um_writable m \<and>
    (\<forall>x. x \<notin> span a (length bs) \<longrightarrow> um_bytes m' x = um_bytes m x) \<and>
    (fault = None \<longleftrightarrow> (\<forall>x\<in>span a (length bs). um_writable m x)) \<and>
    (fault = None \<longrightarrow> (\<forall>k<length bs. um_bytes m' (a + of_nat k) = bs ! k))"
  using assms
proof (induction bs arbitrary: a m)
  case Nil
  then show ?case by simp
next
  case (Cons b bs)
  show ?case
  proof (cases "um_writable m a")
    case False
    with Cons.prems show ?thesis by (auto simp: span_Suc)
  next
    case True
    let ?m = "m\<lparr>um_bytes := (um_bytes m)(a := b)\<rparr>"
    have a: "unat (a + 1) = unat a + 1"
      using Cons.prems(2) by (simp add: unat_add_exact)
    have run: "movsb_store (a + 1) bs ?m = (fault, m')" using Cons.prems(1) True by simp
    have len: "unat (a + 1) + length bs < 2 ^ 64" using a Cons.prems(2) by simp
    note IH = Cons.IH [OF run len]
    have fresh: "a \<notin> span (a + 1) (length bs)"
    proof
      assume "a \<in> span (a + 1) (length bs)"
      then obtain k where k: "k < length bs" "a = a + 1 + of_nat k" by (auto simp: span_def)
      then have "(0::u64) = of_nat (Suc k)" by (simp add: algebra_simps)
      then have "unat (of_nat (Suc k) :: u64) = 0" by simp
      moreover have "unat (of_nat (Suc k) :: u64) = Suc k"
        using k(1) Cons.prems(2) by (intro unat_of_nat_small) simp
      ultimately show False by simp
    qed
    have "um_bytes m' a = b" using IH fresh by simp
    then have "um_bytes m' (a + of_nat k) = (b # bs) ! k" if "fault = None" "k < Suc (length bs)" for k
      using IH that by (cases k) (simp_all add: add.assoc)
    with IH True show ?thesis by (auto simp: span_Suc)
  qed
qed

lemma movsb_load_bytes:
  assumes "movsb_load a n m = (fault, bs)"
  shows "length bs \<le> n \<and> (fault = None \<longleftrightarrow> (\<forall>x\<in>span a n. um_readable m x)) \<and>
    (fault = None \<longrightarrow> bs = map (\<lambda>k. um_bytes m (a + of_nat k)) [0..<n])"
  using assms
proof (induction n arbitrary: a bs)
  case 0
  then show ?case by simp
next
  case (Suc n)
  show ?case
  proof (cases "um_readable m a")
    case False
    with Suc.prems show ?thesis by (auto simp: span_Suc)
  next
    case True
    with Suc.prems obtain bs' where bs: "movsb_load (a + 1) n m = (fault, bs')" "bs = um_bytes m a # bs'"
      by (auto split: prod.splits)
    have upt: "map (\<lambda>k. um_bytes m (a + of_nat k)) [0..<Suc n] =
        um_bytes m a # map (\<lambda>k. um_bytes m (a + 1 + of_nat k)) [0..<n]"
      by (simp add: map_upt_Suc add.assoc del: upt_Suc)
    from Suc.IH [OF bs(1)] True bs(2) show ?thesis
      by (auto simp: span_Suc upt simp del: upt_Suc)
  qed
qed

lemma copy_result_active:
  assumes "layout_ok env"
  shows "copy_result env True fault = Some (if fault = None then 0 else 14)"
  using assms
  by (auto simp: copy_result_def page_fault_dispatch_def handles_fault_def layout_ok_def
      recovery_address_def split: option.split)

lemma validate_span:
  assumes "validate a n = Ok r"
  shows "unat a + n < 2 ^ 64" "x \<in> span a n \<Longrightarrow> x < USER_LIMIT \<and> x \<noteq> 0"
proof -
  from assms have v: "a \<noteq> 0" "unat a + n \<le> unat USER_LIMIT" by (simp_all add: validate_Ok_iff)
  have lim: "unat USER_LIMIT = 0x800000000000" by (simp add: kernel_defs)
  with v show "unat a + n < 2 ^ 64" by simp
  assume "x \<in> span a n"
  then obtain k where k: "k < n" "x = a + of_nat k" by (auto simp: span_def)
  then have "unat (of_nat k :: u64) = k" using v lim by (intro unat_of_nat_small) simp
  then have "unat x = unat a + k" using v lim k by (simp add: unat_add_exact)
  moreover have "0 < unat a" using v(1) by (simp add: unat_gt_0)
  ultimately show "x < USER_LIMIT \<and> x \<noteq> 0"
    using v lim k by (auto simp: word_less_nat_alt unat_eq_zero)
qed

lemma copy_to_user_effect:
  assumes "copy_to_user env a bs uc = Some (Ok n, uc')"
  shows "\<forall>k<length bs. um_bytes (uc_memory uc') (a + of_nat k) = bs ! k"
    "\<forall>x. um_bytes (uc_memory uc') x \<noteq> um_bytes (uc_memory uc) x \<longrightarrow> x \<in> span a (length bs)"
proof -
  obtain r where v: "validate a (length bs) = Ok r"
    using assms by (cases "validate a (length bs)") (simp_all add: copy_to_user_def)
  obtain fault m where run: "movsb_store a bs (uc_memory uc) = (fault, m)" by fastforce
  note st = movsb_store_bytes [OF run validate_span(1) [OF v]]
  have "fault = None \<and> uc_memory uc' = m"
    using assms v run by (auto simp: copy_to_user_def copy_result_def Let_def split: option.splits if_splits)
  with st show "\<forall>k<length bs. um_bytes (uc_memory uc') (a + of_nat k) = bs ! k"
    "\<forall>x. um_bytes (uc_memory uc') x \<noteq> um_bytes (uc_memory uc) x \<longrightarrow> x \<in> span a (length bs)"
    by auto
qed

section \<open>Properties\<close>

text \<open>
  \<open>validate\<close> accepts an address and a length exactly when the address is not null, the
  length is at most 64 KiB and the whole range lies below the user limit, without wrapping; every
  byte it admits is a nonzero user address.
\<close>

theorem validate_admits_user_ranges:
  "(is_ok (validate a n) \<longleftrightarrow>
      a \<noteq> 0 \<and> n \<le> 65536 \<and> unat a < 2 ^ 47 \<and> unat a + n \<le> 2 ^ 47) \<and>
   (\<forall>r k. validate a n = Ok r \<and> k < n \<longrightarrow>
      unat (a + of_nat k) = unat a + k \<and> a + of_nat k \<noteq> 0 \<and> a + of_nat k < USER_LIMIT)"
proof -
  have lim: "unat USER_LIMIT = 2 ^ 47" "MAX_COPY = 65536" by (simp_all add: kernel_defs)
  have ok: "is_ok (validate a n) \<longleftrightarrow> (\<exists>r. validate a n = Ok r)"
    by (cases "validate a n") simp_all
  have "unat (a + of_nat k) = unat a + k \<and> a + of_nat k \<noteq> 0 \<and> a + of_nat k < USER_LIMIT"
    if v: "validate a n = Ok r" and k: "k < n" for r k
  proof -
    have "unat (of_nat k :: u64) = k"
      using validate_span(1) [OF v] k by (intro unat_of_nat_small) simp
    then have "unat (a + of_nat k) = unat a + k"
      using validate_span(1) [OF v] k by (simp add: unat_add_exact)
    moreover have "a + of_nat k \<in> span a n" using k by (auto simp: span_def)
    ultimately show ?thesis using validate_span(2) [OF v] by blast
  qed
  then show ?thesis unfolding ok validate_Ok_iff by (auto simp: lim word_less_nat_alt)
qed

theorem validate_admits_user_ranges_witness:
  "is_ok (validate 0x1000 65536) \<and> validate 0x1000 65537 = Err Uc_TooLarge \<and>
   unat ((0x1000 :: u64) + of_nat 65535) = 0x1000 + 65535"
proof (intro conjI)
  show ok: "is_ok (validate 0x1000 65536)"
    using validate_admits_user_ranges [of "0x1000" 65536] by simp
  show "validate 0x1000 65537 = Err Uc_TooLarge" by (simp add: validate_def kernel_defs)
  from ok obtain r where "validate 0x1000 65536 = Ok r" by (cases "validate 0x1000 65536") auto
  then show "unat ((0x1000 :: u64) + of_nat 65535) = 0x1000 + 65535"
    using validate_admits_user_ranges [of "0x1000" 65536] by auto
qed

text \<open>
  Claim C10.  A copy to user memory always returns and clears the flag \<open>COPY_ACTIVE\<close>, whatever is
  mapped.  It writes nothing outside the validated range; it succeeds exactly when the range is
  valid and all of it is writable, and then the bytes are in place; a range that faults reports
  \<open>Unmapped\<close>.
\<close>

theorem copy_to_user_safe:
  assumes "layout_ok env" "\<not> uc_active uc"
  shows "\<exists>res uc'. copy_to_user env a bs uc = Some (res, uc') \<and> \<not> uc_active uc' \<and>
    (\<forall>x. um_bytes (uc_memory uc') x \<noteq> um_bytes (uc_memory uc) x \<longrightarrow>
       is_ok (validate a (length bs)) \<and> x \<in> span a (length bs) \<and> x < USER_LIMIT) \<and>
    (is_ok res \<longleftrightarrow> is_ok (validate a (length bs)) \<and>
       (\<forall>x\<in>span a (length bs). um_writable (uc_memory uc) x)) \<and>
    (is_ok res \<longrightarrow> res = Ok (length bs) \<and>
       (\<forall>k<length bs. um_bytes (uc_memory uc') (a + of_nat k) = bs ! k)) \<and>
    (is_ok (validate a (length bs)) \<longrightarrow> res = Ok (length bs) \<or> res = Err Uc_Unmapped)"
proof (cases "validate a (length bs)")
  case (Inl e)
  with assms show ?thesis by (simp add: copy_to_user_def)
next
  case (Inr r)
  obtain fault m where run: "movsb_store a bs (uc_memory uc) = (fault, m)" by fastforce
  note st = movsb_store_bytes [OF run validate_span(1) [OF Inr]]
  have "copy_to_user env a bs uc = Some (if fault = None then Ok (length bs) else Err Uc_Unmapped,
      uc\<lparr>uc_active := False, uc_memory := m\<rparr>)"
    using Inr run assms(1) by (simp add: copy_to_user_def Let_def copy_result_active)
  then show ?thesis
    using st validate_span(2) [OF Inr] Inr by (cases "fault = None") auto
qed

definition demo_env :: copy_env where
  "demo_env = \<lparr>ce_start = 0x100, ce_recovery = 0x110, ce_movsb = 0x103, ce_code = 2,
     ce_map_lazy_page = (\<lambda>_. False)\<rparr>"

definition demo_memory :: user_memory where
  "demo_memory = \<lparr>um_bytes = (\<lambda>_. 0), um_readable = (\<lambda>x. x < 0x2000), um_writable = (\<lambda>x. x < 0x2000)\<rparr>"

definition demo_usercopy :: usercopy where
  "demo_usercopy = \<lparr>uc_active = False, uc_memory = demo_memory\<rparr>"

lemma demo_env_ok: "layout_ok demo_env"
  by (simp add: layout_ok_def demo_env_def)

lemma demo_usercopy_idle: "\<not> uc_active demo_usercopy"
  by (simp add: demo_usercopy_def)

text \<open>A copy of two bytes across the end of the mapping stops after the first.\<close>

theorem copy_to_user_safe_witness:
  "\<exists>uc'. copy_to_user demo_env 0x1fff [7, 8] demo_usercopy = Some (Err Uc_Unmapped, uc') \<and>
     um_bytes (uc_memory uc') 0x1fff = 7 \<and> um_bytes (uc_memory uc') 0x2000 = 0 \<and> \<not> uc_active uc'"
proof -
  have ok: "validate 0x1fff (length [7 :: u8, 8]) = Ok \<lparr>ur_address = 0x1fff, ur_length = 2\<rparr>"
    by (simp add: validate_Ok_iff kernel_defs)
  then have v: "is_ok (validate 0x1fff (length [7 :: u8, 8]))" by simp
  have "0x2000 \<in> span 0x1fff (length [7 :: u8, 8])" by (simp add: span_Suc)
  moreover have "\<not> um_writable (uc_memory demo_usercopy) 0x2000"
    by (simp add: demo_usercopy_def demo_memory_def)
  ultimately obtain uc' where c: "copy_to_user demo_env 0x1fff [7, 8] demo_usercopy = Some (Err Uc_Unmapped, uc')"
      "\<not> uc_active uc'"
    using copy_to_user_safe [OF demo_env_ok demo_usercopy_idle, of "0x1fff" "[7, 8]"] v
    by (metis is_ok_simps(2))
  from ok have "um_bytes (uc_memory uc') 0x1fff = 7 \<and> um_bytes (uc_memory uc') 0x2000 = 0"
    using c(1) by (auto simp: copy_to_user_def demo_usercopy_def demo_memory_def Let_def
        copy_result_active [OF demo_env_ok])
  with c show ?thesis by blast
qed

text \<open>
  Claim C35.  Bytes written by a successful copy to user memory are read back by a copy from the
  same readable range, and neither copy leaves \<open>COPY_ACTIVE\<close> set.
\<close>

theorem user_copy_round_trip:
  assumes "layout_ok env" "copy_to_user env a bs uc = Some (Ok n, uc')"
    and "\<forall>x\<in>span a (length bs). um_readable (uc_memory uc) x" "length out = length bs"
  shows "copy_from_user env a out uc' = Some (Ok n, bs, uc') \<and> n = length bs \<and> \<not> uc_active uc'"
proof -
  from assms(1,2) obtain r where v: "validate a (length bs) = Ok r"
    by (cases "validate a (length bs)") (auto simp: copy_to_user_def)
  obtain fault m where run: "movsb_store a bs (uc_memory uc) = (fault, m)" by fastforce
  note st = movsb_store_bytes [OF run validate_span(1) [OF v]]
  from assms(2) v run have f: "fault = None" "n = length bs"
      "uc' = uc\<lparr>uc_active := False, uc_memory := m\<rparr>"
    by (auto simp: copy_to_user_def Let_def copy_result_active [OF assms(1)] split: if_splits)
  obtain fault' bs' where ld: "movsb_load a (length bs) m = (fault', bs')" by fastforce
  note l = movsb_load_bytes [OF ld]
  have f': "fault' = None" using l st assms(3) by simp
  have "bs' = bs" using l f' st f(1) by (intro nth_equalityI) auto
  then show ?thesis
    using v ld f f' assms(4) by (simp add: copy_from_user_def Let_def copy_result_active [OF assms(1)]
        write_at_def)
qed

theorem user_copy_round_trip_witness:
  "\<exists>uc'. copy_to_user demo_env 0x1000 [7, 8] demo_usercopy = Some (Ok 2, uc') \<and>
     copy_from_user demo_env 0x1000 [0, 0] uc' = Some (Ok 2, [7, 8], uc')"
proof -
  have "validate 0x1000 (length [7 :: u8, 8]) = Ok \<lparr>ur_address = 0x1000, ur_length = 2\<rparr>"
    by (simp add: validate_Ok_iff kernel_defs)
  then have "\<exists>uc'. copy_to_user demo_env 0x1000 [7, 8] demo_usercopy = Some (Ok 2, uc')"
    by (simp add: copy_to_user_def demo_usercopy_def demo_memory_def Let_def
        copy_result_active [OF demo_env_ok])
  then obtain uc' where uc': "copy_to_user demo_env 0x1000 [7, 8] demo_usercopy = Some (Ok 2, uc')" ..
  have "\<forall>x\<in>span 0x1000 (length [7 :: u8, 8]). um_readable (uc_memory demo_usercopy) x"
    by (simp add: span_Suc demo_usercopy_def demo_memory_def)
  from user_copy_round_trip [OF demo_env_ok uc' this, of "[0, 0]"] uc' show ?thesis by auto
qed

end
