(* ===== verification/Serial_Port.thy ===== *)
theory Serial_Port
  imports Kernel_Prelude
begin

text \<open>
  The serial console of \<open>src/drivers/serial/mod.rs\<close>: the sticky failure flag and the translation
  of line feeds.  The port itself (\<open>arch::early_serial_read\<close> and \<open>arch::early_serial_write\<close>) is
  hardware: the bytes it has received and not yet delivered, the bytes it has sent, and a
  parameter that says whether it accepts a byte after what it has sent.
\<close>

record serial =
  sp_failed :: bool
  sp_received :: "u8 list"
  sp_sent :: "u8 list"

definition serial_read :: "serial \<Rightarrow> u8 option \<times> serial" where
  "serial_read s =
     (if sp_failed s then (None, s)
      else (case sp_received s of
              [] \<Rightarrow> (None, s)
            | b # bs \<Rightarrow> (Some b, s\<lparr>sp_received := bs\<rparr>)))"

definition write_byte :: "(u8 list \<Rightarrow> u8 \<Rightarrow> bool) \<Rightarrow> u8 \<Rightarrow> serial \<Rightarrow> bool \<times> serial" where
  "write_byte accepts byte s =
     (if sp_failed s then (False, s)
      else if accepts (sp_sent s) byte then (True, s\<lparr>sp_sent := sp_sent s @ [byte]\<rparr>)
      else (False, s\<lparr>sp_failed := True\<rparr>))"

fun serial_write_bytes :: "(u8 list \<Rightarrow> u8 \<Rightarrow> bool) \<Rightarrow> u8 list \<Rightarrow> serial \<Rightarrow> bool \<times> serial" where
  "serial_write_bytes accepts [] s = (True, s)"
| "serial_write_bytes accepts (byte # bytes) s =
     (if byte = 10
      then (case write_byte accepts 13 s of
              (False, s) \<Rightarrow> (False, s)
            | (True, s) \<Rightarrow>
                (case write_byte accepts byte s of
                   (False, s) \<Rightarrow> (False, s)
                 | (True, s) \<Rightarrow> serial_write_bytes accepts bytes s))
      else (case write_byte accepts byte s of
              (False, s) \<Rightarrow> (False, s)
            | (True, s) \<Rightarrow> serial_write_bytes accepts bytes s))"

definition mark_failed :: "serial \<Rightarrow> serial" where
  "mark_failed s = s\<lparr>sp_failed := True\<rparr>"

section \<open>What reaches the line\<close>

definition crlf :: "u8 list \<Rightarrow> u8 list" where
  "crlf bytes = concat (map (\<lambda>b. if b = 10 then [13, 10] else [b]) bytes)"

lemma crlf_simps [simp]:
  "crlf [] = []"
  "crlf (b # bs) = (if b = 10 then [13, 10] else [b]) @ crlf bs"
  by (simp_all add: crlf_def)

lemma write_byte_cases:
  obtains (failed) "sp_failed s" "write_byte accepts b s = (False, s)"
    | (sent) "\<not> sp_failed s" "write_byte accepts b s = (True, s\<lparr>sp_sent := sp_sent s @ [b]\<rparr>)"
    | (refused) "\<not> sp_failed s" "write_byte accepts b s = (False, s\<lparr>sp_failed := True\<rparr>)"
  by (cases "sp_failed s"; cases "accepts (sp_sent s) b") (simp_all add: write_byte_def)

text \<open>
  A write sends a prefix of the translated bytes; it reports success exactly when it sends them
  all, and otherwise the port is failed for good.
\<close>

lemma serial_write_bytes_prefix:
  assumes "serial_write_bytes accepts bytes s = (ok, s')"
  shows "\<exists>sent. sp_sent s' = sp_sent s @ sent \<and> (\<exists>rest. crlf bytes = sent @ rest) \<and>
    sp_received s' = sp_received s \<and> (ok \<longrightarrow> sent = crlf bytes \<and> sp_failed s' = sp_failed s) \<and>
    (\<not> ok \<longrightarrow> sp_failed s')"
  using assms
proof (induction bytes arbitrary: s)
  case Nil
  then show ?case by simp
next
  case (Cons b bs)
  show ?case
  proof (cases "b = 10")
    case False
    show ?thesis
    proof (cases rule: write_byte_cases [of s accepts b])
      case sent
      with False Cons.prems have "serial_write_bytes accepts bs (s\<lparr>sp_sent := sp_sent s @ [b]\<rparr>) = (ok, s')"
        by simp
      from Cons.IH [OF this] False show ?thesis by auto
    qed (use False Cons.prems in auto)
  next
    case True
    let ?s = "s\<lparr>sp_sent := sp_sent s @ [13]\<rparr>"
    show ?thesis
    proof (cases rule: write_byte_cases [of s accepts 13])
      case sent
      show ?thesis
      proof (cases rule: write_byte_cases [of ?s accepts 10])
        case failed
        with sent show ?thesis by simp
      next
        case refused
        with sent True Cons.prems show ?thesis by auto
      next
        case sent': sent
        with sent True Cons.prems
        have "serial_write_bytes accepts bs (?s\<lparr>sp_sent := sp_sent ?s @ [10]\<rparr>) = (ok, s')"
          by simp
        from Cons.IH [OF this] True show ?thesis by auto
      qed
    qed (use True Cons.prems in auto)
  qed
qed

lemma serial_failed_writes: "sp_failed s \<Longrightarrow> bytes \<noteq> [] \<Longrightarrow> serial_write_bytes accepts bytes s = (False, s)"
  by (cases bytes) (auto simp: write_byte_def)

lemma serial_read_cases:
  obtains (none) "serial_read s = (None, s)" "sp_failed s \<or> sp_received s = []"
    | (byte) b bs where "\<not> sp_failed s" "sp_received s = b # bs"
      "serial_read s = (Some b, s\<lparr>sp_received := bs\<rparr>)"
  by (cases "sp_received s") (auto simp: serial_read_def)

end
