(* ===== verification/Syscall.thy ===== *)
theory Syscall
  imports Process_Runtime User_Copy Serial_Port
begin

text \<open>
  The system call interface of \<open>src/syscall.rs\<close>: the numbers, the table, the error values and the
  dispatcher over the process runtime, user memory and the serial console.  \<open>log::write_bytes\<close> is
  its serial output; the copies to the screen are not part of the state.
\<close>

definition ABI_VERSION :: u16 where [kernel_defs]: "ABI_VERSION = 1"
definition MAX_ARGS :: nat where [kernel_defs]: "MAX_ARGS = 6"
definition MAX_IO :: nat where [kernel_defs]: "MAX_IO = 1024"
definition EXIT_TO_KERNEL :: u64 where [kernel_defs]: "EXIT_TO_KERNEL = - 1 - 1"

datatype sys_number =
  Sys_Read | Sys_Write | Sys_Close | Sys_Wait | Sys_Exit | Sys_GetPid | Sys_GetTid | Sys_Yield | Sys_Sleep

fun number_value :: "sys_number \<Rightarrow> u64" where
  "number_value Sys_Read = 0"
| "number_value Sys_Write = 1"
| "number_value Sys_Close = 3"
| "number_value Sys_Wait = 61"
| "number_value Sys_Exit = 60"
| "number_value Sys_GetPid = 39"
| "number_value Sys_GetTid = 186"
| "number_value Sys_Yield = 24"
| "number_value Sys_Sleep = 35"

datatype restart_policy = Restart_Never | Restart_Restartable

record metadata =
  md_number :: sys_number
  md_name :: string
  md_arguments :: u8
  md_restart :: restart_policy

definition SYSCALL_TABLE :: "metadata list" where
  "SYSCALL_TABLE =
    [\<lparr>md_number = Sys_Read, md_name = ''read'', md_arguments = 3, md_restart = Restart_Restartable\<rparr>,
     \<lparr>md_number = Sys_Write, md_name = ''write'', md_arguments = 3, md_restart = Restart_Restartable\<rparr>,
     \<lparr>md_number = Sys_Close, md_name = ''close'', md_arguments = 1, md_restart = Restart_Never\<rparr>,
     \<lparr>md_number = Sys_Wait, md_name = ''wait'', md_arguments = 1, md_restart = Restart_Restartable\<rparr>,
     \<lparr>md_number = Sys_Exit, md_name = ''exit'', md_arguments = 1, md_restart = Restart_Never\<rparr>,
     \<lparr>md_number = Sys_GetPid, md_name = ''getpid'', md_arguments = 0, md_restart = Restart_Never\<rparr>,
     \<lparr>md_number = Sys_GetTid, md_name = ''gettid'', md_arguments = 0, md_restart = Restart_Never\<rparr>,
     \<lparr>md_number = Sys_Yield, md_name = ''yield'', md_arguments = 0, md_restart = Restart_Never\<rparr>,
     \<lparr>md_number = Sys_Sleep, md_name = ''sleep'', md_arguments = 1, md_restart = Restart_Restartable\<rparr>]"

record sys_args = ar_values :: "u64 list"

definition args_empty :: sys_args where
  "args_empty = \<lparr>ar_values = replicate MAX_ARGS 0\<rparr>"

datatype errno = Ebadf | Echild | Eintr | Eagain | Efault | Einval | Enosys | Eoverflow

fun errno_value :: "errno \<Rightarrow> u64" where
  "errno_value Ebadf = 9"
| "errno_value Echild = 10"
| "errno_value Eintr = 4"
| "errno_value Eagain = 11"
| "errno_value Efault = 14"
| "errno_value Einval = 22"
| "errno_value Enosys = 38"
| "errno_value Eoverflow = 75"

definition return_value :: "errno \<Rightarrow> u64" where
  "return_value e = 0 - errno_value e"

definition is_error :: "u64 \<Rightarrow> bool" where
  "is_error v \<longleftrightarrow> v \<ge> - 1 - 4095"

text \<open>\<open>u32::try_from\<close>; \<open>usize::try_from\<close> of a \<open>u64\<close> cannot fail on a 64-bit target.\<close>

definition u32_try_from :: "u64 \<Rightarrow> u32 option" where
  "u32_try_from v = (if v < 0x100000000 then Some (ucast v) else None)"

record sys_env =
  se_copy :: copy_env
  se_accepts :: "u8 list \<Rightarrow> u8 \<Rightarrow> bool"

record sys =
  sy_runtime :: runtime
  sy_user :: usercopy
  sy_serial :: serial
  sy_kernel_space :: bool

definition require_fd :: "u32 \<Rightarrow> bool \<Rightarrow> runtime \<Rightarrow> errno + unit" where
  "require_fd fd read rt =
     (case current_fd_access fd rt of
        Inl e \<Rightarrow> Err (if e = Pe_InvalidFd \<or> e = Pe_InvalidId then Ebadf else Einval)
      | Inr (_, readable, writable) \<Rightarrow>
          if read \<and> readable \<or> \<not> read \<and> writable then Ok () else Err Ebadf)"

text \<open>The loop that reads at most \<open>left\<close> bytes from the serial port.\<close>

fun read_loop :: "nat \<Rightarrow> serial \<Rightarrow> u8 list \<times> serial" where
  "read_loop 0 s = ([], s)"
| "read_loop (Suc left) s =
     (case serial_read s of
        (None, s) \<Rightarrow> ([], s)
      | (Some byte, s) \<Rightarrow> (case read_loop left s of (bytes, s) \<Rightarrow> (byte # bytes, s)))"

definition sys_read :: "sys_env \<Rightarrow> sys_args \<Rightarrow> sys \<Rightarrow> (u64 \<times> sys) option" where
  "sys_read env args s =
     (case u32_try_from (ar_values args ! 0) of
        None \<Rightarrow> Some (return_value Ebadf, s)
      | Some fd \<Rightarrow>
          let address = ar_values args ! 1; len = unat (ar_values args ! 2) in
          if len > MAX_IO then Some (return_value Eoverflow, s)
          else (case require_fd fd True (sy_runtime s) of
                  Inl e \<Rightarrow> Some (return_value e, s)
                | Inr _ \<Rightarrow>
                    if len = 0 then Some (0, s)
                    else if is_err (validate address len) then Some (return_value Efault, s)
                    else
                      (case read_loop len (sy_serial s) of (bytes, port) \<Rightarrow>
                       let s = s\<lparr>sy_serial := port\<rparr> in
                       if bytes = [] then Some (return_value Eagain, s)
                       else
                         (case copy_to_user (se_copy env) address bytes (sy_user s) of
                            None \<Rightarrow> None
                          | Some (res, uc) \<Rightarrow>
                              let s = s\<lparr>sy_user := uc\<rparr> in
                              (case res of
                                 Inr copied \<Rightarrow> Some (of_nat copied, s)
                               | Inl _ \<Rightarrow> Some (return_value Efault, s))))))"

definition log_write_bytes :: "sys_env \<Rightarrow> u8 list \<Rightarrow> sys \<Rightarrow> sys" where
  "log_write_bytes env bytes s =
     s\<lparr>sy_serial := snd (serial_write_bytes (se_accepts env) bytes (sy_serial s))\<rparr>"

definition sys_write :: "sys_env \<Rightarrow> sys_args \<Rightarrow> sys \<Rightarrow> (u64 \<times> sys) option" where
  "sys_write env args s =
     (case u32_try_from (ar_values args ! 0) of
        None \<Rightarrow> Some (return_value Ebadf, s)
      | Some fd \<Rightarrow>
          let address = ar_values args ! 1; len = unat (ar_values args ! 2) in
          if len > MAX_IO then Some (return_value Eoverflow, s)
          else (case require_fd fd False (sy_runtime s) of
                  Inl e \<Rightarrow> Some (return_value e, s)
                | Inr _ \<Rightarrow>
                    if len = 0 then Some (0, s)
                    else
                      (case copy_from_user (se_copy env) address (replicate len 0) (sy_user s) of
                         None \<Rightarrow> None
                       | Some (res, buffer, uc) \<Rightarrow>
                           let s = s\<lparr>sy_user := uc\<rparr> in
                           (case res of
                              Inl _ \<Rightarrow> Some (return_value Efault, s)
                            | Inr _ \<Rightarrow> Some (of_nat len, log_write_bytes env buffer s)))))"

definition on_runtime ::
  "(runtime \<Rightarrow> (process_error + 'a) \<times> runtime) \<Rightarrow> (process_error \<Rightarrow> errno) \<Rightarrow> ('a \<Rightarrow> u64) \<Rightarrow> sys \<Rightarrow>
   (u64 \<times> sys) option"
where
  "on_runtime f err ok s =
     (case f (sy_runtime s) of
        (Inl e, rt) \<Rightarrow> Some (return_value (err e), s\<lparr>sy_runtime := rt\<rparr>)
      | (Inr x, rt) \<Rightarrow> Some (ok x, s\<lparr>sy_runtime := rt\<rparr>))"

definition sys_exit :: "sys_args \<Rightarrow> sys \<Rightarrow> (u64 \<times> sys) option" where
  "sys_exit args s =
     (case exit_current (ucast (ar_values args ! 0)) (sy_runtime s) of
        (Inr _, rt) \<Rightarrow> Some (EXIT_TO_KERNEL, s\<lparr>sy_runtime := rt, sy_kernel_space := True\<rparr>)
      | (Inl _, rt) \<Rightarrow> Some (return_value Einval, s\<lparr>sy_runtime := rt\<rparr>))"

definition sys_wait :: "sys_args \<Rightarrow> sys \<Rightarrow> (u64 \<times> sys) option" where
  "sys_wait args s =
     (let child = (if ar_values args ! 0 \<noteq> 0 then Some (ucast (ar_values args ! 0)) else None) in
      on_runtime (wait_current child) (\<lambda>e. if e = Pe_NoChild then Echild else Einval)
        (\<lambda>(process, _). ucast process) s)"

definition dispatch :: "sys_env \<Rightarrow> u64 \<Rightarrow> sys_args \<Rightarrow> sys \<Rightarrow> (u64 \<times> sys) option" where
  "dispatch env number args s =
     (if number = number_value Sys_Read then sys_read env args s
      else if number = number_value Sys_Write then sys_write env args s
      else if number = number_value Sys_GetPid
      then Some (case current_ids (sy_runtime s) of
             Some (process, _) \<Rightarrow> ucast process | None \<Rightarrow> return_value Enosys, s)
      else if number = number_value Sys_GetTid
      then Some (case current_ids (sy_runtime s) of
             Some (_, thread) \<Rightarrow> ucast thread | None \<Rightarrow> return_value Enosys, s)
      else if number = number_value Sys_Exit then sys_exit args s
      else if number = number_value Sys_Wait then sys_wait args s
      else if number = number_value Sys_Close
      then on_runtime (close_current (ucast (ar_values args ! 0))) (\<lambda>_. Ebadf) (\<lambda>_. 0) s
      else if number = number_value Sys_Yield then on_runtime yield_current (\<lambda>_. Einval) (\<lambda>_. 0) s
      else if number = number_value Sys_Sleep then on_runtime sleep_current (\<lambda>_. Einval) (\<lambda>_. 0) s
      else Some (return_value Enosys, s))"

section \<open>Result values\<close>

lemma return_value_large: "\<not> return_value e < 0x100000000"
  by (cases e) (simp_all add: return_value_def)

lemma return_value_error: "is_error (return_value e)"
  by (cases e) (simp_all add: return_value_def is_error_def)

lemma return_value_not_exit: "return_value e \<noteq> EXIT_TO_KERNEL"
  by (cases e) (simp_all add: return_value_def EXIT_TO_KERNEL_def)

lemma exit_large: "\<not> EXIT_TO_KERNEL < 0x100000000" "is_error EXIT_TO_KERNEL"
  by (simp_all add: EXIT_TO_KERNEL_def is_error_def)

lemma is_error_iff: "is_error v \<longleftrightarrow> 2 ^ 64 - 4096 \<le> unat v"
proof -
  have "(- 1 - 4095 :: u64) = 0xfffffffffffff000" by simp
  then show ?thesis by (simp add: is_error_def word_le_nat_alt)
qed

lemma small_not_error: "v < 0x100000000 \<Longrightarrow> \<not> is_error v"
  by (simp add: is_error_iff word_less_nat_alt)

lemma ucast_u32_small: "(ucast (x :: u32) :: u64) < 0x100000000"
proof -
  have lt: "unat x < 0x100000000" using unsigned_less [of x] by simp
  moreover have "unat (ucast x :: u64) = unat x"
    using lt by (simp add: unsigned_ucast_eq take_bit_nat_eq_self)
  ultimately show ?thesis by (simp add: word_less_nat_alt)
qed

lemma of_nat_io_small: "n \<le> MAX_IO \<Longrightarrow> (of_nat n :: u64) < 0x100000000"
  by (simp add: word_less_nat_alt kernel_defs unat_of_nat_small)

lemma read_loop_spec:
  assumes "read_loop n s = (bytes, s')"
  shows "bytes = (if sp_failed s then [] else take n (sp_received s)) \<and>
    s' = s\<lparr>sp_received := drop (length bytes) (sp_received s)\<rparr>"
  using assms
proof (induction n arbitrary: s bytes)
  case 0
  then show ?case by simp
next
  case (Suc n)
  show ?case
  proof (cases rule: serial_read_cases [of s])
    case none
    with Suc.prems show ?thesis by auto
  next
    case (byte b bs)
    with Suc.prems obtain bytes' where *: "read_loop n (s\<lparr>sp_received := bs\<rparr>) = (bytes', s')"
        "bytes = b # bytes'"
      by (auto split: prod.splits)
    from Suc.IH [OF *(1)] *(2) byte show ?thesis by simp
  qed
qed

lemma copy_to_user_Ok:
  "copy_to_user env a bs uc = Some (Ok n, uc') \<Longrightarrow> n = length bs"
  by (auto simp: copy_to_user_def Let_def split: sum.splits prod.splits option.splits if_splits)

lemma copy_from_user_Ok:
  "copy_from_user env a out uc = Some (Ok n, buf, uc') \<Longrightarrow> n = length out"
  by (auto simp: copy_from_user_def Let_def split: sum.splits prod.splits option.splits if_splits)

lemma sys_read_cases:
  assumes "sys_read env args s = Some (v, s')"
  obtains (error) e where "v = return_value e" "sy_runtime s' = sy_runtime s"
    | (empty) "v = 0" "s' = s" "ar_values args ! 2 = 0"
    | (copied) bytes uc' where "v = of_nat (length bytes)" "bytes \<noteq> []" "length bytes \<le> MAX_IO"
      "bytes = take (unat (ar_values args ! 2)) (sp_received (sy_serial s))"
      "copy_to_user (se_copy env) (ar_values args ! 1) bytes (sy_user s) = Some (Ok (length bytes), uc')"
      "s' = s\<lparr>sy_serial := sy_serial s\<lparr>sp_received := drop (length bytes) (sp_received (sy_serial s))\<rparr>,
         sy_user := uc'\<rparr>"
proof (cases "u32_try_from (ar_values args ! 0)")
  case None
  with assms show ?thesis by (intro error [of Ebadf]) (simp_all add: sys_read_def)
next
  case (Some fd)
  let ?len = "unat (ar_values args ! 2)"
  note eq = assms [unfolded sys_read_def Let_def Some option.case]
  show ?thesis
  proof (cases "?len > MAX_IO")
    case True
    with eq show ?thesis by (intro error [of Eoverflow]) simp_all
  next
    case small: False
    show ?thesis
    proof (cases "require_fd fd True (sy_runtime s)")
      case (Inl e)
      with eq small show ?thesis by (intro error [of e]) simp_all
    next
      case (Inr u)
      note eq2 = eq [unfolded Inr sum.case if_not_P [OF small]]
      obtain bytes port where rl: "read_loop ?len (sy_serial s) = (bytes, port)" by fastforce
      note r = read_loop_spec [OF rl]
      note eq3 = eq2 [unfolded rl prod.case]
      show ?thesis
      proof (cases "?len = 0 \<or> is_err (validate (ar_values args ! 1) ?len) \<or> bytes = []")
        case True
        with eq3 show ?thesis
          by (cases "?len = 0"; cases "is_err (validate (ar_values args ! 1) ?len)")
            (use empty error [of Efault] error [of Eagain] in \<open>auto simp: unat_eq_zero\<close>)
      next
        case False
        then have n: "?len \<noteq> 0" "\<not> is_err (validate (ar_values args ! 1) ?len)" "bytes \<noteq> []" by simp_all
        note eq4 = eq3 [unfolded if_not_P [OF n(1)] if_not_P [OF n(2)] if_not_P [OF n(3)]]
        have b: "bytes = take ?len (sp_received (sy_serial s))"
          using r False by (auto split: if_splits)
        then have bl: "length bytes \<le> MAX_IO" using small by simp
        show ?thesis
        proof (cases "copy_to_user (se_copy env) (ar_values args ! 1) bytes (sy_user s)")
          case None
          with eq4 show ?thesis by simp
        next
          case (Some p)
          then obtain res uc' where c: "copy_to_user (se_copy env) (ar_values args ! 1) bytes (sy_user s) =
              Some (res, uc')" by (cases p) simp
          show ?thesis
          proof (cases res)
            case (Inl e)
            with eq4 c show ?thesis by (intro error [of Efault]) auto
          next
            case (Inr n)
            with c have "n = length bytes" by (simp add: copy_to_user_Ok)
            with eq4 c Inr b bl r False show ?thesis by (intro copied [of bytes uc']) auto
          qed
        qed
      qed
    qed
  qed
qed

lemma sys_write_cases:
  assumes "sys_write env args s = Some (v, s')"
  obtains (error) e where "v = return_value e" "sy_runtime s' = sy_runtime s" "sy_serial s' = sy_serial s"
    | (empty) "v = 0" "s' = s" "ar_values args ! 2 = 0"
    | (written) buffer uc' where "v = ar_values args ! 2" "unat v \<le> MAX_IO"
      "copy_from_user (se_copy env) (ar_values args ! 1) (replicate (unat v) 0) (sy_user s) =
        Some (Ok (unat v), buffer, uc')"
      "s' = log_write_bytes env buffer (s\<lparr>sy_user := uc'\<rparr>)"
proof (cases "u32_try_from (ar_values args ! 0)")
  case None
  with assms show ?thesis by (intro error [of Ebadf]) (simp_all add: sys_write_def)
next
  case (Some fd)
  let ?len = "unat (ar_values args ! 2)"
  note eq = assms [unfolded sys_write_def Let_def Some option.case]
  show ?thesis
  proof (cases "?len > MAX_IO")
    case True
    with eq show ?thesis by (intro error [of Eoverflow]) simp_all
  next
    case small: False
    show ?thesis
    proof (cases "require_fd fd False (sy_runtime s)")
      case (Inl e)
      with eq small show ?thesis by (intro error [of e]) simp_all
    next
      case (Inr u)
      note eq2 = eq [unfolded Inr sum.case if_not_P [OF small]]
      let ?copy = "copy_from_user (se_copy env) (ar_values args ! 1) (replicate ?len 0) (sy_user s)"
      show ?thesis
      proof (cases "?len = 0")
        case True
        with eq2 show ?thesis by (intro empty) (simp_all add: unat_eq_zero)
      next
        case False
        note eq3 = eq2 [unfolded if_not_P [OF False]]
        then obtain res buffer uc' where c: "?copy = Some (res, buffer, uc')"
          by (cases ?copy) auto
        note eq4 = eq3 [unfolded c option.case prod.case]
        show ?thesis
        proof (cases res)
          case (Inl e)
          with eq4 show ?thesis by (intro error [of Efault]) auto
        next
          case (Inr n)
          then have "n = ?len" using copy_from_user_Ok [OF c [unfolded Inr]] by simp
          with eq4 c Inr small show ?thesis by (intro written [of buffer uc']) auto
        qed
      qed
    qed
  qed
qed

lemma sys_exit_cases:
  assumes "sys_exit args s = Some (v, s')"
  obtains (exited) rt where "exit_current (ucast (ar_values args ! 0)) (sy_runtime s) = (Ok (), rt)"
      "v = EXIT_TO_KERNEL" "s' = s\<lparr>sy_runtime := rt, sy_kernel_space := True\<rparr>"
    | (refused) e rt where "exit_current (ucast (ar_values args ! 0)) (sy_runtime s) = (Err e, rt)"
      "v = return_value Einval" "s' = s\<lparr>sy_runtime := rt\<rparr>"
  using assms by (auto simp: sys_exit_def split: prod.splits sum.splits)

lemma on_runtime_cases:
  assumes "on_runtime f err ok s = Some (v, s')"
  obtains (error) e rt where "f (sy_runtime s) = (Err e, rt)" "v = return_value (err e)"
      "s' = s\<lparr>sy_runtime := rt\<rparr>"
    | (completed) x rt where "f (sy_runtime s) = (Ok x, rt)" "v = ok x" "s' = s\<lparr>sy_runtime := rt\<rparr>"
  using assms by (auto simp: on_runtime_def split: prod.splits sum.splits)

section \<open>The dispatcher\<close>

lemma sys_read_value:
  assumes "sys_read env args s = Some (v, s')"
  shows "(\<exists>e. v = return_value e) \<or> v < 0x100000000" "sy_runtime s' = sy_runtime s"
  using assms by (cases rule: sys_read_cases; auto dest: of_nat_io_small)+

lemma sys_write_value:
  assumes "sys_write env args s = Some (v, s')"
  shows "(\<exists>e. v = return_value e) \<or> v < 0x100000000" "sy_runtime s' = sy_runtime s"
  using assms
  by (cases rule: sys_write_cases; auto simp: log_write_bytes_def word_less_nat_alt kernel_defs)+

lemma on_runtime_value:
  assumes "on_runtime f err ok s = Some (v, s')" "\<And>x. ok x < 0x100000000"
  shows "(\<exists>e. v = return_value e) \<or> v < 0x100000000"
  using assms(1) by (cases rule: on_runtime_cases) (auto simp: assms(2))

lemma on_runtime_step:
  assumes "on_runtime f err ok s = Some (v, s')" "\<And>x rt'. f (sy_runtime s) = (x, rt') \<Longrightarrow> rt_step (sy_runtime s) rt'"
  shows "rt_step (sy_runtime s) (sy_runtime s')"
  using assms(1) by (cases rule: on_runtime_cases) (auto dest: assms(2))

lemma dispatch_cases:
  assumes "dispatch env number args s = Some (v, s')"
  obtains (reading) "number = 0" "sys_read env args s = Some (v, s')"
    | (written) "number = 1" "sys_write env args s = Some (v, s')"
    | (getpid) "number = 39" "s' = s"
        "v = (case current_ids (sy_runtime s) of Some (p, _) \<Rightarrow> ucast p | None \<Rightarrow> return_value Enosys)"
    | (gettid) "number = 186" "s' = s"
        "v = (case current_ids (sy_runtime s) of Some (_, t) \<Rightarrow> ucast t | None \<Rightarrow> return_value Enosys)"
    | (exit) "number = 60" "sys_exit args s = Some (v, s')"
    | (wait) "number = 61" "sys_wait args s = Some (v, s')"
    | (close) "number = 3"
        "on_runtime (close_current (ucast (ar_values args ! 0))) (\<lambda>_. Ebadf) (\<lambda>_. 0) s = Some (v, s')"
    | (yield) "number = 24" "on_runtime yield_current (\<lambda>_. Einval) (\<lambda>_. 0) s = Some (v, s')"
    | (sleep) "number = 35" "on_runtime sleep_current (\<lambda>_. Einval) (\<lambda>_. 0) s = Some (v, s')"
    | (unknown) "v = return_value Enosys" "s' = s" "number \<notin> number_value ` UNIV"
proof -
  have univ: "number_value ` UNIV = {0, 1, 3, 61, 60, 39, 186, 24, 35}"
  proof -
    have u: "(UNIV :: sys_number set) = {Sys_Read, Sys_Write, Sys_Close, Sys_Wait, Sys_Exit, Sys_GetPid,
        Sys_GetTid, Sys_Yield, Sys_Sleep}"
      by (auto intro: sys_number.exhaust)
    show ?thesis unfolding u by simp
  qed
  consider "number = 0" | "number = 1" | "number = 39" | "number = 186" | "number = 60" | "number = 61"
    | "number = 3" | "number = 24" | "number = 35" | (none) "number \<notin> number_value ` UNIV"
    unfolding univ by blast
  then show ?thesis
  proof cases
    case none
    then have "dispatch env number args s = Some (return_value Enosys, s)"
      unfolding univ dispatch_def by simp
    with none assms show ?thesis using unknown by simp
  qed (use assms reading written getpid gettid exit wait close yield sleep in \<open>auto simp: dispatch_def\<close>)
qed

lemma dispatch_value:
  assumes "dispatch env number args s = Some (v, s')"
  shows "(\<exists>e. v = return_value e) \<or> v < 0x100000000 \<or>
    v = EXIT_TO_KERNEL \<and> number = 60 \<and> sys_exit args s = Some (v, s')"
  using assms
proof (cases rule: dispatch_cases)
  case wait
  then have "(\<exists>e. v = return_value e) \<or> v < 0x100000000"
    unfolding sys_wait_def Let_def by (elim on_runtime_value) (auto simp: ucast_u32_small)
  then show ?thesis by blast
next
  case exit
  from exit(2) show ?thesis by (cases rule: sys_exit_cases) (use exit in auto)
next
  case reading
  then show ?thesis using sys_read_value(1) by blast
next
  case written
  then show ?thesis using sys_write_value(1) by blast
next
  case close
  then show ?thesis using on_runtime_value [OF close(2)] by simp
next
  case yield
  then show ?thesis using on_runtime_value [OF yield(2)] by simp
next
  case sleep
  then show ?thesis using on_runtime_value [OF sleep(2)] by simp
qed (auto simp: ucast_u32_small split: option.splits)

lemma dispatch_runtime:
  assumes "dispatch env number args s = Some (v, s')"
    and "number = 61 \<Longrightarrow> fst (wait_current (if ar_values args ! 0 \<noteq> 0
           then Some (ucast (ar_values args ! 0)) else None) (sy_runtime s)) \<noteq> Err Pe_GenerationExhausted"
  shows "sy_runtime s' = sy_runtime s \<or> rt_step (sy_runtime s) (sy_runtime s')"
  using assms(1)
proof (cases rule: dispatch_cases)
  case reading
  then show ?thesis using sys_read_value(2) by blast
next
  case written
  then show ?thesis using sys_write_value(2) by blast
next
  case exit
  from exit(2) show ?thesis by (cases rule: sys_exit_cases) (auto intro: rs_exit)
next
  case wait
  from wait(2) [unfolded sys_wait_def Let_def] have "rt_step (sy_runtime s) (sy_runtime s')"
  proof (rule on_runtime_step)
    fix x rt'
    let ?child = "if ar_values args ! 0 \<noteq> 0 then Some (ucast (ar_values args ! 0)) else None"
    assume w: "wait_current ?child (sy_runtime s) = (x, rt')"
    with assms(2) [OF wait(1)] have "x \<noteq> Err Pe_GenerationExhausted" by simp
    then show "rt_step (sy_runtime s) rt'" by (rule rs_wait [OF w])
  qed
  then show ?thesis ..
next
  case close
  from on_runtime_step [OF close(2)] show ?thesis by (auto intro: rs_close)
next
  case yield
  from on_runtime_step [OF yield(2)] show ?thesis by (auto intro: rs_yield)
next
  case sleep
  from on_runtime_step [OF sleep(2)] show ?thesis by (auto intro: rs_sleep)
qed simp_all

lemma copy_from_user_returns:
  assumes "layout_ok env"
  shows "\<exists>res. copy_from_user env a out uc = Some res"
  by (auto simp: copy_from_user_def Let_def copy_result_active [OF assms] split: sum.splits prod.splits)

lemma copy_to_user_returns:
  assumes "layout_ok env"
  shows "\<exists>res. copy_to_user env a inp uc = Some res"
  by (auto simp: copy_to_user_def Let_def copy_result_active [OF assms] split: sum.splits prod.splits)

lemma sys_read_None: "sys_read env args s = None \<Longrightarrow> \<exists>a b. copy_to_user (se_copy env) a b (sy_user s) = None"
  unfolding sys_read_def Let_def
  by (simp split: option.splits if_split_asm sum.splits prod.splits) blast

lemma sys_write_None: "sys_write env args s = None \<Longrightarrow> \<exists>a b. copy_from_user (se_copy env) a b (sy_user s) = None"
  unfolding sys_write_def Let_def
  by (simp split: option.splits if_split_asm sum.splits prod.splits) blast

lemma on_runtime_returns: "\<exists>v s'. on_runtime f err ok s = Some (v, s')"
  by (auto simp: on_runtime_def split: prod.splits sum.splits)

lemma sys_exit_returns: "\<exists>v s'. sys_exit args s = Some (v, s')"
  by (auto simp: sys_exit_def split: prod.splits sum.splits)

section \<open>Properties\<close>

text \<open>
  Every system call returns: whatever the number, the arguments, the mapped user memory
  and the state of the runtime and of the serial port, the dispatcher produces a value.
\<close>

theorem dispatch_returns:
  assumes "layout_ok (se_copy env)"
  shows "\<exists>v s'. dispatch env number args s = Some (v, s')"
proof -
  have "sys_read env args s \<noteq> None" "sys_write env args s \<noteq> None"
    using sys_read_None sys_write_None copy_to_user_returns [OF assms] copy_from_user_returns [OF assms]
    by (metis option.distinct(1))+
  then have "dispatch env number args s \<noteq> None"
    by (simp add: dispatch_def sys_wait_def Let_def on_runtime_returns sys_exit_returns)
  then show ?thesis by auto
qed

text \<open>
  Claim C36.  The value a system call returns decodes uniquely: it is a documented error number in
  the error range, a success value below \<open>2^32\<close> outside of it, or \<open>EXIT_TO_KERNEL\<close>; and the
  entry code, which leaves user mode exactly on \<open>EXIT_TO_KERNEL\<close>, does so only for a call of
  \<open>exit\<close> that the runtime accepted.
\<close>

theorem syscall_value_decodes:
  assumes "dispatch env number args s = Some (v, s')"
  shows "(is_error v \<longleftrightarrow> v = EXIT_TO_KERNEL \<or> (\<exists>e. v = return_value e)) \<and>
    (\<not> is_error v \<longleftrightarrow> v < 0x100000000) \<and>
    (v = EXIT_TO_KERNEL \<longleftrightarrow>
       number = number_value Sys_Exit \<and>
       fst (exit_current (ucast (ar_values args ! 0)) (sy_runtime s)) = Ok ())"
proof -
  have "v = EXIT_TO_KERNEL \<longleftrightarrow> number = 60 \<and> fst (exit_current (ucast (ar_values args ! 0)) (sy_runtime s)) = Ok ()"
  proof
    assume "v = EXIT_TO_KERNEL"
    then have "number = 60" "sys_exit args s = Some (v, s')"
      using dispatch_value [OF assms] return_value_not_exit exit_large by metis+
    from this(2) show "number = 60 \<and> fst (exit_current (ucast (ar_values args ! 0)) (sy_runtime s)) = Ok ()"
      by (cases rule: sys_exit_cases) (use \<open>number = 60\<close> \<open>v = EXIT_TO_KERNEL\<close> return_value_not_exit [of Einval] in auto)
  next
    assume *: "number = 60 \<and> fst (exit_current (ucast (ar_values args ! 0)) (sy_runtime s)) = Ok ()"
    with assms have "sys_exit args s = Some (v, s')" by (simp add: dispatch_def)
    then show "v = EXIT_TO_KERNEL" by (cases rule: sys_exit_cases) (use * in auto)
  qed
  moreover from dispatch_value [OF assms] have
    "(is_error v \<longleftrightarrow> v = EXIT_TO_KERNEL \<or> (\<exists>e. v = return_value e)) \<and> (\<not> is_error v \<longleftrightarrow> v < 0x100000000)"
    using small_not_error return_value_error return_value_large exit_large by metis
  ultimately show ?thesis unfolding number_value.simps by blast
qed


text \<open>A machine with one process, two bytes of serial input and eight KiB of user memory.\<close>

definition demo_sys_env :: sys_env where
  "demo_sys_env = \<lparr>se_copy = demo_env, se_accepts = (\<lambda>_ _. True)\<rparr>"

definition demo_sys :: sys where
  "demo_sys = \<lparr>sy_runtime = snd init_runtime, sy_user = demo_usercopy,
     sy_serial = \<lparr>sp_failed = False, sp_received = [65, 66], sp_sent = []\<rparr>, sy_kernel_space = False\<rparr>"

lemma demo_sys_env_ok: "layout_ok (se_copy demo_sys_env)"
  by (simp add: demo_sys_env_def demo_env_ok)

theorem dispatch_returns_witness:
  "\<exists>v s'. dispatch demo_sys_env 0 \<lparr>ar_values = [0, 0x1000, 8, 0, 0, 0]\<rparr> demo_sys = Some (v, s')"
  using dispatch_returns [OF demo_sys_env_ok] by blast

lemma demo_require_fd: "require_fd 0 True (sy_runtime demo_sys) = Ok ()"
  by (simp add: require_fd_def current_fd_access_def fd_access_def demo_sys_def init_runtime_eq
      switch_to_def demo_boot_eq table_eval fd_slot_def fd_from_raw_def standard_fds_def kernel_defs)

theorem syscall_value_decodes_witness:
  "\<exists>s'. dispatch demo_sys_env 7 args_empty demo_sys = Some (return_value Enosys, s') \<and>
     is_error (return_value Enosys)"
proof -
  have d: "dispatch demo_sys_env 7 args_empty demo_sys = Some (return_value Enosys, demo_sys)"
    by (simp add: dispatch_def)
  with syscall_value_decodes [OF d] show ?thesis by blast
qed

text \<open>Sequences of system calls, with the steps the kernel takes between them.\<close>

inductive sys_step :: "sys \<Rightarrow> sys \<Rightarrow> bool" where
  ss_call: "dispatch env number args s = Some (v, s') \<Longrightarrow>
    (number = 61 \<Longrightarrow> fst (wait_current (if ar_values args ! 0 \<noteq> 0
       then Some (ucast (ar_values args ! 0)) else None) (sy_runtime s)) \<noteq> Err Pe_GenerationExhausted) \<Longrightarrow>
    sys_step s s'"
| ss_kernel: "rt_step (sy_runtime s) rt' \<Longrightarrow> sys_step s (s\<lparr>sy_runtime := rt'\<rparr>)"

interpretation syscalls: step_invariant "\<lambda>s. sy_runtime s = snd init_runtime" sys_step "\<lambda>s. rt_inv (sy_runtime s)"
proof
  fix s s' assume "rt_inv (sy_runtime s)" "sys_step s s'"
  from this(2,1) show "rt_inv (sy_runtime s')"
  proof (induction rule: sys_step.induct)
    case (ss_call env number args s v s')
    with dispatch_runtime [OF ss_call(1,2)] show ?case using rt_step_inv by auto
  next
    case (ss_kernel s rt')
    then show ?case using rt_step_inv by simp
  qed
qed (simp add: init_runtime_inv)




lemma demo_copy:
  "\<exists>uc'. copy_to_user demo_env 0x1000 [65, 66] demo_usercopy = Some (Ok 2, uc')"
proof -
  have "validate 0x1000 (length [65 :: u8, 66]) = Ok \<lparr>ur_address = 0x1000, ur_length = 2\<rparr>"
    by (simp add: validate_Ok_iff kernel_defs)
  then show ?thesis
    by (simp add: copy_to_user_def demo_usercopy_def demo_memory_def Let_def copy_result_active [OF demo_env_ok])
qed

lemma demo_read:
  "\<exists>s'. dispatch demo_sys_env 0 \<lparr>ar_values = [0, 0x1000, 8, 0, 0, 0]\<rparr> demo_sys = Some (2, s')"
proof -
  have "validate 0x1000 8 = Ok \<lparr>ur_address = 0x1000, ur_length = 8\<rparr>"
    by (simp add: validate_Ok_iff kernel_defs)
  then have v: "\<not> is_err (validate 0x1000 8)" by (simp add: is_err_def)
  have r: "read_loop 8 (sy_serial demo_sys) = ([65, 66], sy_serial demo_sys\<lparr>sp_received := []\<rparr>)"
    by (simp add: demo_sys_def serial_read_def eval_nat_numeral)
  from demo_copy obtain uc' where "copy_to_user demo_env 0x1000 [65, 66] demo_usercopy = Some (Ok 2, uc')" ..
  moreover have "se_copy demo_sys_env = demo_env" "sy_user demo_sys = demo_usercopy"
    by (simp_all add: demo_sys_env_def demo_sys_def)
  ultimately show ?thesis
    using v r by (simp add: dispatch_def sys_read_def u32_try_from_def Let_def demo_require_fd MAX_IO_def
        del: read_loop.simps)
qed


text \<open>
  Input taken from the port is lost when the copy to user memory faults: the call reports \<open>Efault\<close>
  and the bytes are neither delivered nor put back.
\<close>

lemma read_fault_loses_input:
  assumes "u32_try_from (ar_values args ! 0) = Some fd" "require_fd fd True (sy_runtime s) = Ok ()"
    and "validate (ar_values args ! 1) (unat (ar_values args ! 2)) = Ok r"
    and "0 < unat (ar_values args ! 2)" "unat (ar_values args ! 2) \<le> MAX_IO"
    and "\<not> sp_failed (sy_serial s)" "sp_received (sy_serial s) = b # bs"
    and "layout_ok (se_copy env)" "\<not> um_writable (uc_memory (sy_user s)) (ar_values args ! 1)"
  shows "\<exists>s'. dispatch env (number_value Sys_Read) args s = Some (return_value Efault, s') \<and>
    sp_received (sy_serial s') = drop (unat (ar_values args ! 2)) (b # bs)"
proof -
  let ?n = "unat (ar_values args ! 2)"
  obtain bytes port where rl: "read_loop ?n (sy_serial s) = (bytes, port)" by fastforce
  have b: "bytes = take ?n (b # bs)" "sp_received port = drop ?n (b # bs)"
    using read_loop_spec [OF rl] assms(6,7) by (auto simp: min_def)
  obtain n where n: "?n = Suc n" using assms(4) by (cases ?n) auto
  have "unat (ar_values args ! 1) + length bytes \<le> unat USER_LIMIT" "length bytes \<le> MAX_COPY"
    using assms(3) b(1) by (auto simp: validate_Ok_iff)
  then have "validate (ar_values args ! 1) (length bytes) =
      Ok \<lparr>ur_address = ar_values args ! 1, ur_length = length bytes\<rparr>"
    using assms(3) by (auto simp: validate_Ok_iff)
  moreover have "movsb_store (ar_values args ! 1) bytes (uc_memory (sy_user s)) =
      (Some (ar_values args ! 1), uc_memory (sy_user s))"
    using assms(9) by (simp add: b(1) n)
  ultimately have "copy_to_user (se_copy env) (ar_values args ! 1) bytes (sy_user s) =
      Some (Err Uc_Unmapped, (sy_user s)\<lparr>uc_active := False\<rparr>)"
    by (simp add: copy_to_user_def Let_def copy_result_active [OF assms(8)])
  moreover have "bytes \<noteq> []" by (simp add: b(1) n)
  ultimately show ?thesis
    using assms(1-5) rl b(2) by (simp add: dispatch_def sys_read_def Let_def is_err_def)
qed

text \<open>
  The descriptor of \<open>close\<close> is truncated to 32 bits, that of \<open>read\<close> and \<open>write\<close> is not: the number
  \<open>2^32 + 1\<close> closes descriptor 1 but cannot be written to.
\<close>

lemma close_truncates_descriptor:
  "dispatch env (number_value Sys_Close) \<lparr>ar_values = [0x100000001, 0, 0, 0, 0, 0]\<rparr> s =
     dispatch env (number_value Sys_Close) \<lparr>ar_values = [1, 0, 0, 0, 0, 0]\<rparr> s \<and>
   dispatch env (number_value Sys_Write) \<lparr>ar_values = [0x100000001, a, n, 0, 0, 0]\<rparr> s =
     Some (return_value Ebadf, s)"
proof -
  have eq: "(0x100000001 :: u32) = 1" by (rule word_unat_eq_iff [THEN iffD2]) simp
  show ?thesis by (simp add: dispatch_def sys_write_def u32_try_from_def eq)
qed

end
