(* ===== verification/Frame_Allocator.thy ===== *)
theory Frame_Allocator
  imports Step_Systems
begin

unbundle bit_operations_syntax

text \<open>
  The physical frame allocator of \<open>src/memory.rs\<close>: the usable ranges are computed from the boot
  information, frames are handed out from them in increasing order, and up to 128 frames that
  come back are handed out again first.  The arrays are lists of fixed length with a count, as in
  the source.  The loop of \<open>add_available\<close> has no evident bound, so it is a partial function whose
  value \<open>None\<close> means that it does not end; that it ends is proved.
\<close>

definition MAX_RANGES :: nat where [kernel_defs]: "MAX_RANGES = 64"
definition MAX_RETURNED_FRAMES :: nat where [kernel_defs]: "MAX_RETURNED_FRAMES = 128"
definition FRAME_SIZE :: u64 where [kernel_defs]: "FRAME_SIZE = 4096"
definition MIN_FRAME :: u64 where [kernel_defs]: "MIN_FRAME = 0x100000"

record memory_region =
  mr_base :: u64
  mr_length :: u64

text \<open>The part of the boot information that the allocator reads.\<close>

record boot_memory =
  bm_memory :: "memory_region list"
  bm_memory_len :: nat
  bm_reserved :: "memory_region list"
  bm_reserved_len :: nat

record frame_range =
  rg_start :: u64
  rg_pages :: u64

definition range_empty :: frame_range where
  "range_empty = \<lparr>rg_start = 0, rg_pages = 0\<rparr>"

definition range_end :: "frame_range \<Rightarrow> u64" where
  "range_end r = saturating_add (rg_start r) (saturating_mul (rg_pages r) FRAME_SIZE)"

record frame_allocator =
  fa_ranges :: "frame_range list"
  fa_range_count :: nat
  fa_next_range :: nat
  fa_next_frame :: u64
  fa_usable_pages :: u64
  fa_allocated_frames :: u64
  fa_skipped_ranges :: usize
  fa_returned :: "u64 list"
  fa_returned_count :: nat

definition frame_allocator_static :: frame_allocator where
  "frame_allocator_static =
     \<lparr>fa_ranges = replicate MAX_RANGES range_empty, fa_range_count = 0, fa_next_range = 0,
      fa_next_frame = 0, fa_usable_pages = 0, fa_allocated_frames = 0, fa_skipped_ranges = 0,
      fa_returned = replicate MAX_RETURNED_FRAMES 0, fa_returned_count = 0\<rparr>"

definition page_floor :: "u64 \<Rightarrow> u64" where
  "page_floor v = v AND NOT (FRAME_SIZE - 1)"

definition align_up :: "u64 \<Rightarrow> u64" where
  "align_up v =
     (case checked_add v (FRAME_SIZE - 1) of
        Some v \<Rightarrow> v AND NOT (FRAME_SIZE - 1)
      | None \<Rightarrow> NOT (FRAME_SIZE - 1))"

definition push_range :: "u64 \<Rightarrow> u64 \<Rightarrow> frame_allocator \<Rightarrow> frame_allocator" where
  "push_range start pages st =
     (if pages = 0 then st
      else
        let n = fa_range_count st;
            merged = n \<noteq> 0 \<and> range_end (fa_ranges st ! (n - 1)) = start in
        if merged then
          let r = fa_ranges st ! (n - 1) in
          st\<lparr>fa_ranges := (fa_ranges st)[n - 1 := r\<lparr>rg_pages := saturating_add (rg_pages r) pages\<rparr>],
             fa_usable_pages := saturating_add (fa_usable_pages st) pages\<rparr>
        else if n < MAX_RANGES then
          st\<lparr>fa_ranges := (fa_ranges st)[n := \<lparr>rg_start = start, rg_pages = pages\<rparr>],
             fa_range_count := n + 1,
             fa_usable_pages := saturating_add (fa_usable_pages st) pages\<rparr>
        else st\<lparr>fa_skipped_ranges := saturating_add (fa_skipped_ranges st) 1\<rparr>)"

text \<open>The scan of the reserved regions: the next base above the cursor, and the covered end.\<close>

fun scan_reserved :: "memory_region list \<Rightarrow> u64 \<Rightarrow> u64 \<Rightarrow> u64 \<times> u64 \<Rightarrow> u64 \<times> u64" where
  "scan_reserved [] cursor end_addr acc = acc"
| "scan_reserved (reserved # rs) cursor end_addr (next_base, covered_end) =
     (case checked_add (mr_base reserved) (mr_length reserved) of
        None \<Rightarrow> scan_reserved rs cursor end_addr (next_base, covered_end)
      | Some reserved_end \<Rightarrow>
          if reserved_end \<le> cursor \<or> mr_base reserved \<ge> end_addr
          then scan_reserved rs cursor end_addr (next_base, covered_end)
          else if mr_base reserved \<le> cursor
          then scan_reserved rs cursor end_addr (next_base, max covered_end (min reserved_end end_addr))
          else scan_reserved rs cursor end_addr (min next_base (mr_base reserved), covered_end))"

text \<open>One pass through the body of the loop: the next cursor and the new state.\<close>

definition add_body ::
  "memory_region list \<Rightarrow> u64 \<Rightarrow> u64 \<Rightarrow> frame_allocator \<Rightarrow> u64 \<times> frame_allocator" where
  "add_body reserved end_addr cursor st =
     (case scan_reserved reserved cursor end_addr (end_addr, cursor) of (next_base, covered_end) \<Rightarrow>
      if covered_end > cursor then (align_up covered_end, st)
      else
        let available_end = page_floor (min next_base end_addr);
            st = (if available_end > cursor
                  then push_range cursor ((available_end - cursor) div FRAME_SIZE) st else st)
        in (align_up (max available_end (saturating_add cursor FRAME_SIZE)), st))"

partial_function (option) add_loop ::
  "memory_region list \<Rightarrow> u64 \<Rightarrow> u64 \<Rightarrow> frame_allocator \<Rightarrow> frame_allocator option" where
  [code]: "add_loop reserved end_addr cursor st =
     (if cursor < end_addr
      then (case add_body reserved end_addr cursor st of (cursor', st') \<Rightarrow>
            add_loop reserved end_addr cursor' st')
      else Some st)"

definition add_available ::
  "memory_region \<Rightarrow> memory_region list \<Rightarrow> frame_allocator \<Rightarrow> frame_allocator option" where
  "add_available region reserved st =
     (case checked_add (mr_base region) (mr_length region) of
        None \<Rightarrow> Some (st\<lparr>fa_skipped_ranges := saturating_add (fa_skipped_ranges st) 1\<rparr>)
      | Some end_addr \<Rightarrow>
          let start = max (mr_base region) MIN_FRAME in
          if start \<ge> end_addr then Some st
          else
            let cursor = align_up start; end_addr = page_floor end_addr in
            if cursor \<ge> end_addr then Some st
            else add_loop reserved end_addr cursor st)"

fun add_regions ::
  "memory_region list \<Rightarrow> memory_region list \<Rightarrow> frame_allocator \<Rightarrow> frame_allocator option" where
  "add_regions [] reserved st = Some st"
| "add_regions (region # regions) reserved st =
     Option.bind (add_available region reserved st) (add_regions regions reserved)"

record memory_summary =
  ms_descriptors :: nat
  ms_usable_pages :: u64
  ms_skipped_ranges :: usize

definition memory_init ::
  "boot_memory \<Rightarrow> frame_allocator \<Rightarrow> (memory_summary \<times> frame_allocator) option" where
  "memory_init info st =
     (let st = st\<lparr>fa_range_count := 0, fa_next_range := 0, fa_next_frame := 0, fa_usable_pages := 0,
                  fa_allocated_frames := 0, fa_skipped_ranges := 0, fa_returned_count := 0\<rparr> in
      Option.bind (add_regions (take (bm_memory_len info) (bm_memory info))
                     (take (bm_reserved_len info) (bm_reserved info)) st)
        (\<lambda>st. Some (\<lparr>ms_descriptors = bm_memory_len info, ms_usable_pages = fa_usable_pages st,
                     ms_skipped_ranges = fa_skipped_ranges st\<rparr>, st)))"

text \<open>The loop of \<open>alloc_frame\<close>; the argument counts the ranges left.\<close>

fun alloc_loop :: "nat \<Rightarrow> frame_allocator \<Rightarrow> u64 option \<times> frame_allocator" where
  "alloc_loop 0 st = (None, st)"
| "alloc_loop (Suc left) st =
     (let r = fa_ranges st ! fa_next_range st;
          st = (if fa_next_frame st = 0 \<or> fa_next_frame st < rg_start r
                then st\<lparr>fa_next_frame := rg_start r\<rparr> else st)
      in if fa_next_frame st < range_end r
         then (Some (fa_next_frame st),
               st\<lparr>fa_next_frame := fa_next_frame st + FRAME_SIZE,
                  fa_allocated_frames := saturating_add (fa_allocated_frames st) 1\<rparr>)
         else alloc_loop left (st\<lparr>fa_next_range := fa_next_range st + 1\<rparr>))"

definition alloc_frame :: "frame_allocator \<Rightarrow> u64 option \<times> frame_allocator" where
  "alloc_frame st =
     (if fa_returned_count st \<noteq> 0 then
        let st = st\<lparr>fa_returned_count := fa_returned_count st - 1\<rparr> in
        (Some (fa_returned st ! fa_returned_count st), st)
      else alloc_loop (fa_range_count st - fa_next_range st) st)"

definition free_frame :: "u64 \<Rightarrow> frame_allocator \<Rightarrow> bool \<times> frame_allocator" where
  "free_frame frame st =
     (if frame < MIN_FRAME \<or> \<not> is_multiple_of frame FRAME_SIZE then (False, st)
      else if fa_returned_count st = MAX_RETURNED_FRAMES \<or>
              frame \<in> set (take (fa_returned_count st) (fa_returned st))
      then (False, st)
      else (True, st\<lparr>fa_returned := (fa_returned st)[fa_returned_count st := frame],
                     fa_returned_count := fa_returned_count st + 1\<rparr>))"

record memory_stats =
  mst_ranges :: nat
  mst_usable_pages :: u64
  mst_allocated_frames :: u64
  mst_next_frame :: u64

definition memory_stats_of :: "frame_allocator \<Rightarrow> memory_stats" where
  "memory_stats_of st = \<lparr>mst_ranges = fa_range_count st, mst_usable_pages = fa_usable_pages st,
     mst_allocated_frames = fa_allocated_frames st, mst_next_frame = fa_next_frame st\<rparr>"

section \<open>Page arithmetic\<close>

lemma unat_and_not_mask: "unat (v AND NOT (mask n)) = unat v div 2 ^ n * 2 ^ n" for v :: u64
proof -
  have "v AND NOT (mask n) = push_bit n (drop_bit n v)"
    by (rule bit_word_eqI) (auto simp: bit_simps)
  moreover have "unat v < 2 ^ 64" using unsigned_less [of v] by simp
  ultimately have "unat (v AND NOT (mask n)) = take_bit 64 (push_bit n (drop_bit n (unat v)))"
    by (simp add: unsigned_push_bit_eq unsigned_drop_bit_eq take_bit_nat_eq_self)
  also have "push_bit n (drop_bit n (unat v)) = unat v div 2 ^ n * 2 ^ n"
    by (simp add: push_bit_eq_mult drop_bit_eq_div)
  also have "take_bit 64 (unat v div 2 ^ n * 2 ^ n) = unat v div 2 ^ n * 2 ^ n"
  proof (rule take_bit_nat_eq_self)
    have "unat v div 2 ^ n * 2 ^ n \<le> unat v" by simp
    also have "\<dots> < 2 ^ 64" using unsigned_less [of v] by simp
    finally show "unat v div 2 ^ n * 2 ^ n < 2 ^ 64" .
  qed
  finally show ?thesis .
qed

lemma unat_page_floor: "unat (page_floor v) = unat v div 4096 * 4096"
proof -
  have "FRAME_SIZE - 1 = mask 12" by (simp add: FRAME_SIZE_def mask_eq_exp_minus_1)
  then show ?thesis using unat_and_not_mask [of v 12] by (simp add: page_floor_def)
qed

lemma unat_align_up:
  assumes "unat v \<le> 2 ^ 64 - 4096"
  shows "unat (align_up v) = (unat v + 4095) div 4096 * 4096"
proof -
  have f: "unat (FRAME_SIZE - 1) = 4095" by (simp add: FRAME_SIZE_def)
  from assms have "unat v + unat (FRAME_SIZE - 1) < 2 ^ 64" by (simp add: f)
  then obtain w where w: "checked_add v (FRAME_SIZE - 1) = Some w"
    using checked_add_None_iff [of v "FRAME_SIZE - 1"] by (cases "checked_add v (FRAME_SIZE - 1)") auto
  then have "unat w = unat v + 4095" by (simp add: checked_add_Some_iff f)
  moreover have "align_up v = page_floor w" by (simp add: align_up_def w page_floor_def)
  ultimately show ?thesis by (simp add: unat_page_floor)
qed

section \<open>The ranges\<close>

text \<open>A page, by its physical address, in one region of memory and outside of all reserved ones.\<close>

definition page_ok :: "memory_region list \<Rightarrow> memory_region list \<Rightarrow> nat \<Rightarrow> bool" where
  "page_ok regions reserved p \<longleftrightarrow>
     (\<exists>r\<in>set regions. unat (mr_base r) \<le> p \<and> p + 4096 \<le> unat (mr_base r) + unat (mr_length r)) \<and>
     (\<forall>r\<in>set reserved. unat (mr_base r) + unat (mr_length r) < 2 ^ 64 \<longrightarrow>
        p + 4096 \<le> unat (mr_base r) \<or> unat (mr_base r) + unat (mr_length r) \<le> p)"

definition range_ok :: "memory_region list \<Rightarrow> memory_region list \<Rightarrow> frame_range \<Rightarrow> bool" where
  "range_ok regions reserved r \<longleftrightarrow>
     4096 dvd unat (rg_start r) \<and> 0x100000 \<le> unat (rg_start r) \<and>
     unat (rg_start r) + unat (rg_pages r) * 4096 \<le> 2 ^ 64 - 4096 \<and>
     (\<forall>k<unat (rg_pages r). page_ok regions reserved (unat (rg_start r) + k * 4096))"

definition fa_inv :: "memory_region list \<Rightarrow> memory_region list \<Rightarrow> frame_allocator \<Rightarrow> bool" where
  "fa_inv regions reserved st \<longleftrightarrow>
     length (fa_ranges st) = MAX_RANGES \<and> fa_range_count st \<le> MAX_RANGES \<and>
     (\<forall>i<fa_range_count st. range_ok regions reserved (fa_ranges st ! i))"

lemma unat_range_end:
  assumes "range_ok regions reserved r"
  shows "unat (range_end r) = unat (rg_start r) + unat (rg_pages r) * 4096"
proof -
  have "unat (rg_start r) + unat (rg_pages r) * 4096 \<le> 2 ^ 64 - 4096"
    using assms by (simp add: range_ok_def)
  then show ?thesis
    by (simp add: range_end_def unat_saturating_add unat_saturating_mul FRAME_SIZE_def min_def)
qed

lemma range_ok_merge:
  assumes r: "range_ok regions reserved r" and n: "range_ok regions reserved \<lparr>rg_start = range_end r, rg_pages = n\<rparr>"
  shows "range_ok regions reserved (r\<lparr>rg_pages := saturating_add (rg_pages r) n\<rparr>)"
proof -
  note e = unat_range_end [OF r]
  have s: "unat (saturating_add (rg_pages r) n) = unat (rg_pages r) + unat n"
    using n e by (simp add: range_ok_def unat_saturating_add min_def)
  have "page_ok regions reserved (unat (rg_start r) + k * 4096)" if "k < unat (rg_pages r) + unat n" for k
  proof (cases "k < unat (rg_pages r)")
    case True
    with r show ?thesis by (simp add: range_ok_def)
  next
    case False
    with that have "k - unat (rg_pages r) < unat n" by simp
    with n have "page_ok regions reserved (unat (range_end r) + (k - unat (rg_pages r)) * 4096)"
      by (simp add: range_ok_def)
    with e False show ?thesis by (simp add: algebra_simps diff_mult_distrib)
  qed
  with r n s e show ?thesis by (simp add: range_ok_def algebra_simps)
qed

lemma push_range_inv:
  assumes inv: "fa_inv regions reserved st"
    and ok: "range_ok regions reserved \<lparr>rg_start = start, rg_pages = pages\<rparr>"
  shows "fa_inv regions reserved (push_range start pages st)"
proof -
  let ?n = "fa_range_count st"
  let ?r = "fa_ranges st ! (?n - 1)"
  consider (zero) "pages = 0" | (merge) "pages \<noteq> 0" "?n \<noteq> 0" "range_end ?r = start"
    | (new) "pages \<noteq> 0" "\<not> (?n \<noteq> 0 \<and> range_end ?r = start)"
    by blast
  then show ?thesis
  proof cases
    case zero
    with inv show ?thesis by (simp add: push_range_def)
  next
    case merge
    have "range_ok regions reserved ?r" using inv merge(2) by (simp add: fa_inv_def)
    then have "range_ok regions reserved (?r\<lparr>rg_pages := saturating_add (rg_pages ?r) pages\<rparr>)"
      using ok merge(3) range_ok_merge by simp
    with inv merge show ?thesis
      by (auto simp: push_range_def Let_def fa_inv_def nth_list_update)
  next
    case new
    with inv ok show ?thesis
      by (auto simp: push_range_def Let_def fa_inv_def nth_list_update less_Suc_eq)
  qed
qed

lemma scan_reserved_spec:
  assumes "scan_reserved rs cursor end_addr (nb0, ce0) = (nb, ce)"
  shows "nb \<le> nb0 \<and> ce0 \<le> ce \<and> ce \<le> max ce0 end_addr \<and>
    (\<forall>r\<in>set rs. \<forall>re. checked_add (mr_base r) (mr_length r) = Some re \<longrightarrow> cursor < re \<longrightarrow>
       mr_base r < end_addr \<longrightarrow>
       (if mr_base r \<le> cursor then min re end_addr \<le> ce else nb \<le> mr_base r))"
  using assms
proof (induction rs arbitrary: nb0 ce0)
  case Nil
  then show ?case by simp
next
  case (Cons r rs)
  show ?case
  proof (cases "checked_add (mr_base r) (mr_length r)")
    case None
    with Cons.prems Cons.IH [of nb0 ce0] show ?thesis by auto
  next
    case (Some re)
    consider (skip) "re \<le> cursor \<or> end_addr \<le> mr_base r"
      | (covers) "\<not> (re \<le> cursor \<or> end_addr \<le> mr_base r)" "mr_base r \<le> cursor"
      | (above) "\<not> (re \<le> cursor \<or> end_addr \<le> mr_base r)" "\<not> mr_base r \<le> cursor" by blast
    then show ?thesis
    proof cases
      case skip
      with Some Cons.prems Cons.IH [of nb0 ce0] show ?thesis by auto
    next
      case covers
      with Some Cons.prems have "scan_reserved rs cursor end_addr (nb0, max ce0 (min re end_addr)) = (nb, ce)"
        by simp
      moreover have "max (max ce0 (min re end_addr)) end_addr = max ce0 end_addr"
        by (auto simp: max_def min_def)
      ultimately show ?thesis using Cons.IH [of nb0 "max ce0 (min re end_addr)"] covers Some by auto
    next
      case above
      with Some Cons.prems have "scan_reserved rs cursor end_addr (min nb0 (mr_base r), ce0) = (nb, ce)"
        by simp
      from Cons.IH [OF this] above Some show ?thesis by auto
    qed
  qed
qed

text \<open>The state of the loop of \<open>add_available\<close> for one region.\<close>

definition cursor_ok :: "memory_region \<Rightarrow> u64 \<Rightarrow> u64 \<Rightarrow> bool" where
  "cursor_ok region end_addr cursor \<longleftrightarrow>
     4096 dvd unat cursor \<and> 4096 dvd unat end_addr \<and> 0x100000 \<le> unat cursor \<and>
     unat cursor \<le> unat end_addr \<and> unat end_addr \<le> 2 ^ 64 - 4096 \<and>
     unat (mr_base region) \<le> unat cursor \<and>
     unat end_addr \<le> unat (mr_base region) + unat (mr_length region)"

lemma dvd_step: "4096 dvd a \<Longrightarrow> 4096 dvd b \<Longrightarrow> a < b \<Longrightarrow> a + 4096 \<le> b" for a b :: nat
  by (auto elim!: dvdE)

lemma align_up_le:
  assumes "v \<le> w" "4096 dvd unat w" "unat w \<le> 2 ^ 64 - 4096"
  shows "4096 dvd unat (align_up v)" "unat v \<le> unat (align_up v)" "unat (align_up v) \<le> unat w"
proof -
  have le: "unat v \<le> unat w" using assms(1) by (simp add: word_le_nat_alt)
  then have eq: "unat (align_up v) = (unat v + 4095) div 4096 * 4096"
    using assms(3) by (intro unat_align_up) simp
  then show "4096 dvd unat (align_up v)" "unat v \<le> unat (align_up v)" by simp_all
  obtain k where "unat w = 4096 * k" using assms(2) by (elim dvdE)
  with eq le show "unat (align_up v) \<le> unat w" by simp
qed

lemma free_range_ok:
  assumes c: "cursor_ok region end_addr cursor" "cursor < end_addr" "region \<in> set regions"
    and scan: "scan_reserved reserved cursor end_addr (end_addr, cursor) = (nb, ce)" "\<not> cursor < ce"
    and av: "cursor < page_floor (min nb end_addr)"
  shows "range_ok regions reserved
    \<lparr>rg_start = cursor, rg_pages = (page_floor (min nb end_addr) - cursor) div FRAME_SIZE\<rparr>"
proof -
  let ?av = "page_floor (min nb end_addr)"
  note s = scan_reserved_spec [OF scan(1)]
  have nb: "nb \<le> end_addr" using s by simp
  then have av_eq: "unat ?av = unat nb div 4096 * 4096" by (simp add: unat_page_floor min_def)
  have le: "unat ?av \<le> unat nb" unfolding av_eq by simp
  have dvd: "4096 dvd unat ?av - unat cursor"
    using c(1) by (intro dvd_diff_nat) (simp_all add: av_eq cursor_ok_def)
  have pages: "unat ((?av - cursor) div FRAME_SIZE) = (unat ?av - unat cursor) div 4096"
    using av by (simp add: unat_div unat_sub_le FRAME_SIZE_def)
  have total: "unat ((?av - cursor) div FRAME_SIZE) * 4096 = unat ?av - unat cursor"
    unfolding pages using dvd by simp
  have lt: "unat cursor < unat ?av" using av by (simp add: word_less_nat_alt)
  have "page_ok regions reserved (unat cursor + k * 4096)"
    if k: "k < unat ((?av - cursor) div FRAME_SIZE)" for k
  proof -
    have "(k + 1) * 4096 \<le> unat ((?av - cursor) div FRAME_SIZE) * 4096"
      using k by (intro mult_le_mono1) simp
    then have top: "unat cursor + k * 4096 + 4096 \<le> unat ?av" using total lt by simp
    have "unat cursor + k * 4096 + 4096 \<le> unat (mr_base region) + unat (mr_length region)"
      using top le nb c(1) by (simp add: cursor_ok_def word_le_nat_alt)
    moreover have "unat cursor + k * 4096 + 4096 \<le> unat (mr_base r) \<or>
        unat (mr_base r) + unat (mr_length r) \<le> unat cursor + k * 4096"
      if r: "r \<in> set reserved" "unat (mr_base r) + unat (mr_length r) < 2 ^ 64" for r
    proof -
      obtain re where re: "checked_add (mr_base r) (mr_length r) = Some re"
        using r(2) checked_add_None_iff [of "mr_base r" "mr_length r"]
        by (cases "checked_add (mr_base r) (mr_length r)") auto
      then have ure: "unat re = unat (mr_base r) + unat (mr_length r)" by (simp add: checked_add_Some_iff)
      consider "re \<le> cursor" | "end_addr \<le> mr_base r" | "cursor < re" "mr_base r < end_addr"
        by fastforce
      then show ?thesis
      proof cases
        case 1
        then show ?thesis using ure by (simp add: word_le_nat_alt)
      next
        case 2
        then show ?thesis using top le nb by (simp add: word_le_nat_alt)
      next
        case 3
        have "if mr_base r \<le> cursor then min re end_addr \<le> ce else nb \<le> mr_base r"
          using s r(1) re 3 by blast
        moreover have "\<not> min re end_addr \<le> ce"
          using 3(1) c(2) scan(2) by (auto simp: min_def)
        ultimately show ?thesis using top le by (auto simp: word_le_nat_alt split: if_splits)
      qed
    qed
    ultimately show ?thesis
      using c(1,3) by (auto simp: page_ok_def cursor_ok_def intro!: bexI [of _ region])
  qed
  with total lt le nb c(1) show ?thesis
    by (simp add: range_ok_def cursor_ok_def word_le_nat_alt)
qed

lemma add_body_spec:
  assumes inv: "fa_inv regions reserved st" and c: "cursor_ok region end_addr cursor" "cursor < end_addr"
    and r: "region \<in> set regions" and b: "add_body reserved end_addr cursor st = (cursor', st')"
  shows "fa_inv regions reserved st' \<and> cursor_ok region end_addr cursor' \<and> cursor < cursor'"
proof -
  obtain nb ce where scan: "scan_reserved reserved cursor end_addr (end_addr, cursor) = (nb, ce)" by fastforce
  note s = scan_reserved_spec [OF scan]
  have e: "4096 dvd unat end_addr" "unat end_addr \<le> 2 ^ 64 - 4096" using c(1) by (simp_all add: cursor_ok_def)
  show ?thesis
  proof (cases "cursor < ce")
    case True
    with b scan have b': "cursor' = align_up ce" "st' = st" by (simp_all add: add_body_def)
    have "ce \<le> end_addr" using s c(2) by (simp add: max_def split: if_splits)
    note a = align_up_le [OF this e]
    from a True inv c(1) b' show ?thesis by (auto simp: cursor_ok_def word_less_nat_alt)
  next
    case False
    let ?av = "page_floor (min nb end_addr)"
    have b': "cursor' = align_up (max ?av (saturating_add cursor FRAME_SIZE))"
        "st' = (if ?av > cursor then push_range cursor ((?av - cursor) div FRAME_SIZE) st else st)"
      using b scan False by (simp_all add: add_body_def Let_def)
    have inv': "fa_inv regions reserved st'"
      unfolding b'(2) using inv free_range_ok [OF c r scan False] push_range_inv by simp
    have step: "unat cursor + 4096 \<le> unat end_addr"
      using c by (intro dvd_step) (simp_all add: cursor_ok_def word_less_nat_alt)
    have sat: "unat (saturating_add cursor FRAME_SIZE) = unat cursor + 4096"
      using step e(2) by (simp add: unat_saturating_add FRAME_SIZE_def)
    have "unat ?av \<le> unat (min nb end_addr)" unfolding unat_page_floor by simp
    then have "?av \<le> end_addr" by (simp add: word_le_nat_alt min_def split: if_splits)
    moreover have "saturating_add cursor FRAME_SIZE \<le> end_addr"
      using sat step by (simp add: word_le_nat_alt)
    ultimately have "max ?av (saturating_add cursor FRAME_SIZE) \<le> end_addr" by simp
    note a = align_up_le [OF this e]
    have "unat cursor < unat (max ?av (saturating_add cursor FRAME_SIZE))"
      using sat by (simp add: max_def word_le_nat_alt)
    with a c(1) inv' show ?thesis unfolding b'(1) by (auto simp: cursor_ok_def word_less_nat_alt)
  qed
qed

lemma push_range_cursor [simp]:
  "fa_next_frame (push_range a b st) = fa_next_frame st"
  "fa_next_range (push_range a b st) = fa_next_range st"
  "fa_returned_count (push_range a b st) = fa_returned_count st"
  "fa_returned (push_range a b st) = fa_returned st"
  by (simp_all add: push_range_def Let_def)

text \<open>Adding ranges does not touch the allocation state.\<close>

definition same_cursor :: "frame_allocator \<Rightarrow> frame_allocator \<Rightarrow> bool" where
  "same_cursor st st' \<longleftrightarrow> fa_next_frame st' = fa_next_frame st \<and> fa_next_range st' = fa_next_range st \<and>
     fa_returned_count st' = fa_returned_count st \<and> fa_returned st' = fa_returned st"

lemma add_body_cursor: "add_body rs e c st = (c', st') \<Longrightarrow> same_cursor st st'"
  by (auto simp: add_body_def Let_def same_cursor_def split: prod.splits if_splits)

lemma add_loop_spec:
  assumes "fa_inv regions reserved st" "cursor_ok region end_addr cursor" "region \<in> set regions"
  shows "\<exists>st'. add_loop reserved end_addr cursor st = Some st' \<and> fa_inv regions reserved st' \<and>
    same_cursor st st'"
  using assms
proof (induction "unat end_addr - unat cursor" arbitrary: cursor st rule: less_induct)
  case less
  show ?case
  proof (cases "cursor < end_addr")
    case False
    then show ?thesis using less.prems by (subst add_loop.simps) (simp add: same_cursor_def)
  next
    case True
    obtain cursor' st' where b: "add_body reserved end_addr cursor st = (cursor', st')" by fastforce
    note s = add_body_spec [OF less.prems(1,2) True less.prems(3) b]
    then have "unat end_addr - unat cursor' < unat end_addr - unat cursor"
      using True by (auto simp: word_less_nat_alt intro: diff_less_mono2)
    from less.hyps [OF this] s less.prems(3) obtain st'' where
      "add_loop reserved end_addr cursor' st' = Some st''" "fa_inv regions reserved st''"
      "same_cursor st' st''" by blast
    then show ?thesis
      using True b add_body_cursor [OF b] by (subst add_loop.simps) (simp add: same_cursor_def)
  qed
qed

lemma add_available_spec:
  assumes inv: "fa_inv regions reserved st" and r: "region \<in> set regions"
  shows "\<exists>st'. add_available region reserved st = Some st' \<and> fa_inv regions reserved st' \<and>
    same_cursor st st'"
proof (cases "checked_add (mr_base region) (mr_length region)")
  case None
  with inv show ?thesis by (simp add: add_available_def fa_inv_def same_cursor_def)
next
  case (Some e)
  let ?start = "max (mr_base region) MIN_FRAME"
  show ?thesis
  proof (cases "?start \<ge> e \<or> align_up ?start \<ge> page_floor e")
    case True
    with Some inv show ?thesis by (auto simp: add_available_def Let_def same_cursor_def)
  next
    case False
    have e: "unat e = unat (mr_base region) + unat (mr_length region)"
      using Some by (simp add: checked_add_Some_iff)
    have pf: "unat (page_floor e) \<le> unat e" "4096 dvd unat (page_floor e)"
      unfolding unat_page_floor by simp_all
    moreover have "unat e < 2 ^ 64" using unsigned_less [of e] by simp
    ultimately have top: "unat (page_floor e) \<le> 2 ^ 64 - 4096" by (auto elim!: dvdE)
    have "?start \<le> page_floor e"
    proof (rule ccontr)
      assume n: "\<not> ?start \<le> page_floor e"
      then have lt: "unat (page_floor e) < unat ?start" by (simp add: word_le_nat_alt)
      have st: "unat ?start < unat e" using False by (simp add: word_le_nat_alt)
      have "page_floor e \<le> align_up ?start"
      proof (cases "unat ?start \<le> 2 ^ 64 - 4096")
        case True
        from unat_align_up [OF this] have "unat ?start \<le> unat (align_up ?start)" by simp
        with lt show ?thesis by (simp add: word_le_nat_alt)
      next
        case big: False
        have f: "unat (FRAME_SIZE - 1) = 4095" by (simp add: FRAME_SIZE_def)
        have "checked_add ?start (FRAME_SIZE - 1) = None"
          using big by (simp add: checked_add_None_iff f)
        then have "align_up ?start = NOT (FRAME_SIZE - 1)" by (simp add: align_up_def)
        then have "unat (align_up ?start) = 2 ^ 64 - 4096" by (simp add: FRAME_SIZE_def)
        with top show ?thesis by (simp add: word_le_nat_alt)
      qed
      with False show False by simp
    qed
    note a = align_up_le [OF this pf(2) top]
    have "0x100000 \<le> unat ?start" "unat (mr_base region) \<le> unat ?start"
      by (simp_all add: MIN_FRAME_def max_def word_le_nat_alt)
    with a pf e top have "cursor_ok region (page_floor e) (align_up ?start)"
      by (simp add: cursor_ok_def)
    from add_loop_spec [OF inv this r] Some False show ?thesis by (simp add: add_available_def Let_def)
  qed
qed

lemma add_regions_spec:
  assumes "fa_inv regions reserved st" "set rs \<subseteq> set regions"
  shows "\<exists>st'. add_regions rs reserved st = Some st' \<and> fa_inv regions reserved st' \<and> same_cursor st st'"
  using assms
proof (induction rs arbitrary: st)
  case Nil
  then show ?case by (simp add: same_cursor_def)
next
  case (Cons r rs)
  then obtain st1 where a: "add_available r reserved st = Some st1" "fa_inv regions reserved st1"
      "same_cursor st st1"
    using add_available_spec [of regions reserved st r] by auto
  from Cons.IH [OF a(2)] Cons.prems(2) obtain st2 where "add_regions rs reserved st1 = Some st2"
      "fa_inv regions reserved st2" "same_cursor st1 st2" by auto
  with a show ?case by (simp add: same_cursor_def)
qed


lemma memory_init_spec:
  assumes "length (fa_ranges st0) = MAX_RANGES"
  shows "\<exists>summary st. memory_init info st0 = Some (summary, st) \<and>
    fa_inv (take (bm_memory_len info) (bm_memory info)) (take (bm_reserved_len info) (bm_reserved info)) st \<and>
    fa_next_frame st = 0 \<and> fa_next_range st = 0 \<and> fa_returned_count st = 0 \<and> fa_returned st = fa_returned st0"
proof -
  let ?R = "take (bm_memory_len info) (bm_memory info)"
  let ?X = "take (bm_reserved_len info) (bm_reserved info)"
  let ?st = "st0\<lparr>fa_range_count := 0, fa_next_range := 0, fa_next_frame := 0, fa_usable_pages := 0,
     fa_allocated_frames := 0, fa_skipped_ranges := 0, fa_returned_count := 0\<rparr>"
  have "fa_inv ?R ?X ?st" using assms by (simp add: fa_inv_def)
  from add_regions_spec [OF this subset_refl] obtain st where
    "add_regions ?R ?X ?st = Some st" "fa_inv ?R ?X st" "same_cursor ?st st" by blast
  then show ?thesis by (auto simp: memory_init_def Let_def same_cursor_def)
qed

section \<open>Allocation\<close>

definition frame_ok :: "memory_region list \<Rightarrow> memory_region list \<Rightarrow> u64 \<Rightarrow> bool" where
  "frame_ok regions reserved f \<longleftrightarrow>
     4096 dvd unat f \<and> 0x100000 \<le> unat f \<and> page_ok regions reserved (unat f)"

definition bump_ok :: "frame_allocator \<Rightarrow> bool" where
  "bump_ok st \<longleftrightarrow> 4096 dvd unat (fa_next_frame st) \<and> unat (fa_next_frame st) \<le> 2 ^ 64 - 4096"

lemma frame_in_range:
  assumes r: "range_ok regions reserved r" and f: "4096 dvd unat f" "rg_start r \<le> f" "f < range_end r"
  shows "frame_ok regions reserved f" "unat f + 4096 \<le> 2 ^ 64 - 4096"
proof -
  note e = unat_range_end [OF r]
  have d: "4096 dvd unat (rg_start r)" using r by (simp add: range_ok_def)
  have le: "unat (rg_start r) \<le> unat f" using f(2) by (simp add: word_le_nat_alt)
  obtain k where k: "unat f - unat (rg_start r) = 4096 * k"
    using dvd_diff_nat [OF f(1) d] by (elim dvdE)
  with le have uf: "unat f = unat (rg_start r) + k * 4096" by simp
  have "unat f < unat (range_end r)" using f(3) by (simp add: word_less_nat_alt)
  with e uf have kp: "k < unat (rg_pages r)" by simp
  then show "frame_ok regions reserved f"
    using r uf f(1) le by (simp add: range_ok_def frame_ok_def)
  have "(k + 1) * 4096 \<le> unat (rg_pages r) * 4096" using kp by (intro mult_le_mono1) simp
  then show "unat f + 4096 \<le> 2 ^ 64 - 4096" using r uf by (simp add: range_ok_def)
qed

lemma alloc_loop_spec:
  assumes "fa_inv regions reserved st" "bump_ok st"
    and "left = 0 \<or> fa_next_range st + left \<le> fa_range_count st"
    and "alloc_loop left st = (res, st')"
  shows "fa_inv regions reserved st' \<and> bump_ok st' \<and> unat (fa_next_frame st) \<le> unat (fa_next_frame st') \<and>
    fa_returned st' = fa_returned st \<and> fa_returned_count st' = fa_returned_count st \<and>
    (\<forall>f. res = Some f \<longrightarrow> frame_ok regions reserved f \<and> unat (fa_next_frame st) \<le> unat f \<and>
       unat f < unat (fa_next_frame st'))"
  using assms
proof (induction left arbitrary: st)
  case 0
  then show ?case by simp
next
  case (Suc n)
  let ?r = "fa_ranges st ! fa_next_range st"
  define st1 where "st1 = (if fa_next_frame st = 0 \<or> fa_next_frame st < rg_start ?r
    then st\<lparr>fa_next_frame := rg_start ?r\<rparr> else st)"
  define f where "f = fa_next_frame st1"
  have r: "range_ok regions reserved ?r" using Suc.prems(1,3) by (simp add: fa_inv_def)
  have start: "4096 dvd unat (rg_start ?r)" "unat (rg_start ?r) \<le> 2 ^ 64 - 4096"
    using r by (simp_all add: range_ok_def)
  have f: "4096 dvd unat f" "unat f \<le> 2 ^ 64 - 4096" "rg_start ?r \<le> f"
      "unat (fa_next_frame st) \<le> unat f"
    using start Suc.prems(2) by (auto simp: f_def st1_def bump_ok_def word_less_nat_alt word_le_nat_alt)
  have inv: "fa_inv regions reserved st1" using Suc.prems(1) by (simp add: fa_inv_def st1_def)
  have same: "fa_returned st1 = fa_returned st" "fa_returned_count st1 = fa_returned_count st"
      "fa_next_range st1 = fa_next_range st" "fa_range_count st1 = fa_range_count st"
    by (simp_all add: st1_def)
  have eq: "alloc_loop (Suc n) st =
      (if f < range_end ?r
       then (Some f, st1\<lparr>fa_next_frame := f + FRAME_SIZE,
         fa_allocated_frames := saturating_add (fa_allocated_frames st1) 1\<rparr>)
       else alloc_loop n (st1\<lparr>fa_next_range := fa_next_range st1 + 1\<rparr>))"
    by (simp only: alloc_loop.simps Let_def st1_def f_def)
  show ?case
  proof (cases "f < range_end ?r")
    case True
    note fr = frame_in_range [OF r f(1) f(3) True]
    have next_frame: "unat (f + FRAME_SIZE) = unat f + 4096"
      using fr(2) by (subst unat_add_exact) (simp_all add: FRAME_SIZE_def)
    have res: "res = Some f" and st': "st' = st1\<lparr>fa_next_frame := f + FRAME_SIZE,
         fa_allocated_frames := saturating_add (fa_allocated_frames st1) 1\<rparr>"
      using Suc.prems(4) eq True by simp_all
    show ?thesis
      using res next_frame fr f inv same by (simp add: st' bump_ok_def fa_inv_def)
  next
    case False
    let ?st2 = "st1\<lparr>fa_next_range := fa_next_range st1 + 1\<rparr>"
    have run: "alloc_loop n ?st2 = (res, st')" using Suc.prems(4) eq False by simp
    have inv2: "fa_inv regions reserved ?st2" using inv by (simp add: fa_inv_def)
    have bump: "bump_ok ?st2" using f by (simp add: bump_ok_def f_def)
    have n: "n = 0 \<or> fa_next_range ?st2 + n \<le> fa_range_count ?st2" using Suc.prems(3) same by simp
    from Suc.IH [OF inv2 bump n run] f(4) same show ?thesis by (auto simp: f_def)
  qed
qed

text \<open>
  The allocator with the set of frames its clients hold.  A client frees only frames it holds; a
  frame whose return is refused is lost.
\<close>

type_synonym frame_system = "frame_allocator \<times> u64 set"

inductive frame_step :: "frame_system \<Rightarrow> frame_system \<Rightarrow> bool" where
  fs_alloc: "alloc_frame st = (Some f, st') \<Longrightarrow> frame_step (st, H) (st', insert f H)"
| fs_exhausted: "alloc_frame st = (None, st') \<Longrightarrow> frame_step (st, H) (st', H)"
| fs_free: "f \<in> H \<Longrightarrow> free_frame f st = (ok, st') \<Longrightarrow> frame_step (st, H) (st', H - {f})"

definition returned_frames :: "frame_allocator \<Rightarrow> u64 list" where
  "returned_frames st = take (fa_returned_count st) (fa_returned st)"

definition frame_sys_inv :: "memory_region list \<Rightarrow> memory_region list \<Rightarrow> frame_system \<Rightarrow> bool" where
  "frame_sys_inv regions reserved s \<longleftrightarrow>
     (case s of (st, H) \<Rightarrow>
        fa_inv regions reserved st \<and> bump_ok st \<and>
        length (fa_returned st) = MAX_RETURNED_FRAMES \<and> fa_returned_count st \<le> MAX_RETURNED_FRAMES \<and>
        distinct (returned_frames st) \<and> set (returned_frames st) \<inter> H = {} \<and>
        (\<forall>f\<in>H \<union> set (returned_frames st).
           frame_ok regions reserved f \<and> unat f < unat (fa_next_frame st)))"

lemma alloc_frame_spec:
  assumes inv: "frame_sys_inv regions reserved (st, H)" and a: "alloc_frame st = (res, st')"
  shows "frame_sys_inv regions reserved (st', case res of None \<Rightarrow> H | Some f \<Rightarrow> insert f H) \<and>
    (\<forall>f. res = Some f \<longrightarrow> f \<notin> H \<and> frame_ok regions reserved f)"
proof (cases "fa_returned_count st = 0")
  case False
  let ?n = "fa_returned_count st - 1"
  have n: "?n < length (fa_returned st)" "fa_returned_count st = Suc ?n"
    using inv False by (auto simp: frame_sys_inv_def)
  have st': "st' = st\<lparr>fa_returned_count := ?n\<rparr>" "res = Some (fa_returned st ! ?n)"
    using a False by (simp_all add: alloc_frame_def Let_def)
  have ret: "returned_frames st = returned_frames st' @ [fa_returned st ! ?n]"
    unfolding returned_frames_def st' using n take_Suc_conv_app_nth [of ?n "fa_returned st"] by simp
  have "fa_inv regions reserved st'" "bump_ok st'" "fa_returned st' = fa_returned st"
      "fa_next_frame st' = fa_next_frame st" "fa_returned_count st' \<le> MAX_RETURNED_FRAMES"
    using inv by (auto simp: frame_sys_inv_def st' fa_inv_def bump_ok_def)
  with inv ret st'(2) show ?thesis by (auto simp: frame_sys_inv_def)
next
  case True
  then have a': "alloc_loop (fa_range_count st - fa_next_range st) st = (res, st')"
    using a by (simp add: alloc_frame_def)
  have i: "fa_inv regions reserved st" "bump_ok st" using inv by (simp_all add: frame_sys_inv_def)
  have left: "fa_range_count st - fa_next_range st = 0 \<or>
      fa_next_range st + (fa_range_count st - fa_next_range st) \<le> fa_range_count st" by auto
  note l = alloc_loop_spec [OF i left a']
  have "returned_frames st = []" "returned_frames st' = []"
    using True l by (simp_all add: returned_frames_def)
  with inv l show ?thesis
    by (cases res) (fastforce simp: frame_sys_inv_def)+
qed

lemma free_frame_inv:
  assumes inv: "frame_sys_inv regions reserved (st, H)" and f: "f \<in> H" and a: "free_frame f st = (ok, st')"
  shows "frame_sys_inv regions reserved (st', H - {f})"
proof (cases ok)
  case False
  then have "st' = st" using a by (auto simp: free_frame_def split: if_splits)
  with inv show ?thesis by (auto simp: frame_sys_inv_def)
next
  case True
  then have st': "st' = st\<lparr>fa_returned := (fa_returned st)[fa_returned_count st := f],
      fa_returned_count := fa_returned_count st + 1\<rparr>" and n: "fa_returned_count st \<noteq> MAX_RETURNED_FRAMES"
    using a by (auto simp: free_frame_def split: if_splits)
  have lt: "fa_returned_count st < length (fa_returned st)" using inv n by (simp add: frame_sys_inv_def)
  have "returned_frames st' = returned_frames st @ [f]"
    using lt by (simp add: returned_frames_def st' take_Suc_conv_app_nth)
  moreover have "fa_inv regions reserved st'" "bump_ok st'" "fa_next_frame st' = fa_next_frame st"
      "length (fa_returned st') = MAX_RETURNED_FRAMES" "fa_returned_count st' \<le> MAX_RETURNED_FRAMES"
    using inv lt by (auto simp: frame_sys_inv_def st' fa_inv_def bump_ok_def)
  ultimately show ?thesis using inv f by (auto simp: frame_sys_inv_def)
qed

lemma frame_step_inv: "frame_step s s' \<Longrightarrow> frame_sys_inv regions reserved s \<Longrightarrow> frame_sys_inv regions reserved s'"
proof (induction rule: frame_step.induct)
  case (fs_alloc st f st' H)
  from alloc_frame_spec [OF fs_alloc(2,1)] show ?case by simp
next
  case (fs_exhausted st st' H)
  from alloc_frame_spec [OF fs_exhausted(2,1)] show ?case by simp
next
  case (fs_free f H st ok st')
  from free_frame_inv [OF fs_free(3,1,2)] show ?case .
qed

definition booted :: "boot_memory \<Rightarrow> frame_system \<Rightarrow> bool" where
  "booted info s \<longleftrightarrow> map_option snd (memory_init info frame_allocator_static) = Some (fst s) \<and> snd s = {}"

definition boot_regions :: "boot_memory \<Rightarrow> memory_region list" where
  "boot_regions info = take (bm_memory_len info) (bm_memory info)"

definition boot_reserved :: "boot_memory \<Rightarrow> memory_region list" where
  "boot_reserved info = take (bm_reserved_len info) (bm_reserved info)"

lemma static_length: "length (fa_ranges frame_allocator_static) = MAX_RANGES"
    "length (fa_returned frame_allocator_static) = MAX_RETURNED_FRAMES"
  by (simp_all add: frame_allocator_static_def)

lemma booted_inv:
  assumes "booted info s"
  shows "frame_sys_inv (boot_regions info) (boot_reserved info) s"
proof -
  obtain st where s: "s = (st, {})" using assms by (cases s) (auto simp: booted_def)
  from memory_init_spec [OF static_length(1), of info] assms
  have "fa_inv (boot_regions info) (boot_reserved info) st" "fa_next_frame st = 0"
    "fa_returned_count st = 0" "fa_returned st = fa_returned frame_allocator_static"
    by (auto simp: booted_def s boot_regions_def boot_reserved_def)
  then show ?thesis
    by (simp add: s frame_sys_inv_def bump_ok_def returned_frames_def static_length)
qed

interpretation framesys: step_invariant "booted info" frame_step
    "frame_sys_inv (boot_regions info) (boot_reserved info)" for info
  by unfold_locales (blast intro: booted_inv frame_step_inv)+

section \<open>Properties\<close>

text \<open>
  Claim C38.  The construction of the memory ranges ends for every memory map, however the regions
  and the reserved regions lie, overlap or overflow.
\<close>

theorem memory_init_returns:
  "\<exists>summary st. memory_init info frame_allocator_static = Some (summary, st) \<and>
     fa_range_count st \<le> MAX_RANGES"
  using memory_init_spec [OF static_length(1), of info] by (auto simp: fa_inv_def)

text \<open>
  Claim C3.  As long as clients free only frames they hold, the allocator never hands out a frame
  that is held.  A frame it hands out is page aligned, lies at or above 1 MiB, inside a region of
  the memory map, and overlaps no reserved region (a reserved region whose end overflows is
  ignored by the code).
\<close>

theorem allocated_frames_exclusive:
  assumes "reachable (booted info) frame_step (st, H)" "alloc_frame st = (Some f, st')"
  shows "f \<notin> H \<and> 4096 dvd unat f \<and> 0x100000 \<le> unat f \<and>
    (\<exists>r\<in>set (boot_regions info). unat (mr_base r) \<le> unat f \<and>
       unat f + 4096 \<le> unat (mr_base r) + unat (mr_length r)) \<and>
    (\<forall>r\<in>set (boot_reserved info). unat (mr_base r) + unat (mr_length r) < 2 ^ 64 \<longrightarrow>
       unat f + 4096 \<le> unat (mr_base r) \<or> unat (mr_base r) + unat (mr_length r) \<le> unat f)"
proof -
  have "frame_sys_inv (boot_regions info) (boot_reserved info) (st, H)"
    by (rule framesys.reachable_inv [OF assms(1)])
  from alloc_frame_spec [OF this assms(2)] show ?thesis
    by (auto simp: frame_ok_def page_ok_def)
qed

definition demo_boot_memory :: boot_memory where
  "demo_boot_memory = \<lparr>bm_memory = [\<lparr>mr_base = 0x100000, mr_length = 0x4000\<rparr>], bm_memory_len = 1,
     bm_reserved = [\<lparr>mr_base = 0x100000, mr_length = 0x1800\<rparr>], bm_reserved_len = 1\<rparr>"

lemma demo_add_loop:
  "add_loop [\<lparr>mr_base = 0x100000, mr_length = 0x1800\<rparr>] 0x104000 0x100000 st = Some (push_range 0x102000 2 st)"
proof -
  let ?X = "[\<lparr>mr_base = 0x100000, mr_length = 0x1800\<rparr>]"
  have b1: "add_body ?X 0x104000 0x100000 st = (0x102000, st)"
    by (simp add: add_body_def checked_add_def align_up_def FRAME_SIZE_def)
  have b2: "add_body ?X 0x104000 0x102000 st = (0x104000, push_range 0x102000 2 st)"
    by (simp add: add_body_def checked_add_def align_up_def FRAME_SIZE_def page_floor_def saturating_add_def)
  show ?thesis
    by (subst add_loop.simps, simp add: b1, subst add_loop.simps, simp add: b2, subst add_loop.simps, simp)
qed

lemma demo_alloc:
  assumes "memory_init demo_boot_memory frame_allocator_static = Some (summary, st)"
  shows "\<exists>st'. alloc_frame st = (Some 0x102000, st')"
proof -
  let ?st0 = "frame_allocator_static\<lparr>fa_range_count := 0, fa_next_range := 0, fa_next_frame := 0,
    fa_usable_pages := 0, fa_allocated_frames := 0, fa_skipped_ranges := 0, fa_returned_count := 0\<rparr>"
  have "st = push_range 0x102000 2 ?st0"
    using assms
    by (simp add: memory_init_def Let_def demo_boot_memory_def add_available_def checked_add_def
        align_up_def page_floor_def FRAME_SIZE_def MIN_FRAME_def demo_add_loop)
  then have st: "fa_ranges st ! 0 = \<lparr>rg_start = 0x102000, rg_pages = 2\<rparr>" "fa_range_count st = Suc 0"
      "fa_next_range st = 0" "fa_next_frame st = 0" "fa_returned_count st = 0"
    by (simp_all add: push_range_def Let_def frame_allocator_static_def kernel_defs upd_replicate_0)
  then show ?thesis
    by (simp add: alloc_frame_def Let_def range_end_def saturating_add_def saturating_mul_def FRAME_SIZE_def)
qed

theorem allocated_frames_exclusive_witness:
  "\<exists>st st'. reachable (booted demo_boot_memory) frame_step (st, {}) \<and>
     alloc_frame st = (Some 0x102000, st') \<and> 4096 dvd unat (0x102000 :: u64)"
proof -
  obtain summary st where m: "memory_init demo_boot_memory frame_allocator_static = Some (summary, st)"
    using memory_init_spec [OF static_length(1), of demo_boot_memory] by blast
  then have b: "reachable (booted demo_boot_memory) frame_step (st, {})"
    by (intro reach_init) (simp add: booted_def)
  obtain st' where a: "alloc_frame st = (Some 0x102000, st')"
    using demo_alloc [OF m] by blast
  from allocated_frames_exclusive [OF b a] a b show ?thesis by blast
qed

end
