(* ===== verification/Elf.thy ===== *)
theory Elf
  imports Frame_Allocator
begin

unbundle bit_operations_syntax

text \<open>
  The ELF loader's front end (\<open>src/elf.rs\<close>): the parser that turns an image into a load plan, the
  choice of the interpreter and the construction of the initial stack.  An image is a list of
  bytes; addresses are 64-bit words and indices into the image are natural numbers.  The machine
  is x86_64.
\<close>

definition ELF_HEADER_SIZE :: nat where [kernel_defs]: "ELF_HEADER_SIZE = 64"
definition PROGRAM_HEADER_SIZE :: nat where [kernel_defs]: "PROGRAM_HEADER_SIZE = 56"
definition MAX_LOAD_SEGMENTS :: nat where [kernel_defs]: "MAX_LOAD_SEGMENTS = 8"
definition MAX_LOAD_PAGES :: usize where [kernel_defs]: "MAX_LOAD_PAGES = 256"
definition MAX_ARGUMENTS :: nat where [kernel_defs]: "MAX_ARGUMENTS = 16"
definition MAX_ENVIRONMENT :: nat where [kernel_defs]: "MAX_ENVIRONMENT = 16"
definition MAX_STACK_WORDS :: nat where [kernel_defs]: "MAX_STACK_WORDS = 64"
definition MAX_STACK_BYTES :: nat where [kernel_defs]: "MAX_STACK_BYTES = 4096"
definition ET_EXEC :: u16 where [kernel_defs]: "ET_EXEC = 2"
definition ET_DYN :: u16 where [kernel_defs]: "ET_DYN = 3"
definition PT_LOAD :: u32 where [kernel_defs]: "PT_LOAD = 1"
definition PT_INTERP :: u32 where [kernel_defs]: "PT_INTERP = 3"
definition PF_X :: u32 where [kernel_defs]: "PF_X = 1"
definition PF_W :: u32 where [kernel_defs]: "PF_W = 2"
definition EM_X86_64 :: u16 where [kernel_defs]: "EM_X86_64 = 62"
definition EM_AARCH64 :: u16 where [kernel_defs]: "EM_AARCH64 = 183"
definition AT_PAGESZ :: u64 where [kernel_defs]: "AT_PAGESZ = 6"
definition AT_ENTRY :: u64 where [kernel_defs]: "AT_ENTRY = 9"
definition MAX_INTERPRETER :: nat where [kernel_defs]: "MAX_INTERPRETER = 128"

definition PAGE_SIZE :: usize where [kernel_defs]: "PAGE_SIZE = 4096"
definition AS_USER_LIMIT :: usize where [kernel_defs]: "AS_USER_LIMIT = 0x0000800000000000"

datatype elf_machine = M_X86_64 | M_Aarch64

fun machine_value :: "elf_machine \<Rightarrow> u16" where
  "machine_value M_X86_64 = EM_X86_64"
| "machine_value M_Aarch64 = EM_AARCH64"

definition machine_current :: elf_machine where
  "machine_current = M_X86_64"

datatype elf_error =
    El_Truncated | El_BadMagic | El_UnsupportedClass | El_UnsupportedEndian | El_BadVersion
  | El_WrongType | El_WrongMachine | El_BadHeaderSize | El_BadProgramHeaderSize
  | El_ProgramHeaderOverflow | El_TooManySegments | El_NoLoadSegments | El_InvalidAlignment
  | El_InvalidRange | El_FileRangeOverflow | El_FileSizeExceedsMemory | El_SegmentOverlap
  | El_WriteExecute | El_InvalidEntry | El_TooManyStrings | El_InteriorNul | El_InvalidStack
  | El_StackOverflow | El_InterpreterTooLong | El_InvalidInterpreter

record segment_flags =
  sf_readable :: bool
  sf_writable :: bool
  sf_executable :: bool

definition segment_flags_from_raw :: "u32 \<Rightarrow> segment_flags" where
  "segment_flags_from_raw raw =
     \<lparr>sf_readable = (raw AND 4 \<noteq> 0), sf_writable = (raw AND PF_W \<noteq> 0),
      sf_executable = (raw AND PF_X \<noteq> 0)\<rparr>"

record segment_plan =
  sg_virtual_start :: usize
  sg_virtual_end :: usize
  sg_file_offset :: u64
  sg_file_size :: u64
  sg_memory_size :: u64
  sg_zero_fill :: u64
  sg_flags :: segment_flags

record load_plan =
  lp_base :: usize
  lp_entry :: usize
  lp_segment_count :: nat
  lp_total_pages :: usize
  lp_segments :: "segment_plan option list"

section \<open>Reading the image\<close>

fun from_le_bytes :: "u8 list \<Rightarrow> 'l::len word" where
  "from_le_bytes [] = 0"
| "from_le_bytes (b # bs) = ucast b OR push_bit 8 (from_le_bytes bs)"

definition read_le :: "nat \<Rightarrow> u8 list \<Rightarrow> nat \<Rightarrow> elf_error + 'l::len word" where
  "read_le width img offset =
     (if offset + width \<le> length img then Ok (from_le_bytes (take width (drop offset img)))
      else Err El_Truncated)"

definition read_u16 :: "u8 list \<Rightarrow> nat \<Rightarrow> elf_error + u16" where
  "read_u16 = read_le 2"

definition read_u32 :: "u8 list \<Rightarrow> nat \<Rightarrow> elf_error + u32" where
  "read_u32 = read_le 4"

definition read_u64 :: "u8 list \<Rightarrow> nat \<Rightarrow> elf_error + u64" where
  "read_u64 = read_le 8"

definition elf_align_down :: "usize \<Rightarrow> usize \<Rightarrow> usize" where
  "elf_align_down v alignment = v AND NOT (alignment - 1)"

definition elf_align_up :: "usize \<Rightarrow> usize \<Rightarrow> usize option" where
  "elf_align_up v alignment = map_option (\<lambda>v. v AND NOT (alignment - 1)) (checked_add v (alignment - 1))"

section \<open>Parsing\<close>

text \<open>The checks of one loadable program header, up to the plan of its segment.\<close>

definition parse_segment :: "u8 list \<Rightarrow> usize \<Rightarrow> nat \<Rightarrow> elf_error + segment_plan" where
  "parse_segment img load_bias offset =
     and_then (read_u32 img (offset + 4)) (\<lambda>flags_raw.
     and_then (read_u64 img (offset + 8)) (\<lambda>file_offset.
     and_then (read_u64 img (offset + 16)) (\<lambda>virtual_raw.
     and_then (read_u64 img (offset + 32)) (\<lambda>file_size.
     and_then (read_u64 img (offset + 40)) (\<lambda>memory_size.
     and_then (read_u64 img (offset + 48)) (\<lambda>alignment.
     if file_size > memory_size then Err El_FileSizeExceedsMemory
     else if alignment > 1 \<and> \<not> is_power_of_two alignment then Err El_InvalidAlignment
     else if file_offset mod PAGE_SIZE \<noteq> virtual_raw mod PAGE_SIZE then Err El_InvalidAlignment
     else
       and_then (ok_or (checked_add file_offset file_size) El_FileRangeOverflow) (\<lambda>file_end.
       if unat file_end > length img then Err El_FileRangeOverflow
       else
         and_then (ok_or (checked_add load_bias (elf_align_down virtual_raw PAGE_SIZE)) El_InvalidRange)
           (\<lambda>virtual_start.
         and_then (ok_or (checked_add virtual_raw memory_size) El_InvalidRange) (\<lambda>memory_end_raw.
         and_then (ok_or (elf_align_up memory_end_raw PAGE_SIZE) El_InvalidRange) (\<lambda>aligned_end.
         and_then (ok_or (checked_add load_bias aligned_end) El_InvalidRange) (\<lambda>virtual_end.
         if virtual_start < PAGE_SIZE \<or> virtual_start \<ge> virtual_end \<or> virtual_end > AS_USER_LIMIT
         then Err El_InvalidRange
         else
           let flags = segment_flags_from_raw flags_raw in
           if sf_writable flags \<and> sf_executable flags then Err El_WriteExecute
           else
             Ok \<lparr>sg_virtual_start = virtual_start, sg_virtual_end = virtual_end,
                 sg_file_offset = file_offset, sg_file_size = file_size, sg_memory_size = memory_size,
                 sg_zero_fill = memory_size - file_size, sg_flags = flags\<rparr>)))))))))))"

definition segments_overlap :: "segment_plan \<Rightarrow> segment_plan \<Rightarrow> bool" where
  "segments_overlap segment previous \<longleftrightarrow>
     sg_virtual_start segment < sg_virtual_end previous \<and>
     sg_virtual_start previous < sg_virtual_end segment"

text \<open>Entering a segment into the plan.\<close>

definition add_segment :: "segment_plan \<Rightarrow> load_plan \<Rightarrow> elf_error + load_plan" where
  "add_segment segment plan =
     (if list_ex (segments_overlap segment) (flatten (lp_segments plan)) then Err El_SegmentOverlap
      else
        let pages = (sg_virtual_end segment - sg_virtual_start segment) div PAGE_SIZE in
        and_then (ok_or (checked_add (lp_total_pages plan) pages) El_InvalidRange) (\<lambda>total.
        if total > MAX_LOAD_PAGES then Err El_InvalidRange
        else
          Ok (plan\<lparr>lp_total_pages := total,
                   lp_segments := (lp_segments plan)[lp_segment_count plan := Some segment],
                   lp_segment_count := lp_segment_count plan + 1\<rparr>)))"

text \<open>The loop over the program headers; the last number counts the headers left.\<close>

fun parse_headers :: "u8 list \<Rightarrow> usize \<Rightarrow> nat \<Rightarrow> nat \<Rightarrow> load_plan \<Rightarrow> elf_error + load_plan" where
  "parse_headers img load_bias offset 0 plan = Ok plan"
| "parse_headers img load_bias offset (Suc left) plan =
     and_then (read_u32 img offset) (\<lambda>kind.
     if kind \<noteq> PT_LOAD
     then parse_headers img load_bias (offset + PROGRAM_HEADER_SIZE) left plan
     else if lp_segment_count plan = MAX_LOAD_SEGMENTS then Err El_TooManySegments
     else
       and_then (parse_segment img load_bias offset) (\<lambda>segment.
       and_then (add_segment segment plan) (\<lambda>plan.
       parse_headers img load_bias (offset + PROGRAM_HEADER_SIZE) left plan)))"

definition entry_in :: "usize \<Rightarrow> segment_plan \<Rightarrow> bool" where
  "entry_in entry segment \<longleftrightarrow>
     sf_executable (sg_flags segment) \<and> sg_virtual_start segment \<le> entry \<and>
     entry < sg_virtual_end segment"

text \<open>The checks of the ELF header, and the start and number of the program headers.\<close>

definition check_ident :: "u8 list \<Rightarrow> elf_error + unit" where
  "check_ident img =
     (if length img < ELF_HEADER_SIZE then Err El_Truncated
      else if take 4 img \<noteq> [0x7f, 0x45, 0x4c, 0x46] then Err El_BadMagic
      else if img ! 4 \<noteq> 2 then Err El_UnsupportedClass
      else if img ! 5 \<noteq> 1 then Err El_UnsupportedEndian
      else if img ! 6 \<noteq> 1 then Err El_BadVersion
      else Ok ())"

definition check_header :: "u8 list \<Rightarrow> elf_machine \<Rightarrow> usize \<Rightarrow> elf_error + unit" where
  "check_header img machine load_bias =
     and_then (read_u16 img 16) (\<lambda>object_type.
     if object_type \<noteq> ET_EXEC \<and> object_type \<noteq> ET_DYN then Err El_WrongType
     else
       and_then (read_u16 img 18) (\<lambda>m.
       if m \<noteq> machine_value machine then Err El_WrongMachine
       else
         and_then (read_u16 img 52) (\<lambda>hs.
         if unat hs \<noteq> ELF_HEADER_SIZE then Err El_BadHeaderSize
         else
           and_then (read_u16 img 54) (\<lambda>ps.
           if unat ps \<noteq> PROGRAM_HEADER_SIZE then Err El_BadProgramHeaderSize
           else if object_type = ET_EXEC \<and> load_bias \<noteq> 0 then Err El_InvalidRange
           else if object_type = ET_DYN \<and> load_bias = 0 then Err El_InvalidRange
           else if \<not> is_multiple_of load_bias PAGE_SIZE then Err El_InvalidAlignment
           else Ok ()))))"

definition parse :: "u8 list \<Rightarrow> elf_machine \<Rightarrow> usize \<Rightarrow> elf_error + load_plan" where
  "parse img machine load_bias =
     and_then (check_ident img) (\<lambda>_.
     and_then (check_header img machine load_bias) (\<lambda>_.
     and_then (read_u64 img 24) (\<lambda>entry_raw.
     and_then (read_u64 img 32) (\<lambda>program_header_offset.
     and_then (read_u16 img 56) (\<lambda>program_header_count.
     let count = unat program_header_count in
     if count = 0 \<or> count > MAX_LOAD_SEGMENTS * 4 then Err El_TooManySegments
     else
       and_then (ok_or (checked_mul (of_nat count) (of_nat PROGRAM_HEADER_SIZE)) El_ProgramHeaderOverflow)
         (\<lambda>program_header_bytes.
       and_then (ok_or (checked_add program_header_offset program_header_bytes) El_ProgramHeaderOverflow)
         (\<lambda>program_header_end.
       if unat program_header_end > length img then Err El_Truncated
       else
         and_then (ok_or (checked_add load_bias entry_raw) El_InvalidRange) (\<lambda>entry.
         and_then (parse_headers img load_bias (unat program_header_offset) count
             \<lparr>lp_base = load_bias, lp_entry = entry, lp_segment_count = 0, lp_total_pages = 0,
              lp_segments = replicate MAX_LOAD_SEGMENTS None\<rparr>) (\<lambda>plan.
         if lp_segment_count plan = 0 then Err El_NoLoadSegments
         else if \<not> list_ex (entry_in (lp_entry plan)) (flatten (lp_segments plan)) then Err El_InvalidEntry
         else Ok plan)))))))))"

section \<open>Queries of a plan\<close>

definition plan_segment :: "load_plan \<Rightarrow> nat \<Rightarrow> segment_plan option" where
  "plan_segment plan index =
     (if index < length (lp_segments plan) then lp_segments plan ! index else None)"

definition contains_address :: "load_plan \<Rightarrow> usize \<Rightarrow> usize \<Rightarrow> bool" where
  "contains_address plan virtual_address len =
     (case checked_add virtual_address len of
        None \<Rightarrow> False
      | Some end_addr \<Rightarrow>
          list_ex (\<lambda>segment. virtual_address \<ge> sg_virtual_start segment \<and> end_addr \<le> sg_virtual_end segment)
            (flatten (lp_segments plan)))"

definition segment_file_offset :: "usize \<Rightarrow> usize \<Rightarrow> segment_plan \<Rightarrow> usize option" where
  "segment_file_offset virtual_address end_addr segment =
     Option.bind (checked_add (sg_virtual_start segment) (sg_file_size segment)) (\<lambda>file_end.
     if virtual_address < sg_virtual_start segment \<or> end_addr > file_end then None
     else checked_add (sg_file_offset segment) (virtual_address - sg_virtual_start segment))"

fun find_map :: "('a \<Rightarrow> 'b option) \<Rightarrow> 'a list \<Rightarrow> 'b option" where
  "find_map f [] = None"
| "find_map f (x # xs) = (case f x of Some y \<Rightarrow> Some y | None \<Rightarrow> find_map f xs)"

definition plan_file_offset :: "load_plan \<Rightarrow> usize \<Rightarrow> usize \<Rightarrow> usize option" where
  "plan_file_offset plan virtual_address len =
     Option.bind (checked_add virtual_address len) (\<lambda>end_addr.
     find_map (segment_file_offset virtual_address end_addr) (flatten (lp_segments plan)))"

section \<open>The interpreter\<close>

definition validate_interpreter :: "u8 list \<Rightarrow> elf_error + u8 list" where
  "validate_interpreter path =
     (if path = [] \<or> length path > MAX_INTERPRETER \<or> 0 \<in> set path then Err El_InvalidInterpreter
      else Ok path)"

fun interpreter_loop :: "u8 list \<Rightarrow> nat \<Rightarrow> nat \<Rightarrow> elf_error + u8 list option" where
  "interpreter_loop img offset 0 = Ok None"
| "interpreter_loop img offset (Suc left) =
     and_then (read_u32 img offset) (\<lambda>kind.
     if kind \<noteq> PT_INTERP then interpreter_loop img (offset + PROGRAM_HEADER_SIZE) left
     else
       and_then (read_u64 img (offset + 8)) (\<lambda>file_offset.
       and_then (read_u64 img (offset + 32)) (\<lambda>file_size.
       if file_size = 0 \<or> file_size > of_nat MAX_INTERPRETER then Err El_InterpreterTooLong
       else
         and_then (ok_or (checked_add file_offset file_size) El_FileRangeOverflow) (\<lambda>file_end.
         if unat file_end > length img then Err El_FileRangeOverflow
         else
           let bytes = take (unat file_size) (drop (unat file_offset) img) in
           and_then (ok_or (position (\<lambda>byte. byte = 0) bytes) El_InvalidInterpreter) (\<lambda>end_index.
           and_then (validate_interpreter (take end_index bytes)) (\<lambda>path. Ok (Some path)))))))"

definition interpreter :: "u8 list \<Rightarrow> elf_error + u8 list option" where
  "interpreter img =
     (if length img < ELF_HEADER_SIZE then Err El_Truncated
      else
        and_then (read_u64 img 32) (\<lambda>program_header_offset.
        and_then (read_u16 img 56) (\<lambda>program_header_count.
        let count = unat program_header_count in
        and_then (ok_or (checked_mul (of_nat count) (of_nat PROGRAM_HEADER_SIZE)) El_ProgramHeaderOverflow)
          (\<lambda>program_header_bytes.
        and_then (ok_or (checked_add program_header_offset program_header_bytes) El_ProgramHeaderOverflow)
          (\<lambda>end_addr.
        if unat end_addr > length img then Err El_Truncated
        else interpreter_loop img (unat program_header_offset) count)))))"

definition select_interpreter :: "u8 list \<Rightarrow> u8 list option \<Rightarrow> elf_error + u8 list option" where
  "select_interpreter img requested =
     and_then (interpreter img) (\<lambda>found.
     case found of
       Some path \<Rightarrow> Ok (Some path)
     | None \<Rightarrow>
         (case requested of
            None \<Rightarrow> Ok None
          | Some path \<Rightarrow> and_then (validate_interpreter path) (\<lambda>path. Ok (Some path))))"

definition load_bias_for_image :: "u8 list \<Rightarrow> usize \<Rightarrow> usize" where
  "load_bias_for_image img dynamic_bias =
     (if length img \<ge> 18 \<and> from_le_bytes [img ! 16, img ! 17] = ET_EXEC then 0 else dynamic_bias)"

section \<open>The initial stack\<close>

record initial_registers =
  ir_instruction_pointer :: usize
  ir_stack_pointer :: usize
  ir_flags :: u64
  ir_arg0 :: u64
  ir_arg1 :: u64
  ir_arg2 :: u64

record initial_stack =
  is_stack_pointer :: usize
  is_word_count :: nat
  is_words :: "u64 list"
  is_bytes :: "u8 list"
  is_byte_count :: nat

text \<open>The state of string placement: the cursor, the byte image and the byte count.\<close>

record string_area =
  sa_cursor :: usize
  sa_bytes :: "u8 list"
  sa_byte_count :: nat

definition place_string :: "u8 list \<Rightarrow> usize \<Rightarrow> string_area \<Rightarrow> (elf_error + u64) \<times> string_area" where
  "place_string str stack_bottom sa =
     (if 0 \<in> set str then (Err El_InteriorNul, sa)
      else
        let len = length str + 1 in
        if len > unat (sa_cursor sa) then (Err El_StackOverflow, sa)
        else
          let start = sa_cursor sa - of_nat len in
          if start < stack_bottom then (Err El_StackOverflow, sa)
          else
            let offset = unat (start - stack_bottom) in
            (Ok start,
             sa\<lparr>sa_bytes := (write_at offset str (sa_bytes sa))[offset + length str := 0],
                sa_cursor := start, sa_byte_count := sa_byte_count sa + len\<rparr>))"

fun place_strings :: "u8 list list \<Rightarrow> usize \<Rightarrow> string_area \<Rightarrow> (elf_error + u64 list) \<times> string_area" where
  "place_strings [] stack_bottom sa = (Ok [], sa)"
| "place_strings (str # strs) stack_bottom sa =
     try_st (place_string str stack_bottom sa) (\<lambda>pointer sa.
     try_st (place_strings strs stack_bottom sa) (\<lambda>pointers sa.
     (Ok (pointer # pointers), sa)))"

definition initial_stack_build ::
  "usize \<Rightarrow> usize \<Rightarrow> u8 list list \<Rightarrow> u8 list list \<Rightarrow> elf_error + initial_stack" where
  "initial_stack_build entry stack_top arguments environment =
     (if length arguments > MAX_ARGUMENTS \<or> length environment > MAX_ENVIRONMENT then Err El_TooManyStrings
      else if \<not> is_multiple_of stack_top PAGE_SIZE \<or>
         \<not> (of_nat MAX_STACK_BYTES + PAGE_SIZE \<le> stack_top \<and> stack_top \<le> AS_USER_LIMIT)
      then Err El_InvalidStack
      else
        let word_count = 1 + length arguments + 1 + length environment + 1 + 6 in
        if word_count > MAX_STACK_WORDS then Err El_StackOverflow
        else
          let stack_bottom = stack_top - of_nat MAX_STACK_BYTES in
          (case place_strings arguments stack_bottom
                  \<lparr>sa_cursor = stack_top, sa_bytes = replicate MAX_STACK_BYTES 0, sa_byte_count = 0\<rparr> of
             (Inl e, _) \<Rightarrow> Err e
           | (Inr argument_pointers, sa) \<Rightarrow>
               (case place_strings environment stack_bottom sa of
                  (Inl e, _) \<Rightarrow> Err e
                | (Inr environment_pointers, sa) \<Rightarrow>
                    let word_bytes = word_count * 8 in
                    if word_bytes > unat (sa_cursor sa) then Err El_StackOverflow
                    else
                      let stack_pointer = elf_align_down (sa_cursor sa - of_nat word_bytes) 16 in
                      if stack_pointer < stack_bottom then Err El_StackOverflow
                      else
                        Ok \<lparr>is_stack_pointer = stack_pointer, is_word_count = word_count,
                            is_words = write_at 0
                              ([of_nat (length arguments)] @ argument_pointers @ [0] @
                               environment_pointers @ [0] @
                               [AT_PAGESZ, PAGE_SIZE, AT_ENTRY, entry, 0, 0])
                              (replicate MAX_STACK_WORDS 0),
                            is_bytes = sa_bytes sa, is_byte_count = sa_byte_count sa\<rparr>)))"

definition build_initial_stack ::
  "load_plan \<Rightarrow> usize \<Rightarrow> u8 list list \<Rightarrow> u8 list list \<Rightarrow> elf_error + initial_stack" where
  "build_initial_stack plan stack_top arguments environment =
     initial_stack_build (lp_entry plan) stack_top arguments environment"

definition stack_word :: "initial_stack \<Rightarrow> nat \<Rightarrow> u64 option" where
  "stack_word st index = (if index < is_word_count st then Some (is_words st ! index) else None)"

definition string_bytes :: "initial_stack \<Rightarrow> u8 list" where
  "string_bytes st = take (is_byte_count st) (is_bytes st)"

definition stack_words :: "initial_stack \<Rightarrow> u64 list" where
  "stack_words st = take (is_word_count st) (is_words st)"

definition stack_registers :: "initial_stack \<Rightarrow> usize \<Rightarrow> initial_registers" where
  "stack_registers st entry =
     \<lparr>ir_instruction_pointer = entry, ir_stack_pointer = is_stack_pointer st, ir_flags = 0x202,
      ir_arg0 = 0, ir_arg1 = 0, ir_arg2 = 0\<rparr>"

section \<open>What a plan guarantees\<close>

text \<open>
  A segment of a plan: page aligned in user space above the first page, not both writable and
  executable, and backed by a range of the image.
\<close>

definition seg_ok :: "u8 list \<Rightarrow> segment_plan \<Rightarrow> bool" where
  "seg_ok img s \<longleftrightarrow>
     4096 dvd unat (sg_virtual_start s) \<and> 4096 dvd unat (sg_virtual_end s) \<and>
     4096 \<le> unat (sg_virtual_start s) \<and> unat (sg_virtual_start s) < unat (sg_virtual_end s) \<and>
     unat (sg_virtual_end s) \<le> 2 ^ 47 \<and>
     \<not> (sf_writable (sg_flags s) \<and> sf_executable (sg_flags s)) \<and>
     unat (sg_file_offset s) + unat (sg_file_size s) \<le> length img \<and>
     unat (sg_file_size s) \<le> unat (sg_memory_size s) \<and>
     unat (sg_zero_fill s) = unat (sg_memory_size s) - unat (sg_file_size s)"

definition seg_pages :: "segment_plan \<Rightarrow> nat" where
  "seg_pages s = (unat (sg_virtual_end s) - unat (sg_virtual_start s)) div 4096"

definition plan_shape :: "u8 list \<Rightarrow> load_plan \<Rightarrow> segment_plan list \<Rightarrow> bool" where
  "plan_shape img plan segs \<longleftrightarrow>
     lp_segments plan = map Some segs @ replicate (MAX_LOAD_SEGMENTS - length segs) None \<and>
     lp_segment_count plan = length segs \<and> length segs \<le> MAX_LOAD_SEGMENTS \<and>
     (\<forall>s\<in>set segs. seg_ok img s) \<and>
     (\<forall>i<length segs. \<forall>j<i. \<not> segments_overlap (segs ! i) (segs ! j)) \<and>
     unat (lp_total_pages plan) = sum_list (map seg_pages segs) \<and> unat (lp_total_pages plan) \<le> 256"

lemma elf_align_down_page: "elf_align_down v PAGE_SIZE = page_floor v"
  by (simp add: elf_align_down_def page_floor_def PAGE_SIZE_def FRAME_SIZE_def)

lemma elf_align_up_page:
  "elf_align_up v PAGE_SIZE = Some w \<Longrightarrow> \<exists>x. w = page_floor x"
  by (auto simp: elf_align_up_def page_floor_def PAGE_SIZE_def FRAME_SIZE_def)

lemma page_floor_dvd: "4096 dvd unat (page_floor v)"
  by (simp add: unat_page_floor)

lemma flatten_Somes: "flatten (map Some xs @ replicate n None) = xs"
  by (induction xs) simp_all

lemma parse_segment_ok:
  assumes bias: "4096 dvd unat load_bias" and p: "parse_segment img load_bias offset = Ok s"
  shows "seg_ok img s"
proof -
  obtain fr fo vr fs ms al where r: "read_u32 img (offset + 4) = Ok fr" "read_u64 img (offset + 8) = Ok fo"
      "read_u64 img (offset + 16) = Ok vr" "read_u64 img (offset + 32) = Ok fs"
      "read_u64 img (offset + 40) = Ok ms" "read_u64 img (offset + 48) = Ok al"
    using p by (auto simp: parse_segment_def and_then_Inr_iff)
  note p2 = p [unfolded parse_segment_def r and_then_simps]
  have le: "fs \<le> ms" using p2 by (auto split: if_splits)
  obtain fe vs me ae ve where a: "checked_add fo fs = Some fe"
      "checked_add load_bias (elf_align_down vr PAGE_SIZE) = Some vs" "checked_add vr ms = Some me"
      "elf_align_up me PAGE_SIZE = Some ae" "checked_add load_bias ae = Some ve"
    using p2 by (auto simp: and_then_Inr_iff split: if_splits)
  note p3 = p2 [unfolded a ok_or_simps and_then_simps Let_def]
  have c: "\<not> unat fe > length img" "\<not> vs < PAGE_SIZE" "\<not> vs \<ge> ve" "\<not> ve > AS_USER_LIMIT"
      "\<not> (sf_writable (segment_flags_from_raw fr) \<and> sf_executable (segment_flags_from_raw fr))"
    and s: "s = \<lparr>sg_virtual_start = vs, sg_virtual_end = ve, sg_file_offset = fo, sg_file_size = fs,
      sg_memory_size = ms, sg_zero_fill = ms - fs, sg_flags = segment_flags_from_raw fr\<rparr>"
    using p3 by (auto split: if_splits)
  have vs: "unat vs = unat load_bias + unat (page_floor vr)"
    using a(2) by (simp add: checked_add_Some_iff elf_align_down_page)
  obtain x where "ae = page_floor x" using elf_align_up_page [OF a(4)] by blast
  then have ve: "unat ve = unat load_bias + unat (page_floor x)"
    using a(5) by (simp add: checked_add_Some_iff)
  have fe: "unat fe = unat fo + unat fs" using a(1) by (simp add: checked_add_Some_iff)
  show ?thesis
    using c fe le bias page_floor_dvd [of vr] page_floor_dvd [of x]
    by (simp add: seg_ok_def s vs ve dvd_add unat_sub_le word_le_nat_alt word_less_nat_alt not_le not_less
        PAGE_SIZE_def AS_USER_LIMIT_def)
qed

lemma add_segment_shape:
  assumes sh: "plan_shape img plan segs" and s: "seg_ok img s" "lp_segment_count plan \<noteq> MAX_LOAD_SEGMENTS"
    and a: "add_segment s plan = Ok plan'"
  shows "plan_shape img plan' (segs @ [s])" "lp_entry plan' = lp_entry plan"
proof -
  have fl: "flatten (lp_segments plan) = segs" using sh by (simp add: plan_shape_def flatten_Somes)
  obtain total where t: "checked_add (lp_total_pages plan)
        ((sg_virtual_end s - sg_virtual_start s) div PAGE_SIZE) = Some total"
      "\<not> total > MAX_LOAD_PAGES" "\<not> list_ex (segments_overlap s) segs"
      "plan' = plan\<lparr>lp_total_pages := total,
         lp_segments := (lp_segments plan)[lp_segment_count plan := Some s],
         lp_segment_count := lp_segment_count plan + 1\<rparr>"
    using a by (auto simp: add_segment_def Let_def fl and_then_Inr_iff split: if_splits)
  have pages: "unat ((sg_virtual_end s - sg_virtual_start s) div PAGE_SIZE) = seg_pages s"
    using s(1) by (simp add: seg_ok_def seg_pages_def unat_div PAGE_SIZE_def unat_sub_le word_le_nat_alt)
  have total: "unat total = sum_list (map seg_pages (segs @ [s]))"
    using t(1) sh pages by (simp add: checked_add_Some_iff plan_shape_def)
  have bound: "unat total \<le> 256" using t(2) by (simp add: word_less_nat_alt MAX_LOAD_PAGES_def)
  have len: "length segs < MAX_LOAD_SEGMENTS" using sh s(2) by (simp add: plan_shape_def)
  then obtain n where n: "MAX_LOAD_SEGMENTS - length segs = Suc n" by (metis Suc_diff_Suc)
  then have n': "MAX_LOAD_SEGMENTS - Suc (length segs) = n" by simp
  have "lp_segments plan' = map Some (segs @ [s]) @ replicate (MAX_LOAD_SEGMENTS - length (segs @ [s])) None"
    using sh n n' by (simp add: t(4) plan_shape_def list_update_append)
  moreover have "\<not> segments_overlap ((segs @ [s]) ! i) ((segs @ [s]) ! j)" if "i < length (segs @ [s])" "j < i" for i j
  proof (cases "i = length segs")
    case True
    with that t(3) show ?thesis by (simp add: nth_append list_ex_iff)
  next
    case False
    with that sh show ?thesis by (simp add: nth_append plan_shape_def)
  qed
  ultimately show "plan_shape img plan' (segs @ [s])"
    using sh total bound len s(1) by (auto simp: plan_shape_def t(4))
  show "lp_entry plan' = lp_entry plan" by (simp add: t(4))
qed

lemma parse_headers_shape:
  assumes "plan_shape img plan segs" "4096 dvd unat load_bias"
    and "parse_headers img load_bias offset n plan = Ok plan'"
  shows "\<exists>segs'. plan_shape img plan' segs' \<and> lp_entry plan' = lp_entry plan"
  using assms
proof (induction n arbitrary: offset plan segs)
  case 0
  then show ?case by auto
next
  case (Suc n)
  from Suc.prems(3) obtain kind where k: "read_u32 img offset = Ok kind"
    by (auto simp: and_then_Inr_iff)
  show ?case
  proof (cases "kind = PT_LOAD")
    case False
    with Suc.prems(3) k have "parse_headers img load_bias (offset + PROGRAM_HEADER_SIZE) n plan = Ok plan'"
      by simp
    from Suc.IH [OF Suc.prems(1,2) this] show ?thesis .
  next
    case True
    with Suc.prems(3) k obtain s plan1 where s: "lp_segment_count plan \<noteq> MAX_LOAD_SEGMENTS"
        "parse_segment img load_bias offset = Ok s" "add_segment s plan = Ok plan1"
        "parse_headers img load_bias (offset + PROGRAM_HEADER_SIZE) n plan1 = Ok plan'"
      by (auto simp: and_then_Inr_iff split: if_splits)
    note sh = add_segment_shape [OF Suc.prems(1) parse_segment_ok [OF Suc.prems(2) s(2)] s(1) s(3)]
    from Suc.IH [OF sh(1) Suc.prems(2) s(4)] sh(2) show ?thesis by auto
  qed
qed

definition segment_addresses :: "segment_plan \<Rightarrow> nat set" where
  "segment_addresses s = {unat (sg_virtual_start s)..<unat (sg_virtual_end s)}"

lemma no_overlap_disjoint: "\<not> segments_overlap s p \<Longrightarrow> segment_addresses s \<inter> segment_addresses p = {}"
  by (auto simp: segments_overlap_def segment_addresses_def word_less_nat_alt)

text \<open>
  Claim C8.  Every plan the parser accepts is safe to load.  It has between one and eight segments;
  each is page aligned, lies between the first page and the user limit, is not both writable and
  executable, and takes its bytes from inside the image; no address lies in two segments; all together
  they have the recorded number of pages, at most 256; and the entry point lies in an executable
  segment.
\<close>

theorem parse_plan_safe:
  assumes "parse img machine load_bias = Ok plan"
  shows "\<exists>segs. lp_segments plan = map Some segs @ replicate (8 - length segs) None \<and>
    lp_segment_count plan = length segs \<and> 0 < length segs \<and> length segs \<le> 8 \<and>
    (\<forall>s\<in>set segs. seg_ok img s) \<and>
    (\<forall>i<length segs. \<forall>j<i. segment_addresses (segs ! i) \<inter> segment_addresses (segs ! j) = {}) \<and>
    unat (lp_total_pages plan) = sum_list (map seg_pages segs) \<and> unat (lp_total_pages plan) \<le> 256 \<and>
    (\<exists>s\<in>set segs. sf_executable (sg_flags s) \<and> sg_virtual_start s \<le> lp_entry plan \<and>
       lp_entry plan < sg_virtual_end s)"
proof -
  from assms obtain off cnt entry plan0 where
    c: "check_header img machine load_bias = Ok ()" and
    h: "parse_headers img load_bias off cnt \<lparr>lp_base = load_bias, lp_entry = entry, lp_segment_count = 0,
        lp_total_pages = 0, lp_segments = replicate MAX_LOAD_SEGMENTS None\<rparr> = Ok plan" and
    e: "lp_segment_count plan \<noteq> 0" "list_ex (entry_in (lp_entry plan)) (flatten (lp_segments plan))"
    by (auto simp: parse_def Let_def and_then_Inr_iff split: if_splits)
  have "is_multiple_of load_bias PAGE_SIZE"
    using c by (auto simp: check_header_def and_then_Inr_iff split: if_splits)
  then have bias: "4096 dvd unat load_bias"
    by (simp add: is_multiple_of_unat PAGE_SIZE_def)
  have "plan_shape img \<lparr>lp_base = load_bias, lp_entry = entry, lp_segment_count = 0,
        lp_total_pages = 0, lp_segments = replicate MAX_LOAD_SEGMENTS None\<rparr> []"
    by (simp add: plan_shape_def)
  from parse_headers_shape [OF this bias h] obtain segs where sh: "plan_shape img plan segs" by blast
  then have "flatten (lp_segments plan) = segs" by (simp add: plan_shape_def flatten_Somes)
  with e(2) have "\<exists>s\<in>set segs. sf_executable (sg_flags s) \<and> sg_virtual_start s \<le> lp_entry plan \<and>
       lp_entry plan < sg_virtual_end s"
    by (auto simp: list_ex_iff entry_in_def)
  moreover have "\<forall>i<length segs. \<forall>j<i. segment_addresses (segs ! i) \<inter> segment_addresses (segs ! j) = {}"
    using sh by (simp add: plan_shape_def no_overlap_disjoint)
  ultimately show ?thesis
    using sh e(1) by (intro exI [of _ segs]) (simp add: plan_shape_def MAX_LOAD_SEGMENTS_def)
qed

text \<open>An image of 120 bytes with one executable page of zeros at \<open>0x400000\<close>.\<close>

definition demo_elf :: "u8 list" where
  "demo_elf =
     [0x7f, 0x45, 0x4c, 0x46, 2, 1, 1, 0, 0, 0, 0, 0, 0, 0, 0, 0,
      2, 0, 62, 0, 1, 0, 0, 0, 0, 0, 0x40, 0, 0, 0, 0, 0,
      64, 0, 0, 0, 0, 0, 0, 0, 0, 0, 0, 0, 0, 0, 0, 0,
      0, 0, 0, 0, 64, 0, 56, 0, 1, 0, 0, 0, 0, 0, 0, 0,
      1, 0, 0, 0, 5, 0, 0, 0, 0, 0, 0, 0, 0, 0, 0, 0,
      0, 0, 0x40, 0, 0, 0, 0, 0, 0, 0, 0, 0, 0, 0, 0, 0,
      0, 0, 0, 0, 0, 0, 0, 0, 0, 16, 0, 0, 0, 0, 0, 0,
      0, 16, 0, 0, 0, 0, 0, 0]"

lemma demo_elf_reads:
  "length demo_elf = 120" "take 4 demo_elf = [0x7f, 0x45, 0x4c, 0x46]"
  "demo_elf ! 4 = 2" "demo_elf ! 5 = 1" "demo_elf ! 6 = 1"
  "read_u16 demo_elf 16 = Ok 2" "read_u16 demo_elf 18 = Ok 62" "read_u16 demo_elf 52 = Ok 64"
  "read_u16 demo_elf 54 = Ok 56" "read_u16 demo_elf 56 = Ok 1"
  "read_u64 demo_elf 24 = Ok 0x400000" "read_u64 demo_elf 32 = Ok 64"
  "read_u32 demo_elf 64 = Ok 1" "read_u32 demo_elf 68 = Ok 5" "read_u64 demo_elf 72 = Ok 0"
  "read_u64 demo_elf 80 = Ok 0x400000" "read_u64 demo_elf 96 = Ok 0" "read_u64 demo_elf 104 = Ok 4096"
  "read_u64 demo_elf 112 = Ok 4096"
  by (simp_all add: read_u16_def read_u32_def read_u64_def read_le_def demo_elf_def)

lemma demo_elf_segment:
  "parse_segment demo_elf 0 64 = Ok \<lparr>sg_virtual_start = 0x400000, sg_virtual_end = 0x401000,
     sg_file_offset = 0, sg_file_size = 0, sg_memory_size = 4096, sg_zero_fill = 4096,
     sg_flags = \<lparr>sf_readable = True, sf_writable = False, sf_executable = True\<rparr>\<rparr>"
  by (simp add: parse_segment_def demo_elf_reads checked_add_def elf_align_down_def elf_align_up_def
      segment_flags_from_raw_def kernel_defs is_power_of_two_def)

theorem parse_plan_safe_witness:
  "\<exists>plan. parse demo_elf M_X86_64 0 = Ok plan \<and> lp_entry plan = 0x400000 \<and> 0 < lp_segment_count plan"
proof -
  have "\<exists>plan. parse demo_elf M_X86_64 0 = Ok plan \<and> lp_entry plan = 0x400000"
    by (simp add: parse_def check_ident_def check_header_def demo_elf_reads demo_elf_segment Let_def
        checked_add_def checked_mul_def is_multiple_of_def add_segment_def entry_in_def kernel_defs
        upd_replicate_0)
  then obtain plan where p: "parse demo_elf M_X86_64 0 = Ok plan" "lp_entry plan = 0x400000" by blast
  from parse_plan_safe [OF p(1)] p show ?thesis by auto
qed

section \<open>The initial stack\<close>

text \<open>A string with its terminator in the byte image of a stack, at an address.\<close>

definition string_at :: "usize \<Rightarrow> u8 list \<Rightarrow> u64 \<Rightarrow> u8 list \<Rightarrow> bool" where
  "string_at bottom bytes p str \<longleftrightarrow>
     bottom \<le> p \<and> unat p - unat bottom + length str + 1 \<le> length bytes \<and>
     take (length str + 1) (drop (unat p - unat bottom) bytes) = str @ [0]"

definition area_ok :: "usize \<Rightarrow> string_area \<Rightarrow> bool" where
  "area_ok bottom sa \<longleftrightarrow>
     bottom \<le> sa_cursor sa \<and> unat (sa_cursor sa) - unat bottom \<le> length (sa_bytes sa)"

lemma take_drop_eqI:
  assumes "length ys = length xs" "n + m \<le> length xs" "\<And>j. n \<le> j \<Longrightarrow> j < n + m \<Longrightarrow> ys ! j = xs ! j"
  shows "take m (drop n ys) = take m (drop n xs)"
  using assms by (intro nth_equalityI) auto

lemma place_string_spec:
  assumes ok: "area_ok bottom sa" and p: "place_string str bottom sa = (Ok ptr, sa')"
  shows "area_ok bottom sa'" "string_at bottom (sa_bytes sa') ptr str" "sa_cursor sa' = ptr"
    "unat ptr + length str + 1 = unat (sa_cursor sa)" "0 \<notin> set str"
    "length (sa_bytes sa') = length (sa_bytes sa)"
    "\<And>j. unat (sa_cursor sa) - unat bottom \<le> j \<Longrightarrow> j < length (sa_bytes sa) \<Longrightarrow>
       sa_bytes sa' ! j = sa_bytes sa ! j"
    "sa_byte_count sa' = sa_byte_count sa + length str + 1"
proof -
  let ?len = "length str + 1"
  define start where "start = sa_cursor sa - of_nat ?len"
  have c: "0 \<notin> set str" "\<not> ?len > unat (sa_cursor sa)" "\<not> start < bottom" "ptr = start"
      "sa' = sa\<lparr>sa_bytes := (write_at (unat (start - bottom)) str (sa_bytes sa))
          [unat (start - bottom) + length str := 0],
        sa_cursor := start, sa_byte_count := sa_byte_count sa + ?len\<rparr>"
    using p by (auto simp: place_string_def Let_def start_def split: if_splits)
  have "unat (sa_cursor sa) < 2 ^ 64" using unsigned_less [of "sa_cursor sa"] by simp
  then have l: "unat (of_nat ?len :: usize) = ?len" using c(2) by (intro unat_of_nat_small) simp
  then have us: "unat start = unat (sa_cursor sa) - ?len"
    unfolding start_def using c(2) by (intro trans [OF unat_sub_le]) (simp_all add: word_le_nat_alt)
  then show ptr: "unat ptr + length str + 1 = unat (sa_cursor sa)" using c(2,4) by simp
  have le: "unat bottom \<le> unat start" using c(3) by (simp add: word_less_nat_alt)
  have off: "unat (start - bottom) = unat start - unat bottom"
    using c(3) by (intro unat_sub_le) simp
  let ?o = "unat start - unat bottom"
  have o: "?o + length str + 1 = unat (sa_cursor sa) - unat bottom"
    using us le c(2) by linarith
  then have fit: "?o + length str + 1 \<le> length (sa_bytes sa)"
    using ok by (simp add: area_ok_def)
  have bytes: "sa_bytes sa' = (write_at ?o str (sa_bytes sa))[?o + length str := 0]"
    by (simp add: c(5) off)
  show len: "length (sa_bytes sa') = length (sa_bytes sa)" using fit by (simp add: bytes)
  show "sa_cursor sa' = ptr" "0 \<notin> set str" "sa_byte_count sa' = sa_byte_count sa + length str + 1"
    using c by simp_all
  have "sa_cursor sa' = start" by (simp add: c(5))
  then show "area_ok bottom sa'"
    using c(3) fit by (simp add: area_ok_def len not_less)
  show "sa_bytes sa' ! j = sa_bytes sa ! j"
    if "unat (sa_cursor sa) - unat bottom \<le> j" "j < length (sa_bytes sa)" for j
  proof -
    have "?o + length str < j" using that(1) o by linarith
    then show ?thesis using that(2) fit by (simp add: bytes nth_write_at)
  qed
  have "take ?len (drop ?o (sa_bytes sa')) = str @ [0]"
  proof (rule nth_equalityI)
    show "length (take ?len (drop ?o (sa_bytes sa'))) = length (str @ [0])" using fit by (simp add: len)
    fix i assume "i < length (take ?len (drop ?o (sa_bytes sa')))"
    then have i: "i < ?len" by simp
    with fit show "take ?len (drop ?o (sa_bytes sa')) ! i = (str @ [0]) ! i"
      by (cases "i = length str") (simp_all add: bytes nth_write_at nth_append)
  qed
  then show "string_at bottom (sa_bytes sa') ptr str"
    using c(3,4) fit len by (simp add: string_at_def not_less)
qed

lemma string_at_mono:
  assumes "string_at bottom bytes p str" "length bytes' = length bytes"
    and "\<And>j. unat p - unat bottom \<le> j \<Longrightarrow> j < length bytes \<Longrightarrow> bytes' ! j = bytes ! j"
  shows "string_at bottom bytes' p str"
proof -
  have "take (length str + 1) (drop (unat p - unat bottom) bytes') =
      take (length str + 1) (drop (unat p - unat bottom) bytes)"
    by (rule take_drop_eqI) (use assms in \<open>simp_all add: string_at_def\<close>)
  with assms(1,2) show ?thesis by (simp add: string_at_def)
qed

lemma place_strings_spec:
  assumes "area_ok bottom sa" "place_strings strs bottom sa = (Ok ptrs, sa')"
  shows "area_ok bottom sa' \<and> unat (sa_cursor sa') \<le> unat (sa_cursor sa) \<and>
    length ptrs = length strs \<and> length (sa_bytes sa') = length (sa_bytes sa) \<and>
    (\<forall>j. unat (sa_cursor sa) - unat bottom \<le> j \<longrightarrow> j < length (sa_bytes sa) \<longrightarrow>
       sa_bytes sa' ! j = sa_bytes sa ! j) \<and>
    (\<forall>i<length strs. string_at bottom (sa_bytes sa') (ptrs ! i) (strs ! i) \<and>
       unat (sa_cursor sa') \<le> unat (ptrs ! i) \<and>
       unat (ptrs ! i) + length (strs ! i) + 1 \<le> unat (sa_cursor sa) \<and> 0 \<notin> set (strs ! i))"
  using assms
proof (induction strs arbitrary: sa ptrs)
  case Nil
  then show ?case by simp
next
  case (Cons str strs)
  from Cons.prems(2) obtain p sa1 ptrs1 where q: "place_string str bottom sa = (Ok p, sa1)"
      "place_strings strs bottom sa1 = (Ok ptrs1, sa')" "ptrs = p # ptrs1"
    by (auto simp: try_st_Ok_iff)
  note s = place_string_spec [OF Cons.prems(1) q(1)]
  note IH = Cons.IH [OF s(1) q(2)]
  have le: "unat (sa_cursor sa1) \<le> unat (sa_cursor sa)" using s(3,4) by simp
  have head: "string_at bottom (sa_bytes sa') p str"
    by (rule string_at_mono [OF s(2)]) (use IH s(3,6) in simp_all)
  have same: "sa_bytes sa' ! j = sa_bytes sa ! j"
    if j: "unat (sa_cursor sa) - unat bottom \<le> j" "j < length (sa_bytes sa)" for j
  proof -
    have "unat (sa_cursor sa1) - unat bottom \<le> j" using le j(1) by simp
    then show ?thesis using IH s(6,7) j by simp
  qed
  have each: "string_at bottom (sa_bytes sa') (ptrs ! i) ((str # strs) ! i) \<and>
       unat (sa_cursor sa') \<le> unat (ptrs ! i) \<and>
       unat (ptrs ! i) + length ((str # strs) ! i) + 1 \<le> unat (sa_cursor sa) \<and> 0 \<notin> set ((str # strs) ! i)"
    if i: "i < length (str # strs)" for i
  proof (cases i)
    case 0
    with head IH s(3,4,5) q(3) show ?thesis by simp
  next
    case (Suc k)
    with i have "k < length strs" by simp
    with IH have "string_at bottom (sa_bytes sa') (ptrs1 ! k) (strs ! k)"
        "unat (sa_cursor sa') \<le> unat (ptrs1 ! k)"
        "unat (ptrs1 ! k) + length (strs ! k) + 1 \<le> unat (sa_cursor sa1)" "0 \<notin> set (strs ! k)"
      by blast+
    with le Suc q(3) show ?thesis by simp
  qed
  show ?case
  proof (intro conjI)
    show "unat (sa_cursor sa') \<le> unat (sa_cursor sa)" using IH le by linarith
  qed (use IH s(6) q(3) same each in auto)
qed

lemma unat_align_16: "unat (elf_align_down v 16) = unat v div 16 * 16"
proof -
  have "(16 - 1 :: usize) = mask 4" by (simp add: mask_eq_exp_minus_1)
  then show ?thesis using unat_and_not_mask [of v 4] by (simp add: elf_align_down_def)
qed

text \<open>
  Claim C39.  The initial stack the loader builds.  The stack pointer is 16-byte aligned and within
  one page of the top; the words on it are the argument count, the argument pointers, a null, the
  environment pointers, a null and the auxiliary vector with page size and entry point; every
  pointer leads to its string, terminated by a zero byte, in the byte image of the stack; and the
  strings lie above the words and below the top.
\<close>

theorem initial_stack_layout:
  assumes "initial_stack_build entry stack_top args env = Ok st"
  shows "\<exists>ap ep. stack_words st = [of_nat (length args)] @ ap @ [0] @ ep @ [0] @ [6, 4096, 9, entry, 0, 0] \<and>
    length ap = length args \<and> length ep = length env \<and> 16 dvd unat (is_stack_pointer st) \<and>
    unat stack_top \<le> unat (is_stack_pointer st) + 4096 \<and>
    (\<forall>(p, str)\<in>set (zip (ap @ ep) (args @ env)).
       string_at (stack_top - 4096) (is_bytes st) p str \<and> 0 \<notin> set str \<and>
       unat (is_stack_pointer st) + 8 * length (stack_words st) \<le> unat p \<and>
       unat p + length str + 1 \<le> unat stack_top)"
proof -
  let ?wc = "1 + length args + 1 + length env + 1 + 6"
  let ?bottom = "stack_top - of_nat MAX_STACK_BYTES"
  let ?sa0 = "\<lparr>sa_cursor = stack_top, sa_bytes = replicate MAX_STACK_BYTES (0::u8), sa_byte_count = 0\<rparr>"
  obtain ap sa1 where a: "place_strings args ?bottom ?sa0 = (Ok ap, sa1)"
    using assms by (cases "place_strings args ?bottom ?sa0"; cases "fst (place_strings args ?bottom ?sa0)")
      (auto simp: initial_stack_build_def Let_def split: if_splits)
  obtain ep sa where e: "place_strings env ?bottom sa1 = (Ok ep, sa)"
    using assms a by (cases "place_strings env ?bottom sa1"; cases "fst (place_strings env ?bottom sa1)")
      (auto simp: initial_stack_build_def Let_def split: if_splits)
  let ?sp = "elf_align_down (sa_cursor sa - of_nat (?wc * 8)) 16"
  let ?ws = "[of_nat (length args)] @ ap @ [0] @ ep @ [0] @ [AT_PAGESZ, PAGE_SIZE, AT_ENTRY, entry, 0, 0]"
  have c: "of_nat MAX_STACK_BYTES + PAGE_SIZE \<le> stack_top" "\<not> ?wc > MAX_STACK_WORDS"
      "\<not> ?wc * 8 > unat (sa_cursor sa)" "\<not> ?sp < ?bottom"
    and st: "st = \<lparr>is_stack_pointer = ?sp, is_word_count = ?wc,
      is_words = write_at 0 ?ws (replicate MAX_STACK_WORDS 0), is_bytes = sa_bytes sa,
      is_byte_count = sa_byte_count sa\<rparr>"
    using assms unfolding initial_stack_build_def Let_def a e prod.case sum.case
    by (simp_all split: if_splits)
  have top: "8192 \<le> unat stack_top" using c(1) by (simp add: kernel_defs word_le_nat_alt)
  then have bot: "unat ?bottom = unat stack_top - 4096"
    by (simp add: kernel_defs unat_sub_le word_le_nat_alt)
  have ok0: "area_ok ?bottom ?sa0" using bot top by (simp add: area_ok_def word_le_nat_alt kernel_defs)
  note A = place_strings_spec [OF ok0 a]
  note E = place_strings_spec [OF conjunct1 [OF A] e]
  have len: "length ap = length args" "length ep = length env" using A E by simp_all
  have wl: "length ?ws = ?wc" using len by simp
  have "stack_words st = take ?wc (write_at 0 ?ws (replicate MAX_STACK_WORDS 0))"
    by (simp add: stack_words_def st)
  also have "\<dots> = ?ws" unfolding wl [symmetric] by (rule take_write_at_0)
  finally have words: "stack_words st = ?ws" .
  then have wlen: "length (stack_words st) = ?wc" using wl by simp
  have "unat (of_nat (?wc * 8) :: usize) = ?wc * 8"
    using c(2) by (intro unat_of_nat_small) (simp add: kernel_defs)
  then have sp: "unat (sa_cursor sa - of_nat (?wc * 8)) = unat (sa_cursor sa) - ?wc * 8"
    using c(3) by (intro trans [OF unat_sub_le]) (simp_all add: word_le_nat_alt)
  have usp: "unat ?sp + ?wc * 8 \<le> unat (sa_cursor sa)"
    using sp c(3) div_times_less_eq_dividend [of "unat (sa_cursor sa) - ?wc * 8" 16]
    unfolding unat_align_16 by linarith
  have "string_at ?bottom (sa_bytes sa) (ap ! i) (args ! i)" if "i < length args" for i
  proof (rule string_at_mono)
    show "string_at ?bottom (sa_bytes sa1) (ap ! i) (args ! i)" using A that by blast
    show "length (sa_bytes sa) = length (sa_bytes sa1)" using E by blast
    fix j assume "unat (ap ! i) - unat ?bottom \<le> j" "j < length (sa_bytes sa1)"
    moreover have "unat (sa_cursor sa1) \<le> unat (ap ! i)" using A that by blast
    ultimately show "sa_bytes sa ! j = sa_bytes sa1 ! j" using E by (meson diff_le_mono le_trans)
  qed
  moreover have "unat (sa_cursor sa) \<le> unat (ap ! i)" "unat (ap ! i) + length (args ! i) + 1 \<le> unat stack_top"
      "0 \<notin> set (args ! i)" if "i < length args" for i
    using A E that by (auto intro: le_trans)
  moreover have "string_at ?bottom (sa_bytes sa) (ep ! i) (env ! i)" "unat (sa_cursor sa) \<le> unat (ep ! i)"
      "unat (ep ! i) + length (env ! i) + 1 \<le> unat stack_top" "0 \<notin> set (env ! i)" if "i < length env" for i
    using A E that by (auto intro: le_trans)
  ultimately have "\<forall>(p, str)\<in>set (zip (ap @ ep) (args @ env)).
       string_at (stack_top - 4096) (sa_bytes sa) p str \<and> 0 \<notin> set str \<and>
       unat ?sp + 8 * ?wc \<le> unat p \<and> unat p + length str + 1 \<le> unat stack_top"
    using len usp by (force simp: zip_append set_zip kernel_defs)
  moreover have "unat stack_top \<le> unat ?sp + 4096" using c(4) bot top by (simp add: word_less_nat_alt)
  moreover have "16 dvd unat ?sp" by (simp add: unat_align_16)
  ultimately show ?thesis
    using words len wlen by (intro exI [of _ ap] exI [of _ ep]) (simp add: st kernel_defs)
qed

lemma demo_stack:
  "\<exists>st. initial_stack_build 0x400000 0x7ffffffff000 [[105]] [] = Ok st \<and> is_byte_count st = 2 \<and>
     take 2 (is_bytes st) = replicate 2 0"
  by (simp add: initial_stack_build_def Let_def place_string_def kernel_defs is_multiple_of_def
      elf_align_down_def write_at_def)

theorem initial_stack_layout_witness:
  "\<exists>st p. initial_stack_build 0x400000 0x7ffffffff000 [[105]] [] = Ok st \<and>
     stack_words st = [1, p, 0, 0, 6, 4096, 9, 0x400000, 0, 0] \<and>
     string_at (0x7ffffffff000 - 4096) (is_bytes st) p [105]"
proof -
  from demo_stack obtain st where st: "initial_stack_build 0x400000 0x7ffffffff000 [[105]] [] = Ok st" by blast
  from initial_stack_layout [OF st] obtain ap where "length ap = 1"
      "stack_words st = [1] @ ap @ [0] @ [] @ [0] @ [6, 4096, 9, 0x400000, 0, 0]"
      "\<forall>(p, str)\<in>set (zip ap [[105]]). string_at (0x7ffffffff000 - 4096) (is_bytes st) p str"
    by auto
  with st show ?thesis by (cases ap) auto
qed

text \<open>
  \<open>string_bytes\<close> returns the first bytes of the byte image, but the strings are placed at its end:
  for one argument of one character it returns zeros.
\<close>

lemma string_bytes_misses_strings:
  "\<exists>st. initial_stack_build 0x400000 0x7ffffffff000 [[105]] [] = Ok st \<and> string_bytes st = replicate 2 0"
  using demo_stack by (auto simp: string_bytes_def)

text \<open>
  The file offset of an address is computed from the page-aligned start of its segment, while the
  recorded file offset belongs to the unaligned start: a segment of 16 bytes at file offset
  \<open>0x100\<close> that belongs at \<open>0x400100\<close> is found at \<open>0x400000\<close>, and not where it belongs.
\<close>

lemma file_offset_ignores_page_offset:
  assumes "lp_segments plan = [Some \<lparr>sg_virtual_start = 0x400000, sg_virtual_end = 0x401000,
     sg_file_offset = 0x100, sg_file_size = 16, sg_memory_size = 16, sg_zero_fill = 0,
     sg_flags = \<lparr>sf_readable = True, sf_writable = False, sf_executable = True\<rparr>\<rparr>]"
  shows "plan_file_offset plan 0x400000 16 = Some 0x100" "plan_file_offset plan 0x400100 16 = None"
  by (simp_all add: plan_file_offset_def assms segment_file_offset_def checked_add_def)

end
