(* ===== verification/X86_Paging.thy ===== *)
theory X86_Paging
  imports Elf
begin

unbundle bit_operations_syntax

text \<open>
  Physical memory and user page tables on x86_64 (\<open>src/arch/x86_64/paging.rs\<close>).  Physical memory is
  a function from addresses to bytes; a pointer of the direct map is identified with the physical
  address it maps, and table entries are read and written as eight bytes.  The machine state holds
  the memory, the flag of the direct map, the root of the current page tables and the frame
  allocator.
\<close>

definition DIRECT_MAP_BYTES :: usize where [kernel_defs]: "DIRECT_MAP_BYTES = 16 * 1024 * 1024"
definition PTE_PRESENT :: u64 where [kernel_defs]: "PTE_PRESENT = push_bit 0 1"
definition PTE_WRITABLE :: u64 where [kernel_defs]: "PTE_WRITABLE = push_bit 1 1"
definition PTE_USER :: u64 where [kernel_defs]: "PTE_USER = push_bit 2 1"
definition PTE_NX :: u64 where [kernel_defs]: "PTE_NX = push_bit 63 1"
definition ADDRESS_MASK :: u64 where [kernel_defs]: "ADDRESS_MASK = 0x000ffffffffff000"

record page_flags =
  pf_user :: bool
  pf_readable :: bool
  pf_writable :: bool
  pf_executable :: bool

datatype mapping_kind = Map_Anonymous | Map_Stack

record mapping_info =
  mi_virtual_address :: usize
  mi_physical_frame :: u64
  mi_flags :: page_flags
  mi_kind :: mapping_kind

record machine =
  mc_bytes :: "u64 \<Rightarrow> u8"
  mc_direct_map_ready :: bool
  mc_cr3 :: u64
  mc_frames :: frame_allocator

section \<open>Physical memory\<close>

definition direct_map_ptr :: "u64 \<Rightarrow> machine \<Rightarrow> u64 option" where
  "direct_map_ptr physical m =
     (if \<not> mc_direct_map_ready m \<or> physical \<ge> DIRECT_MAP_BYTES then None else Some physical)"

fun to_le_bytes :: "nat \<Rightarrow> 'l::len word \<Rightarrow> u8 list" where
  "to_le_bytes 0 w = []"
| "to_le_bytes (Suc n) w = ucast w # to_le_bytes n (drop_bit 8 w)"

fun store_bytes :: "u64 \<Rightarrow> u8 list \<Rightarrow> (u64 \<Rightarrow> u8) \<Rightarrow> u64 \<Rightarrow> u8" where
  "store_bytes a [] f = f"
| "store_bytes a (b # bs) f = store_bytes (a + 1) bs (f(a := b))"

definition load_bytes :: "u64 \<Rightarrow> nat \<Rightarrow> (u64 \<Rightarrow> u8) \<Rightarrow> u8 list" where
  "load_bytes a n f = map (\<lambda>k. f (a + of_nat k)) [0..<n]"

definition read_volatile :: "u64 \<Rightarrow> machine \<Rightarrow> u64" where
  "read_volatile a m = from_le_bytes (load_bytes a 8 (mc_bytes m))"

definition write_volatile :: "u64 \<Rightarrow> u64 \<Rightarrow> machine \<Rightarrow> machine" where
  "write_volatile a v m = m\<lparr>mc_bytes := store_bytes a (to_le_bytes 8 v) (mc_bytes m)\<rparr>"

text \<open>\<open>table.add(index)\<close> for a table of 64-bit entries.\<close>

definition entry_ptr :: "u64 \<Rightarrow> u64 \<Rightarrow> u64" where
  "entry_ptr table index = table + 8 * index"

definition write_physical :: "u64 \<Rightarrow> nat \<Rightarrow> u8 list \<Rightarrow> machine \<Rightarrow> bool \<times> machine" where
  "write_physical physical offset bytes m =
     (if offset \<ge> 4096 \<or> length bytes > 4096 - offset then (False, m)
      else
        (case direct_map_ptr (saturating_add physical (of_nat offset)) m of
           None \<Rightarrow> (False, m)
         | Some pointer \<Rightarrow> (True, m\<lparr>mc_bytes := store_bytes pointer bytes (mc_bytes m)\<rparr>)))"

definition zero_physical_page :: "u64 \<Rightarrow> machine \<Rightarrow> bool \<times> machine" where
  "zero_physical_page physical m =
     (case direct_map_ptr physical m of
        None \<Rightarrow> (False, m)
      | Some pointer \<Rightarrow>
          (True, m\<lparr>mc_bytes := store_bytes pointer (replicate 4096 0) (mc_bytes m)\<rparr>))"

section \<open>Frames\<close>

definition machine_alloc :: "machine \<Rightarrow> u64 option \<times> machine" where
  "machine_alloc m = (case alloc_frame (mc_frames m) of (f, st) \<Rightarrow> (f, m\<lparr>mc_frames := st\<rparr>))"

definition machine_free :: "u64 \<Rightarrow> machine \<Rightarrow> bool \<times> machine" where
  "machine_free frame m = (case free_frame frame (mc_frames m) of (ok, st) \<Rightarrow> (ok, m\<lparr>mc_frames := st\<rparr>))"

type_synonym table_frames = "u64 option list"

definition allocate_user_table ::
  "table_frames \<Rightarrow> machine \<Rightarrow> u64 option \<times> table_frames \<times> machine" where
  "allocate_user_table tables m =
     (case machine_alloc m of
        (None, m) \<Rightarrow> (None, tables, m)
      | (Some frame, m) \<Rightarrow>
          (case zero_physical_page frame m of
             (False, m) \<Rightarrow> (None, tables, snd (machine_free frame m))
           | (True, m) \<Rightarrow>
               (case position is_none tables of
                  None \<Rightarrow> (None, tables, m)
                | Some slot \<Rightarrow> (Some frame, tables[slot := Some frame], m))))"

section \<open>User page tables\<close>

definition table_indices :: "usize \<Rightarrow> u64 list" where
  "table_indices virtual_address =
     [drop_bit 39 virtual_address AND 0x1ff, drop_bit 30 virtual_address AND 0x1ff,
      drop_bit 21 virtual_address AND 0x1ff, drop_bit 12 virtual_address AND 0x1ff]"

fun prepare_loop :: "nat \<Rightarrow> u64 \<Rightarrow> u64 \<Rightarrow> u64 \<Rightarrow> machine \<Rightarrow> machine" where
  "prepare_loop 0 index destination source m = m"
| "prepare_loop (Suc left) index destination source m =
     prepare_loop left (index + 1) destination source
       (write_volatile (entry_ptr destination index) (read_volatile (entry_ptr source index) m) m)"

definition user_space_prepare :: "u64 \<Rightarrow> machine \<Rightarrow> bool \<times> machine" where
  "user_space_prepare root m =
     (case direct_map_ptr root m of
        None \<Rightarrow> (False, m)
      | Some destination \<Rightarrow>
          let source = mc_cr3 m AND ADDRESS_MASK in
          (True, prepare_loop 512 0 destination source m))"

text \<open>The walk through the upper levels that creates missing tables.\<close>

fun map_tables ::
  "u64 list \<Rightarrow> u64 \<Rightarrow> table_frames \<Rightarrow> machine \<Rightarrow> u64 option \<times> table_frames \<times> machine" where
  "map_tables [] table tables m = (Some table, tables, m)"
| "map_tables (index # indices) table tables m =
     (let entry = entry_ptr table index;
          value = read_volatile entry m in
      if value AND PTE_PRESENT = 0 then
        (case allocate_user_table tables m of
           (None, tables, m) \<Rightarrow> (None, tables, m)
         | (Some frame, tables, m) \<Rightarrow>
             let m = write_volatile entry (frame OR PTE_PRESENT OR PTE_WRITABLE OR PTE_USER) m in
             (case direct_map_ptr frame m of
                None \<Rightarrow> (None, tables, m)
              | Some table \<Rightarrow> map_tables indices table tables m))
      else if value AND PTE_USER = 0 \<or> value AND push_bit 7 1 \<noteq> 0 then (None, tables, m)
      else
        (case direct_map_ptr (value AND ADDRESS_MASK) m of
           None \<Rightarrow> (None, tables, m)
         | Some table \<Rightarrow> map_tables indices table tables m))"

definition leaf_flags :: "page_flags \<Rightarrow> u64" where
  "leaf_flags flags =
     (let f = PTE_PRESENT OR PTE_USER;
          f = (if pf_writable flags then f OR PTE_WRITABLE else f)
      in if \<not> pf_executable flags then f OR PTE_NX else f)"

definition user_space_map ::
  "u64 \<Rightarrow> mapping_info \<Rightarrow> table_frames \<Rightarrow> machine \<Rightarrow> bool \<times> table_frames \<times> machine" where
  "user_space_map root mapping tables m =
     (if \<not> is_multiple_of (mi_virtual_address mapping) 4096 \<or>
         \<not> is_multiple_of (mi_physical_frame mapping) 4096 then (False, tables, m)
      else
        (case direct_map_ptr root m of
           None \<Rightarrow> (False, tables, m)
         | Some table \<Rightarrow>
             let indices = table_indices (mi_virtual_address mapping) in
             (case map_tables (take 3 indices) table tables m of
                (None, tables, m) \<Rightarrow> (False, tables, m)
              | (Some table, tables, m) \<Rightarrow>
                  let leaf = entry_ptr table (indices ! 3) in
                  if read_volatile leaf m AND PTE_PRESENT \<noteq> 0 then (False, tables, m)
                  else
                    (True, tables,
                     write_volatile leaf (mi_physical_frame mapping OR leaf_flags (mi_flags mapping)) m))))"

fun walk_tables :: "u64 list \<Rightarrow> u64 \<Rightarrow> machine \<Rightarrow> u64 option" where
  "walk_tables [] table m = Some table"
| "walk_tables (index # indices) table m =
     (let value = read_volatile (entry_ptr table index) m in
      if value AND PTE_PRESENT = 0 \<or> value AND push_bit 7 1 \<noteq> 0 then None
      else
        (case direct_map_ptr (value AND ADDRESS_MASK) m of
           None \<Rightarrow> None
         | Some table \<Rightarrow> walk_tables indices table m))"

definition user_space_unmap :: "u64 \<Rightarrow> usize \<Rightarrow> machine \<Rightarrow> bool \<times> machine" where
  "user_space_unmap root virtual_address m =
     (case direct_map_ptr root m of
        None \<Rightarrow> (False, m)
      | Some table \<Rightarrow>
          let indices = table_indices virtual_address in
          (case walk_tables (take 3 indices) table m of
             None \<Rightarrow> (False, m)
           | Some table \<Rightarrow>
               let leaf = entry_ptr table (indices ! 3) in
               if read_volatile leaf m AND PTE_PRESENT = 0 then (False, m)
               else (True, write_volatile leaf 0 m)))"

fun reset_loop :: "nat \<Rightarrow> u64 \<Rightarrow> u64 \<Rightarrow> machine \<Rightarrow> machine" where
  "reset_loop 0 index table m = m"
| "reset_loop (Suc left) index table m =
     reset_loop left (index + 1) table (write_volatile (entry_ptr table index) 0 m)"

definition user_space_reset :: "u64 \<Rightarrow> machine \<Rightarrow> machine" where
  "user_space_reset root m =
     (case direct_map_ptr root m of
        None \<Rightarrow> m
      | Some table \<Rightarrow> reset_loop 512 0 table m)"

section \<open>Reading what was written\<close>

lemma length_to_le_bytes [simp]: "length (to_le_bytes n w) = n"
  by (induction n arbitrary: w) simp_all

lemma from_to_le_bytes: "from_le_bytes (to_le_bytes n w) = take_bit (8 * n) w" for w :: "'l::len word"
proof (induction n arbitrary: w)
  case 0
  then show ?case by simp
next
  case (Suc n)
  have "(ucast (ucast w :: u8) :: 'l word) OR push_bit 8 (take_bit (8 * n) (drop_bit 8 w)) = take_bit (8 * Suc n) w"
    by (rule bit_word_eqI) (auto simp: bit_simps)
  with Suc show ?case by simp
qed

lemma store_bytes_apply:
  assumes "unat a + length bs < 2 ^ 64"
  shows "store_bytes a bs f x =
    (if unat a \<le> unat x \<and> unat x < unat a + length bs then bs ! (unat x - unat a) else f x)"
  using assms
proof (induction bs arbitrary: a f)
  case Nil
  then show ?case by auto
next
  case (Cons b bs)
  have a: "unat (a + 1) = unat a + 1" using Cons.prems by (simp add: unat_add_exact)
  with Cons.prems have "unat (a + 1) + length bs < 2 ^ 64" by simp
  from Cons.IH [OF this] a show ?case
    by (auto simp: nth_Cons' word_unat_eq_iff)
qed

lemma nth_load_bytes: "k < n \<Longrightarrow> load_bytes a n f ! k = f (a + of_nat k)"
  by (simp add: load_bytes_def)

lemma unat_offset: "unat a + n < 2 ^ 64 \<Longrightarrow> k \<le> n \<Longrightarrow> unat (a + of_nat k) = unat a + k" for a :: u64
  by (subst unat_add_exact) (simp_all add: unat_of_nat_small)

lemma load_store_same:
  assumes "unat a + length bs < 2 ^ 64"
  shows "load_bytes a (length bs) (store_bytes a bs f) = bs"
proof (rule nth_equalityI)
  fix k assume "k < length (load_bytes a (length bs) (store_bytes a bs f))"
  then have k: "k < length bs" by (simp add: load_bytes_def)
  then have "unat (a + of_nat k) = unat a + k" using unat_offset [OF assms, of k] by linarith
  with k assms show "load_bytes a (length bs) (store_bytes a bs f) ! k = bs ! k"
    by (simp add: nth_load_bytes store_bytes_apply)
qed (simp add: load_bytes_def)

lemma load_store_other:
  assumes "unat a + n < 2 ^ 64" "unat b + length bs < 2 ^ 64"
    and "unat a + n \<le> unat b \<or> unat b + length bs \<le> unat a"
  shows "load_bytes a n (store_bytes b bs f) = load_bytes a n f"
proof (rule nth_equalityI)
  fix k assume "k < length (load_bytes a n (store_bytes b bs f))"
  then have k: "k < n" by (simp add: load_bytes_def)
  then have "unat (a + of_nat k) = unat a + k" using unat_offset [OF assms(1), of k] by linarith
  with k assms show "load_bytes a n (store_bytes b bs f) ! k = load_bytes a n f ! k"
    by (auto simp: nth_load_bytes store_bytes_apply)
qed (simp add: load_bytes_def)

lemma load_store_inside:
  assumes "unat b + length bs < 2 ^ 64" "unat b \<le> unat a" "unat a + n \<le> unat b + length bs"
  shows "load_bytes a n (store_bytes b bs f) = take n (drop (unat a - unat b) bs)"
proof (rule nth_equalityI)
  show "length (load_bytes a n (store_bytes b bs f)) = length (take n (drop (unat a - unat b) bs))"
    using assms by (simp add: load_bytes_def)
  fix k assume "k < length (load_bytes a n (store_bytes b bs f))"
  then have k: "k < n" by (simp add: load_bytes_def)
  then have "unat (a + of_nat k) = unat a + k" using unat_offset [of a n k] assms by linarith
  with k assms show "load_bytes a n (store_bytes b bs f) ! k = take n (drop (unat a - unat b) bs) ! k"
    by (simp add: nth_load_bytes store_bytes_apply)
qed

text \<open>A table is an aligned page of the direct map; its entries do not overlap.\<close>

definition is_table :: "u64 \<Rightarrow> bool" where
  "is_table t \<longleftrightarrow> 4096 dvd unat t \<and> unat t < 2 ^ 24"

definition entry :: "machine \<Rightarrow> u64 \<Rightarrow> u64 \<Rightarrow> u64" where
  "entry m t i = read_volatile (entry_ptr t i) m"

lemma unat_entry_ptr:
  assumes "is_table t" "unat i < 512"
  shows "unat (entry_ptr t i) = unat t + 8 * unat i"
proof -
  have "unat (8 * i) = 8 * unat i"
    using assms(2) by (simp add: unat_word_ariths)
  then show ?thesis
    using assms unfolding entry_ptr_def by (subst unat_add_exact) (simp_all add: is_table_def)
qed

lemma table_page_disjoint:
  assumes "is_table t" "is_table u" "t \<noteq> u"
  shows "unat t + 4096 \<le> unat u \<or> unat u + 4096 \<le> unat t"
proof -
  have "unat t \<noteq> unat u" using assms(3) by (simp add: word_unat_eq_iff)
  then have "unat t < unat u \<or> unat u < unat t" by linarith
  with assms(1,2) show ?thesis using dvd_step unfolding is_table_def by blast
qed

lemma entry_write:
  assumes t: "is_table t" "unat i < 512" and u: "is_table u" "unat j < 512"
  shows "entry (write_volatile (entry_ptr t i) v m) u j = (if u = t \<and> j = i then v else entry m u j)"
proof -
  note a = unat_entry_ptr [OF t] and b = unat_entry_ptr [OF u]
  have lim: "unat (entry_ptr t i) + 8 < 2 ^ 64" "unat (entry_ptr u j) + 8 < 2 ^ 64"
    using t u by (simp_all add: a b is_table_def)
  show ?thesis
  proof (cases "u = t \<and> j = i")
    case True
    have "from_le_bytes (to_le_bytes 8 v) = v"
      using from_to_le_bytes [of 8 v] by (simp add: take_bit_word_eq_self)
    with True lim(1) load_store_same [of "entry_ptr t i" "to_le_bytes 8 v"] show ?thesis
      by (simp add: entry_def read_volatile_def write_volatile_def)
  next
    case False
    have "unat (entry_ptr u j) + 8 \<le> unat (entry_ptr t i) \<or> unat (entry_ptr t i) + 8 \<le> unat (entry_ptr u j)"
    proof (cases "u = t")
      case True
      with False have "unat i \<noteq> unat j" by (auto simp: word_unat_eq_iff)
      with True show ?thesis unfolding a b by (cases "unat i < unat j") auto
    next
      case ne: False
      from table_page_disjoint [OF u(1) t(1) ne] t(2) u(2) show ?thesis by (auto simp: a b)
    qed
    with False lim load_store_other [of "entry_ptr u j" 8 "entry_ptr t i" "to_le_bytes 8 v"] show ?thesis
      by (auto simp: entry_def read_volatile_def write_volatile_def)
  qed
qed

lemma from_le_bytes_zero [simp]: "from_le_bytes (replicate n 0) = 0"
  by (induction n) simp_all

lemma entry_zero_page:
  assumes z: "zero_physical_page f m = (True, m')" and f: "is_table f" and u: "is_table u" "unat j < 512"
  shows "entry m' u j = (if u = f then 0 else entry m u j)"
proof -
  note b = unat_entry_ptr [OF u]
  have m': "m' = m\<lparr>mc_bytes := store_bytes f (replicate 4096 0) (mc_bytes m)\<rparr>"
    using z by (auto simp: zero_physical_page_def direct_map_ptr_def split: if_splits)
  have lim: "unat f + length (replicate 4096 (0::u8)) < 2 ^ 64" "unat (entry_ptr u j) + 8 < 2 ^ 64"
    using f u by (simp_all add: b is_table_def)
  show ?thesis
  proof (cases "u = f")
    case True
    have "load_bytes (entry_ptr u j) 8 (store_bytes f (replicate 4096 0) (mc_bytes m)) =
        take 8 (drop (unat (entry_ptr u j) - unat f) (replicate 4096 0))"
      by (rule load_store_inside) (use lim(1) u(2) b in \<open>simp_all add: True\<close>)
    with True show ?thesis by (simp add: entry_def read_volatile_def m' del: upt_Suc)
  next
    case False
    from table_page_disjoint [OF u(1) f False] u(2)
    have "unat (entry_ptr u j) + 8 \<le> unat f \<or> unat f + length (replicate 4096 (0::u8)) \<le> unat (entry_ptr u j)"
      by (auto simp: b)
    with lim False load_store_other [of "entry_ptr u j" 8 f "replicate 4096 0"] show ?thesis
      by (simp add: entry_def read_volatile_def m')
  qed
qed

section \<open>Entries\<close>

lemma and_push_bit_eq_0:
  assumes "n < 64"
  shows "(v :: u64) AND push_bit n 1 = 0 \<longleftrightarrow> \<not> bit v n"
proof
  assume "v AND push_bit n 1 = 0"
  then have "\<not> bit (v AND push_bit n 1) n" by simp
  then show "\<not> bit v n" using assms by (simp only: bit_and_iff bit_push_bit_iff bit_1_iff) simp
next
  assume n: "\<not> bit v n"
  show "v AND push_bit n 1 = 0"
  proof (rule bit_word_eqI)
    fix k
    have "bit (push_bit n (1 :: u64)) k \<Longrightarrow> k = n" by (auto simp only: bit_push_bit_iff bit_1_iff)
    with n show "bit (v AND push_bit n 1) k = bit 0 k" by (auto simp: bit_and_iff simp del: push_bit_of_1)
  qed
qed

definition present :: "u64 \<Rightarrow> bool" where
  "present v \<longleftrightarrow> v AND PTE_PRESENT \<noteq> 0"

text \<open>An entry of an upper level that leads to a user table.\<close>

definition links :: "u64 \<Rightarrow> bool" where
  "links v \<longleftrightarrow> v AND PTE_PRESENT \<noteq> 0 \<and> v AND PTE_USER \<noteq> 0 \<and> v AND push_bit 7 1 = 0"

definition target :: "u64 \<Rightarrow> u64" where
  "target v = v AND ADDRESS_MASK"

lemma present_bit: "present v \<longleftrightarrow> bit v 0"
proof -
  have "v AND push_bit 0 1 = 0 \<longleftrightarrow> \<not> bit v 0" by (rule and_push_bit_eq_0) simp
  then show ?thesis by (simp only: present_def PTE_PRESENT_def not_not)
qed

lemma links_bits: "links v \<longleftrightarrow> bit v 0 \<and> bit v 2 \<and> \<not> bit v 7"
proof -
  have b: "v AND push_bit 0 1 = 0 \<longleftrightarrow> \<not> bit v 0" "v AND push_bit 2 1 = 0 \<longleftrightarrow> \<not> bit v 2"
      "v AND push_bit 7 1 = 0 \<longleftrightarrow> \<not> bit v 7"
    by (rule and_push_bit_eq_0, simp)+
  then show ?thesis by (simp only: links_def PTE_PRESENT_def PTE_USER_def not_not)
qed

lemma bit_ADDRESS_MASK: "bit ADDRESS_MASK n \<longleftrightarrow> 12 \<le> n \<and> n < 52"
proof -
  have eq: "ADDRESS_MASK = mask 52 AND NOT (mask 12)"
    by (simp add: ADDRESS_MASK_def mask_eq_exp_minus_1)
  show ?thesis unfolding eq by (auto simp: bit_simps)
qed

lemma bit_table:
  assumes "is_table f" "bit f n"
  shows "12 \<le> n" "n < 24"
proof -
  have "unat f = unat f div 4096 * 4096" using assms(1) by (simp add: is_table_def)
  then have "f = f AND NOT (mask 12)" using unat_and_not_mask [of f 12] by (simp add: word_unat_eq_iff)
  then have "bit (f AND NOT (mask 12)) n" using assms(2) by simp
  then show "12 \<le> n" by (auto simp: bit_simps)
  have "f = take_bit 24 f"
    using assms(1) by (simp add: word_unat_eq_iff unsigned_take_bit_eq take_bit_nat_eq_self is_table_def)
  then have "bit (take_bit 24 f) n" using assms(2) by simp
  then show "n < 24" by (simp add: bit_simps)
qed

lemma bit_push_one: "k < 64 \<Longrightarrow> bit (push_bit k (1 :: u64)) n \<longleftrightarrow> n = k"
  by (auto simp: bit_push_bit_iff bit_1_iff simp del: push_bit_of_1)

lemma pte_bits:
  "bit PTE_PRESENT n \<longleftrightarrow> n = 0" "bit PTE_WRITABLE n \<longleftrightarrow> n = 1" "bit PTE_USER n \<longleftrightarrow> n = 2" "bit PTE_NX n \<longleftrightarrow> n = 63"
  unfolding PTE_PRESENT_def PTE_WRITABLE_def PTE_USER_def PTE_NX_def
  by (rule bit_push_one, simp)+

lemma target_table_entry:
  assumes "is_table f"
  shows "target (f OR PTE_PRESENT OR PTE_WRITABLE OR PTE_USER) = f"
    "links (f OR PTE_PRESENT OR PTE_WRITABLE OR PTE_USER)"
proof -
  show "target (f OR PTE_PRESENT OR PTE_WRITABLE OR PTE_USER) = f"
  proof (rule bit_word_eqI)
    fix n assume "n < LENGTH(64)"
    show "bit (target (f OR PTE_PRESENT OR PTE_WRITABLE OR PTE_USER)) n = bit f n"
      using bit_table [OF assms, of n]
      by (auto simp: target_def bit_and_iff bit_or_iff bit_ADDRESS_MASK pte_bits)
  qed
  show "links (f OR PTE_PRESENT OR PTE_WRITABLE OR PTE_USER)"
    using bit_table [OF assms, of 7]
    by (auto simp: links_bits bit_or_iff pte_bits)
qed

section \<open>Translation\<close>

text \<open>What the processor does with an address in user mode: the walk and the leaf entry it finds.\<close>

fun user_walk :: "u64 list \<Rightarrow> u64 \<Rightarrow> machine \<Rightarrow> u64 option" where
  "user_walk [] t m = Some t"
| "user_walk (i # is) t m = (if links (entry m t i) then user_walk is (target (entry m t i)) m else None)"

definition mmu_lookup :: "machine \<Rightarrow> u64 \<Rightarrow> usize \<Rightarrow> u64 option" where
  "mmu_lookup m root va =
     (case user_walk (take 3 (table_indices va)) root m of
        None \<Rightarrow> None
      | Some t \<Rightarrow>
          let e = entry m t (table_indices va ! 3) in if present e then Some e else None)"

text \<open>The tables for a page exist, whether or not the page is mapped.\<close>

definition has_tables :: "machine \<Rightarrow> u64 \<Rightarrow> usize \<Rightarrow> bool" where
  "has_tables m root va \<longleftrightarrow> user_walk (take 3 (table_indices va)) root m \<noteq> None"

lemma lookup_has_tables: "mmu_lookup m root va = Some e \<Longrightarrow> has_tables m root va"
  by (auto simp: mmu_lookup_def has_tables_def split: option.splits)

text \<open>
  The tables of a user address space form a tree: \<open>lvl\<close> gives the level of a table page, 4 for the
  root and 0 for a page that is no table, and no two links lead to the same table.
\<close>

definition pt_ok :: "u64 \<Rightarrow> (u64 \<Rightarrow> nat) \<Rightarrow> machine \<Rightarrow> bool" where
  "pt_ok root lvl m \<longleftrightarrow>
     mc_direct_map_ready m \<and> lvl root = 4 \<and> (\<forall>t. lvl t \<noteq> 0 \<longrightarrow> is_table t) \<and>
     (\<forall>t i. 1 < lvl t \<longrightarrow> unat i < 512 \<longrightarrow> links (entry m t i) \<longrightarrow>
        lvl (target (entry m t i)) = lvl t - 1) \<and>
     (\<forall>t i u j. 1 < lvl t \<longrightarrow> 1 < lvl u \<longrightarrow> unat i < 512 \<longrightarrow> unat j < 512 \<longrightarrow>
        links (entry m t i) \<longrightarrow> links (entry m u j) \<longrightarrow>
        target (entry m t i) = target (entry m u j) \<longrightarrow> t = u \<and> i = j)"

text \<open>A later state of the tables in which only new tables have been linked in.\<close>

definition pt_ext :: "(u64 \<Rightarrow> nat) \<Rightarrow> machine \<Rightarrow> (u64 \<Rightarrow> nat) \<Rightarrow> machine \<Rightarrow> bool" where
  "pt_ext lvl m lvl' m' \<longleftrightarrow>
     (\<forall>t. lvl t \<noteq> 0 \<longrightarrow> lvl' t = lvl t) \<and>
     (\<forall>t i. lvl t \<noteq> 0 \<longrightarrow> unat i < 512 \<longrightarrow> links (entry m t i) \<or> lvl t = 1 \<longrightarrow> entry m' t i = entry m t i) \<and>
     (\<forall>t i. unat i < 512 \<longrightarrow> lvl' t \<noteq> 0 \<longrightarrow> lvl' t \<noteq> 1 \<longrightarrow> links (entry m' t i) \<longrightarrow>
        (lvl t \<noteq> 0 \<and> entry m' t i = entry m t i) \<or> lvl (target (entry m' t i)) = 0) \<and>
     (\<forall>t i. lvl t = 0 \<longrightarrow> lvl' t = 1 \<longrightarrow> unat i < 512 \<longrightarrow> \<not> present (entry m' t i))"

lemma pt_ext_refl: "pt_ext lvl m lvl m"
  by (auto simp: pt_ext_def)

lemma unat_index: "unat ((v :: u64) AND 0x1ff) < 512"
proof -
  have "v AND 0x1ff = take_bit 9 v" by (simp add: take_bit_eq_mask mask_eq_exp_minus_1)
  then have "unat (v AND 0x1ff) = unat v mod 512"
    by (simp add: take_bit_eq_mod unat_mod)
  then show ?thesis by simp
qed

lemma table_indices_lt: "i \<in> set (table_indices va) \<Longrightarrow> unat i < 512"
  using unat_index by (auto simp: table_indices_def)

lemma pt_okD:
  assumes "pt_ok root lvl m"
  shows "mc_direct_map_ready m" "lvl root = 4" "lvl t \<noteq> 0 \<Longrightarrow> is_table t"
    "1 < lvl t \<Longrightarrow> unat i < 512 \<Longrightarrow> links (entry m t i) \<Longrightarrow> lvl (target (entry m t i)) = lvl t - 1"
    "1 < lvl t \<Longrightarrow> 1 < lvl u \<Longrightarrow> unat i < 512 \<Longrightarrow> unat j < 512 \<Longrightarrow> links (entry m t i) \<Longrightarrow>
       links (entry m u j) \<Longrightarrow> target (entry m t i) = target (entry m u j) \<Longrightarrow> t = u \<and> i = j"
  using assms unfolding pt_ok_def by blast+

lemma user_walk_level:
  assumes "pt_ok root lvl m" "lvl t = length is + 1" "\<forall>i\<in>set is. unat i < 512" "user_walk is t m = Some u"
  shows "lvl u = 1"
  using assms(2-4)
proof (induction "is" arbitrary: t)
  case Nil
  then show ?case by simp
next
  case (Cons i "is")
  then have l: "links (entry m t i)" "user_walk is (target (entry m t i)) m = Some u"
    by (simp_all split: if_splits)
  have "lvl (target (entry m t i)) = length is + 1"
    using pt_okD(4) [OF assms(1), of t i] l(1) Cons.prems by simp
  from Cons.IH [OF this _ l(2)] Cons.prems(2) show ?case by simp
qed

text \<open>Two walks of the same length that end in the same table are the same.\<close>

lemma user_walk_inj:
  assumes ok: "pt_ok root lvl m"
  shows "lvl t = length is + 1 \<Longrightarrow> length js = length is \<Longrightarrow> \<forall>i\<in>set is \<union> set js. unat i < 512 \<Longrightarrow>
    user_walk is t m = Some u \<Longrightarrow> user_walk js t' m = Some u \<Longrightarrow> lvl t' = length is + 1 \<Longrightarrow> t' = t \<and> js = is"
proof (induction "is" arbitrary: js t t')
  case Nil
  then show ?case by simp
next
  case (Cons i "is")
  then obtain j js' where js: "js = j # js'" by (cases js) auto
  with Cons.prems have l: "links (entry m t i)" "user_walk is (target (entry m t i)) m = Some u"
      "links (entry m t' j)" "user_walk js' (target (entry m t' j)) m = Some u"
      "unat i < 512" "unat j < 512" "1 < lvl t" "1 < lvl t'"
    by (simp_all split: if_splits)
  have lv: "lvl (target (entry m t i)) = length is + 1" "lvl (target (entry m t' j)) = length is + 1"
    using pt_okD(4) [OF ok] l Cons.prems(1,6) by simp_all
  have "target (entry m t' j) = target (entry m t i) \<and> js' = is"
    by (rule Cons.IH [OF lv(1) _ _ l(2) l(4) lv(2)]) (use Cons.prems js in auto)
  moreover from this have "t = t' \<and> i = j"
    using pt_okD(5) [OF ok l(7) l(8) l(5) l(6) l(1) l(3)] by simp
  ultimately show ?case by (simp add: js)
qed

lemma pt_extD:
  assumes "pt_ext lvl m lvl' m'"
  shows "lvl t \<noteq> 0 \<Longrightarrow> lvl' t = lvl t"
    "lvl t \<noteq> 0 \<Longrightarrow> unat i < 512 \<Longrightarrow> links (entry m t i) \<or> lvl t = 1 \<Longrightarrow> entry m' t i = entry m t i"
    "unat i < 512 \<Longrightarrow> lvl' t \<noteq> 0 \<Longrightarrow> lvl' t \<noteq> 1 \<Longrightarrow> links (entry m' t i) \<Longrightarrow>
       (lvl t \<noteq> 0 \<and> entry m' t i = entry m t i) \<or> lvl (target (entry m' t i)) = 0"
    "lvl t = 0 \<Longrightarrow> lvl' t = 1 \<Longrightarrow> unat i < 512 \<Longrightarrow> \<not> present (entry m' t i)"
proof -
  note e = assms [unfolded pt_ext_def]
  note e1 = conjunct1 [OF e] and e2 = conjunct1 [OF conjunct2 [OF e]]
  note e3 = conjunct1 [OF conjunct2 [OF conjunct2 [OF e]]] and e4 = conjunct2 [OF conjunct2 [OF conjunct2 [OF e]]]
  show "lvl t \<noteq> 0 \<Longrightarrow> lvl' t = lvl t" by (rule e1 [rule_format])
  show "lvl t \<noteq> 0 \<Longrightarrow> unat i < 512 \<Longrightarrow> links (entry m t i) \<or> lvl t = 1 \<Longrightarrow> entry m' t i = entry m t i"
    using e2 by blast
  show "unat i < 512 \<Longrightarrow> lvl' t \<noteq> 0 \<Longrightarrow> lvl' t \<noteq> 1 \<Longrightarrow> links (entry m' t i) \<Longrightarrow>
       (lvl t \<noteq> 0 \<and> entry m' t i = entry m t i) \<or> lvl (target (entry m' t i)) = 0"
    by (rule e3 [THEN spec, THEN spec, THEN mp, THEN mp, THEN mp, THEN mp])
  show "lvl t = 0 \<Longrightarrow> lvl' t = 1 \<Longrightarrow> unat i < 512 \<Longrightarrow> \<not> present (entry m' t i)"
    using e4 by blast
qed

lemma pt_ext_trans:
  assumes a: "pt_ext l0 m0 l1 m1" and b: "pt_ext l1 m1 l2 m2"
  shows "pt_ext l0 m0 l2 m2"
  unfolding pt_ext_def
proof (intro conjI allI impI)
  fix t assume "l0 t \<noteq> 0"
  then show "l2 t = l0 t" using pt_extD(1) [OF a, of t] pt_extD(1) [OF b, of t] by simp
next
  fix t i assume *: "l0 t \<noteq> 0" "unat i < 512" "links (entry m0 t i) \<or> l0 t = 1"
  have "entry m1 t i = entry m0 t i" by (rule pt_extD(2) [OF a *])
  with * show "entry m2 t i = entry m0 t i"
    using pt_extD(2) [OF b, of t i] pt_extD(1) [OF a *(1)] by simp
next
  fix t i assume *: "unat i < 512" "l2 t \<noteq> 0" "l2 t \<noteq> 1" "links (entry m2 t i)"
  have new: "l0 x = 0" if "l1 x = 0" for x using pt_extD(1) [OF a, of x] that by fastforce
  from pt_extD(3) [OF b *] show "(l0 t \<noteq> 0 \<and> entry m2 t i = entry m0 t i) \<or> l0 (target (entry m2 t i)) = 0"
  proof
    assume o: "l1 t \<noteq> 0 \<and> entry m2 t i = entry m1 t i"
    then have "l1 t = l2 t" using pt_extD(1) [OF b, of t] by simp
    with o * have "(l0 t \<noteq> 0 \<and> entry m1 t i = entry m0 t i) \<or> l0 (target (entry m1 t i)) = 0"
      by (intro pt_extD(3) [OF a]) simp_all
    with o show ?thesis by simp
  qed (simp add: new)
next
  fix t and i :: u64 assume *: "l0 t = 0" "l2 t = 1" "unat i < 512"
  show "\<not> present (entry m2 t i)"
  proof (cases "l1 t = 0")
    case True
    from pt_extD(4) [OF b True *(2,3)] show ?thesis .
  next
    case False
    then have "l1 t = 1" using pt_extD(1) [OF b, of t] *(2) by simp
    then show ?thesis
      using pt_extD(4) [OF a *(1) _ *(3)] pt_extD(2) [OF b False *(3)] by simp
  qed
qed

lemma walk_new:
  assumes ok: "pt_ok root lvl' m'" and ext: "pt_ext lvl m lvl' m'"
  shows "lvl t = 0 \<Longrightarrow> lvl' t = length is + 1 \<Longrightarrow> \<forall>i\<in>set is. unat i < 512 \<Longrightarrow>
    user_walk is t m' = Some u \<Longrightarrow> lvl u = 0 \<and> lvl' u = 1"
proof (induction "is" arbitrary: t)
  case Nil
  then show ?case by simp
next
  case (Cons i "is")
  then have l: "links (entry m' t i)" "user_walk is (target (entry m' t i)) m' = Some u" "unat i < 512"
    by (simp_all split: if_splits)
  have "lvl (target (entry m' t i)) = 0"
    using pt_extD(3) [OF ext l(3) _ _ l(1)] Cons.prems(1,2) by simp
  moreover have "lvl' (target (entry m' t i)) = length is + 1"
    using pt_okD(4) [OF ok _ l(3) l(1)] Cons.prems(2) by simp
  ultimately show ?case using Cons.IH l(2) Cons.prems(3) by simp
qed

lemma walk_ext:
  assumes ok: "pt_ok root lvl m" "pt_ok root lvl' m'" and ext: "pt_ext lvl m lvl' m'"
  shows "lvl t = length is + 1 \<Longrightarrow> \<forall>i\<in>set is. unat i < 512 \<Longrightarrow>
    (user_walk is t m = Some u \<longrightarrow> user_walk is t m' = Some u) \<and>
    (user_walk is t m' = Some u \<longrightarrow> user_walk is t m = Some u \<or> lvl u = 0 \<and> lvl' u = 1)"
proof (induction "is" arbitrary: t)
  case Nil
  then show ?case by simp
next
  case (Cons i "is")
  have i: "unat i < 512" and L: "lvl' t = lvl t" "1 < lvl t"
    using Cons.prems pt_extD(1) [OF ext, of t] by simp_all
  show ?case
  proof (cases "links (entry m t i)")
    case True
    then have same: "entry m' t i = entry m t i"
      using pt_extD(2) [OF ext _ i, of t] Cons.prems(1) by simp
    have "lvl (target (entry m t i)) = length is + 1"
      using pt_okD(4) [OF ok(1) _ i True] Cons.prems(1) by simp
    from Cons.IH [OF this] Cons.prems(2) True same show ?thesis by simp
  next
    case False
    show ?thesis
    proof (cases "links (entry m' t i)")
      case l: True
      then have "entry m' t i \<noteq> entry m t i" using False by metis
      then have new: "lvl (target (entry m' t i)) = 0"
        using pt_extD(3) [OF ext i _ _ l] L by linarith
      have "lvl' (target (entry m' t i)) = length is + 1"
        using pt_okD(4) [OF ok(2) _ i l] L Cons.prems(1) by simp
      from walk_new [OF ok(2) ext new this] Cons.prems(2)
      have "user_walk is (target (entry m' t i)) m' = Some u \<longrightarrow> lvl u = 0 \<and> lvl' u = 1" by simp
      then show ?thesis by (simp add: False)
    qed (use False in simp)
  qed
qed

lemma indices_ok:
  "length (take 3 (table_indices va)) = 3" "\<forall>i\<in>set (take 3 (table_indices va)). unat i < 512"
  "unat (table_indices va ! 3) < 512"
  using unat_index by (auto simp: table_indices_def)

text \<open>Adding empty tables does not change any translation.\<close>

lemma ext_lookup:
  assumes ok: "pt_ok root lvl m" "pt_ok root lvl' m'" and ext: "pt_ext lvl m lvl' m'"
  shows "mmu_lookup m' root va = mmu_lookup m root va" "has_tables m root va \<Longrightarrow> has_tables m' root va"
proof -
  let ?is = "take 3 (table_indices va)"
  have L: "lvl root = length ?is + 1" using pt_okD(2) [OF ok(1)] indices_ok(1) by simp
  note w = walk_ext [OF ok ext L indices_ok(2)]
  show "has_tables m root va \<Longrightarrow> has_tables m' root va" using w by (auto simp: has_tables_def)
  show "mmu_lookup m' root va = mmu_lookup m root va"
  proof (cases "user_walk ?is root m")
    case (Some t)
    then have "user_walk ?is root m' = Some t" using w by blast
    moreover have "lvl t = 1" by (rule user_walk_level [OF ok(1) L indices_ok(2) Some])
    then have "entry m' t (table_indices va ! 3) = entry m t (table_indices va ! 3)"
      using pt_extD(2) [OF ext _ indices_ok(3)] by simp
    ultimately show ?thesis using Some by (simp add: mmu_lookup_def)
  next
    case None
    show ?thesis
    proof (cases "user_walk ?is root m'")
      case (Some u)
      with w None have "lvl u = 0 \<and> lvl' u = 1" by (metis option.distinct(1))
      with Some None pt_extD(4) [OF ext _ _ indices_ok(3)] show ?thesis by (simp add: mmu_lookup_def)
    qed (simp add: mmu_lookup_def None)
  qed
qed

lemma pt_ok_cong:
  assumes ok: "pt_ok root lvl m" and "mc_direct_map_ready m'"
    and e: "\<And>u j. 1 < lvl u \<Longrightarrow> unat j < 512 \<Longrightarrow> entry m' u j = entry m u j"
  shows "pt_ok root lvl m'"
  unfolding pt_ok_def
proof (intro conjI allI impI)
  show "mc_direct_map_ready m'" "lvl root = 4" using pt_okD(2) [OF ok] assms(2) by simp_all
  show "is_table u" if "lvl u \<noteq> 0" for u using pt_okD(3) [OF ok that] .
  show "lvl (target (entry m' u j)) = lvl u - 1" if "1 < lvl u" "unat j < 512" "links (entry m' u j)" for u j
    using pt_okD(4) [OF ok that(1,2)] that e [of u j] by simp
  fix u j v k
  assume *: "1 < lvl u" "1 < lvl v" "unat j < 512" "unat k < 512" "links (entry m' u j)"
    "links (entry m' v k)" "target (entry m' u j) = target (entry m' v k)"
  show "u = v" "j = k" using pt_okD(5) [OF ok *(1-4)] * e [of u j] e [of v k] by simp_all
qed

lemma walk_unchanged:
  assumes ok: "pt_ok root lvl m" and e: "\<And>u j. 1 < lvl u \<Longrightarrow> unat j < 512 \<Longrightarrow> entry m' u j = entry m u j"
  shows "lvl t = length is + 1 \<Longrightarrow> \<forall>i\<in>set is. unat i < 512 \<Longrightarrow> user_walk is t m' = user_walk is t m"
proof (induction "is" arbitrary: t)
  case Nil
  then show ?case by simp
next
  case (Cons i "is")
  then have i: "1 < lvl t" "unat i < 512" by simp_all
  show ?case
  proof (cases "links (entry m t i)")
    case True
    have "lvl (target (entry m t i)) = length is + 1" using pt_okD(4) [OF ok i True] Cons.prems(1) by simp
    with Cons.IH Cons.prems(2) e [OF i] show ?thesis by simp
  qed (simp add: e [OF i])
qed

text \<open>A change of memory that leaves the tables alone changes no translation.\<close>

lemma lookup_cong:
  assumes ok: "pt_ok root lvl m" and "mc_direct_map_ready m'"
    and e: "\<And>u j. lvl u \<noteq> 0 \<Longrightarrow> unat j < 512 \<Longrightarrow> entry m' u j = entry m u j"
  shows "pt_ok root lvl m'" "mmu_lookup m' root va = mmu_lookup m root va" "has_tables m' root va = has_tables m root va"
proof -
  show ok': "pt_ok root lvl m'" by (rule pt_ok_cong [OF ok assms(2)]) (simp add: e)
  have L: "lvl root = length (take 3 (table_indices va)) + 1" using pt_okD(2) [OF ok] indices_ok(1) by simp
  show "has_tables m' root va = has_tables m root va"
    using walk_unchanged [OF ok _ L indices_ok(2), of m'] e by (simp add: has_tables_def)
  have "pt_ext lvl m lvl m'" using e by (simp add: pt_ext_def)
  then show "mmu_lookup m' root va = mmu_lookup m root va" by (rule ext_lookup(1) [OF ok ok'])
qed

section \<open>Creating tables\<close>

lemma machine_alloc_spec:
  assumes "frame_sys_inv R X (mc_frames m, H)" "machine_alloc m = (res, m')"
  shows "frame_sys_inv R X (mc_frames m', case res of None \<Rightarrow> H | Some f \<Rightarrow> insert f H)"
    "mc_bytes m' = mc_bytes m" "mc_direct_map_ready m' = mc_direct_map_ready m" "mc_cr3 m' = mc_cr3 m"
    "res = Some f \<Longrightarrow> f \<notin> H \<and> 4096 dvd unat f"
proof -
  obtain st where a: "alloc_frame (mc_frames m) = (res, st)" "m' = m\<lparr>mc_frames := st\<rparr>"
    using assms(2) by (cases "alloc_frame (mc_frames m)") (simp add: machine_alloc_def)
  from alloc_frame_spec [OF assms(1) a(1)] show "frame_sys_inv R X (mc_frames m', case res of None \<Rightarrow> H | Some f \<Rightarrow> insert f H)"
      "res = Some f \<Longrightarrow> f \<notin> H \<and> 4096 dvd unat f"
    by (simp_all add: a(2) frame_ok_def)
  show "mc_bytes m' = mc_bytes m" "mc_direct_map_ready m' = mc_direct_map_ready m" "mc_cr3 m' = mc_cr3 m"
    by (simp_all add: a(2))
qed

lemma machine_free_spec:
  assumes "frame_sys_inv R X (mc_frames m, H)" "f \<in> H" "machine_free f m = (ok, m')"
  shows "frame_sys_inv R X (mc_frames m', H - {f})"
    "mc_bytes m' = mc_bytes m" "mc_direct_map_ready m' = mc_direct_map_ready m" "mc_cr3 m' = mc_cr3 m"
proof -
  obtain st where a: "free_frame f (mc_frames m) = (ok, st)" "m' = m\<lparr>mc_frames := st\<rparr>"
    using assms(3) by (cases "free_frame f (mc_frames m)") (simp add: machine_free_def)
  from free_frame_inv [OF assms(1,2) a(1)] show "frame_sys_inv R X (mc_frames m', H - {f})"
    by (simp add: a(2))
  show "mc_bytes m' = mc_bytes m" "mc_direct_map_ready m' = mc_direct_map_ready m" "mc_cr3 m' = mc_cr3 m"
    by (simp_all add: a(2))
qed

lemma zero_page_frames:
  "zero_physical_page f m = (ok, m') \<Longrightarrow> mc_frames m' = mc_frames m \<and>
    mc_direct_map_ready m' = mc_direct_map_ready m \<and> mc_cr3 m' = mc_cr3 m \<and> (\<not> ok \<longrightarrow> m' = m)"
  by (auto simp: zero_physical_page_def split: option.splits)

lemma zero_page_table: "zero_physical_page f m = (True, m') \<Longrightarrow> 4096 dvd unat f \<Longrightarrow> is_table f"
  by (auto simp: zero_physical_page_def direct_map_ptr_def is_table_def word_le_nat_alt kernel_defs not_le
      split: option.splits if_splits)

text \<open>The recorded table frames only gain frames that were not held before.\<close>

definition tables_grow :: "table_frames \<Rightarrow> u64 set \<Rightarrow> table_frames \<Rightarrow> u64 set \<Rightarrow> bool" where
  "tables_grow tables H tables' H' \<longleftrightarrow>
     length tables' = length tables \<and> H \<subseteq> H' \<and> set (flatten tables) \<subseteq> set (flatten tables') \<and>
     set (flatten tables') \<subseteq> set (flatten tables) \<union> (H' - H) \<and>
     (distinct (flatten tables) \<longrightarrow> set (flatten tables) \<subseteq> H \<longrightarrow> distinct (flatten tables'))"

lemma tables_grow_refl: "H \<subseteq> H' \<Longrightarrow> tables_grow tables H tables H'"
  by (auto simp: tables_grow_def)

lemma tables_grow_trans:
  assumes a: "tables_grow t0 H0 t1 H1" and b: "tables_grow t1 H1 t2 H2"
  shows "tables_grow t0 H0 t2 H2"
proof -
  have "distinct (flatten t2)" if "distinct (flatten t0)" "set (flatten t0) \<subseteq> H0"
    using a b that unfolding tables_grow_def by blast
  moreover have "set (flatten t2) \<subseteq> set (flatten t0) \<union> (H2 - H0)"
    using a b unfolding tables_grow_def by blast
  ultimately show ?thesis using a b unfolding tables_grow_def by auto
qed

lemma flatten_insert:
  assumes "position is_none xs = Some i"
  shows "set (flatten (xs[i := Some x])) = insert x (set (flatten xs))"
    "distinct (flatten xs) \<Longrightarrow> x \<notin> set (flatten xs) \<Longrightarrow> distinct (flatten (xs[i := Some x]))"
  using assms
proof (induction xs arbitrary: i)
  case Nil
  { case 1 then show ?case by simp next case 2 then show ?case by simp }
next
  case (Cons y xs)
  { case 1 with Cons.IH(1) show ?case by (cases y) (auto split: option.splits)
  next case 2 with Cons.IH show ?case by (cases y) (auto split: option.splits) }
qed

lemma allocate_user_table_spec:
  assumes inv: "frame_sys_inv R X (mc_frames m, H)" and a: "allocate_user_table tables m = (res, tables', m')"
  shows "\<exists>H'. frame_sys_inv R X (mc_frames m', H') \<and> tables_grow tables H tables' H' \<and>
    mc_direct_map_ready m' = mc_direct_map_ready m \<and> mc_cr3 m' = mc_cr3 m \<and>
    (\<forall>u j. u \<in> H \<or> u \<notin> H' \<longrightarrow> is_table u \<longrightarrow> unat j < 512 \<longrightarrow> entry m' u j = entry m u j) \<and>
    (\<forall>f. res = Some f \<longrightarrow> f \<in> H' \<and> f \<notin> H \<and> is_table f \<and> (\<forall>j. unat j < 512 \<longrightarrow> entry m' f j = 0))"
proof -
  obtain r1 m1 where a1: "machine_alloc m = (r1, m1)" by fastforce
  note s1 = machine_alloc_spec [OF inv a1]
  have e1: "entry m1 u j = entry m u j" for u j
    by (simp add: entry_def read_volatile_def s1(2))
  show ?thesis
  proof (cases r1)
    case None
    with a a1 s1 e1 show ?thesis
      by (intro exI [of _ H]) (simp add: allocate_user_table_def tables_grow_refl)
  next
    case (Some f)
    have f: "f \<notin> H" "4096 dvd unat f" using s1(5) [OF Some] by simp_all
    have inv1: "frame_sys_inv R X (mc_frames m1, insert f H)" using s1(1) Some by simp
    obtain ok m2 where z: "zero_physical_page f m1 = (ok, m2)" by fastforce
    note z' = zero_page_frames [OF z]
    show ?thesis
    proof (cases ok)
      case False
      with z' have m2: "m2 = m1" by simp
      obtain ok2 m3 where fr: "machine_free f m1 = (ok2, m3)" by fastforce
      note s3 = machine_free_spec [OF inv1 _ fr]
      have "insert f H - {f} = H" using f(1) by blast
      then have inv3: "frame_sys_inv R X (mc_frames m3, H)" using s3(1) by simp
      have r: "res = None" "tables' = tables" "m' = m3"
        using a a1 Some z False fr m2 by (simp_all add: allocate_user_table_def)
      have "entry m3 u j = entry m u j" for u j
        using e1 [of u j] s3(2) by (simp add: entry_def read_volatile_def)
      then show ?thesis
        using r inv3 s3(3,4) s1(3,4) by (intro exI [of _ H]) (simp add: tables_grow_refl)
    next
      case True
      with z have zt: "zero_physical_page f m1 = (True, m2)" by simp
      have tab: "is_table f" by (rule zero_page_table [OF zt f(2)])
      have e2: "entry m2 u j = (if u = f then 0 else entry m u j)" if "is_table u" "unat j < 512" for u j
        using entry_zero_page [OF zt tab that] e1 by simp
      have fr: "frame_sys_inv R X (mc_frames m2, insert f H)" using inv1 z' by simp
      have rdy: "mc_direct_map_ready m2 = mc_direct_map_ready m" "mc_cr3 m2 = mc_cr3 m" using z' s1(3,4) by simp_all
      have keep: "\<forall>u j. u \<in> H \<or> u \<notin> insert f H \<longrightarrow> is_table u \<longrightarrow> unat j < 512 \<longrightarrow> entry m2 u j = entry m u j"
        using e2 f(1) by auto
      show ?thesis
      proof (cases "position is_none tables")
        case None
        then have "res = None" "tables' = tables" "m' = m2"
          using a a1 Some z True by (simp_all add: allocate_user_table_def)
        with fr rdy keep show ?thesis
          by (intro exI [of _ "insert f H"]) (simp add: tables_grow_refl subset_insertI)
      next
        case pos: (Some slot)
        then have r: "res = Some f" "tables' = tables[slot := Some f]" "m' = m2"
          using a a1 Some z True by (auto simp: allocate_user_table_def)
        have "tables_grow tables H tables' (insert f H)"
          using flatten_insert [OF pos, of f] f(1) by (auto simp: tables_grow_def r(2))
        with r fr rdy keep tab f(1) e2 show ?thesis
          by (intro exI [of _ "insert f H"]) simp
      qed
    qed
  qed
qed

text \<open>Linking a fresh table into the tree.\<close>

lemma link_table:
  assumes ok: "pt_ok root lvl m" and t: "1 < lvl t" "unat i < 512" "\<not> links (entry m t i)"
    and f: "is_table f" "lvl f = 0"
    and rdy: "mc_direct_map_ready m1"
    and e1: "\<And>u j. lvl u \<noteq> 0 \<Longrightarrow> unat j < 512 \<Longrightarrow> entry m1 u j = entry m u j"
    and z: "\<And>j. unat j < 512 \<Longrightarrow> entry m1 f j = 0"
  defines "m2 \<equiv> write_volatile (entry_ptr t i) (f OR PTE_PRESENT OR PTE_WRITABLE OR PTE_USER) m1"
    and "lvl' \<equiv> lvl(f := lvl t - 1)"
  shows "pt_ok root lvl' m2" "pt_ext lvl m lvl' m2" "lvl' f = lvl t - 1"
    "links (entry m2 t i)" "target (entry m2 t i) = f"
proof -
  let ?E = "f OR PTE_PRESENT OR PTE_WRITABLE OR PTE_USER"
  note E = target_table_entry [OF f(1)]
  have tf: "t \<noteq> f" using t(1) f(2) by auto
  have tab: "is_table u" if "lvl' u \<noteq> 0" for u
    using that f(1) pt_okD(3) [OF ok, of u] by (auto simp: lvl'_def split: if_splits)
  have tt: "is_table t" using pt_okD(3) [OF ok, of t] t(1) by simp
  have ent: "entry m2 u j = (if u = t \<and> j = i then ?E else if u = f then 0 else entry m u j)"
    if "lvl' u \<noteq> 0" "unat j < 512" for u j
    using entry_write [OF tt t(2) tab [OF that(1)] that(2), of ?E m1] that e1 [of u j] z [of j]
    by (auto simp: m2_def lvl'_def split: if_splits)
  have z0: "\<not> links 0" "\<not> present 0" by (simp_all add: links_bits present_bit)
  have lt: "lvl' t = lvl t" "lvl' t \<noteq> 0" using tf t(1) by (simp_all add: lvl'_def)
  show "lvl' f = lvl t - 1" by (simp add: lvl'_def)
  show "links (entry m2 t i)" "target (entry m2 t i) = f" using ent [OF lt(2) t(2)] E by simp_all
  have old: "lvl u \<noteq> 0 \<and> lvl' u = lvl u \<and> entry m2 u j = entry m u j \<and> target (entry m u j) \<noteq> f \<and>
      lvl (target (entry m u j)) = lvl u - 1"
    if "1 < lvl' u" "unat j < 512" "links (entry m2 u j)" "\<not> (u = t \<and> j = i)" for u j
  proof -
    have "u \<noteq> f" using ent [OF _ that(2), of u] that(1,3,4) z0(1) by auto
    moreover from this have "lvl u = lvl' u" "entry m2 u j = entry m u j"
      using ent [OF _ that(2), of u] that(1,4) by (auto simp: lvl'_def)
    moreover from this have "lvl (target (entry m u j)) = lvl u - 1"
      using pt_okD(4) [OF ok, of u j] that by simp
    ultimately show ?thesis using that(1) f(2) by auto
  qed
  show "pt_ok root lvl' m2"
    unfolding pt_ok_def
  proof (intro conjI allI impI)
    show "mc_direct_map_ready m2" using rdy by (simp add: m2_def write_volatile_def)
    show "lvl' root = 4" using pt_okD(2) [OF ok] f(2) by (auto simp: lvl'_def)
  next
    fix u assume "lvl' u \<noteq> 0" then show "is_table u" by (rule tab)
  next
    fix u j assume *: "1 < lvl' u" "unat j < 512" "links (entry m2 u j)"
    show "lvl' (target (entry m2 u j)) = lvl' u - 1"
    proof (cases "u = t \<and> j = i")
      case True
      then show ?thesis using ent [OF lt(2) t(2)] E(1) lt(1) by (simp add: lvl'_def)
    next
      case False
      from old [OF * False] show ?thesis by (simp add: lvl'_def)
    qed
  next
    fix u j v k
    assume *: "1 < lvl' u" "1 < lvl' v" "unat j < 512" "unat k < 512" "links (entry m2 u j)"
      "links (entry m2 v k)" "target (entry m2 u j) = target (entry m2 v k)"
    have f_entry: "target (entry m2 t i) = f" using ent [OF lt(2) t(2)] E(1) by simp
    consider "u = t \<and> j = i" "v = t \<and> k = i" | "u = t \<and> j = i" "\<not> (v = t \<and> k = i)"
      | "\<not> (u = t \<and> j = i)" "v = t \<and> k = i" | "\<not> (u = t \<and> j = i)" "\<not> (v = t \<and> k = i)" by blast
    then have "u = v \<and> j = k"
    proof cases
      case 1
      then show ?thesis by simp
    next
      case 2
      with old [OF *(2,4,6)] f_entry *(7) show ?thesis by metis
    next
      case 3
      with old [OF *(1,3,5)] f_entry *(7) show ?thesis by metis
    next
      case 4
      note a = old [OF *(1,3,5) 4(1)] and b = old [OF *(2,4,6) 4(2)]
      show ?thesis
        by (rule pt_okD(5) [OF ok]) (use a b * in simp_all)
    qed
    then show "u = v" "j = k" by simp_all
  qed
  show "pt_ext lvl m lvl' m2"
    unfolding pt_ext_def
  proof (intro conjI allI impI)
    fix u assume "lvl u \<noteq> 0" then show "lvl' u = lvl u" using f(2) by (auto simp: lvl'_def)
  next
    fix u j assume *: "lvl u \<noteq> 0" "unat j < 512" "links (entry m u j) \<or> lvl u = 1"
    then have "lvl' u \<noteq> 0" "u \<noteq> f" using f(2) by (auto simp: lvl'_def)
    with ent [OF _ *(2), of u] *(3) t(1,3) show "entry m2 u j = entry m u j" by auto
  next
    fix u j assume *: "unat j < 512" "lvl' u \<noteq> 0" "lvl' u \<noteq> 1" "links (entry m2 u j)"
    show "(lvl u \<noteq> 0 \<and> entry m2 u j = entry m u j) \<or> lvl (target (entry m2 u j)) = 0"
    proof (cases "u = t \<and> j = i")
      case True
      then show ?thesis using ent [OF lt(2) t(2)] E(1) f(2) by simp
    next
      case False
      from old [OF _ *(1,4) False] *(2,3) show ?thesis by simp
    qed
  next
    fix u and j :: u64 assume *: "lvl u = 0" "lvl' u = 1" "unat j < 512"
    then have "u = f" by (auto simp: lvl'_def split: if_splits)
    with ent [OF _ *(3), of u] *(2) tf z0(2) show "\<not> present (entry m2 u j)" by auto
  qed
qed

lemma direct_map_table: "is_table f \<Longrightarrow> mc_direct_map_ready m \<Longrightarrow> direct_map_ptr f m = Some f"
  by (auto simp: direct_map_ptr_def is_table_def word_le_nat_alt kernel_defs)

lemma write_volatile_frames [simp]:
  "mc_frames (write_volatile a v m) = mc_frames m"
  "mc_direct_map_ready (write_volatile a v m) = mc_direct_map_ready m"
  "mc_cr3 (write_volatile a v m) = mc_cr3 m"
  by (simp_all add: write_volatile_def)

text \<open>Tables outside of a set of frames are as they were.\<close>

definition outside_same :: "u64 set \<Rightarrow> machine \<Rightarrow> machine \<Rightarrow> bool" where
  "outside_same H m m' \<longleftrightarrow> mc_cr3 m' = mc_cr3 m \<and>
     (\<forall>u j. is_table u \<longrightarrow> u \<notin> H \<longrightarrow> unat j < 512 \<longrightarrow> entry m' u j = entry m u j)"

lemma outside_same_refl: "outside_same H m m"
  by (simp add: outside_same_def)

lemma outside_same_trans:
  "outside_same H m0 m1 \<Longrightarrow> outside_same H' m1 m2 \<Longrightarrow> H \<subseteq> H' \<Longrightarrow> outside_same H' m0 m2"
  by (auto simp: outside_same_def)

lemma outside_same_write:
  assumes "is_table t" "unat i < 512" "t \<in> H"
  shows "outside_same H m (write_volatile (entry_ptr t i) v m)"
  using assms by (auto simp: outside_same_def entry_write)

definition tables_created ::
  "memory_region list \<Rightarrow> memory_region list \<Rightarrow> u64 \<Rightarrow> (u64 \<Rightarrow> nat) \<Rightarrow> machine \<Rightarrow> table_frames \<Rightarrow> u64 set \<Rightarrow>
   (u64 \<Rightarrow> nat) \<Rightarrow> machine \<Rightarrow> table_frames \<Rightarrow> u64 set \<Rightarrow> bool" where
  "tables_created R X root lvl m tables H lvl' m' tables' H' \<longleftrightarrow>
     pt_ok root lvl' m' \<and> pt_ext lvl m lvl' m' \<and> frame_sys_inv R X (mc_frames m', H') \<and>
     (\<forall>t. lvl' t \<noteq> 0 \<longrightarrow> t \<in> H' \<and> (lvl t \<noteq> 0 \<or> t \<in> set (flatten tables'))) \<and>
     tables_grow tables H tables' H' \<and> outside_same H' m m'"

lemma tables_created_trans:
  assumes a: "tables_created R X root l0 m0 t0 H0 l1 m1 t1 H1"
    and b: "tables_created R X root l1 m1 t1 H1 l2 m2 t2 H2"
  shows "tables_created R X root l0 m0 t0 H0 l2 m2 t2 H2"
proof -
  have "pt_ext l0 m0 l2 m2" "tables_grow t0 H0 t2 H2"
    using a b pt_ext_trans tables_grow_trans unfolding tables_created_def by blast+
  moreover have "set (flatten t1) \<subseteq> set (flatten t2)" "H1 \<subseteq> H2"
    using b unfolding tables_created_def tables_grow_def by blast+
  moreover from this have "outside_same H2 m0 m2"
    using a b outside_same_trans unfolding tables_created_def by blast
  ultimately show ?thesis using a b unfolding tables_created_def by blast
qed

text \<open>One missing table is created: what one round of the loop does to an entry that is not present.\<close>

lemma create_table:
  assumes ok: "pt_ok root lvl m" and inv: "frame_sys_inv R X (mc_frames m, H)"
    and held: "\<forall>t. lvl t \<noteq> 0 \<longrightarrow> t \<in> H" and t: "1 < lvl t" "unat i < 512" "\<not> present (entry m t i)"
    and a: "allocate_user_table tables m = (res, tables1, m1)"
  shows "\<exists>lvl' H'. (res = None \<longrightarrow> tables_created R X root lvl m tables H lvl' m1 tables1 H') \<and>
    (\<forall>f. res = Some f \<longrightarrow>
      (let m2 = write_volatile (entry_ptr t i) (f OR PTE_PRESENT OR PTE_WRITABLE OR PTE_USER) m1 in
       tables_created R X root lvl m tables H lvl' m2 tables1 H' \<and> lvl' f = lvl t - 1 \<and>
       links (entry m2 t i) \<and> target (entry m2 t i) = f \<and> direct_map_ptr f m2 = Some f))"
proof -
  from allocate_user_table_spec [OF inv a] obtain H' where
    H': "frame_sys_inv R X (mc_frames m1, H')" "tables_grow tables H tables1 H'"
      "mc_direct_map_ready m1 = mc_direct_map_ready m" "mc_cr3 m1 = mc_cr3 m"
      "\<And>u j. u \<in> H \<or> u \<notin> H' \<Longrightarrow> is_table u \<Longrightarrow> unat j < 512 \<Longrightarrow> entry m1 u j = entry m u j"
      "\<And>f. res = Some f \<Longrightarrow> f \<in> H' \<and> f \<notin> H \<and> is_table f \<and> (\<forall>j. unat j < 512 \<longrightarrow> entry m1 f j = 0)"
    by blast
  have e: "entry m1 u j = entry m u j" if "lvl u \<noteq> 0" "unat j < 512" for u j
    using H'(5) held pt_okD(3) [OF ok] that by blast
  have out: "outside_same H' m m1" using H'(4,5) by (simp add: outside_same_def)
  have sub: "H \<subseteq> H'" using H'(2) by (simp add: tables_grow_def)
  show ?thesis
  proof (cases res)
    case None
    have "pt_ok root lvl m1" using pt_ok_cong [OF ok] pt_okD(1) [OF ok] H'(3) e by simp
    moreover have "pt_ext lvl m lvl m1" using e by (simp add: pt_ext_def)
    ultimately have "tables_created R X root lvl m tables H lvl m1 tables1 H'"
      using H' held sub out unfolding tables_created_def by blast
    with None show ?thesis by blast
  next
    case (Some f)
    note f = H'(6) [OF Some]
    have f0: "lvl f = 0" using f held by blast
    have nl: "\<not> links (entry m t i)" using t(3) by (simp add: links_bits present_bit)
    have rdy: "mc_direct_map_ready m1" using pt_okD(1) [OF ok] H'(3) by simp
    define m2 where "m2 = write_volatile (entry_ptr t i) (f OR PTE_PRESENT OR PTE_WRITABLE OR PTE_USER) m1"
    note L = link_table [OF ok t(1,2) nl _ f0 rdy e, of, folded m2_def]
    have "is_table t" "t \<in> H'" using pt_okD(3) [OF ok, of t] held t(1) sub by auto
    then have out2: "outside_same H' m m2"
      using outside_same_trans [OF out outside_same_write [OF _ t(2)]] by (simp add: m2_def)
    have fl: "f \<in> set (flatten tables1)"
      using a Some by (auto simp: allocate_user_table_def flatten_insert(1) split: prod.splits option.splits bool.splits)
    have "pt_ok root (lvl(f := lvl t - 1)) m2" "pt_ext lvl m (lvl(f := lvl t - 1)) m2"
        "links (entry m2 t i)" "target (entry m2 t i) = f"
      using L f by blast+
    moreover from this have "tables_created R X root lvl m tables H (lvl(f := lvl t - 1)) m2 tables1 H'"
      using H'(1,2) f fl held sub out2 by (auto simp: tables_created_def m2_def)
    moreover have "direct_map_ptr f m2 = Some f"
      using direct_map_table f rdy by (simp add: m2_def)
    ultimately show ?thesis using Some
      by (intro exI [of _ "lvl(f := lvl t - 1)"] exI [of _ H']) (simp add: Let_def flip: m2_def)
  qed
qed

lemma entry_read: "read_volatile (entry_ptr t i) m = entry m t i"
  by (simp add: entry_def)

lemma map_tables_spec:
  assumes "pt_ok root lvl m" "frame_sys_inv R X (mc_frames m, H)" "\<forall>t. lvl t \<noteq> 0 \<longrightarrow> t \<in> H"
    and "lvl t = length is + 1" "\<forall>i\<in>set is. unat i < 512" "map_tables is t tables m = (res, tables', m')"
  shows "\<exists>lvl' H'. tables_created R X root lvl m tables H lvl' m' tables' H' \<and>
    (\<forall>u. res = Some u \<longrightarrow> lvl' u = 1 \<and> user_walk is t m' = Some u)"
  using assms
proof (induction "is" arbitrary: t tables m lvl H)
  case Nil
  then have "tables_created R X root lvl m tables H lvl m' tables' H"
    by (simp add: tables_created_def pt_ext_refl tables_grow_refl outside_same_refl)
  with Nil show ?case by auto
next
  case (Cons i "is")
  note ok = Cons.prems(1) and inv = Cons.prems(2) and held = Cons.prems(3)
  have i: "unat i < 512" "1 < lvl t" "\<forall>i\<in>set is. unat i < 512" using Cons.prems(4,5) by simp_all
  note eq = Cons.prems(6) [unfolded map_tables.simps Let_def entry_read]
  have stop: "\<exists>lvl' H'. tables_created R X root lvl m tables H lvl' m' tables' H' \<and>
      (\<forall>u. res = Some u \<longrightarrow> lvl' u = 1 \<and> user_walk (i # is) t m' = Some u)"
    if "res = None" "tables' = tables" "m' = m"
    using that ok inv held
    by (intro exI [of _ lvl] exI [of _ H]) (simp add: tables_created_def pt_ext_refl tables_grow_refl outside_same_refl)
  have goon: "\<exists>lvl' H'. tables_created R X root lvl m tables H lvl' m' tables' H' \<and>
      (\<forall>u. res = Some u \<longrightarrow> lvl' u = 1 \<and> user_walk (i # is) t m' = Some u)"
    if c: "tables_created R X root lvl m tables H l1 m1 t1 H1"
      and l: "links (entry m1 t i)" "target (entry m1 t i) = v" "l1 v = length is + 1"
      and r: "map_tables is v t1 m1 = (res, tables', m')" for l1 m1 t1 H1 v
  proof -
    have c': "pt_ok root l1 m1" "frame_sys_inv R X (mc_frames m1, H1)" "\<forall>t. l1 t \<noteq> 0 \<longrightarrow> t \<in> H1"
        "pt_ext lvl m l1 m1"
      using c unfolding tables_created_def by blast+
    from Cons.IH [OF c'(1-3) l(3) i(3) r] obtain l2 H2 where
      d: "tables_created R X root l1 m1 t1 H1 l2 m' tables' H2"
        "\<forall>u. res = Some u \<longrightarrow> l2 u = 1 \<and> user_walk is v m' = Some u" by blast
    have "l1 t \<noteq> 0" using pt_extD(1) [OF c'(4), of t] i(2) by simp
    moreover have "pt_ext l1 m1 l2 m'" using d(1) unfolding tables_created_def by blast
    ultimately have "entry m' t i = entry m1 t i" using pt_extD(2) [of l1 m1 l2 m' t i] i(1) l(1) by simp
    with d(2) l have "\<forall>u. res = Some u \<longrightarrow> l2 u = 1 \<and> user_walk (i # is) t m' = Some u" by simp
    with tables_created_trans [OF c d(1)] show ?thesis by blast
  qed
  show ?case
  proof (cases "entry m t i AND PTE_PRESENT = 0")
    case True
    then have np: "\<not> present (entry m t i)" by (simp add: present_def)
    obtain r1 t1 m1 where a: "allocate_user_table tables m = (r1, t1, m1)" by (metis prod_cases3)
    from create_table [OF ok inv held i(2,1) np a] obtain l1 H1 where
      c: "r1 = None \<longrightarrow> tables_created R X root lvl m tables H l1 m1 t1 H1"
        "\<And>f. r1 = Some f \<Longrightarrow>
          (let m2 = write_volatile (entry_ptr t i) (f OR PTE_PRESENT OR PTE_WRITABLE OR PTE_USER) m1 in
           tables_created R X root lvl m tables H l1 m2 t1 H1 \<and> l1 f = lvl t - 1 \<and>
           links (entry m2 t i) \<and> target (entry m2 t i) = f \<and> direct_map_ptr f m2 = Some f)"
      by blast
    show ?thesis
    proof (cases r1)
      case None
      with eq True a c(1) show ?thesis by auto
    next
      case (Some f)
      define m2 where "m2 = write_volatile (entry_ptr t i) (f OR PTE_PRESENT OR PTE_WRITABLE OR PTE_USER) m1"
      note d = c(2) [OF Some, unfolded Let_def, folded m2_def]
      have r: "map_tables is f t1 m2 = (res, tables', m')"
        using eq d by (simp add: True a Some flip: m2_def)
      have "l1 f = length is + 1" using d Cons.prems(4) by simp
      then show ?thesis using goon [OF _ _ _ _ r] d by blast
    qed
  next
    case False
    show ?thesis
    proof (cases "links (entry m t i)")
      case l: True
      have tl: "lvl (target (entry m t i)) = length is + 1"
        using pt_okD(4) [OF ok i(2,1) l] Cons.prems(4) by simp
      then have "direct_map_ptr (target (entry m t i)) m = Some (target (entry m t i))"
        using direct_map_table pt_okD(1,3) [OF ok] by simp
      with eq False l have r: "map_tables is (target (entry m t i)) tables m = (res, tables', m')"
        by (simp add: links_def target_def)
      have "tables_created R X root lvl m tables H lvl m tables H"
        using ok inv held by (simp add: tables_created_def pt_ext_refl tables_grow_refl outside_same_refl)
      from goon [OF this l refl tl r] show ?thesis .
    next
      case nl: False
      then have "entry m t i AND PTE_USER = 0 \<or> entry m t i AND push_bit 7 1 \<noteq> 0"
        using False by (simp only: links_def) blast
      with eq False have "res = None" "tables' = tables" "m' = m" by simp_all
      then show ?thesis by (rule stop)
    qed
  qed
qed

section \<open>Leaf entries\<close>

lemma table_indices_inj:
  assumes "table_indices va = table_indices vb" "unat va < 2 ^ 47" "unat vb < 2 ^ 47"
  shows "drop_bit 12 va = drop_bit 12 vb"
proof (rule bit_word_eqI)
  fix n assume "n < LENGTH(64)"
  have hi: "\<not> bit v k" if "unat v < 2 ^ 47" "47 \<le> k" for v :: u64 and k
  proof
    assume "bit v k"
    moreover have "v = take_bit 47 v"
      using that(1) by (simp add: word_unat_eq_iff unsigned_take_bit_eq take_bit_nat_eq_self)
    ultimately have "bit (take_bit 47 v) k" by simp
    then show False using that(2) by (simp add: bit_simps)
  qed
  have field: "bit va (s + k) = bit vb (s + k)"
    if "drop_bit s va AND 0x1ff = drop_bit s vb AND 0x1ff" "k < 9" for s k
  proof -
    have "bit (mask 9 :: u64) k" using that(2) by (simp add: bit_mask_iff)
    then have "bit (0x1ff :: u64) k" by (simp add: mask_eq_exp_minus_1)
    moreover have "bit (drop_bit s va AND 0x1ff) k = bit (drop_bit s vb AND 0x1ff) k" using that(1) by simp
    ultimately show ?thesis by (simp add: bit_and_iff bit_drop_bit_eq)
  qed
  have "bit va (12 + n) = bit vb (12 + n)"
  proof (cases "n < 36")
    case True
    then consider "n < 9" | "9 \<le> n" "n < 18" | "18 \<le> n" "n < 27" | "27 \<le> n" "n < 36" by linarith
    then show ?thesis
      using assms(1) field [of 12 n] field [of 21 "n - 9"] field [of 30 "n - 18"] field [of 39 "n - 27"]
      by cases (simp_all add: table_indices_def)
  next
    case False
    with hi [OF assms(2)] hi [OF assms(3)] show ?thesis by simp
  qed
  then show "bit (drop_bit 12 va) n = bit (drop_bit 12 vb) n" by (simp add: bit_drop_bit_eq)
qed

text \<open>Writing a leaf entry changes the translation of that page and of no other.\<close>

lemma leaf_write:
  assumes ok: "pt_ok root lvl m" and w: "user_walk (take 3 (table_indices va)) root m = Some t"
  fixes v :: u64
  defines "m' \<equiv> write_volatile (entry_ptr t (table_indices va ! 3)) v m"
  shows "pt_ok root lvl m'"
    "mmu_lookup m' root vb =
      (if table_indices vb = table_indices va then (if present v then Some v else None) else mmu_lookup m root vb)"
    "(\<forall>t. lvl t \<noteq> 0 \<longrightarrow> t \<in> H) \<Longrightarrow> outside_same H m m'" "has_tables m' root vb = has_tables m root vb"
proof -
  have L: "lvl root = length (take 3 (table_indices a)) + 1" for a
    using pt_okD(2) [OF ok] indices_ok(1) by simp
  have t1: "lvl t = 1" by (rule user_walk_level [OF ok L indices_ok(2) w])
  have tab: "is_table u" if "lvl u \<noteq> 0" for u using pt_okD(3) [OF ok that] .
  have e: "entry m' u j = (if u = t \<and> j = table_indices va ! 3 then v else entry m u j)"
    if "lvl u \<noteq> 0" "unat j < 512" for u j
    using entry_write [OF tab _ tab [OF that(1)] that(2)] t1 indices_ok(3) by (simp add: m'_def)
  show "outside_same H m m'" if "\<forall>t. lvl t \<noteq> 0 \<longrightarrow> t \<in> H"
    unfolding m'_def by (rule outside_same_write) (use that t1 tab indices_ok(3) in auto)
  have up: "entry m' u j = entry m u j" if "1 < lvl u" "unat j < 512" for u j
    using e [OF _ that(2), of u] that(1) t1 by auto
  show "pt_ok root lvl m'"
    by (rule pt_ok_cong [OF ok]) (use up pt_okD(1) [OF ok] in \<open>simp_all add: m'_def\<close>)
  have walk: "user_walk (take 3 (table_indices vb)) root m' = user_walk (take 3 (table_indices vb)) root m"
    by (rule walk_unchanged [OF ok up L indices_ok(2)])
  show "has_tables m' root vb = has_tables m root vb" using walk by (simp add: has_tables_def)
  show "mmu_lookup m' root vb =
      (if table_indices vb = table_indices va then (if present v then Some v else None) else mmu_lookup m root vb)"
  proof (cases "user_walk (take 3 (table_indices vb)) root m")
    case None
    with walk w show ?thesis by (auto simp: mmu_lookup_def)
  next
    case (Some u)
    have u1: "lvl u = 1" by (rule user_walk_level [OF ok L indices_ok(2) Some])
    have split: "table_indices a = take 3 (table_indices a) @ [table_indices a ! 3]" for a
      by (simp add: table_indices_def)
    have same: "table_indices vb = table_indices va"
      if "u = t" "table_indices vb ! 3 = table_indices va ! 3"
    proof -
      have "root = root \<and> take 3 (table_indices vb) = take 3 (table_indices va)"
        by (rule user_walk_inj [OF ok L _ _ w]) (use Some that(1) indices_ok L in auto)
      with that(2) show ?thesis using split [of va] split [of vb] by metis
    qed
    show ?thesis
    proof (cases "table_indices vb = table_indices va")
      case True
      with Some w have "u = t" by simp
      with True walk w e [OF _ indices_ok(3), of t] t1 show ?thesis by (simp add: mmu_lookup_def)
    next
      case False
      with same have "\<not> (u = t \<and> table_indices vb ! 3 = table_indices va ! 3)" by blast
      then have "entry m' u (table_indices vb ! 3) = entry m u (table_indices vb ! 3)"
        using e [OF _ indices_ok(3), of u vb] u1 by auto
      with False walk Some show ?thesis by (simp add: mmu_lookup_def)
    qed
  qed
qed

lemma present_leaf: "present (f OR leaf_flags fl)"
  by (auto simp: present_bit leaf_flags_def Let_def bit_or_iff pte_bits)

lemma user_space_map_spec:
  assumes ok: "pt_ok root lvl m" and inv: "frame_sys_inv R X (mc_frames m, H)"
    and held: "\<forall>t. lvl t \<noteq> 0 \<longrightarrow> t \<in> H" and eq: "user_space_map root mp tables m = (res, tables', m')"
  shows "\<exists>lvl' H'. pt_ok root lvl' m' \<and> frame_sys_inv R X (mc_frames m', H') \<and>
    (\<forall>t. lvl' t \<noteq> 0 \<longrightarrow> t \<in> H' \<and> (lvl t \<noteq> 0 \<or> t \<in> set (flatten tables'))) \<and>
    tables_grow tables H tables' H' \<and> outside_same H' m m' \<and>
    (\<forall>vb. has_tables m root vb \<longrightarrow> has_tables m' root vb) \<and>
    (res \<longrightarrow> mmu_lookup m root (mi_virtual_address mp) = None) \<and>
    (\<forall>vb. mmu_lookup m' root vb =
       (if res \<and> table_indices vb = table_indices (mi_virtual_address mp)
        then Some (mi_physical_frame mp OR leaf_flags (mi_flags mp)) else mmu_lookup m root vb))"
proof -
  let ?is = "table_indices (mi_virtual_address mp)"
  have stop: ?thesis if "res = False" "tables' = tables" "m' = m"
    using that ok inv held by (intro exI [of _ lvl] exI [of _ H]) (simp add: tables_grow_refl outside_same_refl)
  have rt: "direct_map_ptr root m = Some root"
    using direct_map_table pt_okD [OF ok] by simp
  show ?thesis
  proof (cases "\<not> is_multiple_of (mi_virtual_address mp) 4096 \<or> \<not> is_multiple_of (mi_physical_frame mp) 4096")
    case True
    with eq have "res = False" "tables' = tables" "m' = m" by (auto simp: user_space_map_def)
    then show ?thesis by (rule stop)
  next
    case False
    obtain r1 t1 m1 where mt: "map_tables (take 3 ?is) root tables m = (r1, t1, m1)" by (metis prod_cases3)
    have L: "lvl root = length (take 3 ?is) + 1" using pt_okD(2) [OF ok] indices_ok(1) by simp
    note eq2 = eq [unfolded user_space_map_def Let_def if_not_P [OF False] rt option.case mt prod.case]
    from map_tables_spec [OF ok inv held L indices_ok(2) mt] obtain l1 H1 where
      c: "tables_created R X root lvl m tables H l1 m1 t1 H1"
        "\<And>u. r1 = Some u \<Longrightarrow> l1 u = 1 \<and> user_walk (take 3 ?is) root m1 = Some u" by blast
    note c' = c(1) [unfolded tables_created_def]
    have look: "mmu_lookup m1 root vb = mmu_lookup m root vb" for vb
      using ext_lookup(1) [OF ok] c' by blast
    have tabs: "\<forall>vb. has_tables m root vb \<longrightarrow> has_tables m1 root vb"
      using ext_lookup(2) [OF ok] c' by blast
    show ?thesis
    proof (cases r1)
      case None
      with eq2 have "\<not> res" "tables' = t1" "m' = m1" by simp_all
      with c' look tabs show ?thesis by (intro exI [of _ l1] exI [of _ H1]) simp
    next
      case (Some u)
      have w: "user_walk (take 3 ?is) root m1 = Some u" using c(2) [OF Some] by blast
      show ?thesis
      proof (cases "present (entry m1 u (?is ! 3))")
        case True
        with eq2 Some have "\<not> res" "tables' = t1" "m' = m1" by (simp_all add: entry_read present_def)
        with c' look tabs show ?thesis by (intro exI [of _ l1] exI [of _ H1]) simp
      next
        case free: False
        then have r: "res" "tables' = t1"
            "m' = write_volatile (entry_ptr u (?is ! 3)) (mi_physical_frame mp OR leaf_flags (mi_flags mp)) m1"
          using eq2 Some by (auto simp: entry_read present_def)
        have "pt_ok root l1 m1" using c' by blast
        note lw = leaf_write [OF this w, where v = "mi_physical_frame mp OR leaf_flags (mi_flags mp)", folded r(3)]
        have "outside_same H1 m1 m'" using c' lw(3) [of H1] by (simp add: r(3))
        then have "outside_same H1 m m'" using c' outside_same_trans by blast
        moreover have "mmu_lookup m root (mi_virtual_address mp) = None"
          using w free look [of "mi_virtual_address mp"] by (simp add: mmu_lookup_def)
        ultimately show ?thesis using c' lw(1,2,4) look tabs r(1,2)
          by (intro exI [of _ l1] exI [of _ H1]) (simp add: present_leaf r(3))
      qed
    qed
  qed
qed

lemma walk_tables_user:
  assumes ok: "pt_ok root lvl m"
  shows "lvl t = length is + 1 \<Longrightarrow> \<forall>i\<in>set is. unat i < 512 \<Longrightarrow> user_walk is t m = Some u \<Longrightarrow>
    walk_tables is t m = Some u"
proof (induction "is" arbitrary: t)
  case Nil
  then show ?case by simp
next
  case (Cons i "is")
  then have l: "links (entry m t i)" "user_walk is (target (entry m t i)) m = Some u" "1 < lvl t" "unat i < 512"
    by (simp_all split: if_splits)
  have tl: "lvl (target (entry m t i)) = length is + 1" using pt_okD(4) [OF ok l(3,4,1)] Cons.prems(1) by simp
  then have "direct_map_ptr (target (entry m t i)) m = Some (target (entry m t i))"
    using direct_map_table pt_okD(1,3) [OF ok] by simp
  with Cons.IH [OF tl _ l(2)] Cons.prems(2) l(1) show ?case
    by (simp add: entry_read links_def flip: target_def)
qed

lemma user_space_unmap_spec:
  assumes ok: "pt_ok root lvl m" and look: "mmu_lookup m root va = Some e"
  shows "\<exists>m'. user_space_unmap root va m = (True, m') \<and> pt_ok root lvl m' \<and> mc_frames m' = mc_frames m \<and>
    (\<forall>H. (\<forall>t. lvl t \<noteq> 0 \<longrightarrow> t \<in> H) \<longrightarrow> outside_same H m m') \<and>
    (\<forall>vb. has_tables m' root vb = has_tables m root vb) \<and>
    (\<forall>vb. mmu_lookup m' root vb = (if table_indices vb = table_indices va then None else mmu_lookup m root vb))"
proof -
  from look obtain t where t: "user_walk (take 3 (table_indices va)) root m = Some t"
      "present (entry m t (table_indices va ! 3))"
    by (auto simp: mmu_lookup_def Let_def split: option.splits if_splits)
  have L: "lvl root = length (take 3 (table_indices va)) + 1" using pt_okD(2) [OF ok] indices_ok(1) by simp
  have rt: "direct_map_ptr root m = Some root" using direct_map_table pt_okD [OF ok] by simp
  have "user_space_unmap root va m = (True, write_volatile (entry_ptr t (table_indices va ! 3)) 0 m)"
    using walk_tables_user [OF ok L indices_ok(2) t(1)] t(2) rt
    by (simp add: user_space_unmap_def Let_def entry_read present_def)
  moreover have "\<not> present 0" by (simp add: present_bit)
  ultimately show ?thesis using leaf_write [OF ok t(1), where v = 0] by simp
qed

lemma user_space_unmap_absent:
  assumes ok: "pt_ok root lvl m" and "mmu_lookup m root va = None" "has_tables m root va"
  shows "user_space_unmap root va m = (False, m)"
proof -
  from assms(3) obtain t where t: "user_walk (take 3 (table_indices va)) root m = Some t"
    by (auto simp: has_tables_def)
  with assms(2) have np: "\<not> present (entry m t (table_indices va ! 3))"
    by (auto simp: mmu_lookup_def Let_def split: if_splits)
  have L: "lvl root = length (take 3 (table_indices va)) + 1" using pt_okD(2) [OF ok] indices_ok(1) by simp
  have "direct_map_ptr root m = Some root" using direct_map_table pt_okD [OF ok] by simp
  with walk_tables_user [OF ok L indices_ok(2) t] np show ?thesis
    by (simp add: user_space_unmap_def Let_def entry_read present_def)
qed

section \<open>A fresh root\<close>

lemma unat_succ_index: "unat (i :: u64) < 512 \<Longrightarrow> unat (i + 1) = unat i + 1"
  by (subst unat_add_exact) simp_all

lemma prepare_loop_entry:
  assumes d: "is_table dst" "is_table src" "dst \<noteq> src" and u: "is_table u" "unat j < 512"
  shows "unat i + n \<le> 512 \<Longrightarrow> entry (prepare_loop n i dst src m) u j =
    (if u = dst \<and> unat i \<le> unat j \<and> unat j < unat i + n then entry m src j else entry m u j)"
proof (induction n arbitrary: i m)
  case 0
  then show ?case by auto
next
  case (Suc n)
  then have i: "unat i < 512" "unat (i + 1) = unat i + 1" by (simp_all add: unat_succ_index)
  have ne: "i \<noteq> j \<longleftrightarrow> unat i \<noteq> unat j" by (simp add: word_unat_eq_iff)
  define m1 where "m1 = write_volatile (entry_ptr dst i) (entry m src i) m"
  have e: "entry m1 v k = (if v = dst \<and> k = i then entry m src i else entry m v k)"
    if "is_table v" "unat k < 512" for v k
    using entry_write [OF d(1) i(1) that, of "entry m src i" m] by (simp add: m1_def)
  have s: "entry m1 src j = entry m src j" using e [OF d(2) u(2)] d(3) by simp
  have "unat (i + 1) + n \<le> 512" using i(2) Suc.prems by simp
  note ih = Suc.IH [OF this, of m1]
  have "entry (prepare_loop (Suc n) i dst src m) u j = entry (prepare_loop n (i + 1) dst src m1) u j"
    by (simp add: m1_def entry_read)
  with ih i(2) e [OF u] s show ?case by (cases "i = j") (use ne in auto)
qed

lemma reset_loop_entry:
  assumes d: "is_table dst" and u: "is_table u" "unat j < 512"
  shows "unat i + n \<le> 512 \<Longrightarrow> entry (reset_loop n i dst m) u j =
    (if u = dst \<and> unat i \<le> unat j \<and> unat j < unat i + n then 0 else entry m u j)"
proof (induction n arbitrary: i m)
  case 0
  then show ?case by auto
next
  case (Suc n)
  then have i: "unat i < 512" "unat (i + 1) = unat i + 1" by (simp_all add: unat_succ_index)
  have ne: "i \<noteq> j \<longleftrightarrow> unat i \<noteq> unat j" by (simp add: word_unat_eq_iff)
  have "unat (i + 1) + n \<le> 512" using i(2) Suc.prems by simp
  with Suc.IH i(2) entry_write [OF d i(1) u, of 0 m] show ?case
    by (cases "i = j") (use ne in auto)
qed

lemma prepare_loop_keeps [simp]:
  "mc_frames (prepare_loop n i dst src m) = mc_frames m"
  "mc_direct_map_ready (prepare_loop n i dst src m) = mc_direct_map_ready m"
  "mc_cr3 (prepare_loop n i dst src m) = mc_cr3 m"
  by (induction n arbitrary: i m) simp_all

lemma reset_loop_keeps [simp]:
  "mc_frames (reset_loop n i dst m) = mc_frames m"
  "mc_direct_map_ready (reset_loop n i dst m) = mc_direct_map_ready m"
  "mc_cr3 (reset_loop n i dst m) = mc_cr3 m"
  by (induction n arbitrary: i m) simp_all

text \<open>The level map of an address space that has only its root.\<close>

definition root_only :: "u64 \<Rightarrow> u64 \<Rightarrow> nat" where
  "root_only root t = (if t = root then 4 else 0)"

lemma root_only_ok:
  assumes "mc_direct_map_ready m" "is_table root" "\<And>i. unat i < 512 \<Longrightarrow> \<not> links (entry m root i)"
  shows "pt_ok root (root_only root) m" "mmu_lookup m root va = None"
proof -
  show "pt_ok root (root_only root) m" using assms by (auto simp: pt_ok_def root_only_def)
  have "unat (table_indices va ! 0) < 512" by (simp add: table_indices_def unat_index)
  then show "mmu_lookup m root va = None"
    using assms(3) by (simp add: mmu_lookup_def table_indices_def)
qed

definition kernel_root :: "machine \<Rightarrow> u64" where
  "kernel_root m = mc_cr3 m AND ADDRESS_MASK"

lemma user_space_prepare_spec:
  assumes "mc_direct_map_ready m" "is_table root" "is_table (kernel_root m)" "root \<noteq> kernel_root m"
    and "\<And>i. unat i < 512 \<Longrightarrow> \<not> links (entry m (kernel_root m) i)"
  shows "\<exists>m'. user_space_prepare root m = (True, m') \<and> pt_ok root (root_only root) m' \<and>
    (\<forall>va. mmu_lookup m' root va = None) \<and> mc_frames m' = mc_frames m \<and> outside_same {root} m m'"
proof -
  define m' where "m' = prepare_loop 512 0 root (kernel_root m) m"
  have "user_space_prepare root m = (True, m')"
    using direct_map_table [OF assms(2,1)] by (simp add: user_space_prepare_def m'_def kernel_root_def Let_def)
  moreover have e: "entry m' root i = entry m (kernel_root m) i" if "unat i < 512" for i
    using prepare_loop_entry [OF assms(2,3,4,2) that, of 0 512 m] that by (simp add: m'_def)
  moreover have "mc_direct_map_ready m'" "mc_frames m' = mc_frames m" using assms(1) by (simp_all add: m'_def)
  moreover have "outside_same {root} m m'"
    using prepare_loop_entry [OF assms(2,3,4), of _ _ 0 512 m] by (simp add: outside_same_def m'_def)
  ultimately show ?thesis using root_only_ok [of m' root] assms(2,5) by auto
qed

lemma table_indices_page:
  "drop_bit 12 va = drop_bit 12 vb \<Longrightarrow> table_indices va = table_indices vb"
proof -
  assume "drop_bit 12 va = drop_bit 12 vb"
  then have "drop_bit (k + 12) va = drop_bit (k + 12) vb" for k by (simp flip: drop_bit_drop_bit)
  from this [of 0] this [of 9] this [of 18] this [of 27] show ?thesis
    by (simp add: table_indices_def)
qed

section \<open>Properties\<close>

text \<open>
  The entry the processor expects for a user page: the frame, bit 0 for present, bit 2 for user,
  bit 1 when the page is writable and bit 63 unless it is executable.
\<close>

definition page_entry :: "u64 \<Rightarrow> page_flags \<Rightarrow> u64" where
  "page_entry frame flags =
     frame OR (1 OR 4) OR (if pf_writable flags then 2 else 0) OR (if pf_executable flags then 0 else 0x8000000000000000)"

lemma leaf_page_entry: "frame OR leaf_flags flags = page_entry frame flags"
  by (simp add: leaf_flags_def page_entry_def kernel_defs or.assoc)

text \<open>
  Claim C4. Mapping a page implements one update of the translation: in an address space whose
  tables form a tree of held frames, \<open>user_space_map\<close> for a user address either reports failure and
  leaves the translation of every user page as it was, or the page was unmapped before, now
  translates to the frame with the requested permissions, and every other user page translates as
  before; the tables still form a tree of held frames, and the frames recorded for the address space
  only gain frames that were free.
\<close>

theorem user_space_map_updates_one_page:
  assumes "pt_ok root lvl m" "frame_sys_inv R X (mc_frames m, H)" "\<forall>t. lvl t \<noteq> 0 \<longrightarrow> t \<in> H"
    and "unat (mi_virtual_address mp) < 2 ^ 47" "user_space_map root mp tables m = (ok, tables', m')"
  shows "\<exists>lvl' H'. pt_ok root lvl' m' \<and> frame_sys_inv R X (mc_frames m', H') \<and> (\<forall>t. lvl' t \<noteq> 0 \<longrightarrow> t \<in> H') \<and>
    tables_grow tables H tables' H' \<and> (ok \<longrightarrow> mmu_lookup m root (mi_virtual_address mp) = None) \<and>
    (\<forall>vb. unat vb < 2 ^ 47 \<longrightarrow> mmu_lookup m' root vb =
       (if ok \<and> drop_bit 12 vb = drop_bit 12 (mi_virtual_address mp)
        then Some (page_entry (mi_physical_frame mp) (mi_flags mp)) else mmu_lookup m root vb))"
proof -
  obtain lvl' H' where s: "pt_ok root lvl' m'" "frame_sys_inv R X (mc_frames m', H')"
      "\<forall>t. lvl' t \<noteq> 0 \<longrightarrow> t \<in> H'" "tables_grow tables H tables' H'"
      "ok \<longrightarrow> mmu_lookup m root (mi_virtual_address mp) = None"
      "\<And>vb. mmu_lookup m' root vb = (if ok \<and> table_indices vb = table_indices (mi_virtual_address mp)
        then Some (mi_physical_frame mp OR leaf_flags (mi_flags mp)) else mmu_lookup m root vb)"
    using user_space_map_spec [OF assms(1,2,3,5)] by blast
  have "mmu_lookup m' root vb =
       (if ok \<and> drop_bit 12 vb = drop_bit 12 (mi_virtual_address mp)
        then Some (page_entry (mi_physical_frame mp) (mi_flags mp)) else mmu_lookup m root vb)"
    if "unat vb < 2 ^ 47" for vb
    unfolding leaf_page_entry [symmetric] using s(6) [of vb] table_indices_page [of vb "mi_virtual_address mp"]
      table_indices_inj [OF _ that assms(4)] by auto
  with s show ?thesis by blast
qed

text \<open>An address space with one table on each level, in zeroed memory.\<close>

definition demo_machine :: machine where
  "demo_machine =
     (let m = \<lparr>mc_bytes = (\<lambda>_. 0), mc_direct_map_ready = True, mc_cr3 = 0,
               mc_frames = frame_allocator_static\<lparr>fa_next_frame := 0x110000\<rparr>\<rparr>;
          user = PTE_PRESENT OR PTE_WRITABLE OR PTE_USER;
          m = write_volatile (entry_ptr 0x100000 0) (0x101000 OR user) m;
          m = write_volatile (entry_ptr 0x101000 0) (0x102000 OR user) m
      in write_volatile (entry_ptr 0x102000 0) (0x103000 OR user) m)"

definition demo_level :: "u64 \<Rightarrow> nat" where
  "demo_level t =
     (if t = 0x100000 then 4 else if t = 0x101000 then 3 else if t = 0x102000 then 2
      else if t = 0x103000 then 1 else 0)"

definition demo_mapping :: mapping_info where
  "demo_mapping =
     \<lparr>mi_virtual_address = 0x5000, mi_physical_frame = 0x104000,
      mi_flags = \<lparr>pf_user = True, pf_readable = True, pf_writable = True, pf_executable = False\<rparr>,
      mi_kind = Map_Anonymous\<rparr>"

definition demo_held :: "u64 set" where
  "demo_held = {0x100000, 0x101000, 0x102000, 0x103000, 0x104000}"

lemma demo_tables: "is_table 0x100000" "is_table 0x101000" "is_table 0x102000" "is_table 0x103000"
  by (simp_all add: is_table_def)

lemma demo_entry:
  assumes "is_table u" "unat j < 512"
  shows "entry demo_machine u j =
    (if u = 0x102000 \<and> j = 0 then 0x103000 OR PTE_PRESENT OR PTE_WRITABLE OR PTE_USER
     else if u = 0x101000 \<and> j = 0 then 0x102000 OR PTE_PRESENT OR PTE_WRITABLE OR PTE_USER
     else if u = 0x100000 \<and> j = 0 then 0x101000 OR PTE_PRESENT OR PTE_WRITABLE OR PTE_USER else 0)"
proof -
  have "load_bytes a 8 (\<lambda>_. 0) = replicate 8 0" for a by (simp add: load_bytes_def map_replicate_const)
  then show ?thesis
    using assms demo_tables
    by (simp add: demo_machine_def Let_def entry_write) (simp add: entry_def read_volatile_def)
qed

lemma demo_ok: "pt_ok 0x100000 demo_level demo_machine"
proof -
  have z: "\<not> links 0" by (simp add: links_bits)
  note t = target_table_entry(1) [OF demo_tables(2)] target_table_entry(1) [OF demo_tables(3)]
    target_table_entry(1) [OF demo_tables(4)]
  have tab: "is_table u" if "demo_level u \<noteq> 0" for u
    using that demo_tables by (auto simp: demo_level_def split: if_splits)
  have lev: "demo_level (target (entry demo_machine u j)) = demo_level u - 1 \<and> j = 0 \<and>
      (u = 0x100000 \<and> target (entry demo_machine u j) = 0x101000 \<or>
       u = 0x101000 \<and> target (entry demo_machine u j) = 0x102000 \<or>
       u = 0x102000 \<and> target (entry demo_machine u j) = 0x103000)"
    if "1 < demo_level u" "unat j < 512" "links (entry demo_machine u j)" for u j
  proof -
    have "entry demo_machine u j \<noteq> 0" using that(3) z by metis
    then show ?thesis
      using demo_entry [OF tab that(2), of u] that(1) by (auto simp: t demo_level_def split: if_splits)
  qed
  show ?thesis
    unfolding pt_ok_def
  proof (intro conjI allI impI)
    show "mc_direct_map_ready demo_machine" by (simp add: demo_machine_def Let_def)
    show "demo_level 0x100000 = 4" by (simp add: demo_level_def)
    show "is_table u" if "demo_level u \<noteq> 0" for u by (rule tab [OF that])
    show "demo_level (target (entry demo_machine u j)) = demo_level u - 1"
      if "1 < demo_level u" "unat j < 512" "links (entry demo_machine u j)" for u j
      using lev [OF that] by blast
    fix u j v k
    assume *: "1 < demo_level u" "1 < demo_level v" "unat j < 512" "unat k < 512" "links (entry demo_machine u j)"
      "links (entry demo_machine v k)" "target (entry demo_machine u j) = target (entry demo_machine v k)"
    show "u = v" "j = k" using lev [OF *(1,3,5)] lev [OF *(2,4,6)] *(7) by auto
  qed
qed

lemma demo_frames:
  "frame_sys_inv [\<lparr>mr_base = 0x100000, mr_length = 0x10000\<rparr>] [] (mc_frames demo_machine, demo_held)"
  by (simp add: frame_sys_inv_def fa_inv_def bump_ok_def returned_frames_def frame_ok_def page_ok_def demo_held_def
      demo_machine_def Let_def frame_allocator_static_def)

lemma demo_map:
  "user_space_map 0x100000 demo_mapping [None] demo_machine =
     (True, [None], write_volatile (entry_ptr 0x103000 5) (0x104000 OR leaf_flags (mi_flags demo_mapping)) demo_machine)"
proof -
  have ix: "table_indices 0x5000 = [0, 0, 0, 5]" by (simp add: table_indices_def drop_bit_eq_div)
  have d: "direct_map_ptr t demo_machine = Some t" if "is_table t" for t
    using direct_map_table [OF that] by (simp add: demo_machine_def Let_def)
  have walk: "map_tables (0 # is) t tables demo_machine = map_tables is u tables demo_machine"
    if "entry demo_machine t 0 = u OR PTE_PRESENT OR PTE_WRITABLE OR PTE_USER" "is_table u" for t u "is" tables
    using target_table_entry [OF that(2), folded that(1)] d [OF that(2)]
    by (simp add: entry_read links_def target_def)
  have e: "entry demo_machine t 0 = u OR PTE_PRESENT OR PTE_WRITABLE OR PTE_USER"
    if "t = 0x100000 \<and> u = 0x101000 \<or> t = 0x101000 \<and> u = 0x102000 \<or> t = 0x102000 \<and> u = 0x103000" for t u
    using that demo_entry [of t 0] demo_tables by auto
  have w: "map_tables (0 # is) 0x100000 tables demo_machine = map_tables is 0x101000 tables demo_machine"
      "map_tables (0 # is) 0x101000 tables demo_machine = map_tables is 0x102000 tables demo_machine"
      "map_tables (0 # is) 0x102000 tables demo_machine = map_tables is 0x103000 tables demo_machine" for "is" tables
    by (intro walk e demo_tables; simp)+
  have "map_tables [0, 0, 0] 0x100000 [None] demo_machine = (Some 0x103000, [None], demo_machine)"
    by (simp only: w map_tables.simps(1))
  moreover have "entry demo_machine 0x103000 5 = 0" using demo_entry [OF demo_tables(4), of 5] by simp
  ultimately show ?thesis
    using d [OF demo_tables(1)]
    by (simp add: user_space_map_def demo_mapping_def ix entry_read is_multiple_of_def)
qed

theorem user_space_map_updates_one_page_witness:
  "\<exists>m'. user_space_map 0x100000 demo_mapping [None] demo_machine = (True, [None], m') \<and>
     mmu_lookup demo_machine 0x100000 0x5000 = None \<and>
     mmu_lookup m' 0x100000 0x5123 = Some 0x8000000000104007 \<and>
     mmu_lookup m' 0x100000 0x6000 = mmu_lookup demo_machine 0x100000 0x6000"
proof -
  define m' where "m' = write_volatile (entry_ptr 0x103000 5) (0x104000 OR leaf_flags (mi_flags demo_mapping)) demo_machine"
  note eq = demo_map [folded m'_def]
  have held: "\<forall>t. demo_level t \<noteq> 0 \<longrightarrow> t \<in> demo_held" by (simp add: demo_level_def demo_held_def)
  have va: "unat (mi_virtual_address demo_mapping) < 2 ^ 47" by (simp add: demo_mapping_def)
  have r: "mmu_lookup demo_machine 0x100000 (mi_virtual_address demo_mapping) = None \<and>
      (\<forall>vb. unat vb < 2 ^ 47 \<longrightarrow> mmu_lookup m' 0x100000 vb =
       (if drop_bit 12 vb = drop_bit 12 (mi_virtual_address demo_mapping)
        then Some (page_entry (mi_physical_frame demo_mapping) (mi_flags demo_mapping))
        else mmu_lookup demo_machine 0x100000 vb))"
    using user_space_map_updates_one_page [OF demo_ok demo_frames held va eq] by auto
  have "unat (0x5123 :: usize) < 2 ^ 47" "unat (0x6000 :: usize) < 2 ^ 47" by simp_all
  with r have "mmu_lookup m' 0x100000 0x5123 =
      (if drop_bit 12 0x5123 = drop_bit 12 (mi_virtual_address demo_mapping)
       then Some (page_entry (mi_physical_frame demo_mapping) (mi_flags demo_mapping))
       else mmu_lookup demo_machine 0x100000 0x5123)"
    "mmu_lookup m' 0x100000 0x6000 =
      (if drop_bit 12 0x6000 = drop_bit 12 (mi_virtual_address demo_mapping)
       then Some (page_entry (mi_physical_frame demo_mapping) (mi_flags demo_mapping))
       else mmu_lookup demo_machine 0x100000 0x6000)"
    by blast+
  with r eq show ?thesis by (simp add: demo_mapping_def page_entry_def drop_bit_eq_div)
qed

end
