(* ===== verification/Address_Space.thy ===== *)
theory Address_Space
  imports X86_Paging Process_Ids Step_Systems
begin

unbundle bit_operations_syntax

text \<open>
  User address spaces (\<open>src/address_space.rs\<close>): the table of mappings, the stack with its guard
  page, the page tables of an active address space and the frames behind all of them.  An operation
  works on an address space and the machine of \<open>X86_Paging\<close>, which holds physical memory and the
  frame allocator.  The structs \<open>Mapping\<close> and \<open>MappingInfo\<close> have the same fields and are one record
  here.
\<close>

definition MAX_MAPPINGS :: nat where [kernel_defs]: "MAX_MAPPINGS = 64"
definition MAX_TABLE_FRAMES :: nat where [kernel_defs]: "MAX_TABLE_FRAMES = 192"
definition INITIAL_STACK_PAGES :: nat where [kernel_defs]: "INITIAL_STACK_PAGES = 2"
definition MAX_STACK_PAGES :: nat where [kernel_defs]: "MAX_STACK_PAGES = 8"

datatype space_error =
    AS_NoFrames | AS_MappingCapacity | AS_InvalidAddress | AS_Unaligned | AS_Overlap | AS_GuardPage
  | AS_KernelMapping | AS_WriteExecute | AS_NoAccess | AS_InvalidState | AS_FrameReturn
  | AS_HardwareUnavailable | AS_HardwareMapping

definition USER_READ :: page_flags where
  "USER_READ = \<lparr>pf_user = True, pf_readable = True, pf_writable = False, pf_executable = False\<rparr>"

definition USER_RW :: page_flags where
  "USER_RW = \<lparr>pf_user = True, pf_readable = True, pf_writable = True, pf_executable = False\<rparr>"

definition USER_RX :: page_flags where
  "USER_RX = \<lparr>pf_user = True, pf_readable = True, pf_writable = False, pf_executable = True\<rparr>"

definition page_flags_validate :: "page_flags \<Rightarrow> space_error + unit" where
  "page_flags_validate f =
     (if \<not> pf_user f then Err AS_KernelMapping
      else if pf_writable f \<and> pf_executable f then Err AS_WriteExecute
      else if \<not> pf_readable f \<and> \<not> pf_writable f \<and> \<not> pf_executable f then Err AS_NoAccess
      else Ok ())"

definition validate_page :: "usize \<Rightarrow> space_error + unit" where
  "validate_page virtual_address =
     (if \<not> is_multiple_of virtual_address PAGE_SIZE then Err AS_Unaligned
      else and_then (ok_or (checked_add virtual_address PAGE_SIZE) AS_InvalidAddress) (\<lambda>end_address.
        if virtual_address < PAGE_SIZE \<or> end_address > AS_USER_LIMIT then Err AS_InvalidAddress
        else Ok ()))"

definition as_align_up :: "usize \<Rightarrow> usize \<Rightarrow> usize option" where
  "as_align_up v alignment =
     map_option (\<lambda>v. v AND NOT (alignment - 1)) (checked_add v (alignment - 1))"

section \<open>Base addresses\<close>

record aslr_hook =
  ah_seed :: u64

definition aslr_new :: "u64 \<Rightarrow> aslr_hook" where
  "aslr_new seed = \<lparr>ah_seed = seed\<rparr>"

definition choose_base :: "aslr_hook \<Rightarrow> usize \<Rightarrow> usize \<Rightarrow> usize \<Rightarrow> usize option" where
  "choose_base hook hint span alignment =
     (if span = 0 \<or> \<not> is_power_of_two alignment then None
      else
        (case as_align_up span PAGE_SIZE of
           None \<Rightarrow> None
         | Some span \<Rightarrow>
             let alignment_mask = alignment - 1;
                 jitter = ah_seed hook * 0x9e3779b97f4a7c15 in
             (case checked_add hint (jitter AND alignment_mask) of
                None \<Rightarrow> None
              | Some raw \<Rightarrow>
                  let base = raw AND NOT alignment_mask in
                  (case checked_add base span of
                     None \<Rightarrow> None
                   | Some end_address \<Rightarrow>
                       if base < PAGE_SIZE \<or> end_address > AS_USER_LIMIT then None
                       else Some base))))"

section \<open>Address spaces\<close>

record address_space =
  as_owner :: "process_id option"
  as_root_frame :: "u64 option"
  as_mappings :: "mapping_info option list"
  as_stack_top :: usize
  as_stack_guard :: "usize option"
  as_stack_pages :: nat
  as_aslr :: aslr_hook
  as_active :: bool
  as_table_frames :: table_frames

type_synonym space_state = "address_space \<times> machine"

definition address_space_new ::
  "process_id \<Rightarrow> aslr_hook \<Rightarrow> machine \<Rightarrow> (space_error + address_space) \<times> machine" where
  "address_space_new owner aslr m =
     (case machine_alloc m of
        (None, m) \<Rightarrow> (Err AS_NoFrames, m)
      | (Some root_frame, m) \<Rightarrow>
          (Ok \<lparr>as_owner = Some owner, as_root_frame = Some root_frame,
               as_mappings = replicate MAX_MAPPINGS None,
               as_stack_top = AS_USER_LIMIT - PAGE_SIZE, as_stack_guard = None, as_stack_pages = 0,
               as_aslr = aslr, as_active = False,
               as_table_frames = replicate MAX_TABLE_FRAMES None\<rparr>, m))"

definition aslr_base :: "address_space \<Rightarrow> usize \<Rightarrow> usize \<Rightarrow> usize \<Rightarrow> usize option" where
  "aslr_base s hint span alignment = choose_base (as_aslr s) hint span alignment"

definition maps_page :: "usize \<Rightarrow> mapping_info option \<Rightarrow> bool" where
  "maps_page virtual_address slot =
     (case slot of None \<Rightarrow> False | Some mp \<Rightarrow> mi_virtual_address mp = virtual_address)"

definition map_page ::
  "usize \<Rightarrow> page_flags \<Rightarrow> mapping_kind \<Rightarrow> space_state \<Rightarrow> (space_error + mapping_info) \<times> space_state" where
  "map_page virtual_address flags kind sm =
     (case sm of (s, m) \<Rightarrow>
       if as_root_frame s = None then (Err AS_InvalidState, sm)
       else try_res (page_flags_validate flags) sm (\<lambda>_. try_res (validate_page virtual_address) sm (\<lambda>_.
         if as_stack_guard s = Some virtual_address \<and> kind \<noteq> Map_Stack then (Err AS_GuardPage, sm)
         else if list_ex (\<lambda>mp. mi_virtual_address mp = virtual_address) (flatten (as_mappings s))
         then (Err AS_Overlap, sm)
         else try_res (ok_or (position is_none (as_mappings s)) AS_MappingCapacity) sm (\<lambda>slot.
           case machine_alloc m of
             (None, m) \<Rightarrow> (Err AS_NoFrames, (s, m))
           | (Some frame, m) \<Rightarrow>
               let m = snd (zero_physical_page frame m);
                   mapping = \<lparr>mi_virtual_address = virtual_address, mi_physical_frame = frame,
                              mi_flags = flags, mi_kind = kind\<rparr>;
                   s = s\<lparr>as_mappings := (as_mappings s)[slot := Some mapping]\<rparr> in
               if as_active s then
                 try_res (ok_or (as_root_frame s) AS_InvalidState) (s, m) (\<lambda>root.
                   case user_space_map root mapping (as_table_frames s) m of
                     (mapped, tables, m) \<Rightarrow>
                       let s = s\<lparr>as_table_frames := tables\<rparr> in
                       if \<not> mapped then
                         (Err AS_HardwareMapping,
                          (s\<lparr>as_mappings := (as_mappings s)[slot := None]\<rparr>, snd (machine_free frame m)))
                       else (Ok mapping, (s, m)))
               else (Ok mapping, (s, m))))))"

definition remove_mapping :: "usize \<Rightarrow> space_state \<Rightarrow> (space_error + unit) \<times> space_state" where
  "remove_mapping virtual_address sm =
     (case sm of (s, m) \<Rightarrow>
       try_res (ok_or (position (maps_page virtual_address) (as_mappings s)) AS_InvalidAddress) sm (\<lambda>slot.
         try_st
           (if as_active s then
              try_res (ok_or (as_root_frame s) AS_InvalidState) sm (\<lambda>root.
                case user_space_unmap root virtual_address m of
                  (unmapped, m) \<Rightarrow>
                    if \<not> unmapped then (Err AS_HardwareMapping, (s, m)) else (Ok (), (s, m)))
            else (Ok (), sm))
           (\<lambda>_ (s, m).
             try_res (ok_or (as_mappings s ! slot) AS_InvalidAddress) (s, m) (\<lambda>mapping.
               let taken = s\<lparr>as_mappings := (as_mappings s)[slot := None]\<rparr> in
               case machine_free (mi_physical_frame mapping) m of
                 (returned, m) \<Rightarrow>
                   if \<not> returned then
                     (Err AS_FrameReturn,
                      (taken\<lparr>as_mappings := (as_mappings taken)[slot := Some mapping]\<rparr>, m))
                   else (Ok (), (taken, m))))))"

definition map_anonymous ::
  "usize \<Rightarrow> page_flags \<Rightarrow> space_state \<Rightarrow> (space_error + mapping_info) \<times> space_state" where
  "map_anonymous virtual_address flags sm = map_page virtual_address flags Map_Anonymous sm"

definition space_mapping :: "address_space \<Rightarrow> usize \<Rightarrow> mapping_info option" where
  "space_mapping s virtual_address =
     List.find (\<lambda>mp. mi_virtual_address mp = virtual_address) (flatten (as_mappings s))"

definition unmap_page :: "usize \<Rightarrow> space_state \<Rightarrow> (space_error + unit) \<times> space_state" where
  "unmap_page virtual_address sm =
     (case sm of (s, m) \<Rightarrow>
       try_res (ok_or (space_mapping s virtual_address) AS_InvalidAddress) sm (\<lambda>mapping.
         if mi_kind mapping = Map_Stack then (Err AS_InvalidState, sm)
         else remove_mapping virtual_address sm))"

section \<open>The stack\<close>

fun rollback_loop :: "nat \<Rightarrow> nat \<Rightarrow> usize \<Rightarrow> space_state \<Rightarrow> space_state" where
  "rollback_loop 0 rollback first sm = sm"
| "rollback_loop (Suc left) rollback first sm =
     rollback_loop left (rollback + 1) first
       (snd (remove_mapping (first + of_nat rollback * PAGE_SIZE) sm))"

fun stack_loop :: "nat \<Rightarrow> nat \<Rightarrow> usize \<Rightarrow> space_state \<Rightarrow> (space_error + unit) \<times> space_state" where
  "stack_loop 0 index first sm = (Ok (), sm)"
| "stack_loop (Suc left) index first sm =
     (case map_page (first + of_nat index * PAGE_SIZE) USER_RW Map_Stack sm of
        (Inl error, sm) \<Rightarrow> (Err error, rollback_loop index 0 first sm)
      | (Inr _, sm) \<Rightarrow> stack_loop left (index + 1) first sm)"

definition map_stack :: "space_state \<Rightarrow> (space_error + unit) \<times> space_state" where
  "map_stack sm =
     (case sm of (s, m) \<Rightarrow>
       if as_stack_pages s \<noteq> 0 \<or> as_root_frame s = None then (Err AS_InvalidState, sm)
       else try_res (ok_or (checked_sub (as_stack_top s) (of_nat INITIAL_STACK_PAGES * PAGE_SIZE))
                       AS_InvalidAddress) sm (\<lambda>first.
         try_st (stack_loop INITIAL_STACK_PAGES 0 first sm) (\<lambda>_ (s, m).
           (Ok (), (s\<lparr>as_stack_pages := INITIAL_STACK_PAGES,
                      as_stack_guard := checked_sub first PAGE_SIZE\<rparr>, m)))))"

definition grow_stack :: "usize \<Rightarrow> space_state \<Rightarrow> (space_error + bool) \<times> space_state" where
  "grow_stack fault_address sm =
     (case sm of (s, m) \<Rightarrow>
       case as_stack_guard s of
         None \<Rightarrow> (Ok False, sm)
       | Some guard \<Rightarrow>
           if fault_address AND NOT (PAGE_SIZE - 1) \<noteq> guard then (Ok False, sm)
           else if as_stack_pages s = MAX_STACK_PAGES then (Ok False, sm)
           else try_st (map_page guard USER_RW Map_Stack sm) (\<lambda>_ (s, m).
             (Ok True, (s\<lparr>as_stack_pages := as_stack_pages s + 1,
                          as_stack_guard := checked_sub guard PAGE_SIZE\<rparr>, m))))"

section \<open>Activation and destruction\<close>

fun release_loop :: "table_frames \<Rightarrow> machine \<Rightarrow> table_frames \<times> machine" where
  "release_loop [] m = ([], m)"
| "release_loop (frame # frames) m =
     (let m = (case frame of None \<Rightarrow> m | Some f \<Rightarrow> snd (machine_free f m)) in
      case release_loop frames m of (frames, m) \<Rightarrow> (None # frames, m))"

definition release_table_frames :: "space_state \<Rightarrow> space_state" where
  "release_table_frames sm =
     (case sm of (s, m) \<Rightarrow>
       case release_loop (as_table_frames s) m of
         (frames, m) \<Rightarrow> (s\<lparr>as_table_frames := frames\<rparr>, m))"

fun activate_loop :: "u64 \<Rightarrow> mapping_info list \<Rightarrow> table_frames \<Rightarrow> machine \<Rightarrow> bool \<times> table_frames \<times> machine" where
  "activate_loop root [] tables m = (True, tables, m)"
| "activate_loop root (mp # mps) tables m =
     (case user_space_map root mp tables m of
        (False, tables, m) \<Rightarrow> (False, tables, m)
      | (True, tables, m) \<Rightarrow> activate_loop root mps tables m)"

definition activate :: "space_state \<Rightarrow> (space_error + unit) \<times> space_state" where
  "activate sm =
     (case sm of (s, m) \<Rightarrow>
       try_res (ok_or (as_root_frame s) AS_InvalidState) sm (\<lambda>root.
         if as_active s then (Err AS_InvalidState, sm)
         else
           (case user_space_prepare root m of
              (False, m) \<Rightarrow> (Err AS_HardwareUnavailable, (s, m))
            | (True, m) \<Rightarrow>
                (case activate_loop root (flatten (as_mappings s)) (as_table_frames s) m of
                   (mapped, tables, m) \<Rightarrow>
                     let s = s\<lparr>as_table_frames := tables\<rparr> in
                     if \<not> mapped then
                       (Err AS_HardwareMapping, release_table_frames (s, user_space_reset root m))
                     else (Ok (), (s\<lparr>as_active := True\<rparr>, m))))))"

fun destroy_loop :: "mapping_info list \<Rightarrow> machine \<Rightarrow> bool \<times> machine" where
  "destroy_loop [] m = (True, m)"
| "destroy_loop (mp # mps) m =
     (case machine_free (mi_physical_frame mp) m of
        (False, m) \<Rightarrow> (False, m)
      | (True, m) \<Rightarrow> destroy_loop mps m)"

definition destroy :: "space_state \<Rightarrow> (space_error + unit) \<times> space_state" where
  "destroy sm =
     (case sm of (s, m) \<Rightarrow>
       try_res (ok_or (as_root_frame s) AS_InvalidState) sm (\<lambda>root.
         let (s, m) = (if as_active s then (s\<lparr>as_active := False\<rparr>, user_space_reset root m) else (s, m)) in
         case destroy_loop (flatten (as_mappings s)) m of
           (False, m) \<Rightarrow> (Err AS_FrameReturn, (s, m))
         | (True, m) \<Rightarrow>
             let (s, m) = release_table_frames (s\<lparr>as_mappings := replicate MAX_MAPPINGS None\<rparr>, m) in
             try_res (ok_or (as_root_frame s) AS_InvalidState) (s, m) (\<lambda>root.
               let s = s\<lparr>as_root_frame := None\<rparr> in
               case machine_free root m of
                 (False, m) \<Rightarrow> (Err AS_FrameReturn, (s, m))
               | (True, m) \<Rightarrow>
                   (Ok (), (s\<lparr>as_owner := None, as_stack_guard := None, as_stack_pages := 0\<rparr>, m)))))"

section \<open>Writing into an address space\<close>

definition page_of :: "usize \<Rightarrow> usize" where
  "page_of a = a AND NOT (PAGE_SIZE - 1)"

lemma unat_page_of: "unat (page_of a) = unat a div 4096 * 4096"
  using unat_and_not_mask [of a 12] by (simp add: page_of_def PAGE_SIZE_def mask_eq_exp_minus_1)

lemma unat_page_offset: "unat (a - page_of a) = unat a mod 4096"
proof -
  have "page_of a \<le> a" by (simp add: word_le_nat_alt unat_page_of)
  then have "unat (a - page_of a) = unat a - unat a div 4096 * 4096"
    by (simp add: unat_sub_le unat_page_of)
  then show ?thesis by (simp add: minus_div_mult_eq_mod)
qed

function load_loop :: "address_space \<Rightarrow> u8 list \<Rightarrow> usize \<Rightarrow> nat \<Rightarrow> machine \<Rightarrow> (space_error + unit) \<times> machine" where
  "load_loop s bytes cursor offset m =
     (if offset < length bytes then
        let page = page_of cursor in
        try_res (ok_or (space_mapping s page) AS_InvalidAddress) m (\<lambda>mapping.
          let page_offset = unat (cursor - page);
              count = min (4096 - page_offset) (length bytes - offset) in
          case write_physical (mi_physical_frame mapping) page_offset (take count (drop offset bytes)) m of
            (written, m) \<Rightarrow>
              if \<not> written then (Err AS_HardwareUnavailable, m)
              else try_res (ok_or (checked_add cursor (of_nat count)) AS_InvalidAddress) m (\<lambda>cursor.
                load_loop s bytes cursor (offset + count) m))
      else (Ok (), m))"
  by pat_completeness auto
termination
  by (relation "measure (\<lambda>(s, bytes, cursor, offset, m). length bytes - offset)")
     (auto simp: unat_page_offset)

declare load_loop.simps [simp del]

definition space_load :: "address_space \<Rightarrow> usize \<Rightarrow> u8 list \<Rightarrow> machine \<Rightarrow> (space_error + unit) \<times> machine" where
  "space_load s virtual_address bytes m =
     (if as_root_frame s = None then (Err AS_InvalidState, m)
      else load_loop s bytes virtual_address 0 m)"

fun load_words_loop :: "address_space \<Rightarrow> usize \<Rightarrow> nat \<Rightarrow> u64 list \<Rightarrow> machine \<Rightarrow> (space_error + unit) \<times> machine" where
  "load_words_loop s virtual_address index [] m = (Ok (), m)"
| "load_words_loop s virtual_address index (word # words) m =
     try_res
       (and_then (ok_or (checked_mul (of_nat index) 8) AS_InvalidAddress) (\<lambda>offset.
          ok_or (checked_add virtual_address offset) AS_InvalidAddress)) m (\<lambda>address.
       try_st (space_load s address (to_le_bytes 8 word) m) (\<lambda>_ m.
         load_words_loop s virtual_address (index + 1) words m))"

definition load_words :: "address_space \<Rightarrow> usize \<Rightarrow> u64 list \<Rightarrow> machine \<Rightarrow> (space_error + unit) \<times> machine" where
  "load_words s virtual_address words m = load_words_loop s virtual_address 0 words m"

section \<open>The invariant\<close>

text \<open>
  The kernel's root table is no frame of the allocator, and user mode gets through none of its
  entries.
\<close>

definition kernel_ok :: "memory_region list \<Rightarrow> memory_region list \<Rightarrow> machine \<Rightarrow> bool" where
  "kernel_ok R X m \<longleftrightarrow> is_table (kernel_root m) \<and> \<not> frame_ok R X (kernel_root m) \<and>
     (\<forall>i. unat i < 512 \<longrightarrow> \<not> links (entry m (kernel_root m) i))"

definition mapping_ok :: "mapping_info \<Rightarrow> bool" where
  "mapping_ok mp \<longleftrightarrow>
     page_flags_validate (mi_flags mp) = Ok () \<and> validate_page (mi_virtual_address mp) = Ok ()"

text \<open>All frames an address space owns: its root, its pages and its tables.\<close>

definition space_frames :: "address_space \<Rightarrow> u64 list" where
  "space_frames s =
     (case as_root_frame s of None \<Rightarrow> [] | Some root \<Rightarrow> [root]) @
     map mi_physical_frame (flatten (as_mappings s)) @ flatten (as_table_frames s)"

text \<open>What user mode sees at an address, by the table of mappings.\<close>

definition translation :: "address_space \<Rightarrow> usize \<Rightarrow> u64 option" where
  "translation s va =
     map_option (\<lambda>mp. mi_physical_frame mp OR leaf_flags (mi_flags mp)) (space_mapping s (page_of va))"

definition tables_ok :: "address_space \<Rightarrow> machine \<Rightarrow> u64 \<Rightarrow> bool" where
  "tables_ok s m root \<longleftrightarrow>
     (\<exists>lvl. pt_ok root lvl m \<and> (\<forall>t. lvl t \<noteq> 0 \<longrightarrow> t \<in> insert root (set (flatten (as_table_frames s))))) \<and>
     (\<forall>va. unat va < 2 ^ 47 \<longrightarrow>
        (mmu_lookup m root va = translation s va \<or> mmu_lookup m root va = None) \<and>
        (translation s va \<noteq> None \<longrightarrow> has_tables m root va))"

text \<open>\<open>K\<close> are the frames held by others; they are disjoint from the frames of the address space.\<close>

definition space_inv :: "memory_region list \<Rightarrow> memory_region list \<Rightarrow> u64 set \<Rightarrow> space_state \<Rightarrow> bool" where
  "space_inv R X K sm \<longleftrightarrow>
     (case sm of (s, m) \<Rightarrow>
        frame_sys_inv R X (mc_frames m, K \<union> set (space_frames s)) \<and> kernel_ok R X m \<and>
        K \<inter> set (space_frames s) = {} \<and> distinct (space_frames s) \<and>
        length (as_mappings s) = MAX_MAPPINGS \<and> length (as_table_frames s) = MAX_TABLE_FRAMES \<and>
        distinct (map mi_virtual_address (flatten (as_mappings s))) \<and>
        (\<forall>mp\<in>set (flatten (as_mappings s)). mapping_ok mp) \<and>
        (as_root_frame s = None \<longrightarrow> \<not> as_active s \<and> space_frames s = []) \<and>
        (\<not> as_active s \<longrightarrow> flatten (as_table_frames s) = []) \<and>
        (\<forall>root. as_root_frame s = Some root \<longrightarrow> as_active s \<longrightarrow> tables_ok s m root))"

lemma frame_sys_inv_mono:
  "frame_sys_inv R X (st, H) \<Longrightarrow> H' \<subseteq> H \<Longrightarrow> frame_sys_inv R X (st, H')"
  unfolding frame_sys_inv_def by auto

lemma frame_sys_inv_frame: "frame_sys_inv R X (st, H) \<Longrightarrow> f \<in> H \<Longrightarrow> frame_ok R X f"
  unfolding frame_sys_inv_def by auto

lemma kernel_ok_same:
  assumes "kernel_ok R X m" "outside_same H m m'" "\<forall>f\<in>H. frame_ok R X f"
  shows "kernel_ok R X m'"
proof -
  have r: "kernel_root m' = kernel_root m" using assms(2) by (simp add: outside_same_def kernel_root_def)
  have "kernel_root m \<notin> H" using assms(1,3) by (auto simp: kernel_ok_def)
  with assms(1,2) r show ?thesis by (simp add: kernel_ok_def outside_same_def)
qed

lemma outside_same_bytes:
  "mc_bytes m' = mc_bytes m \<Longrightarrow> mc_cr3 m' = mc_cr3 m \<Longrightarrow> outside_same H m m'"
  by (simp add: outside_same_def entry_def read_volatile_def)

lemma outside_same_mono: "outside_same H m m' \<Longrightarrow> H \<subseteq> H' \<Longrightarrow> outside_same H' m m'"
  by (auto simp: outside_same_def)

lemma zero_page_outside:
  assumes "zero_physical_page f m = (ok, m')" "4096 dvd unat f"
  shows "outside_same {f} m m'"
proof (cases ok)
  case True
  with assms(1) have z: "zero_physical_page f m = (True, m')" by simp
  have "is_table f" by (rule zero_page_table [OF z assms(2)])
  with entry_zero_page [OF z] zero_page_frames [OF z] show ?thesis by (simp add: outside_same_def)
next
  case False
  with zero_page_frames [OF assms(1)] show ?thesis by (simp add: outside_same_refl)
qed

text \<open>Changes outside of the tables keep the translation.\<close>

lemma tables_ok_same:
  assumes "tables_ok s m root" "outside_same F m m'" "mc_direct_map_ready m' = mc_direct_map_ready m"
    and "F \<inter> insert root (set (flatten (as_table_frames s))) = {}"
    and "as_table_frames s' = as_table_frames s" "\<And>va. translation s' va = translation s va"
  shows "tables_ok s' m' root"
proof -
  from assms(1) obtain lvl where l: "pt_ok root lvl m"
      "\<forall>t. lvl t \<noteq> 0 \<longrightarrow> t \<in> insert root (set (flatten (as_table_frames s)))"
      "\<And>va. unat va < 2 ^ 47 \<Longrightarrow> (mmu_lookup m root va = translation s va \<or> mmu_lookup m root va = None) \<and>
        (translation s va \<noteq> None \<longrightarrow> has_tables m root va)"
    unfolding tables_ok_def by blast
  have e: "entry m' u j = entry m u j" if "lvl u \<noteq> 0" "unat j < 512" for u j
    using assms(2,4) l(2) pt_okD(3) [OF l(1)] that unfolding outside_same_def by blast
  have "mc_direct_map_ready m'" using assms(3) pt_okD(1) [OF l(1)] by simp
  note c = lookup_cong [OF l(1) this e]
  with l assms(5,6) show ?thesis unfolding tables_ok_def by auto
qed

section \<open>Pages\<close>

lemma validate_page_iff:
  "validate_page va = Ok () \<longleftrightarrow> 4096 dvd unat va \<and> 4096 \<le> unat va \<and> unat va + 4096 \<le> 2 ^ 47"
proof -
  have "unat va < 2 ^ 64" using unsigned_less [of va] by simp
  then show ?thesis
    by (auto simp: validate_page_def is_multiple_of_unat checked_add_def unat_add_exact word_less_nat_alt
        kernel_defs not_less)
qed

lemma mapping_ok_page:
  assumes "mapping_ok mp"
  shows "page_of (mi_virtual_address mp) = mi_virtual_address mp" "unat (mi_virtual_address mp) < 2 ^ 47"
    "drop_bit 12 va = drop_bit 12 (mi_virtual_address mp) \<longleftrightarrow> page_of va = mi_virtual_address mp"
proof -
  have v: "4096 dvd unat (mi_virtual_address mp)" "unat (mi_virtual_address mp) + 4096 \<le> 2 ^ 47"
    using assms validate_page_iff by (simp_all add: mapping_ok_def)
  show p: "page_of (mi_virtual_address mp) = mi_virtual_address mp"
    using v(1) by (simp add: word_unat_eq_iff unat_page_of)
  show "unat (mi_virtual_address mp) < 2 ^ 47" using v(2) by simp
  have "drop_bit 12 va = drop_bit 12 (mi_virtual_address mp) \<longleftrightarrow> unat va div 4096 = unat (mi_virtual_address mp) div 4096"
    by (simp add: word_unat_eq_iff drop_bit_eq_div unat_div)
  also have "\<dots> \<longleftrightarrow> unat (page_of va) = unat (page_of (mi_virtual_address mp))"
    by (simp add: unat_page_of)
  finally show "drop_bit 12 va = drop_bit 12 (mi_virtual_address mp) \<longleftrightarrow> page_of va = mi_virtual_address mp"
    by (simp add: p word_unat_eq_iff)
qed

section \<open>Slots\<close>

lemma flatten_append: "flatten (xs @ ys) = flatten xs @ flatten ys"
  by (induction xs rule: flatten.induct) auto

lemma split_slot:
  assumes "i < length xs"
  obtains A B where "flatten xs = A @ flatten [xs ! i] @ B" "\<And>v. flatten (xs[i := v]) = A @ flatten [v] @ B"
proof (rule that)
  have xs: "xs = take i xs @ [xs ! i] @ drop (Suc i) xs" using assms by (simp add: id_take_nth_drop)
  then show "flatten xs = flatten (take i xs) @ flatten [xs ! i] @ flatten (drop (Suc i) xs)"
    by (metis flatten_append)
  have "xs[i := v] = take i xs @ [v] @ drop (Suc i) xs" for v
    using assms by (simp add: upd_conv_take_nth_drop)
  then show "flatten (xs[i := v]) = flatten (take i xs) @ flatten [v] @ flatten (drop (Suc i) xs)" for v
    by (metis flatten_append)
qed

lemma find_distinct:
  "distinct (map f xs) \<Longrightarrow> List.find (\<lambda>x. f x = v) xs = Some y \<longleftrightarrow> y \<in> set xs \<and> f y = v"
  by (induction xs) auto

lemma space_mapping_iff:
  assumes "space_inv R X K (s, m)"
  shows "space_mapping s va = Some mp \<longleftrightarrow> mp \<in> set (flatten (as_mappings s)) \<and> mi_virtual_address mp = va"
  using assms by (simp add: space_inv_def space_mapping_def find_distinct)

lemma find_insert:
  "v \<notin> f ` set (A @ B) \<Longrightarrow> f x = v \<Longrightarrow>
   List.find (\<lambda>y. f y = w) (A @ x # B) = (if w = v then Some x else List.find (\<lambda>y. f y = w) (A @ B))"
  by (induction A) (auto simp: find_None_iff split: if_splits)

lemma find_remove:
  "distinct (map f (A @ x # B)) \<Longrightarrow>
   List.find (\<lambda>y. f y = w) (A @ B) = (if w = f x then None else List.find (\<lambda>y. f y = w) (A @ x # B))"
  by (induction A) (auto simp: find_None_iff image_iff)

text \<open>The fields that no operation on pages changes.\<close>

definition same_fields :: "address_space \<Rightarrow> address_space \<Rightarrow> bool" where
  "same_fields s s' \<longleftrightarrow> as_owner s' = as_owner s \<and> as_root_frame s' = as_root_frame s \<and>
     as_stack_top s' = as_stack_top s \<and> as_stack_guard s' = as_stack_guard s \<and>
     as_stack_pages s' = as_stack_pages s \<and> as_aslr s' = as_aslr s \<and> as_active s' = as_active s"

lemma same_fields_refl: "same_fields s s"
  by (simp add: same_fields_def)

lemma space_invD:
  assumes "space_inv R X K (s, m)"
  shows "frame_sys_inv R X (mc_frames m, K \<union> set (space_frames s))" "kernel_ok R X m"
    "K \<inter> set (space_frames s) = {}" "distinct (space_frames s)"
    "length (as_mappings s) = MAX_MAPPINGS" "length (as_table_frames s) = MAX_TABLE_FRAMES"
    "distinct (map mi_virtual_address (flatten (as_mappings s)))"
    "\<And>mp. mp \<in> set (flatten (as_mappings s)) \<Longrightarrow> mapping_ok mp"
    "as_root_frame s = None \<Longrightarrow> \<not> as_active s \<and> space_frames s = []"
    "\<not> as_active s \<Longrightarrow> flatten (as_table_frames s) = []"
    "as_root_frame s = Some root \<Longrightarrow> as_active s \<Longrightarrow> tables_ok s m root"
  using assms by (simp_all add: space_inv_def)

lemma space_frame_ok: "space_inv R X K (s, m) \<Longrightarrow> f \<in> K \<union> set (space_frames s) \<Longrightarrow> frame_ok R X f"
  using frame_sys_inv_frame space_invD(1) by blast

lemma user_walk_bytes: "mc_bytes m' = mc_bytes m \<Longrightarrow> user_walk is t m' = user_walk is t m"
  by (induction "is" arbitrary: t) (simp_all add: entry_def read_volatile_def)

lemma mmu_lookup_bytes:
  assumes "mc_bytes m' = mc_bytes m"
  shows "mmu_lookup m' root va = mmu_lookup m root va"
proof -
  have "entry m' = entry m" by (intro ext) (simp add: entry_def read_volatile_def assms)
  then show ?thesis by (simp add: mmu_lookup_def user_walk_bytes [OF assms] split: option.split)
qed

lemma same_tables_lookup:
  assumes "tables_ok s m root" "outside_same F m m'" "mc_direct_map_ready m' = mc_direct_map_ready m"
    and "F \<inter> insert root (set (flatten (as_table_frames s))) = {}"
  shows "mmu_lookup m' root va = mmu_lookup m root va"
proof -
  from assms(1) obtain lvl where l: "pt_ok root lvl m"
      "\<forall>t. lvl t \<noteq> 0 \<longrightarrow> t \<in> insert root (set (flatten (as_table_frames s)))"
    unfolding tables_ok_def by blast
  have e: "entry m' u j = entry m u j" if "lvl u \<noteq> 0" "unat j < 512" for u j
    using assms(2,4) l(2) pt_okD(3) [OF l(1)] that unfolding outside_same_def by blast
  have "mc_direct_map_ready m'" using assms(3) pt_okD(1) [OF l(1)] by simp
  from lookup_cong(2) [OF l(1) this e] show ?thesis .
qed

section \<open>Allocation of a page\<close>

text \<open>The frame of a new page: fresh, cleared if it lies in the direct map, and no table is touched.\<close>

lemma fresh_page:
  assumes inv: "space_inv R X K (s, m)" and a: "machine_alloc m = (Some f, m1)"
    and m2: "m2 = snd (zero_physical_page f m1)"
  shows "f \<notin> K \<union> set (space_frames s)" "frame_ok R X f"
    "frame_sys_inv R X (mc_frames m2, insert f (K \<union> set (space_frames s)))"
    "outside_same {f} m m2" "mc_direct_map_ready m2 = mc_direct_map_ready m" "kernel_ok R X m2"
proof -
  note al = machine_alloc_spec [OF space_invD(1) [OF inv] a]
  have f: "f \<notin> K \<union> set (space_frames s)" "4096 dvd unat f" using al(5) [of f] by simp_all
  have inv1: "frame_sys_inv R X (mc_frames m1, insert f (K \<union> set (space_frames s)))" using al(1) by simp
  obtain ok where z: "zero_physical_page f m1 = (ok, m2)" using m2 by (cases "zero_physical_page f m1") simp
  note zf = zero_page_frames [OF z]
  show "f \<notin> K \<union> set (space_frames s)" by (rule f(1))
  show fr: "frame_ok R X f" by (rule frame_sys_inv_frame [OF inv1]) simp
  show "frame_sys_inv R X (mc_frames m2, insert f (K \<union> set (space_frames s)))" using inv1 zf by simp
  show out: "outside_same {f} m m2"
    by (rule outside_same_trans [OF outside_same_bytes [OF al(2,4), of "{}"] zero_page_outside [OF z f(2)]]) simp
  show "mc_direct_map_ready m2 = mc_direct_map_ready m" using al(3) zf by simp
  show "kernel_ok R X m2" by (rule kernel_ok_same [OF space_invD(2) [OF inv] out]) (use fr in simp)
qed

text \<open>The invariant of a state from the facts that the operations establish.\<close>

lemma space_invI:
  assumes "frame_sys_inv R X (mc_frames m, H)" "K \<union> set (space_frames s) \<subseteq> H" "kernel_ok R X m"
    "K \<inter> set (space_frames s) = {}" "distinct (space_frames s)"
    "length (as_mappings s) = MAX_MAPPINGS" "length (as_table_frames s) = MAX_TABLE_FRAMES"
    "distinct (map mi_virtual_address (flatten (as_mappings s)))"
    "\<And>mp. mp \<in> set (flatten (as_mappings s)) \<Longrightarrow> mapping_ok mp"
    "as_root_frame s = None \<Longrightarrow> \<not> as_active s \<and> space_frames s = []"
    "\<not> as_active s \<Longrightarrow> flatten (as_table_frames s) = []"
    "\<And>root. as_root_frame s = Some root \<Longrightarrow> as_active s \<Longrightarrow> tables_ok s m root"
  shows "space_inv R X K (s, m)"
  using assms frame_sys_inv_mono [OF assms(1,2)] by (simp add: space_inv_def)

text \<open>The checks of \<open>map_page\<close> and the state after them.\<close>

lemma map_page_cases:
  assumes "map_page va flags kind (s, m) = (r, sm')"
  obtains (rejected) e where "r = Err e" "sm' = (s, m)"
  | (no_frames) m1 where "r = Err AS_NoFrames" "machine_alloc m = (None, m1)" "sm' = (s, m1)"
  | (mapped) slot f m1 where "as_root_frame s \<noteq> None" "page_flags_validate flags = Ok ()" "validate_page va = Ok ()"
      "kind = Map_Anonymous \<longrightarrow> as_stack_guard s \<noteq> Some va"
      "va \<notin> mi_virtual_address ` set (flatten (as_mappings s))" "position is_none (as_mappings s) = Some slot"
      "machine_alloc m = (Some f, m1)"
      "(let m = snd (zero_physical_page f m1);
            mp = \<lparr>mi_virtual_address = va, mi_physical_frame = f, mi_flags = flags, mi_kind = kind\<rparr>;
            s = s\<lparr>as_mappings := (as_mappings s)[slot := Some mp]\<rparr> in
        if as_active s then
          (case user_space_map (the (as_root_frame s)) mp (as_table_frames s) m of
             (ok, tables, m) \<Rightarrow>
               let s = s\<lparr>as_table_frames := tables\<rparr> in
               if \<not> ok then (Err AS_HardwareMapping,
                 (s\<lparr>as_mappings := (as_mappings s)[slot := None]\<rparr>, snd (machine_free f m)))
               else (Ok mp, (s, m)))
        else (Ok mp, (s, m))) = (r, sm')"
proof -
  note eq = assms [unfolded map_page_def prod.case]
  show thesis
  proof (cases "as_root_frame s")
    case None
    with eq show thesis by (auto intro: rejected)
  next
    case (Some root)
    then have nr: "as_root_frame s \<noteq> None" by simp
    note eq1 = eq [unfolded if_not_P [OF nr]]
    show thesis
    proof (cases "page_flags_validate flags")
      case (Inl e)
      with eq1 show thesis by (auto intro: rejected)
    next
      case (Inr u1)
      show thesis
      proof (cases "validate_page va")
        case (Inl e)
        with eq1 Inr show thesis by (auto intro: rejected)
      next
        case (Inr u2)
        note eq2 = eq1 [unfolded \<open>page_flags_validate flags = Inr u1\<close> Inr try_res_simps]
        show thesis
        proof (cases "as_stack_guard s = Some va \<and> kind \<noteq> Map_Stack")
          case True
          with eq2 show thesis by (auto intro: rejected)
        next
          case guard: False
          note eq3 = eq2 [unfolded if_not_P [OF guard]]
          show thesis
          proof (cases "list_ex (\<lambda>mp. mi_virtual_address mp = va) (flatten (as_mappings s))")
            case True
            with eq3 show thesis by (auto intro: rejected)
          next
            case free: False
            note eq4 = eq3 [unfolded if_not_P [OF free]]
            show thesis
            proof (cases "position is_none (as_mappings s)")
              case None
              with eq4 show thesis by (auto intro: rejected)
            next
              case slot: (Some slot)
              obtain a m1 where a: "machine_alloc m = (a, m1)" by fastforce
              note eq5 = eq4 [unfolded slot ok_or_simps try_res_simps a prod.case]
              show thesis
              proof (cases a)
                case None
                with eq5 a show thesis by (auto intro: no_frames)
              next
                case f: (Some f)
                show thesis
                proof (rule mapped)
                  show "as_root_frame s \<noteq> None" using Some by simp
                  show "page_flags_validate flags = Ok ()" "validate_page va = Ok ()"
                    using \<open>page_flags_validate flags = Inr u1\<close> Inr by simp_all
                  show "kind = Map_Anonymous \<longrightarrow> as_stack_guard s \<noteq> Some va" using guard by auto
                  show "va \<notin> mi_virtual_address ` set (flatten (as_mappings s))"
                    using free by (auto simp: list_ex_iff)
                  show "position is_none (as_mappings s) = Some slot" by (rule slot)
                  show "machine_alloc m = (Some f, m1)" using a f by simp
                qed (use eq5 f Some in \<open>cases "as_active s"; simp add: Let_def\<close>)
              qed
            qed
          qed
        qed
      qed
    qed
  qed
qed

lemma map_page_spec:
  assumes inv: "space_inv R X K (s, m)" and eq: "map_page va flags kind (s, m) = (r, (s', m'))"
  shows "space_inv R X K (s', m') \<and> same_fields s s' \<and>
    (\<forall>e. r = Err e \<longrightarrow> as_mappings s' = as_mappings s \<and>
       (as_active s \<longrightarrow> (\<forall>v. mmu_lookup m' (the (as_root_frame s)) v = mmu_lookup m (the (as_root_frame s)) v))) \<and>
    (\<forall>mp. r = Ok mp \<longrightarrow> validate_page va = Ok () \<and> mi_flags mp = flags \<and> mi_kind mp = kind \<and>
       mi_physical_frame mp \<notin> K \<union> set (space_frames s) \<and>
       space_mapping s va = None \<and>
       (as_active s \<longrightarrow> mmu_lookup m' (the (as_root_frame s)) va = Some (mi_physical_frame mp OR leaf_flags flags)) \<and>
       (\<forall>v. space_mapping s' v = (if v = va then Some mp else space_mapping s v)))"
  using eq
proof (cases rule: map_page_cases)
  case (rejected e)
  with inv show ?thesis by (simp add: same_fields_refl)
next
  case (no_frames m1)
  note al = machine_alloc_spec [OF space_invD(1) [OF inv] no_frames(2)]
  have out: "outside_same {} m m1" by (rule outside_same_bytes [OF al(2,4)])
  have "kernel_ok R X m1" by (rule kernel_ok_same [OF space_invD(2) [OF inv] out]) simp
  moreover have "tables_ok s m1 root" if "as_root_frame s = Some root" "as_active s" for root
    by (rule tables_ok_same [OF space_invD(11) [OF inv that] out al(3)]) simp_all
  ultimately have "space_inv R X K (s, m1)"
    using inv al(1) by (simp add: space_inv_def)
  with no_frames mmu_lookup_bytes [OF al(2)] show ?thesis by (simp add: same_fields_refl)
next
  case (mapped slot f m1)
  define m2 where "m2 = snd (zero_physical_page f m1)"
  define mp where "mp = \<lparr>mi_virtual_address = va, mi_physical_frame = f, mi_flags = flags, mi_kind = kind\<rparr>"
  note eq2 = mapped(8) [unfolded Let_def, folded m2_def mp_def]
  note fresh = fresh_page [OF inv mapped(7) m2_def]
  note slot = position_SomeD [OF mapped(6)]
  from mapped(1) obtain root where root: "as_root_frame s = Some root" by blast
  have "as_mappings s ! slot = None" using slot by (cases "as_mappings s ! slot") auto
  then obtain A B where AB: "flatten (as_mappings s) = A @ B"
      "\<And>v. flatten ((as_mappings s)[slot := v]) = A @ flatten [v] @ B"
    using split_slot [of slot "as_mappings s"] slot by auto
  have undo: "(as_mappings s)[slot := None] = as_mappings s"
    using \<open>as_mappings s ! slot = None\<close> by (metis list_update_id)
  have mok: "mapping_ok mp" using mapped(2,3) by (simp add: mapping_ok_def mp_def)
  have va: "va \<notin> mi_virtual_address ` set (A @ B)" using mapped(5) AB(1) by simp
  have none: "space_mapping s va = None"
    using va AB(1) by (auto simp: space_mapping_def find_None_iff)
  have look: "space_mapping t v = (if v = va then Some mp else space_mapping s v)"
    if "as_mappings t = (as_mappings s)[slot := Some mp]" for t v
    using find_insert [OF va, of mp v] by (simp add: space_mapping_def that AB mp_def)
  have dva: "distinct (map mi_virtual_address (A @ mp # B))"
    using space_invD(7) [OF inv] va by (auto simp: AB mp_def)
  have frs: "set (space_frames t) = {root} \<union> insert f (mi_physical_frame ` set (A @ B)) \<union> set (flatten (as_table_frames t))"
      "distinct (space_frames t) \<longleftrightarrow> distinct (root # map mi_physical_frame (A @ B) @ flatten (as_table_frames t)) \<and>
        f \<notin> {root} \<union> mi_physical_frame ` set (A @ B) \<union> set (flatten (as_table_frames t))"
    if "as_mappings t = (as_mappings s)[slot := Some mp]" "as_root_frame t = Some root" for t
    by (auto simp: space_frames_def that AB mp_def)
  have old: "set (space_frames s) = {root} \<union> mi_physical_frame ` set (A @ B) \<union> set (flatten (as_table_frames s))"
      "distinct (root # map mi_physical_frame (A @ B) @ flatten (as_table_frames s))"
    using space_invD(4) [OF inv] by (auto simp: space_frames_def root AB)
  have oks: "\<And>q. q \<in> set (A @ mp # B) \<Longrightarrow> mapping_ok q"
    using space_invD(8) [OF inv] mok by (auto simp: AB)
  show ?thesis
  proof (cases "as_active s")
    case False
    then have r: "r = Ok mp" "s' = s\<lparr>as_mappings := (as_mappings s)[slot := Some mp]\<rparr>" "m' = m2"
      using eq2 by simp_all
    have "space_inv R X K (s', m')"
    proof (rule space_invI [OF fresh(3) [folded r(3)] _ fresh(6) [folded r(3)]])
      show "K \<union> set (space_frames s') \<subseteq> insert f (K \<union> set (space_frames s))"
        using frs(1) [of s'] old(1) root by (auto simp: r)
      show "K \<inter> set (space_frames s') = {}"
        using frs(1) [of s'] old(1) root fresh(1) space_invD(3) [OF inv] by (auto simp: r)
      show "distinct (space_frames s')"
        using frs(2) [of s'] old root fresh(1) by (auto simp: r)
    qed (use False root space_invD [OF inv] dva oks in \<open>auto simp: r AB\<close>)
    then show ?thesis
      using r False none look [of s'] mapped(3) fresh(1) by (simp add: same_fields_def mp_def)
  next
    case True
    obtain ok tabs m3 where um: "user_space_map root mp (as_table_frames s) m2 = (ok, tabs, m3)"
      by (metis prod_cases3)
    have tk: "tables_ok s m2 root"
      by (rule tables_ok_same [OF space_invD(11) [OF inv root True] fresh(4,5)]) (use fresh(1) old(1) in auto)
    then obtain lvl where l: "pt_ok root lvl m2"
        "\<forall>t. lvl t \<noteq> 0 \<longrightarrow> t \<in> insert root (set (flatten (as_table_frames s)))"
        "\<And>va. unat va < 2 ^ 47 \<Longrightarrow> (mmu_lookup m2 root va = translation s va \<or> mmu_lookup m2 root va = None) \<and>
          (translation s va \<noteq> None \<longrightarrow> has_tables m2 root va)"
      unfolding tables_ok_def by blast
    have held: "\<forall>t. lvl t \<noteq> 0 \<longrightarrow> t \<in> insert f (K \<union> set (space_frames s))" using l(2) old(1) by auto
    from user_space_map_spec [OF l(1) fresh(3) held um] obtain lvl' H' where
      u: "pt_ok root lvl' m3" "frame_sys_inv R X (mc_frames m3, H')"
        "\<And>t. lvl' t \<noteq> 0 \<Longrightarrow> lvl t \<noteq> 0 \<or> t \<in> set (flatten tabs)"
        "tables_grow (as_table_frames s) (insert f (K \<union> set (space_frames s))) tabs H'" "outside_same H' m2 m3"
        "\<And>vb. mmu_lookup m3 root vb =
           (if ok \<and> table_indices vb = table_indices (mi_virtual_address mp)
            then Some (mi_physical_frame mp OR leaf_flags (mi_flags mp)) else mmu_lookup m2 root vb)"
        "\<And>vb. has_tables m2 root vb \<Longrightarrow> has_tables m3 root vb"
      by blast
    note g = u(4) [unfolded tables_grow_def]
    have frok: "\<forall>x\<in>H'. frame_ok R X x" using frame_sys_inv_frame [OF u(2)] by blast
    have k3: "kernel_ok R X m3" by (rule kernel_ok_same [OF fresh(6) u(5) frok])
    have lev: "\<forall>t. lvl' t \<noteq> 0 \<longrightarrow> t \<in> insert root (set (flatten tabs))"
      using u(3) l(2) g by blast
    have dt: "distinct (flatten tabs)" using g old by auto
    have tb: "set (flatten tabs) \<inter> ({f, root} \<union> mi_physical_frame ` set (A @ B) \<union> K) = {}"
    proof -
      define P T where "P = mi_physical_frame ` set (A @ B)" and "T = set (flatten (as_table_frames s))"
      have "T \<inter> (P \<union> {root}) = {}" using old(2) by (auto simp: P_def T_def)
      moreover have "set (flatten tabs) \<subseteq> T \<union> (H' - insert f (K \<union> set (space_frames s)))" using g by (simp add: T_def)
      moreover have "set (space_frames s) = {root} \<union> P \<union> T" using old(1) by (simp add: P_def T_def)
      ultimately show ?thesis using fresh(1) space_invD(3) [OF inv] by (fold P_def) blast
    qed
    have pg: "table_indices vb = table_indices va \<longleftrightarrow> page_of vb = va" if "unat vb < 2 ^ 47" for vb
      using table_indices_inj [of vb va] table_indices_page [of vb va] mapping_ok_page(2) [OF mok] mapping_ok_page(3) [OF mok, of vb] that
      by (auto simp: mp_def)
    have sub: "{f, root} \<union> mi_physical_frame ` set (A @ B) \<union> K \<union> set (flatten tabs) \<subseteq> H'"
      using g old by auto
    show ?thesis
    proof (cases ok)
      case ok: True
      then have r: "r = Ok mp" "m' = m3"
          "s' = s\<lparr>as_mappings := (as_mappings s)[slot := Some mp], as_table_frames := tabs\<rparr>"
        using eq2 True root um by simp_all
      have tr: "translation s' v = (if page_of v = va then Some (mi_physical_frame mp OR leaf_flags (mi_flags mp)) else translation s v)" for v
        using look [of s' "page_of v"] by (simp add: translation_def r(3))
      have lk: "(mmu_lookup m' root v = translation s' v \<or> mmu_lookup m' root v = None) \<and>
          (translation s' v \<noteq> None \<longrightarrow> has_tables m' root v)" if v: "unat v < 2 ^ 47" for v
      proof (cases "page_of v = va")
        case True
        then have "mmu_lookup m3 root v = Some (mi_physical_frame mp OR leaf_flags (mi_flags mp))"
          using u(6) [of v] ok pg [OF v] by (simp add: mp_def)
        with True tr [of v] lookup_has_tables show ?thesis by (auto simp: r(2))
      next
        case False
        with u(6) [of v] pg [OF v] have "mmu_lookup m3 root v = mmu_lookup m2 root v" by (simp add: mp_def)
        with False tr [of v] l(3) [OF v] u(7) [of v] show ?thesis by (auto simp: r(2))
      qed
      have "\<forall>t. lvl' t \<noteq> 0 \<longrightarrow> t \<in> insert root (set (flatten (as_table_frames s')))" using lev by (simp add: r(3))
      with u(1) lk have tok: "tables_ok s' m' root" unfolding tables_ok_def r(2) by blast
      have "space_inv R X K (s', m')"
      proof (rule space_invI [OF u(2) [folded r(2)] _ k3 [folded r(2)]])
        show "K \<union> set (space_frames s') \<subseteq> H'"
          using frs(1) [of s'] root sub by (auto simp: r)
        show "K \<inter> set (space_frames s') = {}"
          using frs(1) [of s'] old(1) root tb fresh(1) space_invD(3) [OF inv] by (auto simp: r)
        show "distinct (space_frames s')"
          using frs(2) [of s'] old root tb dt fresh(1) by (auto simp: r)
        show "tables_ok s' m' root'" if "as_root_frame s' = Some root'" for root'
          using that root tok by (simp add: r)
      qed (use True root space_invD [OF inv] dva oks g in \<open>auto simp: r AB\<close>)
      moreover have "mmu_lookup m' root va = Some (mi_physical_frame mp OR leaf_flags flags)"
        using u(6) [of va] ok by (simp add: r(2) mp_def)
      ultimately show ?thesis
        using r root none look [of s'] mapped(3) fresh(1) by (simp add: same_fields_def mp_def)
    next
      case nok: False
      obtain b m4 where fr: "machine_free f m3 = (b, m4)" by fastforce
      have "f \<in> H'" using sub by blast
      note fs = machine_free_spec [OF u(2) this fr]
      have r: "r = Err AS_HardwareMapping" "m' = m4" "s' = s\<lparr>as_table_frames := tabs\<rparr>"
        using eq2 True root um nok fr by (simp_all add: undo)
      have out: "outside_same {} m3 m4" by (rule outside_same_bytes [OF fs(2,4)])
      have "tables_ok s' m3 root"
      proof -
        have "\<forall>t. lvl' t \<noteq> 0 \<longrightarrow> t \<in> insert root (set (flatten (as_table_frames s')))" using lev by (simp add: r(3))
        moreover have "translation s' v = translation s v" for v
          by (simp add: r(3) translation_def space_mapping_def)
        ultimately show ?thesis using u(1,6,7) l(3) nok unfolding tables_ok_def by auto
      qed
      then have tok: "tables_ok s' m' root"
        unfolding r(2) by (rule tables_ok_same [OF _ out fs(3)]) simp_all
      have frs': "space_frames s' = root # map mi_physical_frame (A @ B) @ flatten tabs"
        by (simp add: space_frames_def r(3) root AB)
      have "space_inv R X K (s', m')"
      proof (rule space_invI [OF fs(1) [folded r(2)]])
        show "K \<union> set (space_frames s') \<subseteq> H' - {f}"
          using sub tb fresh(1) old(1) by (auto simp: frs')
        show "kernel_ok R X m'" unfolding r(2) by (rule kernel_ok_same [OF k3 out]) simp
        show "K \<inter> set (space_frames s') = {}"
          using old(1) tb space_invD(3) [OF inv] by (auto simp: frs')
        show "distinct (space_frames s')" using old(2) tb dt by (auto simp: frs')
        show "tables_ok s' m' root'" if "as_root_frame s' = Some root'" for root'
          using that root tok by (simp add: r)
      qed (use True root space_invD [OF inv] g in \<open>auto simp: r\<close>)
      moreover have "mmu_lookup m' root v = mmu_lookup m root v" for v
        using mmu_lookup_bytes [OF fs(2)] u(6) [of v] nok same_tables_lookup [OF space_invD(11) [OF inv root True] fresh(4,5)]
          fresh(1) old(1) by (auto simp: r(2))
      ultimately show ?thesis using r root by (simp add: same_fields_def)
    qed
  qed
qed

section \<open>Removal of a page\<close>

lemma machine_free_False: "machine_free f m = (ok, m') \<Longrightarrow> \<not> ok \<Longrightarrow> mc_frames m' = mc_frames m"
  by (auto simp: machine_free_def free_frame_def split: if_splits)

text \<open>The hardware part of a removal.\<close>

definition unmap_active :: "address_space \<Rightarrow> usize \<Rightarrow> machine \<Rightarrow> (space_error + unit) \<times> space_state" where
  "unmap_active s va m =
     (if as_active s then
        try_res (ok_or (as_root_frame s) AS_InvalidState) (s, m) (\<lambda>root.
          case user_space_unmap root va m of
            (unmapped, m) \<Rightarrow> if \<not> unmapped then (Err AS_HardwareMapping, (s, m)) else (Ok (), (s, m)))
      else (Ok (), (s, m)))"

lemma unmap_active_spec:
  assumes inv: "space_inv R X K (s, m)" and mp: "mp \<in> set (flatten (as_mappings s))" "mi_virtual_address mp = va"
    and eq: "unmap_active s va m = (r, (s', m1))"
  shows "s' = s \<and> space_inv R X K (s, m1) \<and>
    (r = Ok () \<and> (as_active s \<longrightarrow> mmu_lookup m1 (the (as_root_frame s)) va = None) \<or>
     r = Err AS_HardwareMapping \<and> m1 = m)"
proof (cases "as_active s")
  case False
  with eq inv show ?thesis by (simp add: unmap_active_def)
next
  case True
  with space_invD(9) [OF inv] obtain root where root: "as_root_frame s = Some root" by blast
  note tok = space_invD(11) [OF inv root True]
  then obtain lvl where l: "pt_ok root lvl m"
      "\<forall>t. lvl t \<noteq> 0 \<longrightarrow> t \<in> insert root (set (flatten (as_table_frames s)))"
      "\<And>va. unat va < 2 ^ 47 \<Longrightarrow> (mmu_lookup m root va = translation s va \<or> mmu_lookup m root va = None) \<and>
        (translation s va \<noteq> None \<longrightarrow> has_tables m root va)"
    unfolding tables_ok_def by blast
  have mok: "mapping_ok mp" by (rule space_invD(8) [OF inv mp(1)])
  note pg = mapping_ok_page [OF mok, unfolded mp(2)]
  have tr: "translation s va \<noteq> None"
    using space_mapping_iff [OF inv, of va mp] mp pg(1) by (auto simp: translation_def)
  show ?thesis
  proof (cases "mmu_lookup m root va")
    case None
    then have "user_space_unmap root va m = (False, m)"
      using user_space_unmap_absent [OF l(1)] l(3) [OF pg(2)] tr by blast
    with eq True root inv show ?thesis by (simp add: unmap_active_def)
  next
    case (Some e)
    from user_space_unmap_spec [OF l(1) Some] obtain m2 where u:
      "user_space_unmap root va m = (True, m2)" "pt_ok root lvl m2" "mc_frames m2 = mc_frames m"
      "\<And>H. (\<forall>t. lvl t \<noteq> 0 \<longrightarrow> t \<in> H) \<Longrightarrow> outside_same H m m2"
      "\<And>vb. has_tables m2 root vb = has_tables m root vb"
      "\<And>vb. mmu_lookup m2 root vb = (if table_indices vb = table_indices va then None else mmu_lookup m root vb)"
      by blast
    have r: "s' = s" "r = Ok ()" "m1 = m2" using eq True root u(1) by (simp_all add: unmap_active_def)
    have fr: "\<forall>f\<in>insert root (set (flatten (as_table_frames s))). frame_ok R X f"
      using space_frame_ok [OF inv] root by (auto simp: space_frames_def)
    have "kernel_ok R X m2" by (rule kernel_ok_same [OF space_invD(2) [OF inv] u(4) [OF l(2)] fr])
    moreover have "tables_ok s m2 root"
      using u(2,5,6) l(2,3) unfolding tables_ok_def by auto
    ultimately have "space_inv R X K (s, m2)"
      using inv u(3) root by (simp add: space_inv_def)
    with r root u(6) [of va] show ?thesis by simp
  qed
qed

lemma remove_mapping_unfold:
  "remove_mapping va (s, m) =
     try_res (ok_or (position (maps_page va) (as_mappings s)) AS_InvalidAddress) (s, m) (\<lambda>slot.
       try_st (unmap_active s va m)
         (\<lambda>_ (s, m).
           try_res (ok_or (as_mappings s ! slot) AS_InvalidAddress) (s, m) (\<lambda>mapping.
             let taken = s\<lparr>as_mappings := (as_mappings s)[slot := None]\<rparr> in
             case machine_free (mi_physical_frame mapping) m of
               (returned, m) \<Rightarrow>
                 if \<not> returned then
                   (Err AS_FrameReturn, (taken\<lparr>as_mappings := (as_mappings taken)[slot := Some mapping]\<rparr>, m))
                 else (Ok (), (taken, m)))))"
  by (simp only: remove_mapping_def unmap_active_def prod.case)

lemma remove_mapping_spec:
  assumes inv: "space_inv R X K (s, m)" and eq: "remove_mapping va (s, m) = (r, (s', m'))"
  shows "space_inv R X K (s', m') \<and> same_fields s s' \<and> (\<forall>e. r = Err e \<longrightarrow> as_mappings s' = as_mappings s) \<and>
    (r = Ok () \<longrightarrow> (\<forall>v. space_mapping s' v = (if v = va then None else space_mapping s v)) \<and>
       space_mapping s va \<noteq> None \<and>
       (as_active s \<longrightarrow> mmu_lookup m' (the (as_root_frame s)) va = None))"
proof (cases "position (maps_page va) (as_mappings s)")
  case None
  with eq inv show ?thesis by (auto simp: remove_mapping_def same_fields_refl)
next
  case (Some slot)
  note slot = position_SomeD [OF Some]
  then obtain mp where mp: "as_mappings s ! slot = Some mp" "mi_virtual_address mp = va"
    by (cases "as_mappings s ! slot") (auto simp: maps_page_def)
  obtain A B where AB: "flatten (as_mappings s) = A @ mp # B"
      "\<And>v. flatten ((as_mappings s)[slot := v]) = A @ flatten [v] @ B"
    using split_slot [of slot "as_mappings s"] slot mp(1) by auto
  have mem: "mp \<in> set (flatten (as_mappings s))" by (simp add: AB(1))
  obtain r1 s1 m1 where u: "unmap_active s va m = (r1, (s1, m1))" by (metis prod_cases3)
  note ua = unmap_active_spec [OF inv mem mp(2) u]
  note eq2 = eq [unfolded remove_mapping_unfold Some ok_or_simps try_res_simps u]
  show ?thesis
  proof (cases r1)
    case (Inl e)
    with eq2 ua show ?thesis by (auto simp: same_fields_refl)
  next
    case (Inr x)
    with ua have inv1: "space_inv R X K (s, m1)" "s1 = s"
        "as_active s \<longrightarrow> mmu_lookup m1 (the (as_root_frame s)) va = None" by auto
    obtain ok m2 where fr: "machine_free (mi_physical_frame mp) m1 = (ok, m2)" by fastforce
    have own: "mi_physical_frame mp \<in> K \<union> set (space_frames s)" using mem by (auto simp: space_frames_def)
    note fs = machine_free_spec [OF space_invD(1) [OF inv1(1)] own fr]
    have out: "outside_same {} m1 m2" by (rule outside_same_bytes [OF fs(2,4)])
    have k2: "kernel_ok R X m2" by (rule kernel_ok_same [OF space_invD(2) [OF inv1(1)] out]) simp
    have look: "mmu_lookup m2 root v = mmu_lookup m1 root v" for root v
      by (rule mmu_lookup_bytes [OF fs(2)])
    have same: "(as_mappings s)[slot := Some mp] = as_mappings s" using mp(1) by (metis list_update_id)
    have gone: "space_mapping t v = (if v = va then None else space_mapping s v)"
      if "as_mappings t = (as_mappings s)[slot := None]" for t v
      using find_remove [of mi_virtual_address A mp B v] space_invD(7) [OF inv] mp(2)
      by (simp add: space_mapping_def that AB)
    show ?thesis
    proof (cases ok)
      case False
      then have r: "r = Err AS_FrameReturn" "s' = s" "m' = m2"
        using eq2 Inr inv1(2) mp(1) fr by (simp_all add: same)
      have "mc_frames m2 = mc_frames m1" using fr False by (rule machine_free_False)
      moreover have "tables_ok s m2 root" if "as_root_frame s = Some root" "as_active s" for root
        by (rule tables_ok_same [OF space_invD(11) [OF inv1(1) that] out fs(3)]) simp_all
      ultimately have "space_inv R X K (s, m2)" using inv1(1) k2 by (simp add: space_inv_def)
      with r show ?thesis by (simp add: same_fields_refl)
    next
      case True
      then have r: "r = Ok ()" "s' = s\<lparr>as_mappings := (as_mappings s)[slot := None]\<rparr>" "m' = m2"
        using eq2 Inr inv1(2) mp(1) fr by simp_all
      obtain F G where F: "space_frames s = F @ mi_physical_frame mp # G" "space_frames s' = F @ G"
        by (rule that [of "(case as_root_frame s of None \<Rightarrow> [] | Some root \<Rightarrow> [root]) @ map mi_physical_frame A"
              "map mi_physical_frame B @ flatten (as_table_frames s)"])
           (simp_all add: space_frames_def AB r(2))
      have tr: "translation s' v = (if page_of v = va then None else translation s v)" for v
        using gone [of s' "page_of v"] by (simp add: translation_def r(2))
      have "mapping_ok mp" by (rule space_invD(8) [OF inv mem])
      note pg = mapping_ok_page [OF this, unfolded mp(2)]
      have tok: "tables_ok s' m2 root" if root: "as_root_frame s = Some root" and act: "as_active s" for root
      proof -
        have t2: "tables_ok s m2 root"
          by (rule tables_ok_same [OF space_invD(11) [OF inv1(1) that] out fs(3)]) simp_all
        have "mmu_lookup m2 root v = None" if "page_of v = va" "unat v < 2 ^ 47" for v
        proof -
          have "drop_bit 12 v = drop_bit 12 va" using pg(3) that(1) by simp
          then have "table_indices v = table_indices va" by (rule table_indices_page)
          then have "mmu_lookup m1 root v = mmu_lookup m1 root va" by (simp only: mmu_lookup_def)
          then show ?thesis using look inv1(3) act root by simp
        qed
        with t2 tr show ?thesis unfolding tables_ok_def by (auto simp: r(2))
      qed
      have "space_inv R X K (s', m')"
      proof (rule space_invI [OF fs(1) [folded r(3)] _ k2 [folded r(3)]])
        show "K \<union> set (space_frames s') \<subseteq> K \<union> set (space_frames s) - {mi_physical_frame mp}"
          using F space_invD(3,4) [OF inv] by auto
        show "K \<inter> set (space_frames s') = {}" "distinct (space_frames s')"
          using F space_invD(3,4) [OF inv] by auto
        show "tables_ok s' m' root" if "as_root_frame s' = Some root" "as_active s'" for root
          using that tok by (simp add: r)
        show "as_root_frame s' = None \<Longrightarrow> \<not> as_active s' \<and> space_frames s' = []"
          using space_invD(9) [OF inv] F by (auto simp: r(2))
      qed (use space_invD [OF inv] in \<open>auto simp: r(2) AB\<close>)
      moreover have "space_mapping s va = Some mp" using space_mapping_iff [OF inv] mem mp(2) by blast
      ultimately show ?thesis using r gone [of s'] look inv1(3) by (simp add: same_fields_def)
    qed
  qed
qed

section \<open>Activation\<close>

definition pages_translation :: "mapping_info list \<Rightarrow> usize \<Rightarrow> u64 option" where
  "pages_translation mps va =
     map_option (\<lambda>mp. mi_physical_frame mp OR leaf_flags (mi_flags mp))
       (List.find (\<lambda>mp. mi_virtual_address mp = page_of va) mps)"

lemma translation_pages: "translation s va = pages_translation (flatten (as_mappings s)) va"
  by (simp add: translation_def space_mapping_def pages_translation_def)

lemma activate_loop_spec:
  assumes "pt_ok root lvl m" "frame_sys_inv R X (mc_frames m, H)" "\<forall>t. lvl t \<noteq> 0 \<longrightarrow> t \<in> H"
    and "\<forall>t. lvl t \<noteq> 0 \<longrightarrow> t \<in> insert root (set (flatten tables))"
    and "\<forall>va. unat va < 2 ^ 47 \<longrightarrow> mmu_lookup m root va = pages_translation A va"
    and "\<forall>mp\<in>set mps. mapping_ok mp" "distinct (map mi_virtual_address (A @ mps))"
    and "activate_loop root mps tables m = (ok, tables', m')"
  shows "\<exists>lvl' H'. pt_ok root lvl' m' \<and> frame_sys_inv R X (mc_frames m', H') \<and>
    (\<forall>t. lvl' t \<noteq> 0 \<longrightarrow> t \<in> insert root (set (flatten tables'))) \<and>
    tables_grow tables H tables' H' \<and> outside_same H' m m' \<and>
    (ok \<longrightarrow> (\<forall>va. unat va < 2 ^ 47 \<longrightarrow> mmu_lookup m' root va = pages_translation (A @ mps) va))"
  using assms
proof (induction mps arbitrary: A lvl m tables H)
  case Nil
  then show ?case
    by (intro exI [of _ lvl] exI [of _ H]) (auto simp: tables_grow_refl outside_same_refl)
next
  case (Cons mp mps)
  obtain r1 t1 m1 where um: "user_space_map root mp tables m = (r1, t1, m1)" by (metis prod_cases3)
  from user_space_map_spec [OF Cons.prems(1-3) um] obtain l1 H1 where
    u: "pt_ok root l1 m1" "frame_sys_inv R X (mc_frames m1, H1)" "\<forall>t. l1 t \<noteq> 0 \<longrightarrow> t \<in> H1"
      "\<forall>t. l1 t \<noteq> 0 \<longrightarrow> lvl t \<noteq> 0 \<or> t \<in> set (flatten t1)"
      "tables_grow tables H t1 H1" "outside_same H1 m m1"
      "\<And>vb. mmu_lookup m1 root vb =
         (if r1 \<and> table_indices vb = table_indices (mi_virtual_address mp)
          then Some (mi_physical_frame mp OR leaf_flags (mi_flags mp)) else mmu_lookup m root vb)"
    by blast
  have sub: "set (flatten tables) \<subseteq> set (flatten t1)" using u(5) by (simp add: tables_grow_def)
  have lev: "\<forall>t. l1 t \<noteq> 0 \<longrightarrow> t \<in> insert root (set (flatten t1))"
    using u(4) Cons.prems(4) sub by blast
  show ?case
  proof (cases r1)
    case False
    with um Cons.prems(8) have "\<not> ok" "tables' = t1" "m' = m1" by simp_all
    with u lev show ?thesis by blast
  next
    case True
    with um Cons.prems(8) have rest: "activate_loop root mps t1 m1 = (ok, tables', m')" by simp
    have mok: "mapping_ok mp" using Cons.prems(6) by simp
    have tr: "mmu_lookup m1 root va = pages_translation (A @ [mp]) va" if "unat va < 2 ^ 47" for va
    proof -
      have "mi_virtual_address mp \<notin> mi_virtual_address ` set (A @ [])" using Cons.prems(7) by auto
      from find_insert [OF this refl, of "page_of va"]
      have "pages_translation (A @ [mp]) va =
          (if page_of va = mi_virtual_address mp then Some (mi_physical_frame mp OR leaf_flags (mi_flags mp))
           else pages_translation A va)"
        by (simp add: pages_translation_def)
      moreover have "table_indices va = table_indices (mi_virtual_address mp) \<longleftrightarrow> page_of va = mi_virtual_address mp"
        using table_indices_inj [of va "mi_virtual_address mp"] table_indices_page [of va "mi_virtual_address mp"]
          mapping_ok_page(2) [OF mok] mapping_ok_page(3) [OF mok, of va] that by auto
      ultimately show ?thesis using u(7) [of va] True Cons.prems(5) that by simp
    qed
    have d: "distinct (map mi_virtual_address ((A @ [mp]) @ mps))" "\<forall>mp\<in>set mps. mapping_ok mp"
      using Cons.prems(6,7) by auto
    from Cons.IH [OF u(1-3) lev _ d(2,1) rest] tr obtain l2 H2 where
      v: "pt_ok root l2 m'" "frame_sys_inv R X (mc_frames m', H2)"
        "\<forall>t. l2 t \<noteq> 0 \<longrightarrow> t \<in> insert root (set (flatten tables'))"
        "tables_grow t1 H1 tables' H2" "outside_same H2 m1 m'"
        "ok \<longrightarrow> (\<forall>va. unat va < 2 ^ 47 \<longrightarrow> mmu_lookup m' root va = pages_translation ((A @ [mp]) @ mps) va)"
      by blast
    have "tables_grow tables H tables' H2" by (rule tables_grow_trans [OF u(5) v(4)])
    moreover have "outside_same H2 m m'"
      by (rule outside_same_trans [OF u(6) v(5)]) (use v(4) in \<open>simp add: tables_grow_def\<close>)
    ultimately show ?thesis using v(1-3,6) by (intro exI [of _ l2] exI [of _ H2]) simp
  qed
qed

lemma release_loop_spec:
  assumes "release_loop ts m = (ts', m')" "frame_sys_inv R X (mc_frames m, H)" "set (flatten ts) \<subseteq> H" "distinct (flatten ts)"
  shows "flatten ts' = [] \<and> length ts' = length ts \<and> frame_sys_inv R X (mc_frames m', H - set (flatten ts)) \<and>
    mc_bytes m' = mc_bytes m \<and> mc_direct_map_ready m' = mc_direct_map_ready m \<and> mc_cr3 m' = mc_cr3 m"
  using assms
proof (induction ts arbitrary: m H ts')
  case Nil
  then show ?case by simp
next
  case (Cons t ts)
  define m1 where "m1 = (case t of None \<Rightarrow> m | Some f \<Rightarrow> snd (machine_free f m))"
  obtain us where us: "release_loop ts m1 = (us, m')" "ts' = None # us"
    using Cons.prems(1) by (auto simp: m1_def split: prod.splits)
  have m1: "frame_sys_inv R X (mc_frames m1, H - set (flatten [t])) \<and> mc_bytes m1 = mc_bytes m \<and>
      mc_direct_map_ready m1 = mc_direct_map_ready m \<and> mc_cr3 m1 = mc_cr3 m"
  proof (cases t)
    case None
    with Cons.prems(2) show ?thesis by (simp add: m1_def)
  next
    case (Some f)
    obtain b where b: "machine_free f m = (b, m1)" using Some by (cases "machine_free f m") (simp add: m1_def)
    have "f \<in> H" using Cons.prems(3) Some by simp
    from machine_free_spec [OF Cons.prems(2) this b] Some show ?thesis by simp
  qed
  have "set (flatten ts) \<subseteq> H - set (flatten [t])" "distinct (flatten ts)"
    using Cons.prems(3,4) by (cases t; auto)+
  note ih = Cons.IH [OF us(1) conjunct1 [OF m1] this]
  have "H - set (flatten (t # ts)) = H - set (flatten [t]) - set (flatten ts)" by (cases t) auto
  with ih m1 us(2) show ?case by simp
qed

lemma destroy_loop_spec:
  assumes "destroy_loop mps m = (True, m')" "frame_sys_inv R X (mc_frames m, H)"
    "mi_physical_frame ` set mps \<subseteq> H" "distinct (map mi_physical_frame mps)"
  shows "frame_sys_inv R X (mc_frames m', H - mi_physical_frame ` set mps) \<and>
    mc_bytes m' = mc_bytes m \<and> mc_direct_map_ready m' = mc_direct_map_ready m \<and> mc_cr3 m' = mc_cr3 m"
  using assms
proof (induction mps arbitrary: m H)
  case Nil
  then show ?case by simp
next
  case (Cons mp mps)
  obtain m1 where fr: "machine_free (mi_physical_frame mp) m = (True, m1)" "destroy_loop mps m1 = (True, m')"
    using Cons.prems(1) by (auto split: prod.splits bool.splits)
  have "mi_physical_frame mp \<in> H" using Cons.prems(3) by simp
  note fs = machine_free_spec [OF Cons.prems(2) this fr(1)]
  have "mi_physical_frame ` set mps \<subseteq> H - {mi_physical_frame mp}"
    using Cons.prems(3,4) by (simp add: subset_Diff_insert)
  note ih = Cons.IH [OF fr(2) fs(1) this]
  have "H - mi_physical_frame ` set (mp # mps) = H - {mi_physical_frame mp} - mi_physical_frame ` set mps" by auto
  with ih Cons.prems(4) fs(2-4) show ?case by simp
qed

lemma user_space_reset_outside:
  assumes "4096 dvd unat root"
  shows "outside_same {root} m (user_space_reset root m)" "mc_frames (user_space_reset root m) = mc_frames m"
    "mc_direct_map_ready (user_space_reset root m) = mc_direct_map_ready m"
proof -
  have "is_table root" if "direct_map_ptr root m = Some root"
    using that assms by (auto simp: direct_map_ptr_def is_table_def word_le_nat_alt kernel_defs split: if_splits)
  then show "outside_same {root} m (user_space_reset root m)"
    using reset_loop_entry [of root _ _ 0 512 m]
    by (auto simp: user_space_reset_def outside_same_def direct_map_ptr_def split: if_splits)
  show "mc_frames (user_space_reset root m) = mc_frames m"
    "mc_direct_map_ready (user_space_reset root m) = mc_direct_map_ready m"
    by (simp_all add: user_space_reset_def split: option.split)
qed

text \<open>Freeing the tables of a state that is not active.\<close>

lemma release_table_frames_spec:
  assumes inv: "frame_sys_inv R X (mc_frames m, H)" and sub: "K \<union> set (space_frames s) \<subseteq> H" and k: "kernel_ok R X m"
    and dis: "K \<inter> set (space_frames s) = {}" "distinct (space_frames s)"
    and len: "length (as_mappings s) = MAX_MAPPINGS" "length (as_table_frames s) = MAX_TABLE_FRAMES"
    and mps: "distinct (map mi_virtual_address (flatten (as_mappings s)))"
      "\<And>mp. mp \<in> set (flatten (as_mappings s)) \<Longrightarrow> mapping_ok mp"
    and st: "as_root_frame s \<noteq> None" "\<not> as_active s"
    and eq: "release_table_frames (s, m) = (s', m')"
  shows "space_inv R X K (s', m') \<and> (\<exists>ts. s' = s\<lparr>as_table_frames := ts\<rparr>)"
proof -
  obtain ts where r: "release_loop (as_table_frames s) m = (ts, m')" "s' = s\<lparr>as_table_frames := ts\<rparr>"
    using eq by (auto simp: release_table_frames_def split: prod.splits)
  have d: "distinct (flatten (as_table_frames s))" "set (flatten (as_table_frames s)) \<subseteq> H"
    using dis(2) sub by (auto simp: space_frames_def)
  note rl = release_loop_spec [OF r(1) inv d(2,1)]
  obtain P where P: "space_frames s = P @ flatten (as_table_frames s)" "space_frames s' = P"
    by (rule that [of "(case as_root_frame s of None \<Rightarrow> [] | Some root \<Rightarrow> [root]) @ map mi_physical_frame (flatten (as_mappings s))"])
       (use rl in \<open>simp_all add: space_frames_def r(2)\<close>)
  have out: "outside_same {} m m'" using rl by (intro outside_same_bytes) simp_all
  have "space_inv R X K (s', m')"
  proof (rule space_invI)
    show "frame_sys_inv R X (mc_frames m', H - set (flatten (as_table_frames s)))" using rl by blast
    show "K \<union> set (space_frames s') \<subseteq> H - set (flatten (as_table_frames s))"
      using P sub dis by auto
    show "kernel_ok R X m'" by (rule kernel_ok_same [OF k out]) simp
    show "K \<inter> set (space_frames s') = {}" "distinct (space_frames s')" using P dis by auto
  qed (use len mps st rl in \<open>auto simp: r(2)\<close>)
  with r(2) show ?thesis by blast
qed

lemma activate_spec:
  assumes inv: "space_inv R X K (s, m)" and eq: "activate (s, m) = (r, (s', m'))"
  shows "space_inv R X K (s', m') \<and> as_mappings s' = as_mappings s \<and> as_root_frame s' = as_root_frame s \<and>
    (r = Ok () \<longrightarrow> as_active s' \<and> (\<forall>va. unat va < 2 ^ 47 \<longrightarrow> mmu_lookup m' (the (as_root_frame s)) va = translation s va))"
proof (cases "as_root_frame s = None \<or> as_active s")
  case True
  with eq inv show ?thesis by (cases "as_root_frame s") (auto simp: activate_def)
next
  case False
  then obtain root where root: "as_root_frame s = Some root" and na: "\<not> as_active s" by auto
  have fr: "frame_ok R X root" by (rule space_frame_ok [OF inv]) (simp add: space_frames_def root)
  then have al: "4096 dvd unat root" by (simp add: frame_ok_def)
  show ?thesis
  proof (cases "direct_map_ptr root m")
    case None
    with eq root na inv show ?thesis by (auto simp: activate_def user_space_prepare_def)
  next
    case (Some p)
    then have t: "mc_direct_map_ready m" "is_table root"
      using al by (auto simp: direct_map_ptr_def is_table_def word_le_nat_alt kernel_defs split: if_splits)
    have k: "is_table (kernel_root m)" "root \<noteq> kernel_root m"
        "\<And>i. unat i < 512 \<Longrightarrow> \<not> links (entry m (kernel_root m) i)"
      using space_invD(2) [OF inv] fr by (auto simp: kernel_ok_def)
    from user_space_prepare_spec [OF t k] obtain m1 where p: "user_space_prepare root m = (True, m1)"
        "pt_ok root (root_only root) m1" "\<And>va. mmu_lookup m1 root va = None" "mc_frames m1 = mc_frames m"
        "outside_same {root} m m1" by blast
    have k1: "kernel_ok R X m1" by (rule kernel_ok_same [OF space_invD(2) [OF inv] p(5)]) (use fr in simp)
    obtain ok ts m2 where al: "activate_loop root (flatten (as_mappings s)) (as_table_frames s) m1 = (ok, ts, m2)"
      by (metis prod_cases3)
    have fs1: "frame_sys_inv R X (mc_frames m1, K \<union> set (space_frames s))" using space_invD(1) [OF inv] p(4) by simp
    have lvl: "\<forall>t. root_only root t \<noteq> 0 \<longrightarrow> t \<in> K \<union> set (space_frames s)"
        "\<forall>t. root_only root t \<noteq> 0 \<longrightarrow> t \<in> insert root (set (flatten (as_table_frames s)))"
      by (auto simp: root_only_def space_frames_def root)
    have none: "\<forall>va. unat va < 2 ^ 47 \<longrightarrow> mmu_lookup m1 root va = pages_translation [] va"
      by (simp add: p(3) pages_translation_def)
    have oks: "\<forall>mp\<in>set (flatten (as_mappings s)). mapping_ok mp" using space_invD(8) [OF inv] by blast
    have dd: "distinct (map mi_virtual_address ([] @ flatten (as_mappings s)))" using space_invD(7) [OF inv] by simp
    from activate_loop_spec [OF p(2) fs1 lvl none oks dd al] obtain lvl' H' where
      a: "pt_ok root lvl' m2" "frame_sys_inv R X (mc_frames m2, H')"
        "\<forall>t. lvl' t \<noteq> 0 \<longrightarrow> t \<in> insert root (set (flatten ts))"
        "tables_grow (as_table_frames s) (K \<union> set (space_frames s)) ts H'" "outside_same H' m1 m2"
        "ok \<longrightarrow> (\<forall>va. unat va < 2 ^ 47 \<longrightarrow> mmu_lookup m2 root va = pages_translation (flatten (as_mappings s)) va)"
      by auto
    note g = a(4) [unfolded tables_grow_def]
    have nt: "flatten (as_table_frames s) = []" by (rule space_invD(10) [OF inv na])
    define s1 where "s1 = s\<lparr>as_table_frames := ts\<rparr>"
    have fr1: "space_frames s1 = space_frames s @ flatten ts"
      by (simp add: space_frames_def s1_def nt)
    have frok: "\<forall>x\<in>H'. frame_ok R X x" using frame_sys_inv_frame [OF a(2)] by blast
    have k2: "kernel_ok R X m2" by (rule kernel_ok_same [OF k1 a(5) frok])
    have ts: "set (flatten ts) \<subseteq> H' - (K \<union> set (space_frames s))" "distinct (flatten ts)"
        "K \<union> set (space_frames s) \<subseteq> H'" "length ts = MAX_TABLE_FRAMES"
      using g nt space_invD(6) [OF inv] by auto
    have own: "K \<union> set (space_frames s1) \<subseteq> H'" "K \<inter> set (space_frames s1) = {}" "distinct (space_frames s1)"
      using ts space_invD(3,4) [OF inv] by (auto simp: fr1)
    show ?thesis
    proof (cases ok)
      case True
      then have r: "r = Ok ()" "s' = s1\<lparr>as_active := True\<rparr>" "m' = m2"
        using eq root na p(1) al by (simp_all add: activate_def Let_def s1_def)
      have tr: "translation s' va = translation s va" for va by (simp add: r(2) s1_def translation_def space_mapping_def)
      have look: "mmu_lookup m' root va = translation s va" if "unat va < 2 ^ 47" for va
        using a(6) True that by (simp add: r(3) translation_pages)
      have tab: "\<forall>t. lvl' t \<noteq> 0 \<longrightarrow> t \<in> insert root (set (flatten (as_table_frames s')))"
        using a(3) by (simp add: r(2) s1_def)
      have tok: "tables_ok s' m' root"
        unfolding tables_ok_def tr
        using a(1) [folded r(3)] tab look lookup_has_tables [of m' root] by auto
      have sf: "space_frames s' = space_frames s1" by (simp add: r(2) space_frames_def)
      have tok': "tables_ok s' m' q" if "as_root_frame s' = Some q" for q
        using that tok root by (simp add: r(2) s1_def)
      have "space_inv R X K (s', m')"
        by (rule space_invI [OF a(2) [folded r(3)] own(1) [folded sf] k2 [folded r(3)] own(2,3) [folded sf] _ _ _ _ _ _ tok'])
           (use ts root space_invD [OF inv] in \<open>auto simp: r(2) s1_def\<close>)
      with r look root show ?thesis by (simp add: s1_def)
    next
      case False
      define m3 where "m3 = user_space_reset root m2"
      note rs = user_space_reset_outside [of root m2, folded m3_def]
      have "4096 dvd unat root" using fr by (simp add: frame_ok_def)
      note rs = rs [OF this]
      have r: "r = Err AS_HardwareMapping" "release_table_frames (s1, m3) = (s', m')"
        using eq root na p(1) al False by (simp_all add: activate_def Let_def s1_def m3_def)
      have k3: "kernel_ok R X m3" by (rule kernel_ok_same [OF k2 rs(1)]) (use fr in simp)
      have inv3: "frame_sys_inv R X (mc_frames m3, H')" using a(2) rs(2) by simp
      have "space_inv R X K (s', m') \<and> (\<exists>ts. s' = s1\<lparr>as_table_frames := ts\<rparr>)"
        by (rule release_table_frames_spec [OF inv3 own(1) k3 own(2,3) _ _ _ _ _ _ r(2)])
           (use ts(4) root na space_invD [OF inv] in \<open>auto simp: s1_def\<close>)
      with r(1) show ?thesis by (auto simp: s1_def)
    qed
  qed
qed

lemma destroy_spec:
  assumes inv: "space_inv R X K (s, m)" and eq: "destroy (s, m) = (r, (s', m'))" and ok: "r \<noteq> Err AS_FrameReturn"
  shows "space_inv R X K (s', m') \<and> (r = Ok () \<longrightarrow> as_root_frame s' = None)"
proof (cases "as_root_frame s")
  case None
  with eq inv show ?thesis by (auto simp: destroy_def)
next
  case (Some root)
  have fr: "frame_ok R X root" by (rule space_frame_ok [OF inv]) (simp add: space_frames_def Some)
  then have al: "4096 dvd unat root" by (simp add: frame_ok_def)
  define s1 where "s1 = s\<lparr>as_active := False\<rparr>"
  define m1 where "m1 = (if as_active s then user_space_reset root m else m)"
  have "(if as_active s then (s\<lparr>as_active := False\<rparr>, user_space_reset root m) else (s, m)) = (s1, m1)"
    by (cases s) (simp add: s1_def m1_def)
  note eq1 = eq [unfolded destroy_def prod.case Some ok_or_simps try_res_simps this Let_def]
  have m1: "mc_frames m1 = mc_frames m" "outside_same {root} m m1"
    using user_space_reset_outside [OF al, of m] by (simp_all add: m1_def outside_same_refl)
  have k1: "kernel_ok R X m1" by (rule kernel_ok_same [OF space_invD(2) [OF inv] m1(2)]) (use fr in simp)
  obtain b m2 where dl: "destroy_loop (flatten (as_mappings s)) m1 = (b, m2)" by fastforce
  have b: "b" using eq1 ok dl by (cases b) (auto simp: s1_def)
  have sf: "space_frames s = root # map mi_physical_frame (flatten (as_mappings s)) @ flatten (as_table_frames s)"
    by (simp add: space_frames_def Some)
  have inv1: "frame_sys_inv R X (mc_frames m1, K \<union> set (space_frames s))" using space_invD(1) [OF inv] m1(1) by simp
  have dl1: "destroy_loop (flatten (as_mappings s)) m1 = (True, m2)" using dl b by simp
  have sub: "mi_physical_frame ` set (flatten (as_mappings s)) \<subseteq> K \<union> set (space_frames s)"
      "distinct (map mi_physical_frame (flatten (as_mappings s)))"
    using space_invD(4) [OF inv] by (auto simp: sf)
  note d = destroy_loop_spec [OF dl1 inv1 sub]
  define s2 where "s2 = s1\<lparr>as_mappings := replicate MAX_MAPPINGS None\<rparr>"
  have sf2: "space_frames s2 = root # flatten (as_table_frames s)" by (simp add: space_frames_def s2_def s1_def Some)
  obtain s3 m3 where rt: "release_table_frames (s2, m2) = (s3, m3)" by fastforce
  have out: "outside_same {} m1 m2" using d by (intro outside_same_bytes) simp_all
  have k2: "kernel_ok R X m2" by (rule kernel_ok_same [OF k1 out]) simp
  define P where "P = mi_physical_frame ` set (flatten (as_mappings s))"
  have ss: "set (space_frames s) = insert root (P \<union> set (flatten (as_table_frames s)))"
      "P \<inter> insert root (set (flatten (as_table_frames s))) = {}" "distinct (root # flatten (as_table_frames s))"
    using space_invD(4) [OF inv] by (auto simp: sf P_def)
  have own: "K \<union> set (space_frames s2) \<subseteq> K \<union> set (space_frames s) - P" "K \<inter> set (space_frames s2) = {}"
      "distinct (space_frames s2)"
    using ss space_invD(3) [OF inv] by (auto simp: sf2)
  have "space_inv R X K (s3, m3) \<and> (\<exists>ts. s3 = s2\<lparr>as_table_frames := ts\<rparr>)"
    by (rule release_table_frames_spec [OF conjunct1 [OF d, folded P_def] own(1) k2 own(2,3) _ _ _ _ _ _ rt])
       (use space_invD(6) [OF inv] in \<open>auto simp: s2_def s1_def Some\<close>)
  then obtain ts where inv3: "space_inv R X K (s3, m3)" and s3: "s3 = s2\<lparr>as_table_frames := ts\<rparr>" by blast
  obtain c m4 where fr4: "machine_free root m3 = (c, m4)" by fastforce
  have r: "c" "r = Ok ()" "m' = m4"
      "s' = s3\<lparr>as_root_frame := None, as_owner := None, as_stack_guard := None, as_stack_pages := 0\<rparr>"
    using eq1 ok dl1 rt fr4 s3 by (cases c; auto simp: s2_def s1_def Some)+
  have na: "\<not> as_active s3" and em: "flatten (as_mappings s3) = []" by (simp_all add: s3 s2_def s1_def)
  have sf3: "space_frames s3 = [root]"
    using space_invD(10) [OF inv3 na] em by (simp add: space_frames_def s3 s2_def s1_def Some)
  have "root \<in> K \<union> set (space_frames s3)" by (simp add: sf3)
  note fs = machine_free_spec [OF space_invD(1) [OF inv3] this fr4]
  have out4: "outside_same {} m3 m4" by (rule outside_same_bytes [OF fs(2,4)])
  have sf4: "space_frames s' = []"
    using space_invD(10) [OF inv3 na] em by (simp add: space_frames_def r(4))
  have "space_inv R X K (s', m')"
    unfolding r(3)
  proof (rule space_invI [OF fs(1)])
    show "K \<union> set (space_frames s') \<subseteq> K \<union> set (space_frames s3) - {root}"
      using space_invD(3) [OF inv3] by (auto simp: sf4 sf3)
    show "kernel_ok R X m4" by (rule kernel_ok_same [OF space_invD(2) [OF inv3] out4]) simp
  qed (use sf4 na em space_invD [OF inv3] in \<open>auto simp: r(4)\<close>)
  with r show ?thesis by simp
qed

section \<open>Loading\<close>

lemma same_page: "c \<le> a \<Longrightarrow> a < c + n \<Longrightarrow> c mod 4096 + n \<le> 4096 \<Longrightarrow> a div 4096 = c div (4096 :: nat)"
proof -
  assume a: "c \<le> a" "a < c + n" "c mod 4096 + n \<le> 4096"
  define q r where "q = c div 4096" and "r = c mod 4096"
  have "c = q * 4096 + r" "r + n \<le> 4096" using a(3) by (simp_all add: q_def r_def)
  with a(1,2) have "q * 4096 \<le> a" "a < q * 4096 + 4096" by linarith+
  then have "a div 4096 = q" by (intro div_nat_eqI) simp_all
  then show "a div 4096 = c div 4096" by (simp add: q_def)
qed

lemma write_physical_spec:
  assumes w: "write_physical f off bs m = (True, m')" and f: "4096 dvd unat f" and len: "off + length bs \<le> 4096"
  shows "mc_bytes m' x = (if unat f + off \<le> unat x \<and> unat x < unat f + off + length bs
      then bs ! (unat x - (unat f + off)) else mc_bytes m x)"
    "mc_frames m' = mc_frames m" "mc_direct_map_ready m' = mc_direct_map_ready m" "outside_same {f} m m'"
proof -
  define p where "p = saturating_add f (of_nat off)"
  have off: "off < 4096" and d: "direct_map_ptr p m = Some p"
      and m': "m' = m\<lparr>mc_bytes := store_bytes p bs (mc_bytes m)\<rparr>"
    using w by (auto simp: write_physical_def p_def direct_map_ptr_def Let_def split: if_splits option.splits)
  have "unat p < 2 ^ 24" using d by (auto simp: direct_map_ptr_def word_le_nat_alt kernel_defs split: if_splits)
  moreover have "unat p = min (unat f + off) (2 ^ 64 - 1)"
    using off by (simp add: p_def unat_saturating_add unat_of_nat_small)
  ultimately have p: "unat p = unat f + off" "unat f + off < 2 ^ 24" by (auto simp: min_def split: if_splits)
  have lim: "unat p + length bs < 2 ^ 64" using p len by simp
  show bytes: "mc_bytes m' x = (if unat f + off \<le> unat x \<and> unat x < unat f + off + length bs
      then bs ! (unat x - (unat f + off)) else mc_bytes m x)" for x
    using store_bytes_apply [OF lim, of "mc_bytes m" x] by (simp add: m' p(1))
  show "mc_frames m' = mc_frames m" "mc_direct_map_ready m' = mc_direct_map_ready m" by (simp_all add: m')
  have t: "is_table f" using f p(2) by (simp add: is_table_def)
  show "outside_same {f} m m'"
    unfolding outside_same_def
  proof (intro conjI allI impI)
    fix u j :: u64 assume u: "is_table u" "u \<notin> {f}" "unat j < 512"
    have dis: "unat u + 4096 \<le> unat f \<or> unat f + 4096 \<le> unat u"
      by (rule table_page_disjoint [OF u(1) t]) (use u in simp)
    have "mc_bytes m' (entry_ptr u j + of_nat k) = mc_bytes m (entry_ptr u j + of_nat k)" if "k < 8" for k
    proof -
      have ue: "unat (entry_ptr u j) = unat u + 8 * unat j" by (rule unat_entry_ptr [OF u(1,3)])
      have "unat (entry_ptr u j) + 8 < 2 ^ 64" using u by (simp add: ue is_table_def)
      from unat_offset [OF this, of k] that ue have "unat (entry_ptr u j + of_nat k) = unat u + 8 * unat j + k" by simp
      with dis that u(3) len show ?thesis by (auto simp: bytes)
    qed
    then have "load_bytes (entry_ptr u j) 8 (mc_bytes m') = load_bytes (entry_ptr u j) 8 (mc_bytes m)"
      by (simp add: load_bytes_def)
    then show "entry m' u j = entry m u j" by (simp add: entry_def read_volatile_def)
  qed (simp add: m')
qed

text \<open>The byte of an address space at a user address.\<close>

definition space_byte :: "address_space \<Rightarrow> machine \<Rightarrow> usize \<Rightarrow> u8 option" where
  "space_byte s m a =
     map_option (\<lambda>mp. mc_bytes m (mi_physical_frame mp + (a - page_of a))) (space_mapping s (page_of a))"

lemma frame_below:
  assumes "space_inv R X K (s, m)" "mp \<in> set (flatten (as_mappings s))"
  shows "4096 dvd unat (mi_physical_frame mp)" "unat (mi_physical_frame mp) + 4096 \<le> 2 ^ 64"
proof -
  have f: "mi_physical_frame mp \<in> K \<union> set (space_frames s)" using assms(2) by (auto simp: space_frames_def)
  then show d: "4096 dvd unat (mi_physical_frame mp)" using space_frame_ok [OF assms(1)] by (simp add: frame_ok_def)
  have "unat (mi_physical_frame mp) < 2 ^ 64" using unsigned_less [of "mi_physical_frame mp"] by simp
  then show "unat (mi_physical_frame mp) + 4096 \<le> 2 ^ 64" using dvd_step [OF d, of "2 ^ 64"] by simp
qed

lemma unat_phys:
  assumes "space_inv R X K (s, m)" "mp \<in> set (flatten (as_mappings s))"
  shows "unat (mi_physical_frame mp + (a - page_of a)) = unat (mi_physical_frame mp) + unat a mod 4096"
proof -
  have "unat a mod 4096 < 4096" by simp
  then have "unat (mi_physical_frame mp) + unat (a - page_of a) < 2 ^ 64"
    using frame_below(2) [OF assms] unfolding unat_page_offset by linarith
  then have "unat (mi_physical_frame mp + (a - page_of a)) = unat (mi_physical_frame mp) + unat (a - page_of a)"
    by (intro unat_add_exact) simp
  then show ?thesis by (simp add: unat_page_offset)
qed

text \<open>One chunk of a load: the bytes of one page change in the given window, nothing else does.\<close>

lemma write_page:
  assumes inv: "space_inv R X K (s, m)" and mp: "space_mapping s (page_of c) = Some mp"
    and w: "write_physical (mi_physical_frame mp) (unat (c - page_of c)) bs m = (True, m')"
    and len: "unat c mod 4096 + length bs \<le> 4096"
  shows "space_inv R X K (s, m')"
    "space_byte s m' a = (if unat c \<le> unat a \<and> unat a < unat c + length bs then Some (bs ! (unat a - unat c)) else space_byte s m a)"
proof -
  have mem: "mp \<in> set (flatten (as_mappings s))" "mi_virtual_address mp = page_of c"
    using space_mapping_iff [OF inv] mp by blast+
  note ws = write_physical_spec [OF w frame_below(1) [OF inv mem(1)], unfolded unat_page_offset, OF len]
  have fr: "mi_physical_frame mp \<in> K \<union> set (space_frames s)" using mem by (auto simp: space_frames_def)
  have k: "kernel_ok R X m'"
    by (rule kernel_ok_same [OF space_invD(2) [OF inv] ws(4)]) (use space_frame_ok [OF inv fr] in simp)
  have "tables_ok s m' root" if "as_root_frame s = Some root" "as_active s" for root
    by (rule tables_ok_same [OF space_invD(11) [OF inv that] ws(4,3)])
       (use that mem space_invD(4) [OF inv] in \<open>auto simp: space_frames_def\<close>)
  with inv k ws(2) show "space_inv R X K (s, m')" by (simp add: space_inv_def)
  show "space_byte s m' a = (if unat c \<le> unat a \<and> unat a < unat c + length bs then Some (bs ! (unat a - unat c)) else space_byte s m a)"
  proof (cases "space_mapping s (page_of a)")
    case None
    have "\<not> (unat c \<le> unat a \<and> unat a < unat c + length bs)"
    proof
      assume *: "unat c \<le> unat a \<and> unat a < unat c + length bs"
      then have "unat a div 4096 = unat c div 4096" using len by (intro same_page) auto
      then have "page_of a = page_of c" by (simp add: word_unat_eq_iff unat_page_of)
      with mp None show False by simp
    qed
    with None show ?thesis by (simp add: space_byte_def)
  next
    case (Some q)
    then have q: "q \<in> set (flatten (as_mappings s))" "mi_virtual_address q = page_of a"
      using space_mapping_iff [OF inv] by blast+
    note uq = unat_phys [OF inv q(1), of a]
    show ?thesis
    proof (cases "page_of a = page_of c")
      case True
      with Some mp have qm: "q = mp" by simp
      have dv: "unat a div 4096 = unat c div 4096"
        using True by (simp add: word_unat_eq_iff unat_page_of)
      have "unat a = unat c div 4096 * 4096 + unat a mod 4096" "unat c = unat c div 4096 * 4096 + unat c mod 4096"
        using dv div_mult_mod_eq [of "unat a" 4096] div_mult_mod_eq [of "unat c" 4096] by simp_all
      then have "unat c \<le> unat a \<longleftrightarrow> unat c mod 4096 \<le> unat a mod 4096"
          "unat a < unat c + length bs \<longleftrightarrow> unat a mod 4096 < unat c mod 4096 + length bs"
          "unat a mod 4096 - unat c mod 4096 = unat a - unat c" by linarith+
      then show ?thesis using Some by (simp add: space_byte_def ws(1) qm uq [unfolded qm])
    next
      case False
      then have "q \<noteq> mp" using q(2) mem(2) by auto
      then have "mi_physical_frame q \<noteq> mi_physical_frame mp"
        using q(1) mem(1) space_invD(4) [OF inv] by (auto simp: space_frames_def distinct_map dest: inj_onD)
      then have ne: "unat (mi_physical_frame q) \<noteq> unat (mi_physical_frame mp)" by (simp add: word_unat_eq_iff)
      have dis: "unat (mi_physical_frame q) + 4096 \<le> unat (mi_physical_frame mp) \<or>
          unat (mi_physical_frame mp) + 4096 \<le> unat (mi_physical_frame q)"
        using ne dvd_step frame_below(1) [OF inv q(1)] frame_below(1) [OF inv mem(1)] by (meson linorder_neqE_nat)
      have "\<not> (unat c \<le> unat a \<and> unat a < unat c + length bs)"
      proof
        assume *: "unat c \<le> unat a \<and> unat a < unat c + length bs"
        then have "unat a div 4096 = unat c div 4096" using len by (intro same_page) auto
        with False show False by (simp add: word_unat_eq_iff unat_page_of)
      qed
      moreover have "unat a mod 4096 < 4096" by simp
      with dis len have "\<not> (unat (mi_physical_frame mp) + unat c mod 4096 \<le> unat (mi_physical_frame q) + unat a mod 4096 \<and>
          unat (mi_physical_frame q) + unat a mod 4096 < unat (mi_physical_frame mp) + unat c mod 4096 + length bs)"
        by linarith
      ultimately show ?thesis using Some by (auto simp: space_byte_def ws(1) uq)
    qed
  qed
qed

lemma load_loop_spec:
  "space_inv R X K (s, m) \<Longrightarrow> load_loop s bytes cursor offset m = (r, m') \<Longrightarrow>
   space_inv R X K (s, m') \<and>
   (r = Ok () \<longrightarrow> (\<forall>a. space_byte s m' a =
      (if unat cursor \<le> unat a \<and> unat a < unat cursor + (length bytes - offset)
       then Some (bytes ! (offset + (unat a - unat cursor))) else space_byte s m a)))"
proof (induction "length bytes - offset" arbitrary: cursor offset m rule: less_induct)
  case less
  note eq = less.prems(2) [unfolded load_loop.simps [of s bytes cursor offset m] Let_def]
  show ?case
  proof (cases "offset < length bytes")
    case False
    with eq less.prems(1) show ?thesis by auto
  next
    case True
    define count where "count = min (4096 - unat (cursor - page_of cursor)) (length bytes - offset)"
    have po: "unat (cursor - page_of cursor) < 4096" by (simp add: unat_page_offset)
    then have cnt: "0 < count" "offset + count \<le> length bytes" "unat cursor mod 4096 + count \<le> 4096"
      using True by (auto simp: count_def unat_page_offset)
    note eq1 = eq [unfolded if_P [OF True], folded count_def]
    show ?thesis
    proof (cases "space_mapping s (page_of cursor)")
      case None
      with eq1 less.prems(1) show ?thesis by auto
    next
      case (Some mp)
      define bs where "bs = take count (drop offset bytes)"
      have lb: "length bs = count" using cnt(2) by (simp add: bs_def)
      obtain ok m1 where w: "write_physical (mi_physical_frame mp) (unat (cursor - page_of cursor)) bs m = (ok, m1)" by fastforce
      note eq2 = eq1 [unfolded Some ok_or_simps try_res_simps, folded bs_def, unfolded w prod.case]
      show ?thesis
      proof (cases ok)
        case False
        then have "m1 = m" using w by (auto simp: write_physical_def split: if_splits option.splits)
        with eq2 False less.prems(1) show ?thesis by auto
      next
        case ok: True
        have w1: "write_physical (mi_physical_frame mp) (unat (cursor - page_of cursor)) bs m = (True, m1)" using w ok by simp
        have len: "unat cursor mod 4096 + length bs \<le> 4096" using cnt(3) lb by simp
        note wp = write_page [OF less.prems(1) Some w1 len]
        show ?thesis
        proof (cases "checked_add cursor (of_nat count)")
          case None
          with eq2 ok wp(1) show ?thesis by auto
        next
          case (Some c2)
          have "count < 2 ^ 64" using cnt(3) by simp
          then have c2: "unat c2 = unat cursor + count"
            using Some by (simp add: checked_add_Some_iff unat_of_nat_small)
          have rest: "load_loop s bytes c2 (offset + count) m1 = (r, m')" using eq2 ok Some by simp
          have ih: "space_inv R X K (s, m') \<and>
             (r = Ok () \<longrightarrow> (\<forall>a. space_byte s m' a =
                (if unat c2 \<le> unat a \<and> unat a < unat c2 + (length bytes - (offset + count))
                 then Some (bytes ! (offset + count + (unat a - unat c2))) else space_byte s m1 a)))"
            by (rule less.hyps [OF _ wp(1) rest]) (use cnt True in simp)
          have "space_byte s m' a =
              (if unat cursor \<le> unat a \<and> unat a < unat cursor + (length bytes - offset)
               then Some (bytes ! (offset + (unat a - unat cursor))) else space_byte s m a)" if "r = Ok ()" for a
          proof -
            have i: "space_byte s m' a =
                (if unat c2 \<le> unat a \<and> unat a < unat c2 + (length bytes - (offset + count))
                 then Some (bytes ! (offset + count + (unat a - unat c2))) else space_byte s m1 a)"
              using ih that by blast
            show ?thesis
            proof (cases "unat cursor \<le> unat a \<and> unat a < unat cursor + count")
              case True
              then have "bs ! (unat a - unat cursor) = bytes ! (offset + (unat a - unat cursor))"
                using cnt(2) by (auto simp: bs_def)
              with True i wp(2) [of a] c2 lb cnt(2) show ?thesis by auto
            next
              case False
              with i wp(2) [of a] c2 lb cnt(2) show ?thesis
                by (cases "unat cursor \<le> unat a") (auto simp: ac_simps)
            qed
          qed
          with ih show ?thesis by blast
        qed
      qed
    qed
  qed
qed

section \<open>Base addresses are not random\<close>

text \<open>For an aligned hint the base is the hint itself, whatever the seed.\<close>

lemma choose_base_ignores_seed:
  assumes "choose_base hook hint span alignment = Some base" "hint AND (alignment - 1) = 0"
  shows "base = hint"
proof -
  define k where "k = alignment - 1"
  define x where "x = ah_seed hook * 0x9e3779b97f4a7c15 AND k"
  have "checked_add hint x \<noteq> None" and b: "base = (hint + x) AND NOT k"
    using assms(1) by (auto simp: choose_base_def k_def x_def Let_def checked_add_def split: if_splits option.splits)
  have z: "hint AND x = 0" using assms(2) by (simp add: x_def k_def ac_simps flip: and.assoc)
  have "hint + x = hint OR x" by (rule disjunctive_add) (use z in \<open>metis bit_and_iff bit_0_eq bot_apply bot_bool_def\<close>)
  moreover have "x AND NOT k = 0" by (simp add: x_def and.assoc)
  moreover have "hint AND NOT k = hint"
  proof (rule bit_word_eqI)
    fix n
    have "\<not> bit (hint AND k) n" using assms(2) by (simp add: k_def)
    then show "bit (hint AND NOT k) n = bit hint n" if "n < LENGTH(64)"
      using that by (auto simp: bit_and_iff bit_not_iff)
  qed
  ultimately show ?thesis using b by (simp add: bit.conj_disj_distrib2)
qed

end
