(* ===== verification/Address_Space_Steps.thy ===== *)
theory Address_Space_Steps
  imports Address_Space
begin

unbundle bit_operations_syntax

text \<open>
  Histories of a user address space: any sequence of the operations of \<open>src/address_space.rs\<close>, started
  by \<open>AddressSpace::new\<close>, keeps the invariant of \<open>Address_Space\<close> and the layout of the stack.  A
  failed destruction that could not return a frame ends a history: the source then keeps mappings
  whose frames it has already returned.
\<close>

section \<open>The stack\<close>

text \<open>The page \<open>k\<close> of the stack, counted from its top, and the address of the guard page.\<close>

definition stack_page :: "address_space \<Rightarrow> nat \<Rightarrow> usize" where
  "stack_page s k = as_stack_top s - of_nat (k + 1) * PAGE_SIZE"

definition stack_inv :: "address_space \<Rightarrow> bool" where
  "stack_inv s \<longleftrightarrow> as_stack_top s = AS_USER_LIMIT - PAGE_SIZE \<and> as_stack_pages s \<le> MAX_STACK_PAGES \<and>
     as_stack_guard s = (if as_stack_pages s = 0 then None else Some (stack_page s (as_stack_pages s))) \<and>
     (\<forall>k<as_stack_pages s. \<exists>mp. space_mapping s (stack_page s k) = Some mp \<and>
        mi_kind mp = Map_Stack \<and> mi_flags mp = USER_RW)"

definition full_inv :: "memory_region list \<Rightarrow> memory_region list \<Rightarrow> u64 set \<Rightarrow> space_state \<Rightarrow> bool" where
  "full_inv R X K sm \<longleftrightarrow> space_inv R X K sm \<and> stack_inv (fst sm)"

lemma space_inv_stack_fields:
  "space_inv R X K (s\<lparr>as_stack_pages := p, as_stack_guard := g\<rparr>, m) = space_inv R X K (s, m)"
proof -
  have "translation (s\<lparr>as_stack_pages := p, as_stack_guard := g\<rparr>) = translation s"
    by (simp add: fun_eq_iff translation_def space_mapping_def)
  then show ?thesis by (simp add: space_inv_def tables_ok_def space_frames_def)
qed

lemma same_fields_trans: "same_fields s t \<Longrightarrow> same_fields t u \<Longrightarrow> same_fields s u"
  by (simp add: same_fields_def)

lemma stack_inv_extend:
  assumes "stack_inv s" "same_fields s s'" "\<And>v mp. space_mapping s v = Some mp \<Longrightarrow> mi_kind mp = Map_Stack \<Longrightarrow> space_mapping s' v = Some mp"
  shows "stack_inv s'"
proof -
  have "stack_page s' = stack_page s" using assms(2) by (simp add: fun_eq_iff stack_page_def same_fields_def)
  with assms show ?thesis unfolding stack_inv_def same_fields_def by fastforce
qed

lemma map_page_stack:
  assumes inv: "space_inv R X K (s, m)" and st: "stack_inv s" and eq: "map_page va flags kind (s, m) = (r, (s', m'))"
  shows "stack_inv s'"
proof (rule stack_inv_extend [OF st])
  note sp = map_page_spec [OF inv eq]
  show "same_fields s s'" using sp by blast
  fix v mp assume v: "space_mapping s v = Some mp"
  show "space_mapping s' v = Some mp"
  proof (cases r)
    case (Inl e)
    with sp have "as_mappings s' = as_mappings s" by blast
    with v show ?thesis by (simp add: space_mapping_def)
  next
    case (Inr q)
    with sp have "space_mapping s va = None" "space_mapping s' v = (if v = va then Some q else space_mapping s v)" by blast+
    with v show ?thesis by auto
  qed
qed

lemma unmap_page_spec:
  assumes inv: "space_inv R X K (s, m)" and eq: "unmap_page va (s, m) = (r, (s', m'))"
  shows "space_inv R X K (s', m') \<and> same_fields s s' \<and> (\<forall>e. r = Err e \<longrightarrow> as_mappings s' = as_mappings s) \<and>
    (r = Ok () \<longrightarrow> (\<exists>mp. space_mapping s va = Some mp \<and> mi_kind mp = Map_Anonymous) \<and>
       (\<forall>v. space_mapping s' v = (if v = va then None else space_mapping s v)) \<and>
       (as_active s \<longrightarrow> mmu_lookup m' (the (as_root_frame s)) va = None))"
proof (cases "space_mapping s va")
  case None
  with eq inv show ?thesis by (auto simp: unmap_page_def same_fields_refl)
next
  case (Some mp)
  show ?thesis
  proof (cases "mi_kind mp")
    case Map_Stack
    with eq inv Some show ?thesis by (auto simp: unmap_page_def same_fields_refl)
  next
    case Map_Anonymous
    with eq Some have "remove_mapping va (s, m) = (r, (s', m'))" by (simp add: unmap_page_def)
    from remove_mapping_spec [OF inv this] Some Map_Anonymous show ?thesis by simp
  qed
qed

lemma unmap_page_stack:
  assumes inv: "space_inv R X K (s, m)" and st: "stack_inv s" and eq: "unmap_page va (s, m) = (r, (s', m'))"
  shows "stack_inv s'"
proof (rule stack_inv_extend [OF st])
  note sp = unmap_page_spec [OF inv eq]
  show "same_fields s s'" using sp by blast
  fix v mp assume v: "space_mapping s v = Some mp" "mi_kind mp = Map_Stack"
  show "space_mapping s' v = Some mp"
  proof (cases r)
    case (Inl e)
    with sp have "as_mappings s' = as_mappings s" by blast
    with v show ?thesis by (simp add: space_mapping_def)
  next
    case (Inr q)
    with sp have "\<exists>mp. space_mapping s va = Some mp \<and> mi_kind mp = Map_Anonymous"
        "space_mapping s' v = (if v = va then None else space_mapping s v)" by simp_all
    with v show ?thesis by auto
  qed
qed

text \<open>The first two pages, or an error and the removal of what was mapped.\<close>

lemma rollback_loop_inv:
  "space_inv R X K sm \<Longrightarrow> same_fields s0 (fst sm) \<Longrightarrow>
   space_inv R X K (rollback_loop n i first sm) \<and> same_fields s0 (fst (rollback_loop n i first sm))"
proof (induction n arbitrary: i sm)
  case 0
  then show ?case by simp
next
  case (Suc n)
  obtain s m where sm: "sm = (s, m)" by (cases sm)
  obtain r s' m' where r: "remove_mapping (first + of_nat i * PAGE_SIZE) (s, m) = (r, (s', m'))" by (metis prod_cases3)
  from remove_mapping_spec [OF Suc.prems(1) [unfolded sm] r] Suc.prems(2) sm
  have "space_inv R X K (s', m')" "same_fields s0 (fst (s', m'))"
    using same_fields_trans by auto
  from Suc.IH [OF this] r sm show ?case by simp
qed

lemma stack_loop_two:
  assumes inv: "space_inv R X K (s, m)" and eq: "stack_loop 2 0 first (s, m) = (r, (s', m'))"
  shows "space_inv R X K (s', m') \<and> same_fields s s' \<and>
    (r = Ok () \<longrightarrow> (\<forall>a\<in>{first, first + PAGE_SIZE}. \<exists>mp. space_mapping s' a = Some mp \<and>
       mi_kind mp = Map_Stack \<and> mi_flags mp = USER_RW))"
proof -
  obtain r1 s1 m1 where a: "map_page first USER_RW Map_Stack (s, m) = (r1, (s1, m1))" by (metis prod_cases3)
  note sa = map_page_spec [OF inv a]
  have two: "stack_loop 2 0 first (s, m) = stack_loop (Suc (Suc 0)) 0 first (s, m)" by (simp add: eval_nat_numeral)
  show ?thesis
  proof (cases r1)
    case (Inl e)
    with eq a two have "r = Err e" "s' = s1" "m' = m1" by simp_all
    with sa show ?thesis by auto
  next
    case (Inr p1)
    obtain r2 s2 m2 where b: "map_page (first + PAGE_SIZE) USER_RW Map_Stack (s1, m1) = (r2, (s2, m2))" by (metis prod_cases3)
    have inv1: "space_inv R X K (s1, m1)" using sa by blast
    note sb = map_page_spec [OF inv1 b]
    have sf: "same_fields s s2" using sa sb same_fields_trans by blast
    show ?thesis
    proof (cases r2)
      case (Inl e)
      define sm3 where "sm3 = rollback_loop 1 0 first (s2, m2)"
      have "r = Err e" "(s', m') = sm3" using eq a b two Inr Inl by (simp_all add: sm3_def)
      with rollback_loop_inv [of R X K "(s2, m2)" s 1 0 first, folded sm3_def] sb sf show ?thesis
        by (cases sm3) auto
    next
      case ok: (Inr p2)
      have r: "r = Ok ()" "s' = s2" "m' = m2" using eq a b two Inr ok by simp_all
      have p: "space_mapping s2 first = Some p1 \<or> first = first + PAGE_SIZE"
          "space_mapping s2 (first + PAGE_SIZE) = Some p2"
          "mi_kind p1 = Map_Stack" "mi_flags p1 = USER_RW" "mi_kind p2 = Map_Stack" "mi_flags p2 = USER_RW"
        using sa sb Inr ok by auto
      have "first \<noteq> first + PAGE_SIZE" by (simp add: PAGE_SIZE_def)
      with p r sb sf show ?thesis by auto
    qed
  qed
qed

lemma map_stack_inv:
  assumes inv: "full_inv R X K (s, m)" and eq: "map_stack (s, m) = (r, (s', m'))"
  shows "full_inv R X K (s', m') \<and> (r = Ok () \<longrightarrow> as_stack_pages s' = 2)"
proof (cases "as_stack_pages s \<noteq> 0 \<or> as_root_frame s = None")
  case True
  with eq inv show ?thesis by (auto simp: map_stack_def)
next
  case False
  have top: "as_stack_top s = AS_USER_LIMIT - PAGE_SIZE" and inv1: "space_inv R X K (s, m)"
    using inv by (simp_all add: full_inv_def stack_inv_def)
  define first where "first = as_stack_top s - of_nat INITIAL_STACK_PAGES * PAGE_SIZE"
  have chk: "checked_sub (as_stack_top s) (of_nat INITIAL_STACK_PAGES * PAGE_SIZE) = Some first"
    by (simp add: checked_sub_def first_def top kernel_defs)
  obtain r1 s1 m1 where l: "stack_loop 2 0 first (s, m) = (r1, (s1, m1))" by (metis prod_cases3)
  note sl = stack_loop_two [OF inv1 l]
  have I2: "INITIAL_STACK_PAGES = 2" by (simp add: kernel_defs)
  have eq1: "try_st (stack_loop 2 0 first (s, m)) (\<lambda>_ (s, m).
           (Ok (), (s\<lparr>as_stack_pages := 2, as_stack_guard := checked_sub first PAGE_SIZE\<rparr>, m))) = (r, (s', m'))"
    using eq chk unfolding map_stack_def prod.case if_not_P [OF False] by (simp add: I2)
  show ?thesis
  proof (cases r1)
    case (Inl e)
    with eq1 l have r: "r = Err e" "s' = s1" "m' = m1" by simp_all
    have "as_stack_pages s1 = 0" "as_stack_guard s1 = None" "as_stack_top s1 = as_stack_top s"
      using sl False inv by (auto simp: same_fields_def full_inv_def stack_inv_def)
    with sl top show ?thesis by (simp add: full_inv_def stack_inv_def r)
  next
    case (Inr u)
    with eq1 l have r: "r = Ok ()" "s' = s1\<lparr>as_stack_pages := 2, as_stack_guard := checked_sub first PAGE_SIZE\<rparr>" "m' = m1"
      by simp_all
    have top1: "as_stack_top s1 = AS_USER_LIMIT - PAGE_SIZE" using sl top by (simp add: same_fields_def)
    have pages: "stack_page s' 0 = first + PAGE_SIZE" "stack_page s' 1 = first" "checked_sub first PAGE_SIZE = Some (stack_page s' 2)"
      by (simp_all add: stack_page_def r(2) top1 first_def top kernel_defs checked_sub_def)
    have "\<exists>mp. space_mapping s1 (stack_page s' k) = Some mp \<and> mi_kind mp = Map_Stack \<and> mi_flags mp = USER_RW"
      if "k < 2" for k
    proof -
      have "k = 0 \<or> k = 1" using that by auto
      then have "stack_page s' k \<in> {first, first + PAGE_SIZE}" using pages by auto
      with sl Inr show ?thesis by auto
    qed
    then have "stack_inv s'"
      using top1 pages(3) by (auto simp: stack_inv_def r(2) kernel_defs space_mapping_def)
    with sl show ?thesis by (simp add: full_inv_def r space_inv_stack_fields)
  qed
qed

lemma stack_guard_step:
  assumes "p < 8"
  shows "checked_sub (AS_USER_LIMIT - PAGE_SIZE - of_nat (p + 1) * PAGE_SIZE) PAGE_SIZE =
    Some (AS_USER_LIMIT - PAGE_SIZE - of_nat (p + 1 + 1) * PAGE_SIZE)"
proof -
  have "p = 0 \<or> p = 1 \<or> p = 2 \<or> p = 3 \<or> p = 4 \<or> p = 5 \<or> p = 6 \<or> p = 7" using assms by arith
  then show ?thesis by (elim disjE) (simp_all add: checked_sub_def kernel_defs)
qed

lemma grow_stack_inv:
  assumes inv: "full_inv R X K (s, m)" and eq: "grow_stack fault (s, m) = (r, (s', m'))"
  shows "full_inv R X K (s', m') \<and>
    (r = Ok True \<longrightarrow> as_stack_guard s = Some (page_of fault) \<and> as_stack_pages s' = as_stack_pages s + 1 \<and>
       (\<exists>mp. space_mapping s' (page_of fault) = Some mp \<and> mi_kind mp = Map_Stack \<and> mi_flags mp = USER_RW) \<and>
       (\<forall>v. v \<noteq> page_of fault \<longrightarrow> space_mapping s' v = space_mapping s v)) \<and>
    (r \<noteq> Ok True \<longrightarrow> as_mappings s' = as_mappings s \<and> as_stack_pages s' = as_stack_pages s)"
proof (cases "as_stack_guard s = Some (page_of fault) \<and> as_stack_pages s \<noteq> MAX_STACK_PAGES")
  case False
  with eq inv show ?thesis
    by (auto simp: grow_stack_def page_of_def split: option.splits if_splits)
next
  case True
  have inv1: "space_inv R X K (s, m)" and st: "stack_inv s" using inv by (simp_all add: full_inv_def)
  obtain r1 s1 m1 where a: "map_page (page_of fault) USER_RW Map_Stack (s, m) = (r1, (s1, m1))" by (metis prod_cases3)
  note sa = map_page_spec [OF inv1 a]
  have st1: "stack_inv s1" by (rule map_page_stack [OF inv1 st a])
  have eq1: "try_st (r1, (s1, m1)) (\<lambda>_ (s, m).
      (Ok True, (s\<lparr>as_stack_pages := as_stack_pages s + 1, as_stack_guard := checked_sub (page_of fault) PAGE_SIZE\<rparr>, m))) = (r, (s', m'))"
    using eq True a by (simp add: grow_stack_def page_of_def)
  show ?thesis
  proof (cases r1)
    case (Inl e)
    with eq1 have "r = Err e" "s' = s1" "m' = m1" by simp_all
    with sa st1 Inl show ?thesis by (auto simp: full_inv_def same_fields_def)
  next
    case (Inr mp)
    define p where "p = as_stack_pages s"
    have sf: "as_stack_pages s1 = p" "as_stack_top s1 = as_stack_top s" "as_stack_guard s1 = as_stack_guard s"
      using sa by (simp_all add: same_fields_def p_def)
    have r: "r = Ok True" "m' = m1"
        "s' = s1\<lparr>as_stack_pages := p + 1, as_stack_guard := checked_sub (page_of fault) PAGE_SIZE\<rparr>"
      using eq1 Inr sf(1) by simp_all
    have top: "as_stack_top s = AS_USER_LIMIT - PAGE_SIZE" "p \<le> 8" "p \<noteq> 8" "p \<noteq> 0"
        "stack_page s p = page_of fault"
      using st True by (auto simp: stack_inv_def p_def kernel_defs split: if_splits)
    then have p7: "p < 8" by simp
    have sp: "stack_page s' = stack_page s" by (simp add: fun_eq_iff stack_page_def r(3) sf(2))
    have guard: "checked_sub (page_of fault) PAGE_SIZE = Some (stack_page s (p + 1))"
      using stack_guard_step [OF p7] top(1,5) by (simp add: stack_page_def)
    have new: "space_mapping s1 v = (if v = page_of fault then Some mp else space_mapping s v)" for v
      using sa Inr by blast
    have mp: "mi_kind mp = Map_Stack" "mi_flags mp = USER_RW" using sa Inr by blast+
    have "\<exists>q. space_mapping s1 (stack_page s k) = Some q \<and> mi_kind q = Map_Stack \<and> mi_flags q = USER_RW" if "k < p + 1" for k
    proof (cases "k = p")
      case True
      with new mp top(5) show ?thesis by simp
    next
      case False
      with that st have "\<exists>q. space_mapping s (stack_page s k) = Some q \<and> mi_kind q = Map_Stack \<and> mi_flags q = USER_RW"
        by (simp add: stack_inv_def p_def)
      with new [of "stack_page s k"] mp show ?thesis by auto
    qed
    then have "stack_inv s'"
      using top(1) p7 guard sf(2) unfolding stack_inv_def sp by (auto simp: r(3) kernel_defs space_mapping_def)
    moreover have "space_inv R X K (s', m')"
      unfolding r by (simp only: space_inv_stack_fields) (use sa in blast)
    moreover have "space_mapping s' = space_mapping s1" by (simp add: fun_eq_iff space_mapping_def r(3))
    ultimately show ?thesis using r new mp True by (simp add: full_inv_def p_def)
  qed
qed

text \<open>Activation and destruction and the stack.\<close>

definition same_stack :: "address_space \<Rightarrow> address_space \<Rightarrow> bool" where
  "same_stack s s' \<longleftrightarrow> as_mappings s' = as_mappings s \<and> as_stack_top s' = as_stack_top s \<and>
     as_stack_guard s' = as_stack_guard s \<and> as_stack_pages s' = as_stack_pages s"

lemma stack_inv_same:
  assumes "stack_inv s" "same_stack s s'"
  shows "stack_inv s'"
proof -
  have "stack_page s' = stack_page s" "space_mapping s' = space_mapping s"
    using assms(2) by (simp_all add: fun_eq_iff stack_page_def space_mapping_def same_stack_def)
  with assms show ?thesis by (simp add: stack_inv_def same_stack_def)
qed

lemma release_table_frames_stack: "release_table_frames (s, m) = (s', m') \<Longrightarrow> same_stack s s' \<and> as_root_frame s' = as_root_frame s"
  by (auto simp: release_table_frames_def same_stack_def split: prod.splits)

lemma activate_same_stack:
  assumes "activate (s, m) = (r, (s', m'))"
  shows "same_stack s s'"
proof (cases "as_root_frame s")
  case None
  with assms show ?thesis by (auto simp: activate_def same_stack_def)
next
  case (Some root)
  obtain b m1 where p: "user_space_prepare root m = (b, m1)" by fastforce
  obtain ok ts m2 where l: "activate_loop root (flatten (as_mappings s)) (as_table_frames s) m1 = (ok, ts, m2)"
    by (metis prod_cases3)
  from assms Some p l release_table_frames_stack [of "s\<lparr>as_table_frames := ts\<rparr>" "user_space_reset root m2" s' m']
  show ?thesis by (cases b; cases ok; cases "as_active s") (auto simp: activate_def Let_def same_stack_def)
qed

lemma destroy_stack:
  assumes "destroy (s, m) = (r, (s', m'))" "r \<noteq> Err AS_FrameReturn"
  shows "s' = s \<or> as_stack_pages s' = 0 \<and> as_stack_guard s' = None \<and> as_stack_top s' = as_stack_top s"
proof (cases "as_root_frame s")
  case None
  with assms show ?thesis by (auto simp: destroy_def)
next
  case (Some root)
  define s1 where "s1 = s\<lparr>as_active := False\<rparr>"
  define m1 where "m1 = (if as_active s then user_space_reset root m else m)"
  have "(if as_active s then (s\<lparr>as_active := False\<rparr>, user_space_reset root m) else (s, m)) = (s1, m1)"
    by (cases s) (simp add: s1_def m1_def)
  note eq1 = assms(1) [unfolded destroy_def prod.case Some ok_or_simps try_res_simps this Let_def]
  obtain b m2 where dl: "destroy_loop (flatten (as_mappings s1)) m1 = (b, m2)" by fastforce
  have b: "b" using eq1 assms(2) dl by (cases b) auto
  define s2 where "s2 = s1\<lparr>as_mappings := replicate MAX_MAPPINGS None\<rparr>"
  obtain s3 m3 where rt: "release_table_frames (s2, m2) = (s3, m3)" by fastforce
  from release_table_frames_stack [OF rt] have s3: "as_root_frame s3 = Some root" "as_stack_top s3 = as_stack_top s"
    by (simp_all add: same_stack_def s2_def s1_def Some)
  obtain c m4 where fr: "machine_free root m3 = (c, m4)" by fastforce
  have "s' = s3\<lparr>as_root_frame := None, as_owner := None, as_stack_guard := None, as_stack_pages := 0\<rparr>"
    using eq1 assms(2) dl b rt [unfolded s2_def] fr s3(1) by (cases c) auto
  with s3(2) show ?thesis by simp
qed

section \<open>Histories\<close>

text \<open>A new address space of a machine whose allocator has handed out the frames \<open>K\<close>.\<close>

definition space_start :: "memory_region list \<Rightarrow> memory_region list \<Rightarrow> u64 set \<Rightarrow> space_state \<Rightarrow> bool" where
  "space_start R X K sm \<longleftrightarrow> (\<exists>owner aslr m. frame_sys_inv R X (mc_frames m, K) \<and> kernel_ok R X m \<and>
     address_space_new owner aslr m = (Ok (fst sm), snd sm))"

inductive space_step :: "space_state \<Rightarrow> space_state \<Rightarrow> bool" where
  sp_map: "map_anonymous va flags sm = (r, sm') \<Longrightarrow> space_step sm sm'"
| sp_unmap: "unmap_page va sm = (r, sm') \<Longrightarrow> space_step sm sm'"
| sp_stack: "map_stack sm = (r, sm') \<Longrightarrow> space_step sm sm'"
| sp_grow: "grow_stack fault sm = (r, sm') \<Longrightarrow> space_step sm sm'"
| sp_activate: "activate sm = (r, sm') \<Longrightarrow> space_step sm sm'"
| sp_load: "space_load s va bytes m = (r, m') \<Longrightarrow> space_step (s, m) (s, m')"
| sp_words: "load_words s va words m = (r, m') \<Longrightarrow> space_step (s, m) (s, m')"
| sp_destroy: "destroy sm = (r, sm') \<Longrightarrow> r \<noteq> Err AS_FrameReturn \<Longrightarrow> space_step sm sm'"

lemma space_start_inv:
  assumes "space_start R X K sm"
  shows "full_inv R X K sm"
proof -
  obtain owner aslr m s m' where a: "frame_sys_inv R X (mc_frames m, K)" "kernel_ok R X m"
      "address_space_new owner aslr m = (Ok s, m')" "sm = (s, m')"
    using assms by (cases sm) (auto simp: space_start_def)
  obtain root where al: "machine_alloc m = (Some root, m')"
    using a(3) by (auto simp: address_space_new_def split: prod.splits option.splits)
  have s: "s = \<lparr>as_owner = Some owner, as_root_frame = Some root, as_mappings = replicate MAX_MAPPINGS None,
      as_stack_top = AS_USER_LIMIT - PAGE_SIZE, as_stack_guard = None, as_stack_pages = 0,
      as_aslr = aslr, as_active = False, as_table_frames = replicate MAX_TABLE_FRAMES None\<rparr>"
    using a(3) al by (simp add: address_space_new_def)
  note sp = machine_alloc_spec [OF a(1) al]
  have fr: "space_frames s = [root]" by (simp add: space_frames_def s)
  have "frame_sys_inv R X (mc_frames m', insert root K)" "root \<notin> K" using sp(1,5) by simp_all
  moreover have "kernel_ok R X m'" by (rule kernel_ok_same [OF a(2) outside_same_bytes [OF sp(2,4), of "{}"]]) simp
  ultimately have "space_inv R X K (s, m')"
    by (intro space_invI [of R X m' "insert root K"]) (auto simp: fr, auto simp: s)
  then show ?thesis by (simp add: full_inv_def a(4) stack_inv_def s)
qed

lemma space_load_spec:
  assumes "space_inv R X K (s, m)" "space_load s va bytes m = (r, m')"
  shows "space_inv R X K (s, m') \<and>
    (r = Ok () \<longrightarrow> (\<forall>a. space_byte s m' a =
      (if unat va \<le> unat a \<and> unat a < unat va + length bytes
       then Some (bytes ! (unat a - unat va)) else space_byte s m a)))"
proof (cases "as_root_frame s = None")
  case True
  with assms show ?thesis by (auto simp: space_load_def)
next
  case False
  with assms(2) have "load_loop s bytes va 0 m = (r, m')" by (simp add: space_load_def)
  from load_loop_spec [OF assms(1) this] show ?thesis by simp
qed

lemma load_words_loop_inv:
  "space_inv R X K (s, m) \<Longrightarrow> load_words_loop s va i words m = (r, m') \<Longrightarrow> space_inv R X K (s, m')"
proof (induction words arbitrary: i m)
  case Nil
  then show ?case by simp
next
  case (Cons w words)
  from Cons.prems(2) [unfolded load_words_loop.simps] show ?case
  proof (cases rule: try_res_cases)
    case (1 e)
    with Cons.prems(1) show ?thesis by simp
  next
    case (2 a)
    from 2(2) show ?thesis
    proof (cases rule: try_st_cases)
      case (1 e)
      from space_load_spec [OF Cons.prems(1) 1(1)] show ?thesis by blast
    next
      case (2 x m1)
      have "space_inv R X K (s, m1)"
        using space_load_spec [OF Cons.prems(1) 2(1)] by blast
      from Cons.IH [OF this 2(2)] show ?thesis .
    qed
  qed
qed

lemma space_step_inv:
  assumes "full_inv R X K sm" "space_step sm sm'"
  shows "full_inv R X K sm'"
  using assms(2,1)
proof (induction rule: space_step.induct)
  case (sp_map va flags sm r sm')
  then show ?case using map_page_spec map_page_stack
    by (cases sm; cases sm') (auto simp: full_inv_def map_anonymous_def)
next
  case (sp_unmap va sm r sm')
  then show ?case using unmap_page_spec unmap_page_stack by (cases sm; cases sm') (auto simp: full_inv_def)
next
  case (sp_stack sm r sm')
  then show ?case using map_stack_inv by (cases sm; cases sm') blast
next
  case (sp_grow fault sm r sm')
  then show ?case using grow_stack_inv by (cases sm; cases sm') blast
next
  case (sp_activate sm r sm')
  obtain s m s' m' where e: "sm = (s, m)" "sm' = (s', m')" by (cases sm; cases sm')
  have inv: "space_inv R X K (s, m)" "stack_inv s" using sp_activate(2) by (simp_all add: full_inv_def e)
  note a = activate_spec [OF inv(1) sp_activate(1) [unfolded e]]
  have "same_stack s s'" by (rule activate_same_stack [OF sp_activate(1) [unfolded e]])
  with a inv(2) show ?case by (simp add: full_inv_def e stack_inv_same)
next
  case (sp_load s va bytes m r m')
  then show ?case using space_load_spec by (auto simp: full_inv_def)
next
  case (sp_words s va words m r m')
  then show ?case using load_words_loop_inv by (auto simp: full_inv_def load_words_def)
next
  case (sp_destroy sm r sm')
  obtain s m s' m' where e: "sm = (s, m)" "sm' = (s', m')" by (cases sm; cases sm')
  have inv: "space_inv R X K (s, m)" "stack_inv s" using sp_destroy(3) by (simp_all add: full_inv_def e)
  note d = destroy_spec [OF inv(1) sp_destroy(1) [unfolded e] sp_destroy(2)]
  have "s' = s \<or> as_stack_pages s' = 0 \<and> as_stack_guard s' = None \<and> as_stack_top s' = as_stack_top s"
    by (rule destroy_stack [OF sp_destroy(1) [unfolded e] sp_destroy(2)])
  with d inv(2) show ?case by (auto simp: full_inv_def e stack_inv_def)
qed

interpretation spacesys: step_invariant "space_start R X K" space_step "full_inv R X K" for R X K
  by unfold_locales (blast intro: space_start_inv space_step_inv)+

section \<open>A concrete history\<close>

text \<open>A machine with cleared memory and six returned frames, and an address space with one page on it.\<close>

definition demo_pool :: "nat \<Rightarrow> frame_allocator" where
  "demo_pool n = frame_allocator_static\<lparr>fa_next_frame := 0x110000, fa_returned_count := n,
     fa_returned := [0x100000, 0x101000, 0x102000, 0x103000, 0x104000, 0x105000] @ replicate 122 0\<rparr>"

definition cleared :: "nat \<Rightarrow> machine" where
  "cleared n = \<lparr>mc_bytes = (\<lambda>_. 0), mc_direct_map_ready = True, mc_cr3 = 0x1000, mc_frames = demo_pool n\<rparr>"

abbreviation demo_regions :: "memory_region list" where
  "demo_regions \<equiv> [\<lparr>mr_base = 0x100000, mr_length = 0x10000\<rparr>]"

definition demo_page :: mapping_info where
  "demo_page = \<lparr>mi_virtual_address = 0x5000, mi_physical_frame = 0x104000, mi_flags = USER_RW, mi_kind = Map_Anonymous\<rparr>"

definition demo_space :: "mapping_info option list \<Rightarrow> address_space" where
  "demo_space mps = \<lparr>as_owner = Some INIT, as_root_frame = Some 0x105000, as_mappings = mps,
     as_stack_top = AS_USER_LIMIT - PAGE_SIZE, as_stack_guard = None, as_stack_pages = 0,
     as_aslr = aslr_new 7, as_active = False, as_table_frames = replicate MAX_TABLE_FRAMES None\<rparr>"

lemma demo_alloc_frames:
  "mc_frames m = demo_pool (Suc n) \<Longrightarrow>
   machine_alloc m = (Some (fa_returned (demo_pool 6) ! n), m\<lparr>mc_frames := demo_pool n\<rparr>)"
  by (simp add: machine_alloc_def alloc_frame_def demo_pool_def Let_def)

lemma demo_pool_inv: "frame_sys_inv demo_regions [] (demo_pool 6, {})"
  by (simp add: frame_sys_inv_def fa_inv_def bump_ok_def returned_frames_def frame_ok_def page_ok_def demo_pool_def
      frame_allocator_static_def MAX_RETURNED_FRAMES_def)

lemma cleared_entry: "entry (cleared n) t i = 0"
proof -
  have "load_bytes (entry_ptr t i) 8 (\<lambda>_. 0) = replicate 8 0" by (simp add: load_bytes_def map_replicate_const)
  then show ?thesis by (simp add: entry_def read_volatile_def cleared_def)
qed

lemma cleared_kernel: "kernel_ok demo_regions [] (cleared n)"
proof -
  have "kernel_root (cleared n) = 0x1000" by (simp add: kernel_root_def cleared_def ADDRESS_MASK_def)
  moreover have "\<not> links 0" by (simp add: links_bits)
  ultimately show ?thesis by (simp add: kernel_ok_def is_table_def frame_ok_def cleared_entry)
qed

lemma store_zeros: "store_bytes a (replicate n 0) (\<lambda>_. 0) = (\<lambda>_. 0)"
proof (induction n arbitrary: a)
  case (Suc n)
  have "(\<lambda>_. 0)(a := 0) = (\<lambda>_ :: u64. 0 :: u8)" by (simp add: fun_eq_iff)
  with Suc show ?case by simp
qed simp

lemma cleared_write: "write_volatile a 0 (cleared n) = cleared n"
proof -
  have "to_le_bytes k (0 :: u64) = replicate k 0" for k by (induction k) simp_all
  then show ?thesis by (simp add: write_volatile_def cleared_def store_zeros)
qed

lemma cleared_prepare: "prepare_loop k i dst src (cleared n) = cleared n"
  by (induction k arbitrary: i) (simp_all add: entry_read cleared_entry cleared_write)

lemma cleared_zero: "is_table f \<Longrightarrow> zero_physical_page f (cleared n) = (True, cleared n)"
  by (auto simp: zero_physical_page_def direct_map_ptr_def is_table_def word_le_nat_alt kernel_defs cleared_def store_zeros)

text \<open>One round of the walk that creates a table.\<close>

lemma map_tables_fresh:
  assumes t: "is_table t" "unat i < 512" "entry m t i = 0" and a: "machine_alloc m = (Some f, m1)"
    and f: "is_table f" "f \<noteq> t" and rdy: "mc_direct_map_ready m1" and pos: "position is_none tables = Some k"
  defines "m2 \<equiv> write_volatile (entry_ptr t i) (f OR PTE_PRESENT OR PTE_WRITABLE OR PTE_USER) (snd (zero_physical_page f m1))"
  shows "map_tables (i # is) t tables m = map_tables is f (tables[k := Some f]) m2"
    "\<And>j. unat j < 512 \<Longrightarrow> entry m2 f j = 0" "mc_frames m2 = mc_frames m1" "mc_direct_map_ready m2"
proof -
  obtain m3 where z: "zero_physical_page f m1 = (True, m3)"
    using direct_map_table [OF f(1) rdy] by (simp add: zero_physical_page_def)
  note zf = zero_page_frames [OF z]
  show "mc_frames m2 = mc_frames m1" "mc_direct_map_ready m2" using zf rdy by (simp_all add: m2_def z)
  then have d: "direct_map_ptr f m2 = Some f" using direct_map_table [OF f(1)] by simp
  show "entry m2 f j = 0" if "unat j < 512" for j
    using entry_write [OF t(1,2) f(1) that] entry_zero_page [OF z f(1) f(1) that] f(2) by (simp add: m2_def z)
  show "map_tables (i # is) t tables m = map_tables is f (tables[k := Some f]) m2"
    using t(3) a z pos d by (simp add: entry_read allocate_user_table_def m2_def)
qed

lemma demo_pages:
  "fa_returned (demo_pool 6) ! 5 = 0x105000" "fa_returned (demo_pool 6) ! 4 = 0x104000"
  "fa_returned (demo_pool 6) ! 3 = 0x103000" "fa_returned (demo_pool 6) ! 2 = 0x102000"
  "fa_returned (demo_pool 6) ! 1 = 0x101000" "fa_returned (demo_pool 6) ! 0 = 0x100000"
  by (simp_all add: demo_pool_def)

lemma demo_new: "address_space_new INIT (aslr_new 7) (cleared 6) = (Ok (demo_space (replicate MAX_MAPPINGS None)), cleared 5)"
  using demo_alloc_frames [of "cleared 6" 5] demo_pages
  by (simp add: address_space_new_def demo_space_def cleared_def)

lemma demo_map_page:
  "map_anonymous 0x5000 USER_RW (demo_space (replicate MAX_MAPPINGS None), cleared 5) =
     (Ok demo_page, (demo_space ((replicate MAX_MAPPINGS None)[0 := Some demo_page]), cleared 4))"
proof -
  have "machine_alloc (cleared 5) = (Some 0x104000, cleared 4)"
    using demo_alloc_frames [of "cleared 5" 4] demo_pages by (simp add: cleared_def)
  moreover have "zero_physical_page 0x104000 (cleared 4) = (True, cleared 4)" by (rule cleared_zero) (simp add: is_table_def)
  moreover have "position is_none (replicate MAX_MAPPINGS (None :: mapping_info option)) = Some 0"
    by (rule position_replicate) (simp_all add: kernel_defs)
  moreover have "page_flags_validate USER_RW = Ok ()" by (simp add: page_flags_validate_def USER_RW_def)
  moreover have "validate_page 0x5000 = Ok ()" by (simp add: validate_page_iff)
  ultimately show ?thesis
    by (simp add: map_anonymous_def map_page_def demo_space_def demo_page_def Let_def)
qed

lemma demo_tables_map:
  "fst (user_space_map 0x105000 demo_page (replicate MAX_TABLE_FRAMES None) (cleared 4))"
proof -
  have ix: "table_indices 0x5000 = [0, 0, 0, 5]" by (simp add: table_indices_def drop_bit_eq_div)
  have tb: "is_table 0x105000" "is_table 0x103000" "is_table 0x102000" "is_table 0x101000" by (simp_all add: is_table_def)
  define T1 where "T1 = (replicate MAX_TABLE_FRAMES None)[0 := Some (0x103000 :: u64)]"
  define T2 where "T2 = T1[1 := Some 0x102000]"
  have pos: "position is_none (replicate MAX_TABLE_FRAMES (None :: u64 option)) = Some 0"
      "position is_none T1 = Some 1" "position is_none T2 = Some 2"
    by (simp_all add: T2_def T1_def kernel_defs eval_nat_numeral)
  have a1: "machine_alloc (cleared 4) = (Some 0x103000, cleared 3)"
    using demo_alloc_frames [of "cleared 4" 3] demo_pages by (simp add: cleared_def)
  have z0: "unat (0 :: u64) < 512" by simp
  have ne: "0x103000 \<noteq> (0x105000 :: u64)" "0x102000 \<noteq> (0x103000 :: u64)" "0x101000 \<noteq> (0x102000 :: u64)" by simp_all
  have r3: "mc_direct_map_ready (cleared 3)" "mc_frames (cleared 3) = demo_pool 3" by (simp_all add: cleared_def)
  define m1 where "m1 = write_volatile (entry_ptr 0x105000 0) (0x103000 OR PTE_PRESENT OR PTE_WRITABLE OR PTE_USER)
      (snd (zero_physical_page 0x103000 (cleared 3)))"
  note s1 = map_tables_fresh [OF tb(1) z0 cleared_entry a1 tb(2) ne(1) r3(1) pos(1), folded m1_def T1_def]
  have a2: "machine_alloc m1 = (Some 0x102000, m1\<lparr>mc_frames := demo_pool 2\<rparr>)"
    using demo_alloc_frames [of m1 2] demo_pages s1(3) r3(2) by simp
  define m2 where "m2 = write_volatile (entry_ptr 0x103000 0) (0x102000 OR PTE_PRESENT OR PTE_WRITABLE OR PTE_USER)
      (snd (zero_physical_page 0x102000 (m1\<lparr>mc_frames := demo_pool 2\<rparr>)))"
  have rd2: "mc_direct_map_ready (m1\<lparr>mc_frames := demo_pool 2\<rparr>)" using s1(4) by simp
  note s2 = map_tables_fresh [OF tb(2) z0 s1(2) [OF z0] a2 tb(3) ne(2) rd2 pos(2), folded m2_def T2_def]
  have a3: "machine_alloc m2 = (Some 0x101000, m2\<lparr>mc_frames := demo_pool 1\<rparr>)"
    using demo_alloc_frames [of m2 1] demo_pages s2(3) by (simp add: eval_nat_numeral)
  define m3 where "m3 = write_volatile (entry_ptr 0x102000 0) (0x101000 OR PTE_PRESENT OR PTE_WRITABLE OR PTE_USER)
      (snd (zero_physical_page 0x101000 (m2\<lparr>mc_frames := demo_pool 1\<rparr>)))"
  have rd3: "mc_direct_map_ready (m2\<lparr>mc_frames := demo_pool 1\<rparr>)" using s2(4) by simp
  note s3 = map_tables_fresh [OF tb(3) z0 s2(2) [OF z0] a3 tb(4) ne(3) rd3 pos(3), folded m3_def]
  have leaf: "entry m3 0x101000 5 = 0" by (rule s3(2)) simp
  have walk: "map_tables [0, 0, 0] 0x105000 (replicate MAX_TABLE_FRAMES None) (cleared 4) =
      (Some 0x101000, T2[2 := Some 0x101000], m3)"
    by (simp only: s1(1) s2(1) s3(1) map_tables.simps(1))
  have d: "direct_map_ptr 0x105000 (cleared 4) = Some 0x105000"
    by (rule direct_map_table [OF tb(1)]) (simp add: cleared_def)
  from walk leaf d show ?thesis
    by (simp add: user_space_map_def demo_page_def ix entry_read is_multiple_of_def)
qed

definition demo_active :: space_state where
  "demo_active = snd (activate (demo_space ((replicate MAX_MAPPINGS None)[0 := Some demo_page]), cleared 4))"

lemma demo_flatten: "flatten ((replicate MAX_MAPPINGS None)[0 := Some demo_page]) = [demo_page]"
  by (simp add: upd_replicate_0 kernel_defs)

lemma demo_lookup:
  "space_mapping (demo_space ((replicate MAX_MAPPINGS None)[0 := Some demo_page])) v = (if v = 0x5000 then Some demo_page else None)"
proof -
  have "mi_virtual_address demo_page = 0x5000" by (simp add: demo_page_def)
  then show ?thesis by (auto simp: space_mapping_def demo_space_def demo_flatten)
qed

lemma demo_activate:
  "activate (demo_space ((replicate MAX_MAPPINGS None)[0 := Some demo_page]), cleared 4) = (Ok (), demo_active)"
proof -
  have "direct_map_ptr 0x105000 (cleared 4) = Some 0x105000"
    by (rule direct_map_table) (simp_all add: cleared_def is_table_def)
  then have p: "user_space_prepare 0x105000 (cleared 4) = (True, cleared 4)"
    by (simp add: user_space_prepare_def cleared_prepare)
  obtain ts m2 where u: "user_space_map 0x105000 demo_page (replicate MAX_TABLE_FRAMES None) (cleared 4) = (True, ts, m2)"
    using demo_tables_map by (cases "user_space_map 0x105000 demo_page (replicate MAX_TABLE_FRAMES None) (cleared 4)") auto
  have "fst (activate (demo_space ((replicate MAX_MAPPINGS None)[0 := Some demo_page]), cleared 4)) = Ok ()"
    using p u by (simp add: activate_def demo_space_def demo_flatten)
  then show ?thesis by (simp add: demo_active_def prod_eq_iff)
qed

lemma demo_space_reachable:
  "reachable (space_start demo_regions [] {}) space_step
     (demo_space ((replicate MAX_MAPPINGS None)[0 := Some demo_page]), cleared 4)"
  "reachable (space_start demo_regions [] {}) space_step demo_active"
proof -
  have "space_start demo_regions [] {} (demo_space (replicate MAX_MAPPINGS None), cleared 5)"
    unfolding space_start_def using demo_new demo_pool_inv cleared_kernel [of 6]
    by (intro exI [of _ INIT] exI [of _ "aslr_new 7"] exI [of _ "cleared 6"]) (simp add: cleared_def)
  then show r: "reachable (space_start demo_regions [] {}) space_step
      (demo_space ((replicate MAX_MAPPINGS None)[0 := Some demo_page]), cleared 4)"
    by (rule reach_step [OF reach_init]) (rule sp_map [OF demo_map_page])
  show "reachable (space_start demo_regions [] {}) space_step demo_active"
    by (rule reach_step [OF r]) (rule sp_activate [OF demo_activate])
qed

lemma map_page_overlap:
  assumes "map_page va flags Map_Anonymous (s, m) = (Err e, sm')"
  shows "e = AS_Overlap \<longleftrightarrow> as_root_frame s \<noteq> None \<and> page_flags_validate flags = Ok () \<and> validate_page va = Ok () \<and>
    as_stack_guard s \<noteq> Some va \<and> space_mapping s va \<noteq> None"
proof -
  have mapped: "space_mapping s va \<noteq> None \<longleftrightarrow> list_ex (\<lambda>mp. mi_virtual_address mp = va) (flatten (as_mappings s))"
    by (auto simp: space_mapping_def find_None_iff list_ex_iff)
  have fl: "page_flags_validate flags \<noteq> Err AS_Overlap" by (simp add: page_flags_validate_def)
  have vp: "validate_page va \<noteq> Err AS_Overlap"
    by (cases "checked_add va PAGE_SIZE") (simp_all add: validate_page_def)
  show ?thesis
  proof (cases "as_root_frame s \<noteq> None \<and> page_flags_validate flags = Ok () \<and> validate_page va = Ok () \<and>
      as_stack_guard s \<noteq> Some va \<and> space_mapping s va \<noteq> None")
    case True
    with assms mapped show ?thesis by (simp add: map_page_def)
  next
    case False
    have "e \<noteq> AS_Overlap"
      using assms
    proof (cases rule: map_page_cases)
      case (rejected e')
      show ?thesis
      proof
        assume o: "e = AS_Overlap"
        note eq = assms [unfolded map_page_def prod.case o]
        have root: "as_root_frame s \<noteq> None" using eq by (cases "as_root_frame s = None") simp_all
        note eq1 = eq [unfolded if_not_P [OF root]]
        have v1: "page_flags_validate flags = Ok ()" using eq1 fl by (cases "page_flags_validate flags") auto
        note eq2 = eq1 [unfolded v1 try_res_simps]
        have v2: "validate_page va = Ok ()" using eq2 vp by (cases "validate_page va") auto
        note eq3 = eq2 [unfolded v2 try_res_simps]
        have g: "\<not> (as_stack_guard s = Some va \<and> Map_Anonymous \<noteq> Map_Stack)" using eq3 by (auto split: if_splits)
        from False root v1 v2 g mapped rejected eq3 show False
          by (auto simp: ok_or_def Let_def split: option.splits if_splits prod.splits)
      qed
    next
      case (no_frames m1)
      then show ?thesis by simp
    next
      case (mapped slot f m1)
      then show ?thesis by (auto simp: Let_def split: if_splits prod.splits)
    qed
    with False show ?thesis by blast
  qed
qed

section \<open>Properties\<close>


lemma demo_active_facts:
  "as_root_frame (fst demo_active) = Some 0x105000" "as_active (fst demo_active)"
  "mmu_lookup (snd demo_active) 0x105000 0x5123 = Some (0x104000 OR leaf_flags USER_RW)"
proof -
  have inv: "space_inv demo_regions [] {} (demo_space ((replicate MAX_MAPPINGS None)[0 := Some demo_page]), cleared 4)"
    using spacesys.reachable_inv [OF demo_space_reachable(1)] by (simp add: full_inv_def)
  have act: "activate (demo_space ((replicate MAX_MAPPINGS None)[0 := Some demo_page]), cleared 4) =
      (Ok (), (fst demo_active, snd demo_active))" using demo_activate by simp
  note a = activate_spec [OF inv act]
  have v: "unat (0x5123 :: usize) < 2 ^ 47" by simp
  have "page_of 0x5123 = 0x5000" by (simp add: page_of_def PAGE_SIZE_def)
  then have "translation (demo_space ((replicate MAX_MAPPINGS None)[0 := Some demo_page])) 0x5123 = Some (0x104000 OR leaf_flags USER_RW)"
    by (simp add: translation_def demo_lookup) (simp add: demo_page_def)
  with a v show "as_root_frame (fst demo_active) = Some 0x105000" "as_active (fst demo_active)"
    "mmu_lookup (snd demo_active) 0x105000 0x5123 = Some (0x104000 OR leaf_flags USER_RW)"
    by (simp_all add: demo_space_def)
qed


text \<open>
  Claim C40. A failed mapping is harmless.  When \<open>map_anonymous\<close> reports an error, whichever one, the
  mappings, the stack and the state of the address space are as they were, every translation of its
  page tables is as it was, and the invariant still holds; a page is refused as overlapping exactly
  when it is already mapped and the earlier checks pass.
\<close>

theorem map_anonymous_error_harmless:
  assumes "reachable (space_start R X K) space_step (s, m)" "map_anonymous va flags (s, m) = (Err e, (s', m'))"
  shows "as_mappings s' = as_mappings s \<and> same_fields s s' \<and> full_inv R X K (s', m') \<and>
    (as_active s \<longrightarrow> (\<forall>v. mmu_lookup m' (the (as_root_frame s)) v = mmu_lookup m (the (as_root_frame s)) v)) \<and>
    (e = AS_Overlap \<longleftrightarrow> as_root_frame s \<noteq> None \<and> page_flags_validate flags = Ok () \<and> validate_page va = Ok () \<and>
       as_stack_guard s \<noteq> Some va \<and> space_mapping s va \<noteq> None)"
proof -
  have inv: "full_inv R X K (s, m)" by (rule spacesys.reachable_inv [OF assms(1)])
  then have si: "space_inv R X K (s, m)" by (simp add: full_inv_def)
  have eq: "map_page va flags Map_Anonymous (s, m) = (Err e, (s', m'))" using assms(2) by (simp add: map_anonymous_def)
  have "full_inv R X K (s', m')" by (rule space_step_inv [OF inv sp_map [OF assms(2)]])
  moreover have "e = AS_Overlap \<longleftrightarrow> as_root_frame s \<noteq> None \<and> page_flags_validate flags = Ok () \<and> validate_page va = Ok () \<and>
       as_stack_guard s \<noteq> Some va \<and> space_mapping s va \<noteq> None"
    by (rule map_page_overlap [OF eq])
  ultimately show ?thesis using map_page_spec [OF si eq] by blast
qed

theorem map_anonymous_error_harmless_witness:
  "\<exists>s' m'. map_anonymous 0x5000 USER_RX (demo_space ((replicate MAX_MAPPINGS None)[0 := Some demo_page]), cleared 4) =
     (Err AS_Overlap, (s', m')) \<and> flatten (as_mappings s') = [demo_page]"
proof -
  have "page_flags_validate USER_RX = Ok ()" by (simp add: page_flags_validate_def USER_RX_def)
  moreover have "validate_page 0x5000 = Ok ()" by (simp add: validate_page_iff)
  moreover have "mi_virtual_address demo_page = 0x5000" by (simp add: demo_page_def)
  ultimately have "map_anonymous 0x5000 USER_RX (demo_space ((replicate MAX_MAPPINGS None)[0 := Some demo_page]), cleared 4) =
      (Err AS_Overlap, (demo_space ((replicate MAX_MAPPINGS None)[0 := Some demo_page]), cleared 4))"
    by (simp add: map_anonymous_def map_page_def demo_space_def demo_flatten)
  with map_anonymous_error_harmless [OF demo_space_reachable(1) this] show ?thesis
    by (auto simp: demo_space_def demo_flatten)
qed

text \<open>
  Claim C17. What \<open>load\<close> writes is what the address space holds: after a successful load the bytes at
  the given addresses are the loaded ones, in order and across page borders, and the bytes at every
  other mapped address are as before.
\<close>

theorem load_reads_back:
  assumes "reachable (space_start R X K) space_step (s, m)" "space_load s va bytes m = (Ok (), m')"
  shows "space_byte s m' a =
    (if unat va \<le> unat a \<and> unat a < unat va + length bytes then Some (bytes ! (unat a - unat va))
     else space_byte s m a)"
proof -
  have "space_inv R X K (s, m)" using spacesys.reachable_inv [OF assms(1)] by (simp add: full_inv_def)
  from space_load_spec [OF this assms(2)] show ?thesis by blast
qed

theorem load_reads_back_witness:
  "\<exists>m'. space_load (demo_space ((replicate MAX_MAPPINGS None)[0 := Some demo_page])) 0x5010 [1, 2, 3] (cleared 4) = (Ok (), m') \<and>
     space_byte (demo_space ((replicate MAX_MAPPINGS None)[0 := Some demo_page])) m' 0x5011 = Some 2"
proof -
  let ?s = "demo_space ((replicate MAX_MAPPINGS None)[0 := Some demo_page])"
  have pg: "page_of 0x5010 = 0x5000" by (simp add: page_of_def PAGE_SIZE_def)
  have mp: "space_mapping ?s 0x5000 = Some demo_page"
    by (simp add: demo_lookup)
  obtain m' where w: "write_physical 0x104000 16 [1, 2, 3] (cleared 4) = (True, m')"
    by (simp add: write_physical_def saturating_add_def direct_map_ptr_def cleared_def kernel_defs)
  have "load_loop ?s [1, 2, 3] 0x5010 0 (cleared 4) = (Ok (), m')"
    using w mp by (subst load_loop.simps)
      (simp add: pg Let_def demo_page_def checked_add_def load_loop.simps [of _ _ "0x5013"])
  then have l: "space_load ?s 0x5010 [1, 2, 3] (cleared 4) = (Ok (), m')" by (simp add: space_load_def demo_space_def)
  from load_reads_back [OF demo_space_reachable(1) l, of "0x5011"] have "space_byte ?s m' 0x5011 = Some 2" by simp
  with l show ?thesis by blast
qed

end
