(* ===== verification/Vfs.thy ===== *)
theory Vfs
  imports Kernel_Prelude
begin

unbundle bit_operations_syntax

text \<open>
  The virtual file system (\<open>src/vfs.rs\<close>): the RAM file system with its inode table, directories and
  open handles, the mount table with namespaces and propagation, and dentry references.  The static
  variables of the source are the fields of one record.  A path is the list of its bytes.  Inode,
  mount, namespace and slot numbers index the fixed tables, all smaller than 256 entries, and are
  natural numbers; offsets and sizes never exceed \<open>FILE_MAX\<close>, and where the source reports an
  overflowing offset it reports the same error for one above \<open>FILE_MAX\<close>.
\<close>

definition MAX_INODES :: nat where [kernel_defs]: "MAX_INODES = 32"
definition MAX_CHILDREN :: nat where [kernel_defs]: "MAX_CHILDREN = 16"
definition MAX_OPEN_HANDLES :: nat where [kernel_defs]: "MAX_OPEN_HANDLES = 16"
definition MAX_MOUNTS :: nat where [kernel_defs]: "MAX_MOUNTS = 8"
definition MAX_NAMESPACES :: nat where [kernel_defs]: "MAX_NAMESPACES = 4"
definition MAX_DENTRIES :: nat where [kernel_defs]: "MAX_DENTRIES = 16"
definition MAX_COMPONENTS :: nat where [kernel_defs]: "MAX_COMPONENTS = 16"
definition MAX_PATH :: nat where [kernel_defs]: "MAX_PATH = 256"
definition NAME_MAX :: nat where [kernel_defs]: "NAME_MAX = 31"
definition FILE_MAX :: nat where [kernel_defs]: "FILE_MAX = 4096"

datatype vfs_error =
    V_NotMounted | V_AlreadyMounted | V_Busy | V_InvalidPath | V_NameTooLong | V_NotFound
  | V_AlreadyExists | V_NotDirectory | V_IsDirectory | V_NotEmpty | V_NoSpace | V_PermissionDenied
  | V_ReadOnly | V_InvalidHandle | V_OffsetOutOfRange | V_MountNotFound | V_MountPointBusy
  | V_NamespaceNotFound | V_InvalidMountTarget | V_PropagationDenied

datatype node_type = Directory | Regular

record open_options =
  oo_read :: bool
  oo_write :: bool
  oo_create :: bool

definition options_read :: open_options where
  "options_read = \<lparr>oo_read = True, oo_write = False, oo_create = False\<rparr>"

definition options_write_create :: open_options where
  "options_write_create = \<lparr>oo_read = False, oo_write = True, oo_create = True\<rparr>"

definition options_read_write_create :: open_options where
  "options_read_write_create = \<lparr>oo_read = True, oo_write = True, oo_create = True\<rparr>"

type_synonym mount_id = nat
type_synonym namespace_id = nat

definition MOUNT_ROOT :: mount_id where "MOUNT_ROOT = 0"
definition NAMESPACE_ROOT :: namespace_id where "NAMESPACE_ROOT = 0"

definition mount_id_from_raw :: "u8 \<Rightarrow> mount_id option" where
  "mount_id_from_raw v = (if unat v < MAX_MOUNTS then Some (unat v) else None)"

datatype mount_source = Ramfs
datatype propagation = Private | Shared | Slave | Unbindable

record mount_flags =
  mf_read_only :: bool
  mf_no_exec :: bool
  mf_no_suid :: bool
  mf_no_dev :: bool

definition flags_defaults :: mount_flags where
  "flags_defaults = \<lparr>mf_read_only = False, mf_no_exec = False, mf_no_suid = False, mf_no_dev = False\<rparr>"

definition flags_read_only :: mount_flags where
  "flags_read_only = flags_defaults\<lparr>mf_read_only := True\<rparr>"

definition flags_library :: mount_flags where
  "flags_library = \<lparr>mf_read_only = True, mf_no_exec = False, mf_no_suid = True, mf_no_dev = True\<rparr>"

record mount_info =
  min_id :: mount_id
  min_namespace :: namespace_id
  min_parent :: "mount_id option"
  min_mountpoint_inode :: nat
  min_source :: mount_source
  min_flags :: mount_flags
  min_propagation :: propagation

record dentry =
  de_mount :: mount_id
  de_inode :: nat

record dentry_handle =
  dh_dentry :: dentry
  dh_slot :: nat

record file_handle =
  fh_inode :: nat
  fh_mount :: mount_id
  fh_slot :: nat
  fh_offset :: nat
  fh_readable :: bool
  fh_writable :: bool

record vfs_name =
  nm_bytes :: "u8 list"
  nm_len :: nat

definition name_empty :: vfs_name where
  "name_empty = \<lparr>nm_bytes = replicate NAME_MAX 0, nm_len = 0\<rparr>"

record child =
  ch_used :: bool
  ch_inode :: nat
  ch_name :: vfs_name

definition child_empty :: child where
  "child_empty = \<lparr>ch_used = False, ch_inode = 0, ch_name = name_empty\<rparr>"

record inode =
  in_used :: bool
  in_kind :: node_type
  in_parent :: nat
  in_mode :: u16
  in_size :: nat
  in_data :: "u8 list"
  in_children :: "child list"

definition inode_empty :: inode where
  "inode_empty = \<lparr>in_used = False, in_kind = Regular, in_parent = 0, in_mode = 0, in_size = 0,
     in_data = replicate FILE_MAX 0, in_children = replicate MAX_CHILDREN child_empty\<rparr>"

definition inode_new :: "node_type \<Rightarrow> nat \<Rightarrow> u16 \<Rightarrow> inode" where
  "inode_new kind parent mode = \<lparr>in_used = True, in_kind = kind, in_parent = parent, in_mode = mode, in_size = 0,
     in_data = replicate FILE_MAX 0, in_children = replicate MAX_CHILDREN child_empty\<rparr>"

record handle_slot =
  hs_used :: bool
  hs_mount :: mount_id
  hs_inode :: nat

definition handle_empty :: handle_slot where
  "handle_empty = \<lparr>hs_used = False, hs_mount = MOUNT_ROOT, hs_inode = 0\<rparr>"

record mount_node =
  mn_used :: bool
  mn_namespace :: namespace_id
  mn_parent :: "mount_id option"
  mn_mountpoint_inode :: nat
  mn_root_inode :: nat
  mn_source :: mount_source
  mn_flags :: mount_flags
  mn_propagation :: propagation
  mn_dentry_references :: nat

definition mount_node_empty :: mount_node where
  "mount_node_empty = \<lparr>mn_used = False, mn_namespace = NAMESPACE_ROOT, mn_parent = None,
     mn_mountpoint_inode = 0, mn_root_inode = 0, mn_source = Ramfs, mn_flags = flags_defaults,
     mn_propagation = Private, mn_dentry_references = 0\<rparr>"

definition mount_node_root :: "namespace_id \<Rightarrow> mount_node" where
  "mount_node_root namespace = \<lparr>mn_used = True, mn_namespace = namespace, mn_parent = None,
     mn_mountpoint_inode = 0, mn_root_inode = 0, mn_source = Ramfs, mn_flags = flags_defaults,
     mn_propagation = Private, mn_dentry_references = 0\<rparr>"

record namespace_slot =
  ns_used :: bool
  ns_root_mount :: mount_id

definition namespace_empty :: namespace_slot where
  "namespace_empty = \<lparr>ns_used = False, ns_root_mount = MOUNT_ROOT\<rparr>"

record dentry_slot =
  ds_used :: bool
  ds_dentry :: dentry

definition dentry_empty :: dentry_slot where
  "dentry_empty = \<lparr>ds_used = False, ds_dentry = \<lparr>de_mount = MOUNT_ROOT, de_inode = 0\<rparr>\<rparr>"

record file_system =
  fs_inodes :: "inode list"
  fs_handles :: "handle_slot list"
  fs_open_count :: nat

text \<open>\<open>FileSystem::new\<close> and \<open>reset\<close> give the same value.\<close>

definition file_system_new :: file_system where
  "file_system_new = \<lparr>fs_inodes = (replicate MAX_INODES inode_empty)[0 := inode_new Directory 0 493],
     fs_handles = replicate MAX_OPEN_HANDLES handle_empty, fs_open_count = 0\<rparr>"

record vfs_stats =
  vs_mounts :: nat
  vs_files :: nat
  vs_directories :: nat
  vs_bytes :: nat
  vs_open_handles :: nat

record vfs =
  vf_fs :: file_system
  vf_mounted :: bool
  vf_mounts :: "mount_node list"
  vf_namespaces :: "namespace_slot list"
  vf_dentries :: "dentry_slot list"

definition vfs_static :: vfs where
  "vfs_static = \<lparr>vf_fs = file_system_new, vf_mounted = False,
     vf_mounts = replicate MAX_MOUNTS mount_node_empty,
     vf_namespaces = replicate MAX_NAMESPACES namespace_empty,
     vf_dentries = replicate MAX_DENTRIES dentry_empty\<rparr>"

section \<open>Paths\<close>

text \<open>
  The loops of \<open>parse_path\<close> over the remaining bytes: skipping slashes, and reading a part up to the
  next slash, which fails on a zero byte.
\<close>

fun skip_slashes :: "u8 list \<Rightarrow> u8 list" where
  "skip_slashes [] = []"
| "skip_slashes (b # bs) = (if b = 0x2f then skip_slashes bs else b # bs)"

fun take_part :: "u8 list \<Rightarrow> (u8 list \<times> u8 list) option" where
  "take_part [] = Some ([], [])"
| "take_part (b # bs) =
     (if b = 0x2f then Some ([], b # bs)
      else if b = 0 then None
      else map_option (\<lambda>(part, rest). (b # part, rest)) (take_part bs))"

definition name_of :: "u8 list \<Rightarrow> vfs_name" where
  "name_of part = \<lparr>nm_bytes = write_at 0 part (nm_bytes name_empty), nm_len = length part\<rparr>"

lemma length_skip_slashes: "length (skip_slashes bs) \<le> length bs"
  by (induction bs) auto

lemma length_take_part: "take_part bs = Some (part, rest) \<Longrightarrow> length rest + length part = length bs"
  by (induction bs arbitrary: part rest) (auto split: if_splits)

lemma take_part_progress:
  assumes "take_part (skip_slashes bs) = Some (part, rest)" "skip_slashes bs \<noteq> []"
  shows "length rest < length bs"
proof -
  obtain b cs where c: "skip_slashes bs = b # cs" using assms(2) by (cases "skip_slashes bs") auto
  have "b \<noteq> 0x2f" using c by (induction bs) (auto split: if_splits)
  then have "part \<noteq> []" using assms(1) c by (auto split: if_splits)
  with length_take_part [OF assms(1)] length_skip_slashes [of bs] show ?thesis by (cases part) auto
qed

function parse_loop :: "u8 list \<Rightarrow> vfs_name list \<Rightarrow> nat \<Rightarrow> vfs_error + (vfs_name list \<times> nat)" where
  "parse_loop bytes components count =
     (if skip_slashes bytes = [] then Ok (components, count)
      else
        (case take_part (skip_slashes bytes) of
           None \<Rightarrow> Err V_InvalidPath
         | Some (part, rest) \<Rightarrow>
             if part = [0x2e] then parse_loop rest components count
             else if part = [0x2e, 0x2e] then parse_loop rest components (count - 1)
             else if length part > NAME_MAX then Err V_NameTooLong
             else if count = MAX_COMPONENTS then Err V_InvalidPath
             else parse_loop rest (components[count := name_of part]) (count + 1)))"
  by pat_completeness auto
termination
  by (relation "measure (\<lambda>(bytes, components, count). length bytes)") (auto dest: take_part_progress)

declare parse_loop.simps [simp del]

definition parse_path :: "u8 list \<Rightarrow> vfs_error + (vfs_name list \<times> nat)" where
  "parse_path bytes =
     (if bytes = [] \<or> hd bytes \<noteq> 0x2f \<or> length bytes > MAX_PATH then Err V_InvalidPath
      else parse_loop (tl bytes) (replicate MAX_COMPONENTS name_empty) 0)"

section \<open>Directories\<close>

definition child_matches :: "vfs_name \<Rightarrow> child \<Rightarrow> bool" where
  "child_matches name c \<longleftrightarrow> ch_used c \<and> ch_name c = name"

definition find_child :: "file_system \<Rightarrow> nat \<Rightarrow> vfs_name \<Rightarrow> nat option" where
  "find_child fs parent name =
     map_option ch_inode (List.find (child_matches name) (in_children (fs_inodes fs ! parent)))"

definition find_child_slot :: "file_system \<Rightarrow> nat \<Rightarrow> vfs_name \<Rightarrow> nat option" where
  "find_child_slot fs parent name = position (child_matches name) (in_children (fs_inodes fs ! parent))"

definition has_free_child :: "file_system \<Rightarrow> nat \<Rightarrow> bool" where
  "has_free_child fs parent = list_ex (\<lambda>c. \<not> ch_used c) (in_children (fs_inodes fs ! parent))"

definition set_children :: "nat \<Rightarrow> child list \<Rightarrow> file_system \<Rightarrow> file_system" where
  "set_children i cs fs = fs\<lparr>fs_inodes := (fs_inodes fs)[i := (fs_inodes fs ! i)\<lparr>in_children := cs\<rparr>]\<rparr>"

definition add_child :: "nat \<Rightarrow> vfs_name \<Rightarrow> nat \<Rightarrow> file_system \<Rightarrow> (vfs_error + unit) \<times> file_system" where
  "add_child parent name i fs =
     (let cs = in_children (fs_inodes fs ! parent) in
      case position (\<lambda>c. \<not> ch_used c) cs of
        None \<Rightarrow> (Err V_NoSpace, fs)
      | Some slot \<Rightarrow>
          (Ok (), set_children parent (cs[slot := \<lparr>ch_used = True, ch_inode = i, ch_name = name\<rparr>]) fs))"

definition remove_child :: "nat \<Rightarrow> vfs_name \<Rightarrow> file_system \<Rightarrow> (vfs_error + nat) \<times> file_system" where
  "remove_child parent name fs =
     (let cs = in_children (fs_inodes fs ! parent) in
      case position (child_matches name) cs of
        None \<Rightarrow> (Err V_NotFound, fs)
      | Some slot \<Rightarrow> (Ok (ch_inode (cs ! slot)), set_children parent (cs[slot := child_empty]) fs))"

definition has_open_handle :: "file_system \<Rightarrow> nat \<Rightarrow> bool" where
  "has_open_handle fs i = list_ex (\<lambda>h. hs_used h \<and> hs_inode h = i) (fs_handles fs)"

fun descendant_loop :: "nat \<Rightarrow> file_system \<Rightarrow> nat \<Rightarrow> nat \<Rightarrow> bool" where
  "descendant_loop 0 fs current ancestor = True"
| "descendant_loop (Suc left) fs current ancestor =
     (if current = ancestor then True
      else if current = 0 then False
      else descendant_loop left fs (in_parent (fs_inodes fs ! current)) ancestor)"

definition is_descendant :: "file_system \<Rightarrow> nat \<Rightarrow> nat \<Rightarrow> bool" where
  "is_descendant fs candidate ancestor = descendant_loop MAX_INODES fs candidate ancestor"

definition set_inode :: "nat \<Rightarrow> inode \<Rightarrow> file_system \<Rightarrow> file_system" where
  "set_inode i v fs = fs\<lparr>fs_inodes := (fs_inodes fs)[i := v]\<rparr>"

definition create_node_at ::
  "nat \<Rightarrow> vfs_name \<Rightarrow> node_type \<Rightarrow> u16 \<Rightarrow> file_system \<Rightarrow> (vfs_error + nat) \<times> file_system" where
  "create_node_at parent name kind mode fs =
     (if find_child fs parent name \<noteq> None then (Err V_AlreadyExists, fs)
      else if in_kind (fs_inodes fs ! parent) \<noteq> Directory then (Err V_NotDirectory, fs)
      else if \<not> has_free_child fs parent then (Err V_NoSpace, fs)
      else
        (case position (\<lambda>n. \<not> in_used n) (fs_inodes fs) of
           None \<Rightarrow> (Err V_NoSpace, fs)
         | Some i \<Rightarrow>
             (case add_child parent name i (set_inode i (inode_new kind parent mode) fs) of
                (Inl e, fs) \<Rightarrow> (Err e, fs)
              | (Inr _, fs) \<Rightarrow> (Ok i, fs))))"

section \<open>Mounts\<close>

definition mount_node_of :: "vfs \<Rightarrow> mount_id \<Rightarrow> vfs_error + mount_node" where
  "mount_node_of v i =
     (if i < length (vf_mounts v) \<and> mn_used (vf_mounts v ! i) then Ok (vf_mounts v ! i)
      else Err V_MountNotFound)"

definition mount_flags_of :: "vfs \<Rightarrow> mount_id \<Rightarrow> vfs_error + mount_flags" where
  "mount_flags_of v i = and_then (mount_node_of v i) (\<lambda>node. Ok (mn_flags node))"

definition mount_count :: "vfs \<Rightarrow> namespace_id \<Rightarrow> nat" where
  "mount_count v namespace =
     length (filter (\<lambda>node. mn_used node \<and> mn_namespace node = namespace) (vf_mounts v))"

definition is_mount_child :: "namespace_id \<Rightarrow> mount_id \<Rightarrow> nat \<Rightarrow> mount_node \<Rightarrow> bool" where
  "is_mount_child namespace parent mountpoint node \<longleftrightarrow>
     mn_used node \<and> mn_namespace node = namespace \<and> mn_parent node = Some parent \<and>
     mn_mountpoint_inode node = mountpoint"

definition find_mount_child :: "vfs \<Rightarrow> namespace_id \<Rightarrow> mount_id \<Rightarrow> nat \<Rightarrow> mount_id option" where
  "find_mount_child v namespace parent mountpoint =
     position (is_mount_child namespace parent mountpoint) (vf_mounts v)"

definition namespace_root :: "vfs \<Rightarrow> namespace_id \<Rightarrow> vfs_error + mount_id" where
  "namespace_root v namespace =
     (if namespace < length (vf_namespaces v) \<and> ns_used (vf_namespaces v ! namespace)
      then Ok (ns_root_mount (vf_namespaces v ! namespace)) else Err V_NamespaceNotFound)"

text \<open>The loop over path components that \<open>resolve_mount\<close> and \<open>parent_and_name_mount\<close> share.\<close>

fun walk :: "vfs \<Rightarrow> namespace_id \<Rightarrow> vfs_name list \<Rightarrow> mount_id \<Rightarrow> nat \<Rightarrow> vfs_error + (mount_id \<times> nat)" where
  "walk v namespace [] mount i = Ok (mount, i)"
| "walk v namespace (component # components) mount i =
     (if in_kind (fs_inodes (vf_fs v) ! i) \<noteq> Directory then Err V_NotDirectory
      else
        (case find_child (vf_fs v) i component of
           None \<Rightarrow> Err V_NotFound
         | Some i \<Rightarrow>
             (case find_mount_child v namespace mount i of
                None \<Rightarrow> walk v namespace components mount i
              | Some child_mount \<Rightarrow>
                  and_then (mount_node_of v child_mount) (\<lambda>node.
                    walk v namespace components child_mount (mn_root_inode node)))))"

definition resolve_mount :: "vfs \<Rightarrow> u8 list \<Rightarrow> namespace_id \<Rightarrow> vfs_error + (mount_id \<times> nat)" where
  "resolve_mount v path namespace =
     and_then (parse_path path) (\<lambda>(components, count).
     and_then (namespace_root v namespace) (\<lambda>mount.
       walk v namespace (take count components) mount 0))"

definition parent_and_name_mount ::
  "vfs \<Rightarrow> u8 list \<Rightarrow> namespace_id \<Rightarrow> vfs_error + (mount_id \<times> nat \<times> vfs_name)" where
  "parent_and_name_mount v path namespace =
     and_then (parse_path path) (\<lambda>(components, count).
       if count = 0 then Err V_InvalidPath
       else
         and_then (namespace_root v namespace) (\<lambda>mount.
         and_then (walk v namespace (take (count - 1) components) mount 0) (\<lambda>(mount, parent).
           if in_kind (fs_inodes (vf_fs v) ! parent) \<noteq> Directory then Err V_NotDirectory
           else Ok (mount, parent, components ! (count - 1)))))"

definition mount_ramfs :: "vfs \<Rightarrow> (vfs_error + unit) \<times> vfs" where
  "mount_ramfs v =
     (if vf_mounted v then (Err V_AlreadyMounted, v)
      else
        (Ok (), \<lparr>vf_fs = file_system_new, vf_mounted = True,
           vf_mounts = (replicate MAX_MOUNTS mount_node_empty)[MOUNT_ROOT := mount_node_root NAMESPACE_ROOT],
           vf_namespaces = (replicate MAX_NAMESPACES namespace_empty)
             [NAMESPACE_ROOT := \<lparr>ns_used = True, ns_root_mount = MOUNT_ROOT\<rparr>],
           vf_dentries = replicate MAX_DENTRIES dentry_empty\<rparr>))"

definition unmount_ramfs :: "vfs \<Rightarrow> (vfs_error + unit) \<times> vfs" where
  "unmount_ramfs v =
     (if \<not> vf_mounted v then (Err V_NotMounted, v)
      else if fs_open_count (vf_fs v) \<noteq> 0 then (Err V_Busy, v)
      else (Ok (), v\<lparr>vf_mounted := False\<rparr>))"

text \<open>\<open>with_fs\<close>.\<close>

definition with_fs :: "vfs \<Rightarrow> (vfs \<Rightarrow> (vfs_error + 'a) \<times> vfs) \<Rightarrow> (vfs_error + 'a) \<times> vfs" where
  "with_fs v f = (if \<not> vf_mounted v then (Err V_NotMounted, v) else f v)"

definition mount_in_namespace ::
  "namespace_id \<Rightarrow> mount_source \<Rightarrow> u8 list \<Rightarrow> mount_flags \<Rightarrow> propagation \<Rightarrow> vfs \<Rightarrow> (vfs_error + mount_id) \<times> vfs" where
  "mount_in_namespace namespace source target flags prop v = with_fs v (\<lambda>v.
     if source \<noteq> Ramfs then (Err V_InvalidMountTarget, v)
     else try_res (resolve_mount v target namespace) v (\<lambda>(parent, mountpoint).
       if mountpoint = 0 \<or> in_kind (fs_inodes (vf_fs v) ! mountpoint) \<noteq> Directory then (Err V_InvalidMountTarget, v)
       else try_res (mount_node_of v parent) v (\<lambda>parent_node.
         if mn_propagation parent_node = Unbindable \<or> (prop = Slave \<and> mn_propagation parent_node = Private)
         then (Err V_PropagationDenied, v)
         else if find_mount_child v namespace parent mountpoint \<noteq> None then (Err V_MountPointBusy, v)
         else
           (case position (\<lambda>node. \<not> mn_used node) (vf_mounts v) of
              None \<Rightarrow> (Err V_NoSpace, v)
            | Some index \<Rightarrow>
                (Ok index, v\<lparr>vf_mounts := (vf_mounts v)[index :=
                   \<lparr>mn_used = True, mn_namespace = namespace, mn_parent = Some parent,
                    mn_mountpoint_inode = mountpoint, mn_root_inode = mountpoint, mn_source = source,
                    mn_flags = flags, mn_propagation = prop, mn_dentry_references = 0\<rparr>]\<rparr>)))))"

definition mount_with_propagation ::
  "namespace_id \<Rightarrow> mount_source \<Rightarrow> u8 list \<Rightarrow> mount_flags \<Rightarrow> propagation \<Rightarrow> vfs \<Rightarrow> (vfs_error + mount_id) \<times> vfs" where
  "mount_with_propagation namespace source target flags prop v =
     mount_in_namespace namespace source target flags prop v"

definition vfs_mount :: "mount_source \<Rightarrow> u8 list \<Rightarrow> mount_flags \<Rightarrow> vfs \<Rightarrow> (vfs_error + mount_id) \<times> vfs" where
  "vfs_mount source target flags v = mount_with_propagation NAMESPACE_ROOT source target flags Private v"

definition unmount_mount :: "mount_id \<Rightarrow> vfs \<Rightarrow> (vfs_error + unit) \<times> vfs" where
  "unmount_mount i v = with_fs v (\<lambda>v.
     try_res (mount_node_of v i) v (\<lambda>node. try_res (namespace_root v (mn_namespace node)) v (\<lambda>root.
       if root = i then (Err V_Busy, v)
       else if mn_dentry_references node \<noteq> 0 \<or>
               list_ex (\<lambda>h. hs_used h \<and> hs_mount h = i) (fs_handles (vf_fs v)) \<or>
               list_ex (\<lambda>c. mn_used c \<and> mn_parent c = Some i) (vf_mounts v)
       then (Err V_Busy, v)
       else (Ok (), v\<lparr>vf_mounts := (vf_mounts v)[i := mount_node_empty]\<rparr>))))"

text \<open>\<open>(1..MAX).find(...)\<close> over the slots of a table.\<close>

definition find_from_one :: "('a \<Rightarrow> bool) \<Rightarrow> 'a list \<Rightarrow> nat option" where
  "find_from_one P xs = map_option Suc (position P (tl xs))"

definition create_namespace :: "vfs \<Rightarrow> (vfs_error + namespace_id) \<times> vfs" where
  "create_namespace v =
     (if \<not> vf_mounted v then (Err V_NotMounted, v)
      else
        (case find_from_one (\<lambda>s. \<not> ns_used s) (vf_namespaces v) of
           None \<Rightarrow> (Err V_NoSpace, v)
         | Some namespace \<Rightarrow>
             (case find_from_one (\<lambda>n. \<not> mn_used n) (vf_mounts v) of
                None \<Rightarrow> (Err V_NoSpace, v)
              | Some mount \<Rightarrow>
                  (Ok namespace, v\<lparr>vf_mounts := (vf_mounts v)[mount := mount_node_root namespace],
                     vf_namespaces := (vf_namespaces v)[namespace := \<lparr>ns_used = True, ns_root_mount = mount\<rparr>]\<rparr>))))"

definition destroy_namespace :: "namespace_id \<Rightarrow> vfs \<Rightarrow> (vfs_error + unit) \<times> vfs" where
  "destroy_namespace namespace v =
     (if namespace = NAMESPACE_ROOT then (Err V_Busy, v)
      else with_fs v (\<lambda>v.
        try_res (namespace_root v namespace) v (\<lambda>root.
          if list_ex (\<lambda>n. mn_used n \<and> mn_namespace n = namespace \<and> mn_dentry_references n \<noteq> 0) (vf_mounts v) \<or>
             list_ex (\<lambda>h. hs_used h \<and> hs_mount h < length (vf_mounts v) \<and> mn_used (vf_mounts v ! hs_mount h) \<and>
               mn_namespace (vf_mounts v ! hs_mount h) = namespace) (fs_handles (vf_fs v))
          then (Err V_Busy, v)
          else (Ok (), v\<lparr>vf_mounts := (vf_mounts v)[root := mount_node_empty],
                  vf_namespaces := (vf_namespaces v)[namespace := namespace_empty]\<rparr>))))"

definition info_of :: "mount_id \<Rightarrow> mount_node \<Rightarrow> mount_info" where
  "info_of i node = \<lparr>min_id = i, min_namespace = mn_namespace node, min_parent = mn_parent node,
     min_mountpoint_inode = mn_mountpoint_inode node, min_source = mn_source node,
     min_flags = mn_flags node, min_propagation = mn_propagation node\<rparr>"

definition mount_info_of :: "mount_id \<Rightarrow> vfs \<Rightarrow> vfs_error + mount_info" where
  "mount_info_of i v = and_then (mount_node_of v i) (\<lambda>node. Ok (info_of i node))"

text \<open>The mounts in the order of the calls that \<open>list_mounts\<close> makes.\<close>

definition list_mounts :: "vfs \<Rightarrow> mount_info list" where
  "list_mounts v =
     (if \<not> vf_mounted v then []
      else map (\<lambda>(index, node). info_of index node)
             (filter (\<lambda>(index, node). mn_used node) (enumerate 0 (vf_mounts v))))"

definition lookup_in_namespace :: "namespace_id \<Rightarrow> u8 list \<Rightarrow> vfs \<Rightarrow> (vfs_error + dentry_handle) \<times> vfs" where
  "lookup_in_namespace namespace path v = with_fs v (\<lambda>v.
     try_res (resolve_mount v path namespace) v (\<lambda>(mount, i).
       case position (\<lambda>d. \<not> ds_used d) (vf_dentries v) of
         None \<Rightarrow> (Err V_NoSpace, v)
       | Some slot \<Rightarrow>
           let d = \<lparr>de_mount = mount, de_inode = i\<rparr>;
               node = vf_mounts v ! mount in
           (Ok \<lparr>dh_dentry = d, dh_slot = slot\<rparr>,
            v\<lparr>vf_dentries := (vf_dentries v)[slot := \<lparr>ds_used = True, ds_dentry = d\<rparr>],
              vf_mounts := (vf_mounts v)[mount := node\<lparr>mn_dentry_references := mn_dentry_references node + 1\<rparr>]\<rparr>)))"

definition vfs_lookup :: "u8 list \<Rightarrow> vfs \<Rightarrow> (vfs_error + dentry_handle) \<times> vfs" where
  "vfs_lookup path v = lookup_in_namespace NAMESPACE_ROOT path v"

definition release_dentry :: "dentry_handle \<Rightarrow> vfs \<Rightarrow> (vfs_error + unit) \<times> vfs" where
  "release_dentry handle v = with_fs v (\<lambda>v.
     let slot = dh_slot handle in
     if slot \<ge> MAX_DENTRIES \<or> \<not> ds_used (vf_dentries v ! slot) \<or> ds_dentry (vf_dentries v ! slot) \<noteq> dh_dentry handle
     then (Err V_InvalidHandle, v)
     else
       let mount = de_mount (dh_dentry handle);
           node = vf_mounts v ! mount in
       (Ok (), v\<lparr>vf_dentries := (vf_dentries v)[slot := dentry_empty],
          vf_mounts := (vf_mounts v)[mount := node\<lparr>mn_dentry_references := mn_dentry_references node - 1\<rparr>]\<rparr>))"

section \<open>Files\<close>

definition validate_handle :: "vfs \<Rightarrow> file_handle \<Rightarrow> vfs_error + nat" where
  "validate_handle v handle =
     (let slot = fh_slot handle; fs = vf_fs v in
      if slot \<ge> MAX_OPEN_HANDLES \<or> \<not> hs_used (fs_handles fs ! slot) \<or>
         hs_mount (fs_handles fs ! slot) \<noteq> fh_mount handle \<or>
         hs_inode (fs_handles fs ! slot) \<noteq> fh_inode handle \<or>
         \<not> in_used (fs_inodes fs ! fh_inode handle) \<or> is_err (mount_node_of v (fh_mount handle))
      then Err V_InvalidHandle else Ok slot)"

text \<open>The \<open>match\<close> at the head of \<open>open\<close>: the resolved inode, or a created one.\<close>

definition open_inode :: "u8 list \<Rightarrow> open_options \<Rightarrow> vfs \<Rightarrow> (vfs_error + (mount_id \<times> nat)) \<times> vfs" where
  "open_inode path opts v =
     (case resolve_mount v path NAMESPACE_ROOT of
        Inr r \<Rightarrow> (Ok r, v)
      | Inl error \<Rightarrow>
          if error = V_NotFound \<and> oo_create opts then
            try_res (parent_and_name_mount v path NAMESPACE_ROOT) v (\<lambda>(mount, parent, name).
            try_res (mount_flags_of v mount) v (\<lambda>flags.
              if mf_read_only flags then (Err V_ReadOnly, v)
              else
                (case create_node_at parent name Regular 420 (vf_fs v) of
                   (Inl e, fs) \<Rightarrow> (Err e, v\<lparr>vf_fs := fs\<rparr>)
                 | (Inr i, fs) \<Rightarrow> (Ok (mount, i), v\<lparr>vf_fs := fs\<rparr>))))
          else (Err error, v))"

text \<open>The rest of \<open>open\<close>, after the inode is known.\<close>

definition open_handle :: "open_options \<Rightarrow> mount_id \<Rightarrow> nat \<Rightarrow> vfs \<Rightarrow> (vfs_error + file_handle) \<times> vfs" where
  "open_handle opts mount i v =
     (let node = fs_inodes (vf_fs v) ! i in
      if in_kind node = Directory then (Err V_IsDirectory, v)
      else if oo_read opts \<and> in_mode node AND 292 = 0 then (Err V_PermissionDenied, v)
      else if oo_write opts \<and> in_mode node AND 146 = 0 then (Err V_PermissionDenied, v)
      else
        (case position (\<lambda>h. \<not> hs_used h) (fs_handles (vf_fs v)) of
           None \<Rightarrow> (Err V_NoSpace, v)
         | Some slot \<Rightarrow>
             (Ok \<lparr>fh_inode = i, fh_mount = mount, fh_slot = slot, fh_offset = 0,
                 fh_readable = oo_read opts, fh_writable = oo_write opts\<rparr>,
              v\<lparr>vf_fs := (vf_fs v)
                  \<lparr>fs_handles := (fs_handles (vf_fs v))[slot := \<lparr>hs_used = True, hs_mount = mount, hs_inode = i\<rparr>],
                   fs_open_count := fs_open_count (vf_fs v) + 1\<rparr>\<rparr>)))"

definition vfs_open :: "u8 list \<Rightarrow> open_options \<Rightarrow> vfs \<Rightarrow> (vfs_error + file_handle) \<times> vfs" where
  "vfs_open path opts v = with_fs v (\<lambda>v.
     try_st (open_inode path opts v) (\<lambda>(mount, i) v.
       if oo_write opts \<or> oo_create opts then
         try_res (mount_flags_of v mount) v (\<lambda>flags.
           if mf_read_only flags then (Err V_ReadOnly, v) else open_handle opts mount i v)
       else open_handle opts mount i v))"

definition vfs_close :: "file_handle \<Rightarrow> vfs \<Rightarrow> (vfs_error + unit) \<times> vfs" where
  "vfs_close handle v = with_fs v (\<lambda>v.
     try_res (validate_handle v handle) v (\<lambda>slot.
       (Ok (), v\<lparr>vf_fs := (vf_fs v)\<lparr>fs_handles := (fs_handles (vf_fs v))[slot := handle_empty],
                                   fs_open_count := fs_open_count (vf_fs v) - 1\<rparr>\<rparr>)))"

text \<open>
  \<open>read_handle\<close> and \<open>write_handle\<close> take the handle by mutable reference and give it back with the
  result; \<open>read_handle\<close> also gives back the output buffer.
\<close>

definition read_handle ::
  "file_handle \<Rightarrow> u8 list \<Rightarrow> vfs \<Rightarrow> (vfs_error + nat) \<times> file_handle \<times> u8 list" where
  "read_handle handle output v =
     (if \<not> vf_mounted v then (Err V_NotMounted, handle, output)
      else
        (case validate_handle v handle of
           Inl e \<Rightarrow> (Err e, handle, output)
         | Inr _ \<Rightarrow>
             if \<not> fh_readable handle then (Err V_PermissionDenied, handle, output)
             else
               let node = fs_inodes (vf_fs v) ! fh_inode handle;
                   available = in_size node - fh_offset handle;
                   n = min available (length output) in
               (Ok n, handle\<lparr>fh_offset := fh_offset handle + n\<rparr>,
                write_at 0 (take n (drop (fh_offset handle) (in_data node))) output)))"

definition write_handle ::
  "file_handle \<Rightarrow> u8 list \<Rightarrow> vfs \<Rightarrow> (vfs_error + nat) \<times> file_handle \<times> vfs" where
  "write_handle handle input v =
     (if \<not> vf_mounted v then (Err V_NotMounted, handle, v)
      else
        (case validate_handle v handle of
           Inl e \<Rightarrow> (Err e, handle, v)
         | Inr _ \<Rightarrow>
             (case mount_flags_of v (fh_mount handle) of
                Inl e \<Rightarrow> (Err e, handle, v)
              | Inr flags \<Rightarrow>
                  if mf_read_only flags then (Err V_ReadOnly, handle, v)
                  else if \<not> fh_writable handle then (Err V_PermissionDenied, handle, v)
                  else
                    let node = fs_inodes (vf_fs v) ! fh_inode handle;
                        end_offset = fh_offset handle + length input in
                    if end_offset > FILE_MAX then (Err V_NoSpace, handle, v)
                    else
                      (Ok (length input), handle\<lparr>fh_offset := end_offset\<rparr>,
                       v\<lparr>vf_fs := set_inode (fh_inode handle)
                           (node\<lparr>in_data := write_at (fh_offset handle) input (in_data node),
                                 in_size := max (in_size node) end_offset\<rparr>) (vf_fs v)\<rparr>))))"

definition vfs_seek :: "file_handle \<Rightarrow> int \<Rightarrow> vfs \<Rightarrow> (vfs_error + nat) \<times> file_handle" where
  "vfs_seek handle offset v =
     (if \<not> vf_mounted v then (Err V_NotMounted, handle)
      else
        (case validate_handle v handle of
           Inl e \<Rightarrow> (Err e, handle)
         | Inr _ \<Rightarrow>
             let next = int (fh_offset handle) + offset in
             if next < 0 \<or> next > int FILE_MAX then (Err V_OffsetOutOfRange, handle)
             else (Ok (nat next), handle\<lparr>fh_offset := nat next\<rparr>)))"

definition vfs_chmod :: "u8 list \<Rightarrow> u16 \<Rightarrow> vfs \<Rightarrow> (vfs_error + unit) \<times> vfs" where
  "vfs_chmod path mode v = with_fs v (\<lambda>v.
     try_res (resolve_mount v path NAMESPACE_ROOT) v (\<lambda>(mount, i).
     try_res (mount_flags_of v mount) v (\<lambda>flags.
       if mf_read_only flags then (Err V_ReadOnly, v)
       else (Ok (), v\<lparr>vf_fs := set_inode i ((fs_inodes (vf_fs v) ! i)\<lparr>in_mode := mode AND 511\<rparr>) (vf_fs v)\<rparr>))))"

definition vfs_mkdir :: "u8 list \<Rightarrow> vfs \<Rightarrow> (vfs_error + unit) \<times> vfs" where
  "vfs_mkdir path v = with_fs v (\<lambda>v.
     try_res (parent_and_name_mount v path NAMESPACE_ROOT) v (\<lambda>(mount, parent, name).
     try_res (mount_flags_of v mount) v (\<lambda>flags.
       if mf_read_only flags then (Err V_ReadOnly, v)
       else
         (case create_node_at parent name Directory 493 (vf_fs v) of
            (Inl e, fs) \<Rightarrow> (Err e, v\<lparr>vf_fs := fs\<rparr>)
          | (Inr _, fs) \<Rightarrow> (Ok (), v\<lparr>vf_fs := fs\<rparr>)))))"

text \<open>The last two steps of \<open>unlink\<close> and \<open>remove_dir\<close>: the entry goes, then the inode.\<close>

definition drop_child :: "nat \<Rightarrow> vfs_name \<Rightarrow> nat \<Rightarrow> vfs \<Rightarrow> (vfs_error + unit) \<times> vfs" where
  "drop_child parent name i v =
     (case remove_child parent name (vf_fs v) of
        (Inl e, fs) \<Rightarrow> (Err e, v\<lparr>vf_fs := fs\<rparr>)
      | (Inr _, fs) \<Rightarrow> (Ok (), v\<lparr>vf_fs := set_inode i inode_empty fs\<rparr>))"

definition vfs_unlink :: "u8 list \<Rightarrow> vfs \<Rightarrow> (vfs_error + unit) \<times> vfs" where
  "vfs_unlink path v = with_fs v (\<lambda>v.
     try_res (parent_and_name_mount v path NAMESPACE_ROOT) v (\<lambda>(mount, parent, name).
     try_res (mount_flags_of v mount) v (\<lambda>flags.
       if mf_read_only flags then (Err V_ReadOnly, v)
       else
         try_res (ok_or (find_child (vf_fs v) parent name) V_NotFound) v (\<lambda>child.
           if in_kind (fs_inodes (vf_fs v) ! child) = Directory then (Err V_IsDirectory, v)
           else if has_open_handle (vf_fs v) child then (Err V_Busy, v)
           else drop_child parent name child v))))"

definition vfs_remove_dir :: "u8 list \<Rightarrow> vfs \<Rightarrow> (vfs_error + unit) \<times> vfs" where
  "vfs_remove_dir path v = with_fs v (\<lambda>v.
     try_res (parent_and_name_mount v path NAMESPACE_ROOT) v (\<lambda>(mount, parent, name).
     try_res (mount_flags_of v mount) v (\<lambda>flags.
       if mf_read_only flags then (Err V_ReadOnly, v)
       else
         try_res (ok_or (find_child (vf_fs v) parent name) V_NotFound) v (\<lambda>child.
           if in_kind (fs_inodes (vf_fs v) ! child) \<noteq> Directory then (Err V_NotDirectory, v)
           else if list_ex ch_used (in_children (fs_inodes (vf_fs v) ! child)) then (Err V_NotEmpty, v)
           else drop_child parent name child v))))"

text \<open>
  \<open>rename\<close> within one directory, and between two: the entry is taken out, put in again, put back when
  that fails, and the parent of the inode set.
\<close>

definition rename_slot :: "nat \<Rightarrow> vfs_name \<Rightarrow> vfs_name \<Rightarrow> file_system \<Rightarrow> (vfs_error + unit) \<times> file_system" where
  "rename_slot parent old_name new_name fs =
     (case find_child_slot fs parent old_name of
        None \<Rightarrow> (Err V_NotFound, fs)
      | Some slot \<Rightarrow>
          let cs = in_children (fs_inodes fs ! parent) in
          (Ok (), set_children parent (cs[slot := (cs ! slot)\<lparr>ch_name := new_name\<rparr>]) fs))"

definition move_child ::
  "nat \<Rightarrow> vfs_name \<Rightarrow> nat \<Rightarrow> vfs_name \<Rightarrow> nat \<Rightarrow> file_system \<Rightarrow> (vfs_error + unit) \<times> file_system" where
  "move_child old_parent old_name new_parent new_name i fs =
     (case remove_child old_parent old_name fs of
        (Inl e, fs) \<Rightarrow> (Err e, fs)
      | (Inr _, fs) \<Rightarrow>
          (case add_child new_parent new_name i fs of
             (Inl _, fs) \<Rightarrow> (Err V_NoSpace, snd (add_child old_parent old_name i fs))
           | (Inr _, fs) \<Rightarrow> (Ok (), set_inode i ((fs_inodes fs ! i)\<lparr>in_parent := new_parent\<rparr>) fs)))"

definition vfs_rename :: "u8 list \<Rightarrow> u8 list \<Rightarrow> vfs \<Rightarrow> (vfs_error + unit) \<times> vfs" where
  "vfs_rename old_path new_path v = with_fs v (\<lambda>v.
     let fs = vf_fs v in
     try_res (parent_and_name_mount v old_path NAMESPACE_ROOT) v (\<lambda>(old_mount, old_parent, old_name).
     try_res (ok_or (find_child fs old_parent old_name) V_NotFound) v (\<lambda>i.
     try_res (parent_and_name_mount v new_path NAMESPACE_ROOT) v (\<lambda>(new_mount, new_parent, new_name).
       if old_mount \<noteq> new_mount then (Err V_InvalidPath, v)
       else
         try_res (mount_flags_of v old_mount) v (\<lambda>flags.
           if mf_read_only flags then (Err V_ReadOnly, v)
           else if find_child fs new_parent new_name \<noteq> None then (Err V_AlreadyExists, v)
           else if in_kind (fs_inodes fs ! i) = Directory \<and> is_descendant fs new_parent i then (Err V_InvalidPath, v)
           else if old_parent = new_parent then
             (case rename_slot old_parent old_name new_name fs of (r, fs) \<Rightarrow> (r, v\<lparr>vf_fs := fs\<rparr>))
           else if \<not> has_free_child fs new_parent then (Err V_NoSpace, v)
           else
             (case move_child old_parent old_name new_parent new_name i fs of (r, fs) \<Rightarrow> (r, v\<lparr>vf_fs := fs\<rparr>)))))))"

definition vfs_stats_of :: "vfs \<Rightarrow> vfs_stats" where
  "vfs_stats_of v =
     (if \<not> vf_mounted v
      then \<lparr>vs_mounts = 0, vs_files = 0, vs_directories = 0, vs_bytes = 0, vs_open_handles = 0\<rparr>
      else
        let used = filter in_used (fs_inodes (vf_fs v));
            files = filter (\<lambda>n. in_kind n = Regular) used in
        \<lparr>vs_mounts = mount_count v NAMESPACE_ROOT, vs_files = length files,
         vs_directories = length (filter (\<lambda>n. in_kind n = Directory) used),
         vs_bytes = sum_list (map in_size files), vs_open_handles = fs_open_count (vf_fs v)\<rparr>)"

text \<open>
  \<open>list\<close> as the list of its calls: the path of each entry below the root and its size, directories
  before their entries.  The first argument counts the levels left before \<open>depth == MAX_COMPONENTS\<close>.
\<close>

definition child_path :: "u8 list \<Rightarrow> child \<Rightarrow> u8 list option" where
  "child_path path c =
     (if length path > 1 \<and> length path \<ge> MAX_PATH then None
      else
        let path = (if length path > 1 then path @ [0x2f] else path) in
        if length path + nm_len (ch_name c) \<ge> MAX_PATH then None
        else Some (path @ take (nm_len (ch_name c)) (nm_bytes (ch_name c))))"

fun list_dir :: "nat \<Rightarrow> file_system \<Rightarrow> nat \<Rightarrow> u8 list \<Rightarrow> (u8 list \<times> nat) list" where
  "list_dir 0 fs i path = []"
| "list_dir (Suc left) fs i path =
     concat (map (\<lambda>c. case child_path path c of
         None \<Rightarrow> []
       | Some p \<Rightarrow>
           (p, in_size (fs_inodes fs ! ch_inode c)) #
           (if in_kind (fs_inodes fs ! ch_inode c) = Directory then list_dir left fs (ch_inode c) p else []))
       (filter ch_used (in_children (fs_inodes fs ! i))))"

definition vfs_list :: "vfs \<Rightarrow> (u8 list \<times> nat) list" where
  "vfs_list v = (if \<not> vf_mounted v then [] else list_dir MAX_COMPONENTS (vf_fs v) 0 [0x2f])"

definition vfs_read :: "u8 list \<Rightarrow> u8 list \<Rightarrow> vfs \<Rightarrow> (nat option \<times> u8 list) \<times> vfs" where
  "vfs_read path output v =
     (case vfs_open path options_read v of
        (Inl _, v) \<Rightarrow> ((None, output), v)
      | (Inr handle, v) \<Rightarrow>
          (case read_handle handle output v of
             (r, handle, output) \<Rightarrow> ((case r of Inl _ \<Rightarrow> None | Inr n \<Rightarrow> Some n, output), snd (vfs_close handle v))))"

definition vfs_write :: "u8 list \<Rightarrow> u8 list \<Rightarrow> vfs \<Rightarrow> bool \<times> vfs" where
  "vfs_write path input v =
     (case vfs_open path options_write_create v of
        (Inl _, v) \<Rightarrow> (False, v)
      | (Inr handle, v) \<Rightarrow>
          (case write_handle handle input v of (r, handle, v) \<Rightarrow> (is_ok r, snd (vfs_close handle v))))"

end
