(* ===== verification/Vfs_Tree.thy ===== *)
theory Vfs_Tree
  imports Vfs
begin

text \<open>
  The directory tree of the RAM file system (\<open>src/vfs.rs\<close>).  The invariant says that the inode table
  holds one tree: every used entry of a directory names a live inode whose parent is that directory,
  names and inodes occur once, every live inode other than the root has its entry, and following
  parents ends at the root.  Open handles refer to live regular files and are counted.  Creating,
  removing, renaming and moving an entry keep the invariant and change the lookup of directories in
  exactly one or two places.
\<close>

section \<open>The invariant\<close>

definition entry :: "file_system \<Rightarrow> nat \<Rightarrow> nat \<Rightarrow> child" where
  "entry fs p s = in_children (fs_inodes fs ! p) ! s"

definition is_entry :: "file_system \<Rightarrow> nat \<Rightarrow> nat \<Rightarrow> bool" where
  "is_entry fs p s \<longleftrightarrow> p < MAX_INODES \<and> s < MAX_CHILDREN \<and> ch_used (entry fs p s)"

definition live :: "file_system \<Rightarrow> nat \<Rightarrow> bool" where
  "live fs i \<longleftrightarrow> i < MAX_INODES \<and> in_used (fs_inodes fs ! i)"

definition live_dir :: "file_system \<Rightarrow> nat \<Rightarrow> bool" where
  "live_dir fs i \<longleftrightarrow> live fs i \<and> in_kind (fs_inodes fs ! i) = Directory"

definition up :: "file_system \<Rightarrow> nat \<Rightarrow> nat" where
  "up fs i = in_parent (fs_inodes fs ! i)"

inductive to_root :: "file_system \<Rightarrow> nat \<Rightarrow> bool" for fs where
  root: "to_root fs 0"
| parent: "to_root fs (up fs i) \<Longrightarrow> to_root fs i"

definition shape_ok :: "file_system \<Rightarrow> bool" where
  "shape_ok fs \<longleftrightarrow> length (fs_inodes fs) = MAX_INODES \<and> length (fs_handles fs) = MAX_OPEN_HANDLES \<and>
     (\<forall>i<MAX_INODES. length (in_data (fs_inodes fs ! i)) = FILE_MAX \<and>
        length (in_children (fs_inodes fs ! i)) = MAX_CHILDREN \<and> in_size (fs_inodes fs ! i) \<le> FILE_MAX)"

definition entries_ok :: "file_system \<Rightarrow> bool" where
  "entries_ok fs \<longleftrightarrow>
     (\<forall>p s. is_entry fs p s \<longrightarrow> live_dir fs p \<and> ch_inode (entry fs p s) \<noteq> 0 \<and>
        live fs (ch_inode (entry fs p s)) \<and> up fs (ch_inode (entry fs p s)) = p) \<and>
     (\<forall>p s s'. is_entry fs p s \<and> is_entry fs p s' \<and>
        (ch_name (entry fs p s) = ch_name (entry fs p s') \<or> ch_inode (entry fs p s) = ch_inode (entry fs p s')) \<longrightarrow>
        s = s')"

definition linked :: "file_system \<Rightarrow> bool" where
  "linked fs \<longleftrightarrow> live_dir fs 0 \<and>
     (\<forall>i. live fs i \<and> i \<noteq> 0 \<longrightarrow> (\<exists>s. is_entry fs (up fs i) s \<and> ch_inode (entry fs (up fs i) s) = i)) \<and>
     (\<forall>i. live fs i \<longrightarrow> to_root fs i)"

definition handles_ok :: "file_system \<Rightarrow> bool" where
  "handles_ok fs \<longleftrightarrow>
     (\<forall>h\<in>set (fs_handles fs). hs_used h \<longrightarrow> live fs (hs_inode h) \<and> \<not> live_dir fs (hs_inode h)) \<and>
     fs_open_count fs = length (filter hs_used (fs_handles fs))"

definition tree_ok :: "file_system \<Rightarrow> bool" where
  "tree_ok fs \<longleftrightarrow> shape_ok fs \<and> entries_ok fs \<and> linked fs \<and> handles_ok fs"

lemma tree_okD:
  assumes "tree_ok fs"
  shows "shape_ok fs" "entries_ok fs" "linked fs" "handles_ok fs"
  using assms by (simp_all add: tree_ok_def)

lemma entry_dir: "entries_ok fs \<Longrightarrow> is_entry fs p s \<Longrightarrow> live_dir fs p"
  and entry_live: "entries_ok fs \<Longrightarrow> is_entry fs p s \<Longrightarrow> live fs (ch_inode (entry fs p s))"
  and entry_not_root: "entries_ok fs \<Longrightarrow> is_entry fs p s \<Longrightarrow> ch_inode (entry fs p s) \<noteq> 0"
  and entry_up: "entries_ok fs \<Longrightarrow> is_entry fs p s \<Longrightarrow> up fs (ch_inode (entry fs p s)) = p"
  by (auto simp: entries_ok_def)

lemma entry_name_unique:
  "entries_ok fs \<Longrightarrow> is_entry fs p s \<Longrightarrow> is_entry fs p s' \<Longrightarrow> ch_name (entry fs p s) = ch_name (entry fs p s') \<Longrightarrow> s = s'"
  and entry_inode_unique:
  "entries_ok fs \<Longrightarrow> is_entry fs p s \<Longrightarrow> is_entry fs p s' \<Longrightarrow> ch_inode (entry fs p s) = ch_inode (entry fs p s') \<Longrightarrow> s = s'"
  unfolding entries_ok_def by blast+

lemma up_dir:
  assumes "entries_ok fs" "linked fs" "live fs i" "i \<noteq> 0"
  shows "live_dir fs (up fs i)"
proof -
  obtain s where "is_entry fs (up fs i) s" using assms(2-4) by (auto simp: linked_def)
  with assms(1) show ?thesis by (rule entry_dir)
qed

lemma live_dir_live: "live_dir fs i \<Longrightarrow> live fs i"
  by (simp add: live_dir_def)

lemma root_dir: "linked fs \<Longrightarrow> live_dir fs 0"
  by (simp add: linked_def)

lemma root_live: "linked fs \<Longrightarrow> live fs 0"
  by (simp add: linked_def live_dir_def)

lemma linked_entry:
  "linked fs \<Longrightarrow> live fs i \<Longrightarrow> i \<noteq> 0 \<Longrightarrow> \<exists>s. is_entry fs (up fs i) s \<and> ch_inode (entry fs (up fs i) s) = i"
  by (simp add: linked_def)

lemma linked_to_root: "linked fs \<Longrightarrow> live fs i \<Longrightarrow> to_root fs i"
  by (simp add: linked_def)

lemma live_lt: "live fs i \<Longrightarrow> i < MAX_INODES"
  by (simp add: live_def)

section \<open>Directory lookups\<close>

lemma find_position: "List.find P xs = map_option ((!) xs) (position P xs)"
  by (induction xs) (auto simp: option.map_comp comp_def)

lemma find_child_Some_iff:
  assumes "entries_ok fs" "shape_ok fs" "p < MAX_INODES"
  shows "find_child fs p name = Some i \<longleftrightarrow>
    (\<exists>s. is_entry fs p s \<and> ch_name (entry fs p s) = name \<and> ch_inode (entry fs p s) = i)" (is "?L \<longleftrightarrow> ?R")
proof
  assume ?L
  then show ?R
    using assms(2,3)
    by (auto simp: find_child_def find_position child_matches_def is_entry_def entry_def shape_ok_def
        dest!: position_SomeD)
next
  assume ?R
  then obtain s where s: "is_entry fs p s" "ch_name (entry fs p s) = name" "ch_inode (entry fs p s) = i" by blast
  have len: "length (in_children (fs_inodes fs ! p)) = MAX_CHILDREN" using assms(2,3) by (simp add: shape_ok_def)
  have "position (child_matches name) (in_children (fs_inodes fs ! p)) = Some s"
    unfolding position_Some_iff
  proof (intro conjI allI impI)
    show "s < length (in_children (fs_inodes fs ! p))" using s(1) len by (simp add: is_entry_def)
    show "child_matches name (in_children (fs_inodes fs ! p) ! s)"
      using s by (simp add: child_matches_def is_entry_def entry_def)
    fix j assume "j < s"
    then show "\<not> child_matches name (in_children (fs_inodes fs ! p) ! j)"
      using entry_name_unique [OF assms(1), of p j s] s by (auto simp: child_matches_def is_entry_def entry_def)
  qed
  with s(3) show ?L by (simp add: find_child_def find_position entry_def)
qed

lemma find_child_live:
  assumes "tree_ok fs" "p < MAX_INODES" "find_child fs p name = Some i"
  shows "live fs i" "i \<noteq> 0" "up fs i = p" "live_dir fs p"
proof -
  note ok = tree_okD [OF assms(1)]
  obtain s where "is_entry fs p s" "ch_inode (entry fs p s) = i"
    using assms find_child_Some_iff [OF ok(2,1)] by blast
  then show "live fs i" "i \<noteq> 0" "up fs i = p" "live_dir fs p"
    using entry_live [OF ok(2)] entry_not_root [OF ok(2)] entry_up [OF ok(2)] entry_dir [OF ok(2)] by auto
qed

lemma find_child_eqI:
  assumes "tree_ok fs" "p < MAX_INODES"
    and "\<And>i. (\<exists>s. is_entry fs p s \<and> ch_name (entry fs p s) = name \<and> ch_inode (entry fs p s) = i) \<longleftrightarrow> r = Some i"
  shows "find_child fs p name = r"
  using find_child_Some_iff [OF tree_okD(2,1) [OF assms(1)] assms(2), of name] assms(3)
  by (metis not_None_eq)

text \<open>
  Two file systems with the same shape whose entries agree on a set of directories find the same
  children there.
\<close>

lemma find_child_cong:
  "in_children (fs_inodes fs' ! p) = in_children (fs_inodes fs ! p) \<Longrightarrow> find_child fs' p name = find_child fs p name"
  by (simp add: find_child_def)

section \<open>Operations that keep the tree\<close>

lemma nth_update_if: "xs[i := v] ! j = (if j = i \<and> i < length xs then v else xs ! j)"
  by (cases "i < length xs") (auto simp: list_update_beyond)

lemma to_root_cong: "to_root fs i \<Longrightarrow> up fs' = up fs \<Longrightarrow> to_root fs' i"
  by (induction rule: to_root.induct) (auto intro: to_root.intros)

lemma tree_parts_cong:
  assumes "entry fs' = entry fs" "live fs' = live fs" "live_dir fs' = live_dir fs" "up fs' = up fs"
  shows "entries_ok fs' = entries_ok fs" "linked fs' = linked fs"
proof -
  have e: "is_entry fs' = is_entry fs" by (intro ext) (simp add: is_entry_def assms(1))
  have r: "to_root fs' = to_root fs"
    using to_root_cong [of fs _ fs'] to_root_cong [of fs' _ fs] assms(4) by (intro ext iffI) auto
  show "entries_ok fs' = entries_ok fs" "linked fs' = linked fs"
    by (simp_all add: entries_ok_def linked_def e r assms)
qed

text \<open>Changing the size, the data or the mode of an inode.\<close>

lemma set_inode_keeps:
  assumes "in_used n = in_used (fs_inodes fs ! i)" "in_kind n = in_kind (fs_inodes fs ! i)"
    "in_parent n = in_parent (fs_inodes fs ! i)" "in_children n = in_children (fs_inodes fs ! i)"
  shows "entry (set_inode i n fs) = entry fs" "live (set_inode i n fs) = live fs"
    "live_dir (set_inode i n fs) = live_dir fs" "up (set_inode i n fs) = up fs"
    "find_child (set_inode i n fs) = find_child fs"
proof -
  have nth: "fs_inodes (set_inode i n fs) ! j = (if j = i \<and> i < length (fs_inodes fs) then n else fs_inodes fs ! j)" for j
    by (simp add: set_inode_def nth_update_if)
  show "entry (set_inode i n fs) = entry fs" "live (set_inode i n fs) = live fs"
    "live_dir (set_inode i n fs) = live_dir fs" "up (set_inode i n fs) = up fs"
    "find_child (set_inode i n fs) = find_child fs"
    using assms by (auto simp: entry_def live_def live_dir_def up_def find_child_def nth intro!: ext split: if_splits)
qed

lemma tree_ok_set_inode:
  assumes "tree_ok fs" "in_used n = in_used (fs_inodes fs ! i)" "in_kind n = in_kind (fs_inodes fs ! i)"
    "in_parent n = in_parent (fs_inodes fs ! i)" "in_children n = in_children (fs_inodes fs ! i)"
    "length (in_data n) = FILE_MAX" "in_size n \<le> FILE_MAX"
  shows "tree_ok (set_inode i n fs)"
proof -
  note k = set_inode_keeps [OF assms(2-5)]
  have "shape_ok (set_inode i n fs)"
    using tree_okD(1) [OF assms(1)] assms(5-7) by (auto simp: shape_ok_def set_inode_def nth_update_if)
  moreover have "handles_ok (set_inode i n fs)"
    using tree_okD(4) [OF assms(1)] unfolding handles_ok_def k by (simp add: set_inode_def)
  ultimately show ?thesis
    using assms(1) tree_parts_cong [OF k(1-4)] by (simp add: tree_ok_def)
qed

text \<open>A new inode \<open>i\<close> and its entry in the free slot \<open>slot\<close> of \<open>parent\<close>.\<close>

definition insert_node :: "nat \<Rightarrow> nat \<Rightarrow> vfs_name \<Rightarrow> nat \<Rightarrow> inode \<Rightarrow> file_system \<Rightarrow> file_system" where
  "insert_node parent slot name i n fs =
     set_children parent ((in_children (fs_inodes fs ! parent))[slot := \<lparr>ch_used = True, ch_inode = i, ch_name = name\<rparr>])
       (set_inode i n fs)"

lemma create_node_at_spec:
  assumes "tree_ok fs" "live_dir fs parent" "create_node_at parent name kind mode fs = (r, fs')"
  shows "(\<exists>e. r = Err e \<and> fs' = fs) \<or>
    (\<exists>i slot. r = Ok i \<and> i < MAX_INODES \<and> \<not> live fs i \<and> slot < MAX_CHILDREN \<and> \<not> is_entry fs parent slot \<and>
       find_child fs parent name = None \<and> fs' = insert_node parent slot name i (inode_new kind parent mode) fs)"
proof (cases "find_child fs parent name \<noteq> None \<or> in_kind (fs_inodes fs ! parent) \<noteq> Directory \<or>
    \<not> has_free_child fs parent \<or> position (\<lambda>n. \<not> in_used n) (fs_inodes fs) = None")
  case True
  then show ?thesis using assms(3) by (auto simp: create_node_at_def split: if_splits)
next
  case False
  note shape = tree_okD(1) [OF assms(1)]
  have p: "parent < MAX_INODES" "in_used (fs_inodes fs ! parent)"
    using assms(2) by (simp_all add: live_dir_def live_def)
  obtain i where i: "position (\<lambda>n. \<not> in_used n) (fs_inodes fs) = Some i" using False by auto
  from position_SomeD [OF i] have fresh: "i < MAX_INODES" "\<not> live fs i" "i \<noteq> parent"
    using shape p by (auto simp: shape_ok_def live_def)
  let ?cs = "in_children (fs_inodes fs ! parent)"
  obtain slot where slot: "position (\<lambda>c. \<not> ch_used c) ?cs = Some slot"
    using False position_exists [of _ ?cs "\<lambda>c. \<not> ch_used c"] by (auto simp: has_free_child_def list_ex_iff)
  from position_SomeD [OF slot] have s: "slot < MAX_CHILDREN" "\<not> is_entry fs parent slot"
    using shape p by (auto simp: shape_ok_def is_entry_def entry_def)
  have "in_children (fs_inodes (set_inode i (inode_new kind parent mode) fs) ! parent) = ?cs"
    using fresh(3) by (simp add: set_inode_def)
  then have "create_node_at parent name kind mode fs =
      (Ok i, insert_node parent slot name i (inode_new kind parent mode) fs)"
    using False i slot by (simp add: create_node_at_def add_child_def insert_node_def)
  with assms(3) fresh s False show ?thesis by auto
qed

lemma insert_node_access:
  fixes parent slot name i n fs
  defines "fs' \<equiv> insert_node parent slot name i n fs"
  assumes "tree_ok fs" "live_dir fs parent" "i < MAX_INODES" "\<not> live fs i" "slot < MAX_CHILDREN" "in_used n"
    "in_parent n = parent" "in_children n = replicate MAX_CHILDREN child_empty"
  shows "p < MAX_INODES \<Longrightarrow> s < MAX_CHILDREN \<Longrightarrow> p \<noteq> i \<Longrightarrow> entry fs' p s =
      (if p = parent \<and> s = slot then \<lparr>ch_used = True, ch_inode = i, ch_name = name\<rparr> else entry fs p s)"
    and "is_entry fs' p s \<longleftrightarrow> (p = parent \<and> s = slot) \<or> is_entry fs p s"
    and "live fs' x \<longleftrightarrow> x = i \<or> live fs x"
    and "live_dir fs' x \<longleftrightarrow> (x = i \<and> in_kind n = Directory) \<or> live_dir fs x"
    and "up fs' x = (if x = i then parent else up fs x)"
proof -
  have ne: "i \<noteq> parent" using assms(3,5) by (auto simp: live_dir_def)
  have pm: "parent < MAX_INODES" using assms(3) by (simp add: live_dir_def live_def)
  have len: "length (fs_inodes fs) = MAX_INODES" "length (in_children (fs_inodes fs ! parent)) = MAX_CHILDREN"
    using tree_okD(1) [OF assms(2)] pm by (simp_all add: shape_ok_def)
  have nth: "fs_inodes fs' ! x = (if x = i then n else if x = parent then (fs_inodes fs ! parent)
      \<lparr>in_children := (in_children (fs_inodes fs ! parent))[slot := \<lparr>ch_used = True, ch_inode = i, ch_name = name\<rparr>]\<rparr>
      else fs_inodes fs ! x)" for x
    using ne pm len assms(4)
    by (simp add: fs'_def insert_node_def set_children_def set_inode_def nth_update_if)
  have noent: "\<not> is_entry fs i s" for s
    using entry_dir [OF tree_okD(2) [OF assms(2)], of i s] assms(5) by (auto simp: live_dir_def)
  show e: "entry fs' p s =
      (if p = parent \<and> s = slot then \<lparr>ch_used = True, ch_inode = i, ch_name = name\<rparr> else entry fs p s)"
    if "p < MAX_INODES" "s < MAX_CHILDREN" "p \<noteq> i" for p s
    using that len(2) by (simp add: entry_def nth)
  show "is_entry fs' p s \<longleftrightarrow> (p = parent \<and> s = slot) \<or> is_entry fs p s"
  proof (cases "p = i")
    case True
    then show ?thesis using noent [of s] ne assms(9) by (auto simp: is_entry_def entry_def nth child_empty_def)
  next
    case False
    then show ?thesis using e [of p s] pm assms(6) by (auto simp: is_entry_def)
  qed
  show "live fs' x \<longleftrightarrow> x = i \<or> live fs x" using assms(4,7) by (auto simp: live_def nth)
  then show "live_dir fs' x \<longleftrightarrow> (x = i \<and> in_kind n = Directory) \<or> live_dir fs x"
    using assms(5) by (auto simp: live_dir_def nth)
  show "up fs' x = (if x = i then parent else up fs x)" using assms(8) by (simp add: up_def nth)
qed

lemma tree_ok_insert_node:
  assumes "tree_ok fs" "live_dir fs parent" "i < MAX_INODES" "\<not> live fs i" "slot < MAX_CHILDREN"
    "\<not> is_entry fs parent slot" "find_child fs parent name = None"
  shows "tree_ok (insert_node parent slot name i (inode_new kind parent mode) fs)" (is "tree_ok ?fs")
proof -
  note ok = tree_okD [OF assms(1)]
  let ?n = "inode_new kind parent mode"
  have n: "in_used ?n" "in_parent ?n = parent" "in_children ?n = replicate MAX_CHILDREN child_empty"
    "length (in_data ?n) = FILE_MAX" "in_size ?n \<le> FILE_MAX"
    by (simp_all add: inode_new_def)
  note acc = insert_node_access [where name = name, OF assms(1-5) n(1-3)]
  have pm: "parent < MAX_INODES" and ne: "i \<noteq> parent" using assms(2,4) by (auto simp: live_dir_def live_def)
  have new: "entry ?fs parent slot = \<lparr>ch_used = True, ch_inode = i, ch_name = name\<rparr>"
    using acc(1) [of parent slot] pm assms(5) ne by simp
  have old: "entry ?fs p s = entry fs p s" if "is_entry fs p s" for p s
  proof -
    have "p \<noteq> i" using entry_dir [OF ok(2) that] assms(4) by (auto simp: live_dir_def)
    with that acc(1) [of p s] assms(6) show ?thesis by (auto simp: is_entry_def)
  qed
  have names: "ch_name (entry fs parent s) \<noteq> name" if "is_entry fs parent s" for s
    using find_child_Some_iff [OF ok(2,1) pm, of name] that assms(7) by auto
  have i0: "i \<noteq> 0" using assms(4) root_live [OF ok(3)] by metis
  have inodes: "ch_inode (entry fs p s) \<noteq> i" if "is_entry fs p s" for p s
    using entry_live [OF ok(2) that] assms(4) by auto
  have "shape_ok ?fs"
    using ok(1) n(3-5) pm assms(3)
    by (auto simp: shape_ok_def insert_node_def set_children_def set_inode_def nth_update_if)
  moreover have "entries_ok ?fs"
  proof -
    have "live_dir ?fs p \<and> ch_inode (entry ?fs p s) \<noteq> 0 \<and> live ?fs (ch_inode (entry ?fs p s)) \<and>
        up ?fs (ch_inode (entry ?fs p s)) = p" if "is_entry ?fs p s" for p s
      using that new old [of p s] assms(2) i0 inodes [of p s] entry_dir [OF ok(2), of p s]
        entry_live [OF ok(2), of p s] entry_not_root [OF ok(2), of p s] entry_up [OF ok(2), of p s]
      unfolding acc(2-5) by auto
    moreover have "s = s'" if "is_entry ?fs p s" "is_entry ?fs p s'"
      "ch_name (entry ?fs p s) = ch_name (entry ?fs p s') \<or> ch_inode (entry ?fs p s) = ch_inode (entry ?fs p s')" for p s s'
      using that new old [of p s] old [of p s'] names [of s] names [of s'] inodes [of p s] inodes [of p s']
        entry_name_unique [OF ok(2), of p s s'] entry_inode_unique [OF ok(2), of p s s']
      unfolding acc(2) by auto
    ultimately show ?thesis unfolding entries_ok_def by blast
  qed
  moreover have "linked ?fs"
  proof -
    have r: "to_root fs x \<Longrightarrow> live fs x \<Longrightarrow> to_root ?fs x" for x
    proof (induction rule: to_root.induct)
      case root
      show ?case by (rule to_root.root)
    next
      case (parent x)
      show ?case
      proof (cases "x = 0")
        case False
        then have "to_root ?fs (up fs x)"
          using parent up_dir [OF ok(2,3)] by (auto dest: live_dir_live)
        then show ?thesis using acc(5) [of x] parent.prems assms(4) by (metis to_root.parent)
      qed (simp add: to_root.root)
    qed
    have all: "to_root fs x" if "live fs x" for x using ok(3) that by (simp add: linked_def)
    have "to_root ?fs parent" using r all assms(2) by (simp add: live_dir_def)
    then have "to_root ?fs i" using acc(5) [of i] by (metis to_root.parent)
    moreover have "\<exists>s. is_entry ?fs (up ?fs x) s \<and> ch_inode (entry ?fs (up ?fs x) s) = x" if x0: "live ?fs x" "x \<noteq> 0" for x
    proof (cases "x = i")
      case True
      then show ?thesis using new acc(2,5) by (intro exI [of _ slot]) simp
    next
      case False
      then obtain s where "is_entry fs (up fs x) s" "ch_inode (entry fs (up fs x) s) = x"
        using x0 linked_entry [OF ok(3), of x] acc(3) by blast
      with False old [of "up fs x" s] acc(2,5) show ?thesis by (intro exI [of _ s]) simp
    qed
    moreover have "live_dir ?fs 0" using ok(3) acc(4) by (simp add: linked_def)
    ultimately show ?thesis using r all acc(3) by (auto simp: linked_def)
  qed
  moreover have "handles_ok ?fs"
    using ok(4) assms(4) unfolding handles_ok_def acc(3,4)
    by (auto simp: insert_node_def set_children_def set_inode_def)
  ultimately show ?thesis by (simp add: tree_ok_def)
qed

lemma find_child_insert_node:
  assumes "tree_ok fs" "live_dir fs parent" "i < MAX_INODES" "\<not> live fs i" "slot < MAX_CHILDREN"
    "\<not> is_entry fs parent slot" "find_child fs parent name = None" "p < MAX_INODES"
  shows "find_child (insert_node parent slot name i (inode_new kind parent mode) fs) p m =
    (if p = parent \<and> m = name then Some i else find_child fs p m)" (is "find_child ?fs p m = _")
proof (rule find_child_eqI [OF tree_ok_insert_node [OF assms(1-7)] assms(8)])
  note ok = tree_okD [OF assms(1)]
  have n: "in_used (inode_new kind parent mode)" "in_parent (inode_new kind parent mode) = parent"
    "in_children (inode_new kind parent mode) = replicate MAX_CHILDREN child_empty"
    by (simp_all add: inode_new_def)
  note acc = insert_node_access [where name = name, OF assms(1-5) n]
  have "p \<noteq> i \<Longrightarrow> s < MAX_CHILDREN \<Longrightarrow> entry ?fs p s =
      (if p = parent \<and> s = slot then \<lparr>ch_used = True, ch_inode = i, ch_name = name\<rparr> else entry fs p s)" for s
    using acc(1) assms(8) by blast
  moreover have "p \<noteq> i" if "is_entry ?fs p s" for s
    using that entry_dir [OF ok(2), of p s] assms(2,4) unfolding acc(2) by (auto simp: live_dir_def)
  ultimately have e: "entry ?fs p s =
      (if p = parent \<and> s = slot then \<lparr>ch_used = True, ch_inode = i, ch_name = name\<rparr> else entry fs p s)"
    if "is_entry ?fs p s" for s
    using that by (metis is_entry_def)
  fix j
  have "(\<exists>s. is_entry ?fs p s \<and> ch_name (entry ?fs p s) = m \<and> ch_inode (entry ?fs p s) = j) \<longleftrightarrow>
      p = parent \<and> m = name \<and> j = i \<or>
      (\<exists>s. is_entry fs p s \<and> ch_name (entry fs p s) = m \<and> ch_inode (entry fs p s) = j)"
    (is "?L \<longleftrightarrow> ?new \<or> ?old")
  proof (cases "p = parent")
    case True
    have "is_entry ?fs p slot" using True acc(2) by simp
    moreover have "is_entry ?fs p s \<longleftrightarrow> s = slot \<or> is_entry fs p s" for s using True acc(2) by simp
    moreover have "is_entry fs p s \<Longrightarrow> s \<noteq> slot" for s using assms(6) True by blast
    moreover note e True
    ultimately show ?thesis by (metis (no_types, lifting) child.select_convs(2) child.select_convs(3))
  next
    case False
    with e acc(2) show ?thesis by (metis (full_types))
  qed
  then show "(\<exists>s. is_entry ?fs p s \<and> ch_name (entry ?fs p s) = m \<and> ch_inode (entry ?fs p s) = j) \<longleftrightarrow>
      (if p = parent \<and> m = name then Some i else find_child fs p m) = Some j"
    using find_child_Some_iff [OF ok(2,1) assms(8), of m j] assms(7) by auto
qed

text \<open>Removing the entry in \<open>slot\<close> of \<open>parent\<close> together with its inode \<open>i\<close>, which has no entries itself.\<close>

definition remove_node :: "nat \<Rightarrow> nat \<Rightarrow> nat \<Rightarrow> file_system \<Rightarrow> file_system" where
  "remove_node parent slot i fs =
     set_inode i inode_empty (set_children parent ((in_children (fs_inodes fs ! parent))[slot := child_empty]) fs)"

lemma find_child_slot_spec:
  assumes "tree_ok fs" "parent < MAX_INODES" "find_child fs parent name = Some i"
  obtains slot where "position (child_matches name) (in_children (fs_inodes fs ! parent)) = Some slot"
    "is_entry fs parent slot" "ch_name (entry fs parent slot) = name" "ch_inode (entry fs parent slot) = i"
proof -
  obtain slot where slot: "position (child_matches name) (in_children (fs_inodes fs ! parent)) = Some slot"
    "ch_inode (in_children (fs_inodes fs ! parent) ! slot) = i"
    using assms(3) by (auto simp: find_child_def find_position)
  with position_SomeD [OF slot(1)] that tree_okD(1) [OF assms(1)] assms(2) show ?thesis
    by (simp add: child_matches_def is_entry_def entry_def shape_ok_def)
qed

lemma drop_child_spec:
  assumes "tree_ok (vf_fs v)" "parent < MAX_INODES" "find_child (vf_fs v) parent name = Some i"
    "drop_child parent name i v = (r, v')"
  shows "r = Ok () \<and> (\<exists>slot. is_entry (vf_fs v) parent slot \<and> ch_name (entry (vf_fs v) parent slot) = name \<and>
    ch_inode (entry (vf_fs v) parent slot) = i \<and> v' = v\<lparr>vf_fs := remove_node parent slot i (vf_fs v)\<rparr>)"
proof -
  obtain slot where "position (child_matches name) (in_children (fs_inodes (vf_fs v) ! parent)) = Some slot"
    "is_entry (vf_fs v) parent slot" "ch_name (entry (vf_fs v) parent slot) = name"
    "ch_inode (entry (vf_fs v) parent slot) = i"
    using find_child_slot_spec [OF assms(1-3)] .
  with assms(4) show ?thesis
    by (auto simp: drop_child_def remove_child_def remove_node_def Let_def)
qed

lemma remove_node_access:
  fixes parent slot i fs
  defines "fs' \<equiv> remove_node parent slot i fs"
  assumes "tree_ok fs" "is_entry fs parent slot" "ch_inode (entry fs parent slot) = i" "\<forall>s. \<not> is_entry fs i s"
  shows "is_entry fs' p s \<longleftrightarrow> is_entry fs p s \<and> (p, s) \<noteq> (parent, slot)"
    and "is_entry fs p s \<Longrightarrow> (p, s) \<noteq> (parent, slot) \<Longrightarrow> entry fs' p s = entry fs p s"
    and "live fs' x \<longleftrightarrow> live fs x \<and> x \<noteq> i"
    and "live_dir fs' x \<longleftrightarrow> live_dir fs x \<and> x \<noteq> i"
    and "x \<noteq> i \<Longrightarrow> up fs' x = up fs x"
proof -
  note ok = tree_okD [OF assms(2)]
  have ne: "i \<noteq> parent" using assms(3,5) by blast
  have im: "i < MAX_INODES" using entry_live [OF ok(2) assms(3)] assms(4) by (simp add: live_def)
  have pm: "parent < MAX_INODES" and sm: "slot < MAX_CHILDREN" using assms(3) by (simp_all add: is_entry_def)
  have len: "length (fs_inodes fs) = MAX_INODES" "length (in_children (fs_inodes fs ! parent)) = MAX_CHILDREN"
    using ok(1) pm by (simp_all add: shape_ok_def)
  have nth: "fs_inodes fs' ! x = (if x = i then inode_empty else if x = parent then (fs_inodes fs ! parent)
      \<lparr>in_children := (in_children (fs_inodes fs ! parent))[slot := child_empty]\<rparr>
      else fs_inodes fs ! x)" for x
    using ne pm im len by (simp add: fs'_def remove_node_def set_children_def set_inode_def nth_update_if)
  have e: "entry fs' p s = (if p = parent \<and> s = slot then child_empty else entry fs p s)" if "p \<noteq> i" for p s
    using that len(2) sm by (simp add: entry_def nth nth_update_if)
  have ei: "s < MAX_CHILDREN \<Longrightarrow> \<not> ch_used (entry fs' i s)" for s
    by (simp add: entry_def nth inode_empty_def child_empty_def)
  show "is_entry fs' p s \<longleftrightarrow> is_entry fs p s \<and> (p, s) \<noteq> (parent, slot)"
  proof (cases "p = i")
    case True
    then show ?thesis using assms(5) ei [of s] by (auto simp: is_entry_def)
  next
    case False
    then show ?thesis using e [of p s] by (auto simp: is_entry_def child_empty_def)
  qed
  show "is_entry fs p s \<Longrightarrow> (p, s) \<noteq> (parent, slot) \<Longrightarrow> entry fs' p s = entry fs p s"
    using e [of p s] assms(5) by (cases "p = i") auto
  show l: "live fs' x \<longleftrightarrow> live fs x \<and> x \<noteq> i" for x by (auto simp: live_def nth inode_empty_def)
  show "live_dir fs' x \<longleftrightarrow> live_dir fs x \<and> x \<noteq> i" using l [of x] by (auto simp: live_dir_def nth)
  show "x \<noteq> i \<Longrightarrow> up fs' x = up fs x" by (simp add: up_def nth)
qed

lemma tree_ok_remove_node:
  assumes "tree_ok fs" "is_entry fs parent slot" "ch_inode (entry fs parent slot) = i" "\<forall>s. \<not> is_entry fs i s"
    "\<not> has_open_handle fs i"
  shows "tree_ok (remove_node parent slot i fs)" (is "tree_ok ?fs")
proof -
  note ok = tree_okD [OF assms(1)]
  note acc = remove_node_access [OF assms(1-4)]
  have i0: "i \<noteq> 0" "live fs i" "up fs i = parent"
    using entry_not_root [OF ok(2) assms(2)] entry_live [OF ok(2) assms(2)] entry_up [OF ok(2) assms(2)] assms(3)
    by auto
  have only: "(p, s) = (parent, slot)" if "is_entry fs p s" "ch_inode (entry fs p s) = i" for p s
    using that entry_up [OF ok(2) that(1)] entry_inode_unique [OF ok(2), of p s slot] assms(2,3) i0(3) by auto
  have not_up: "up fs x \<noteq> i" if "live fs x" "x \<noteq> 0" for x
    using linked_entry [OF ok(3) that] assms(4) by auto
  have "shape_ok ?fs"
    using ok(1) by (auto simp: shape_ok_def remove_node_def set_children_def set_inode_def nth_update_if inode_empty_def)
  moreover have "entries_ok ?fs"
  proof -
    have "live_dir ?fs p \<and> ch_inode (entry ?fs p s) \<noteq> 0 \<and> live ?fs (ch_inode (entry ?fs p s)) \<and>
        up ?fs (ch_inode (entry ?fs p s)) = p" if "is_entry ?fs p s" for p s
    proof -
      have old: "is_entry fs p s" "(p, s) \<noteq> (parent, slot)" using that acc(1) by blast+
      have "ch_inode (entry fs p s) \<noteq> i" "p \<noteq> i" using only [OF old(1)] old assms(4) by auto
      then show ?thesis
        using entry_dir [OF ok(2) old(1)] entry_live [OF ok(2) old(1)] entry_not_root [OF ok(2) old(1)]
          entry_up [OF ok(2) old(1)]
        by (simp add: acc(2) [OF old] acc(3-5))
    qed
    moreover have "s = s'" if "is_entry ?fs p s" "is_entry ?fs p s'"
      "ch_name (entry ?fs p s) = ch_name (entry ?fs p s') \<or> ch_inode (entry ?fs p s) = ch_inode (entry ?fs p s')" for p s s'
      using that acc(2) [of p s] acc(2) [of p s'] entry_name_unique [OF ok(2), of p s s']
        entry_inode_unique [OF ok(2), of p s s']
      unfolding acc(1) by metis
    ultimately show ?thesis unfolding entries_ok_def by blast
  qed
  moreover have "linked ?fs"
  proof -
    have r: "to_root fs x \<Longrightarrow> live fs x \<Longrightarrow> x \<noteq> i \<Longrightarrow> to_root ?fs x" for x
    proof (induction rule: to_root.induct)
      case root
      show ?case by (rule to_root.root)
    next
      case (parent x)
      show ?case
      proof (cases "x = 0")
        case False
        have "to_root ?fs (up fs x)"
          using parent up_dir [OF ok(2,3), of x] not_up [of x] False by (auto dest: live_dir_live)
        then show ?thesis using acc(5) [of x] parent.prems(2) by (metis to_root.parent)
      qed (simp add: to_root.root)
    qed
    have "\<exists>s. is_entry ?fs (up ?fs x) s \<and> ch_inode (entry ?fs (up ?fs x) s) = x" if x0: "live ?fs x" "x \<noteq> 0" for x
    proof -
      have x: "live fs x" "x \<noteq> i" using x0(1) acc(3) by blast+
      obtain s where s: "is_entry fs (up fs x) s" "ch_inode (entry fs (up fs x) s) = x"
        using linked_entry [OF ok(3) x(1) x0(2)] by blast
      then have ne: "(up fs x, s) \<noteq> (parent, slot)" using assms(3) x(2) by auto
      show ?thesis using s acc(1) acc(2) [OF s(1) ne] ne unfolding acc(5) [OF x(2)] by (intro exI [of _ s]) simp
    qed
    moreover have "live_dir ?fs 0" using root_dir [OF ok(3)] acc(4) i0(1) by auto
    ultimately show ?thesis using r linked_to_root [OF ok(3)] acc(3) unfolding linked_def by blast
  qed
  moreover have "handles_ok ?fs"
    using ok(4) assms(5) unfolding handles_ok_def acc(3,4)
    by (auto simp: remove_node_def set_children_def set_inode_def has_open_handle_def list_ex_iff)
  ultimately show ?thesis by (simp add: tree_ok_def)
qed

lemma find_child_remove_node:
  assumes "tree_ok fs" "is_entry fs parent slot" "ch_inode (entry fs parent slot) = i" "\<forall>s. \<not> is_entry fs i s"
    "\<not> has_open_handle fs i" "p < MAX_INODES"
  shows "find_child (remove_node parent slot i fs) p m =
    (if p = parent \<and> m = ch_name (entry fs parent slot) then None else find_child fs p m)" (is "find_child ?fs p m = _")
proof (rule find_child_eqI [OF tree_ok_remove_node [OF assms(1-5)] assms(6)])
  note ok = tree_okD [OF assms(1)]
  note acc = remove_node_access [OF assms(1-4)]
  fix j
  have "(\<exists>s. is_entry ?fs p s \<and> ch_name (entry ?fs p s) = m \<and> ch_inode (entry ?fs p s) = j) \<longleftrightarrow>
      (\<exists>s. is_entry fs p s \<and> (p, s) \<noteq> (parent, slot) \<and> ch_name (entry fs p s) = m \<and> ch_inode (entry fs p s) = j)"
    using acc(1) [of p] acc(2) [of p] by metis
  also have "\<dots> \<longleftrightarrow> (if p = parent \<and> m = ch_name (entry fs parent slot) then None else find_child fs p m) = Some j"
  proof (cases "p = parent \<and> m = ch_name (entry fs parent slot)")
    case True
    have "s = slot" if "is_entry fs parent s" "ch_name (entry fs parent s) = m" for s
      using entry_name_unique [OF ok(2) that(1) assms(2)] that(2) True by simp
    then have "\<not> (\<exists>s. is_entry fs p s \<and> (p, s) \<noteq> (parent, slot) \<and> ch_name (entry fs p s) = m \<and>
        ch_inode (entry fs p s) = j)"
      using True by blast
    with True show ?thesis by auto
  next
    case False
    then have "(p, s) \<noteq> (parent, slot)" if "ch_name (entry fs p s) = m" for s using that by blast
    then show ?thesis unfolding if_not_P [OF False] find_child_Some_iff [OF ok(2,1) assms(6)] by blast
  qed
  finally show "(\<exists>s. is_entry ?fs p s \<and> ch_name (entry ?fs p s) = m \<and> ch_inode (entry ?fs p s) = j) \<longleftrightarrow>
      (if p = parent \<and> m = ch_name (entry fs parent slot) then None else find_child fs p m) = Some j" .
qed

text \<open>
  Moving the entry in slot \<open>os\<close> of \<open>op\<close> to slot \<open>ns\<close> of \<open>np\<close>: the two directories may be the same and the
  slots too, which is what renaming within a directory does.  The inode moved must not lie on the way
  from \<open>np\<close> to the root.
\<close>

definition moved :: "nat \<Rightarrow> nat \<Rightarrow> nat \<Rightarrow> nat \<Rightarrow> nat \<Rightarrow> vfs_name \<Rightarrow> file_system \<Rightarrow> file_system \<Rightarrow> bool" where
  "moved op os np ns i name fs fs' \<longleftrightarrow>
     (\<forall>p s. is_entry fs' p s \<longleftrightarrow> (p, s) = (np, ns) \<or> is_entry fs p s \<and> (p, s) \<noteq> (op, os)) \<and>
     (\<forall>p s. is_entry fs p s \<and> (p, s) \<noteq> (op, os) \<longrightarrow> entry fs' p s = entry fs p s) \<and>
     ch_name (entry fs' np ns) = name \<and> ch_inode (entry fs' np ns) = i \<and>
     live fs' = live fs \<and> live_dir fs' = live_dir fs \<and> up fs' = (up fs)(i := np) \<and>
     shape_ok fs' \<and> fs_handles fs' = fs_handles fs \<and> fs_open_count fs' = fs_open_count fs"

inductive avoids :: "file_system \<Rightarrow> nat \<Rightarrow> nat \<Rightarrow> bool" for fs i where
  root: "i \<noteq> 0 \<Longrightarrow> avoids fs i 0"
| parent: "x \<noteq> i \<Longrightarrow> avoids fs i (up fs x) \<Longrightarrow> avoids fs i x"

lemma not_descendant_avoids:
  "\<not> descendant_loop left fs x i \<Longrightarrow> avoids fs i x"
  by (induction left arbitrary: x) (auto simp: up_def split: if_splits intro: avoids.intros)

lemma file_avoided:
  assumes "tree_ok fs" "\<not> live_dir fs i" "live_dir fs x"
  shows "avoids fs i x"
proof -
  note ok = tree_okD [OF assms(1)]
  have i0: "i \<noteq> 0" using assms(2) root_dir [OF ok(3)] by metis
  have "to_root fs x" using linked_to_root [OF ok(3)] assms(3) by (simp add: live_dir_def)
  then show ?thesis using assms(3)
  proof (induction rule: to_root.induct)
    case root
    show ?case using i0 by (rule avoids.root)
  next
    case (parent x)
    show ?case
    proof (cases "x = 0")
      case False
      then have "live_dir fs (up fs x)" using up_dir [OF ok(2,3)] parent.prems by (simp add: live_dir_def)
      with parent assms(2) show ?thesis by (metis avoids.parent)
    qed (use i0 avoids.root in simp)
  qed
qed

lemma avoids_to_root:
  "avoids fs i x \<Longrightarrow> up fs' = (up fs)(i := np) \<Longrightarrow> to_root fs' x"
proof (induction rule: avoids.induct)
  case root
  show ?case by (rule to_root.root)
next
  case (parent x)
  then have "up fs' x = up fs x" "to_root fs' (up fs x)" by simp_all
  then show ?case by (metis to_root.parent)
qed

lemma tree_ok_moved:
  assumes "tree_ok fs" "is_entry fs op os" "ch_inode (entry fs op os) = i" "live_dir fs np"
    "(np, ns) = (op, os) \<or> \<not> is_entry fs np ns" "find_child fs np name = None" "avoids fs i np"
    "moved op os np ns i name fs fs'"
  shows "tree_ok fs'"
proof -
  note ok = tree_okD [OF assms(1)]
  from assms(8) have ent: "is_entry fs' p s \<longleftrightarrow> (p, s) = (np, ns) \<or> is_entry fs p s \<and> (p, s) \<noteq> (op, os)"
    and old: "is_entry fs p s \<Longrightarrow> (p, s) \<noteq> (op, os) \<Longrightarrow> entry fs' p s = entry fs p s"
    and new: "ch_name (entry fs' np ns) = name" "ch_inode (entry fs' np ns) = i"
    and same: "live fs' = live fs" "live_dir fs' = live_dir fs" "up fs' = (up fs)(i := np)"
      "shape_ok fs'" "fs_handles fs' = fs_handles fs" "fs_open_count fs' = fs_open_count fs" for p s
    unfolding moved_def by auto
  have i: "i \<noteq> 0" "live fs i" "up fs i = op"
    using entry_not_root [OF ok(2) assms(2)] entry_live [OF ok(2) assms(2)] entry_up [OF ok(2) assms(2)] assms(3)
    by auto
  have only: "(p, s) = (op, os)" if "is_entry fs p s" "ch_inode (entry fs p s) = i" for p s
    using that entry_up [OF ok(2) that(1)] entry_inode_unique [OF ok(2), of p s os] assms(2,3) i(3) by auto
  have names: "ch_name (entry fs np s) \<noteq> name" if "is_entry fs np s" for s
    using find_child_Some_iff [OF ok(2,1), of np name] that assms(4,6) by (auto simp: live_dir_def live_def)
  have "entries_ok fs'"
  proof -
    have "live_dir fs' p \<and> ch_inode (entry fs' p s) \<noteq> 0 \<and> live fs' (ch_inode (entry fs' p s)) \<and>
        up fs' (ch_inode (entry fs' p s)) = p" if "is_entry fs' p s" for p s
    proof (cases "(p, s) = (np, ns)")
      case True
      then show ?thesis using new i assms(4) same by simp
    next
      case False
      then have o: "is_entry fs p s" "(p, s) \<noteq> (op, os)" using that ent by blast+
      have "ch_inode (entry fs p s) \<noteq> i" using only [OF o(1)] o(2) by blast
      then show ?thesis
        using entry_dir [OF ok(2) o(1)] entry_live [OF ok(2) o(1)] entry_not_root [OF ok(2) o(1)]
          entry_up [OF ok(2) o(1)] same
        by (simp add: old [OF o])
    qed
    moreover have "s = s'" if e: "is_entry fs' p s" "is_entry fs' p s'"
      "ch_name (entry fs' p s) = ch_name (entry fs' p s') \<or> ch_inode (entry fs' p s) = ch_inode (entry fs' p s')" for p s s'
    proof -
      have o: "is_entry fs p x \<and> (p, x) \<noteq> (op, os) \<and> entry fs' p x = entry fs p x \<and> ch_inode (entry fs p x) \<noteq> i"
        if "is_entry fs' p x" "(p, x) \<noteq> (np, ns)" for x
        using that ent [of p x] old [of p x] only [of p x] by blast
      show ?thesis
      proof (cases "(p, s) = (np, ns) \<or> (p, s') = (np, ns)")
        case True
        then show ?thesis using e o [of s] o [of s'] new names [of s] names [of s'] by (metis prod.inject)
      next
        case False
        then show ?thesis
          using e o [of s] o [of s'] entry_name_unique [OF ok(2), of p s s'] entry_inode_unique [OF ok(2), of p s s']
          by metis
      qed
    qed
    ultimately show ?thesis unfolding entries_ok_def by blast
  qed
  moreover have "linked fs'"
  proof -
    have np: "to_root fs' np" using assms(7) same(3) by (rule avoids_to_root)
    have r: "to_root fs x \<Longrightarrow> to_root fs' x" for x
    proof (induction rule: to_root.induct)
      case root
      show ?case by (rule to_root.root)
    next
      case (parent x)
      then have "to_root fs' (up fs' x)" using np same(3) by simp
      then show ?case by (rule to_root.parent)
    qed
    have "\<exists>s. is_entry fs' (up fs' x) s \<and> ch_inode (entry fs' (up fs' x) s) = x" if x: "live fs' x" "x \<noteq> 0" for x
    proof (cases "x = i")
      case True
      then show ?thesis using ent [of np ns] new same(3) by auto
    next
      case False
      obtain s where s: "is_entry fs (up fs x) s" "ch_inode (entry fs (up fs x) s) = x"
        using linked_entry [OF ok(3), of x] x same(1) by auto
      then have "(up fs x, s) \<noteq> (op, os)" using False assms(3) by auto
      with s ent [of "up fs x" s] old [of "up fs x" s] same(3) False show ?thesis by (intro exI [of _ s]) simp
    qed
    then show ?thesis using r linked_to_root [OF ok(3)] root_dir [OF ok(3)] same unfolding linked_def by simp
  qed
  moreover have "handles_ok fs'" using ok(4) same by (simp add: handles_ok_def)
  ultimately show ?thesis using same(4) by (simp add: tree_ok_def)
qed

lemma find_child_moved:
  assumes "tree_ok fs" "is_entry fs op os" "ch_inode (entry fs op os) = i" "live_dir fs np"
    "(np, ns) = (op, os) \<or> \<not> is_entry fs np ns" "find_child fs np name = None" "avoids fs i np"
    "moved op os np ns i name fs fs'" "p < MAX_INODES"
  shows "find_child fs' p m =
    (if p = np \<and> m = name then Some i
     else if p = op \<and> m = ch_name (entry fs op os) then None else find_child fs p m)" (is "_ = ?r")
proof (rule find_child_eqI [OF tree_ok_moved [OF assms(1-8)] assms(9)])
  note ok = tree_okD [OF assms(1)]
  from assms(8) have ent: "is_entry fs' p s \<longleftrightarrow> (p, s) = (np, ns) \<or> is_entry fs p s \<and> (p, s) \<noteq> (op, os)"
    and old: "is_entry fs p s \<Longrightarrow> (p, s) \<noteq> (op, os) \<Longrightarrow> entry fs' p s = entry fs p s"
    and new: "ch_name (entry fs' np ns) = name" "ch_inode (entry fs' np ns) = i" for p s
    unfolding moved_def by auto
  note fc = find_child_Some_iff [OF ok(2,1) assms(9), of m]
  fix j
  have "(\<exists>s. is_entry fs' p s \<and> ch_name (entry fs' p s) = m \<and> ch_inode (entry fs' p s) = j) \<longleftrightarrow>
      p = np \<and> m = name \<and> j = i \<or>
      (\<exists>s. is_entry fs p s \<and> (p, s) \<noteq> (op, os) \<and> ch_name (entry fs p s) = m \<and> ch_inode (entry fs p s) = j)"
    (is "?L \<longleftrightarrow> ?new \<or> ?old")
  proof
    assume ?L
    then obtain s where s: "is_entry fs' p s" "ch_name (entry fs' p s) = m" "ch_inode (entry fs' p s) = j" by blast
    show "?new \<or> ?old"
    proof (cases "(p, s) = (np, ns)")
      case True
      with s(2,3) new show ?thesis by simp
    next
      case False
      then have o: "is_entry fs p s" "(p, s) \<noteq> (op, os)" using s(1) ent by blast+
      with s(2,3) old [OF o] have ?old by (intro exI [of _ s]) simp
      then show ?thesis ..
    qed
  next
    assume "?new \<or> ?old"
    then show ?L
    proof
      assume ?new
      then show ?L using ent [of np ns] new by auto
    next
      assume ?old
      then obtain s where s: "is_entry fs p s" "(p, s) \<noteq> (op, os)" "ch_name (entry fs p s) = m"
        "ch_inode (entry fs p s) = j" by blast
      then show ?L using ent [of p s] old [OF s(1,2)] by (intro exI [of _ s]) simp
    qed
  qed
  also have "\<dots> \<longleftrightarrow> ?r = Some j"
  proof (cases "p = op \<and> m = ch_name (entry fs op os)")
    case True
    have "s = os" if "is_entry fs op s" "ch_name (entry fs op s) = m" for s
      using entry_name_unique [OF ok(2) that(1) assms(2)] that(2) True by simp
    then have "\<not> (\<exists>s. is_entry fs p s \<and> (p, s) \<noteq> (op, os) \<and> ch_name (entry fs p s) = m \<and>
        ch_inode (entry fs p s) = j)"
      using True by blast
    with True show ?thesis by auto
  next
    case False
    then have "(p, s) \<noteq> (op, os)" if "ch_name (entry fs p s) = m" for s using that by blast
    then have "(\<exists>s. is_entry fs p s \<and> (p, s) \<noteq> (op, os) \<and> ch_name (entry fs p s) = m \<and> ch_inode (entry fs p s) = j)
        \<longleftrightarrow> find_child fs p m = Some j" unfolding fc by blast
    with False assms(6) show ?thesis by auto
  qed
  finally show "(\<exists>s. is_entry fs' p s \<and> ch_name (entry fs' p s) = m \<and> ch_inode (entry fs' p s) = j) \<longleftrightarrow> ?r = Some j" .
qed

end
