(* ===== verification/Vfs_Invariant.thy ===== *)
theory Vfs_Invariant
  imports Step_Systems Vfs_Tree
begin

text \<open>
  The invariant of the virtual file system (\<open>src/vfs.rs\<close>): the mount table, namespaces, dentries and
  handles beside the directory tree, and that every operation keeps it on every branch.
\<close>

section \<open>The mount table\<close>

definition dentry_count :: "vfs \<Rightarrow> mount_id \<Rightarrow> nat" where
  "dentry_count v m = length (filter (\<lambda>d. ds_used d \<and> de_mount (ds_dentry d) = m) (vf_dentries v))"

definition mount_live :: "vfs \<Rightarrow> mount_id \<Rightarrow> bool" where
  "mount_live v m \<longleftrightarrow> m < MAX_MOUNTS \<and> mn_used (vf_mounts v ! m)"

definition mount_shape :: "vfs \<Rightarrow> bool" where
  "mount_shape v \<longleftrightarrow> length (vf_mounts v) = MAX_MOUNTS \<and> length (vf_namespaces v) = MAX_NAMESPACES \<and>
     length (vf_dentries v) = MAX_DENTRIES"

definition namespaces_ok :: "vfs \<Rightarrow> bool" where
  "namespaces_ok v \<longleftrightarrow> (vf_mounted v \<longrightarrow> ns_used (vf_namespaces v ! NAMESPACE_ROOT)) \<and>
     (\<forall>n<MAX_NAMESPACES. ns_used (vf_namespaces v ! n) \<longrightarrow>
        mount_live v (ns_root_mount (vf_namespaces v ! n)) \<and>
        mn_namespace (vf_mounts v ! ns_root_mount (vf_namespaces v ! n)) = n)"

definition bind_ok :: "vfs \<Rightarrow> bool" where
  "bind_ok v \<longleftrightarrow> (\<forall>m. mount_live v m \<and> mn_parent (vf_mounts v ! m) \<noteq> None \<longrightarrow>
     mn_root_inode (vf_mounts v ! m) = mn_mountpoint_inode (vf_mounts v ! m))"

definition references_ok :: "vfs \<Rightarrow> bool" where
  "references_ok v \<longleftrightarrow>
     (\<forall>h\<in>set (fs_handles (vf_fs v)). hs_used h \<longrightarrow> mount_live v (hs_mount h)) \<and>
     (\<forall>d\<in>set (vf_dentries v). ds_used d \<longrightarrow> mount_live v (de_mount (ds_dentry d))) \<and>
     (\<forall>m<MAX_MOUNTS. mn_dentry_references (vf_mounts v ! m) = dentry_count v m)"

definition vfs_ok :: "vfs \<Rightarrow> bool" where
  "vfs_ok v \<longleftrightarrow> tree_ok (vf_fs v) \<and> mount_shape v \<and> namespaces_ok v \<and> bind_ok v \<and> references_ok v"

lemma vfs_okD:
  assumes "vfs_ok v"
  shows "tree_ok (vf_fs v)" "mount_shape v" "namespaces_ok v" "bind_ok v" "references_ok v"
  using assms by (simp_all add: vfs_ok_def)

lemma vfs_ok_fs:
  assumes "vfs_ok v" "tree_ok fs" "fs_handles fs = fs_handles (vf_fs v)"
  shows "vfs_ok (v\<lparr>vf_fs := fs\<rparr>)"
  using assms
  by (simp add: vfs_ok_def mount_shape_def namespaces_ok_def bind_ok_def references_ok_def mount_live_def dentry_count_def)

lemma mount_node_of_Ok:
  "mount_shape v \<Longrightarrow> mount_node_of v m = Ok node \<longleftrightarrow> mount_live v m \<and> node = vf_mounts v ! m"
  by (auto simp: mount_node_of_def mount_live_def mount_shape_def)

lemma namespace_root_Ok:
  assumes "vfs_ok v" "namespace_root v n = Ok m"
  shows "mount_live v m" "n < MAX_NAMESPACES" "ns_used (vf_namespaces v ! n)"
    "m = ns_root_mount (vf_namespaces v ! n)" "mn_namespace (vf_mounts v ! m) = n"
  using assms(2) vfs_okD(2,3) [OF assms(1)]
  by (auto simp: namespace_root_def namespaces_ok_def mount_shape_def split: if_splits)

section \<open>Walking a path\<close>

text \<open>The same walk over the directories alone.\<close>

fun dir_walk :: "file_system \<Rightarrow> vfs_name list \<Rightarrow> nat \<Rightarrow> vfs_error + nat" where
  "dir_walk fs [] i = Ok i"
| "dir_walk fs (component # components) i =
     (if in_kind (fs_inodes fs ! i) \<noteq> Directory then Err V_NotDirectory
      else (case find_child fs i component of None \<Rightarrow> Err V_NotFound | Some i \<Rightarrow> dir_walk fs components i))"

lemma find_mount_child_SomeD:
  assumes "vfs_ok v" "find_mount_child v n m i = Some c"
  shows "mount_live v c" "mount_node_of v c = Ok (vf_mounts v ! c)" "mn_root_inode (vf_mounts v ! c) = i"
    "mn_parent (vf_mounts v ! c) = Some m" "mn_namespace (vf_mounts v ! c) = n"
proof -
  note p = position_SomeD [OF assms(2) [unfolded find_mount_child_def]]
  show l: "mount_live v c" "mn_parent (vf_mounts v ! c) = Some m" "mn_namespace (vf_mounts v ! c) = n"
    using p vfs_okD(2) [OF assms(1)] by (auto simp: mount_live_def mount_shape_def is_mount_child_def)
  show "mount_node_of v c = Ok (vf_mounts v ! c)"
    using l(1) mount_node_of_Ok [OF vfs_okD(2) [OF assms(1)]] by simp
  show "mn_root_inode (vf_mounts v ! c) = i"
    using l p vfs_okD(4) [OF assms(1)] by (auto simp: bind_ok_def is_mount_child_def)
qed

text \<open>Mounts attach flags to names: the walk finds the inode it would find without them.\<close>

lemma walk_dir_walk:
  assumes "vfs_ok v"
  shows "(case walk v n cs m i of Inl e \<Rightarrow> Inl e | Inr (m', i') \<Rightarrow> Inr i') = dir_walk (vf_fs v) cs i"
proof (induction cs arbitrary: m i)
  case Nil
  show ?case by simp
next
  case (Cons c cs)
  then show ?case
    using find_mount_child_SomeD [OF assms]
    by (auto simp: and_then_def split: option.split)
qed

lemma walk_ok:
  assumes "vfs_ok v"
  shows "walk v n cs m i = Ok (m', i') \<Longrightarrow> mount_live v m \<Longrightarrow> live (vf_fs v) i \<Longrightarrow>
    mount_live v m' \<and> live (vf_fs v) i'"
proof (induction cs arbitrary: m i)
  case Nil
  then show ?case by simp
next
  case (Cons c cs)
  note tree = vfs_okD(1) [OF assms]
  from Cons.prems(1) obtain j where j: "find_child (vf_fs v) i c = Some j"
    by (auto split: if_splits option.splits)
  have lj: "live (vf_fs v) j" using find_child_live(1) [OF tree _ j] Cons.prems(3) by (simp add: live_def)
  show ?case
  proof (cases "find_mount_child v n m j")
    case None
    then show ?thesis using Cons.prems(1,2) Cons.IH [of m j] j lj by (simp split: if_splits)
  next
    case (Some k)
    note k = find_mount_child_SomeD [OF assms Some]
    have "walk v n cs k j = Ok (m', i')" using Cons.prems(1) j Some k(2,3) by (simp add: and_then_def split: if_splits)
    then show ?thesis using Cons.IH k(1) lj by blast
  qed
qed

lemma resolve_mount_ok:
  assumes "vfs_ok v" "resolve_mount v path n = Ok (m, i)"
  shows "mount_live v m" "live (vf_fs v) i"
proof -
  obtain cs count root where w: "namespace_root v n = Ok root" "walk v n (take count cs) root 0 = Ok (m, i)"
    using assms(2) by (auto simp: resolve_mount_def and_then_def split: sum.splits prod.splits)
  show "mount_live v m" "live (vf_fs v) i"
    using walk_ok [OF assms(1) w(2) namespace_root_Ok(1) [OF assms(1) w(1)]]
      root_live [OF tree_okD(3) [OF vfs_okD(1) [OF assms(1)]]] by blast+
qed

lemma parent_and_name_ok:
  assumes "vfs_ok v" "parent_and_name_mount v path n = Ok (m, p, name)"
  shows "mount_live v m" "live_dir (vf_fs v) p"
proof -
  obtain cs count root where w: "namespace_root v n = Ok root" "walk v n (take count cs) root 0 = Ok (m, p)"
    "in_kind (fs_inodes (vf_fs v) ! p) = Directory"
    using assms(2)
    by (auto simp: parent_and_name_mount_def and_then_def split: sum.splits prod.splits if_splits)
  show "mount_live v m" "live_dir (vf_fs v) p"
    using walk_ok [OF assms(1) w(2) namespace_root_Ok(1) [OF assms(1) w(1)]] w(3)
      root_live [OF tree_okD(3) [OF vfs_okD(1) [OF assms(1)]]] by (auto simp: live_dir_def)
qed

lemma mount_flags_ok:
  "vfs_ok v \<Longrightarrow> mount_live v m \<Longrightarrow> mount_flags_of v m = Ok (mn_flags (vf_mounts v ! m))"
  by (simp add: mount_flags_of_def mount_node_of_Ok [OF vfs_okD(2), THEN iffD2] and_then_def)

section \<open>Files and directories keep the invariant\<close>

text \<open>What every operation on the inode table promises: the invariant holds and the handles are as before.\<close>

definition fs_change :: "vfs \<Rightarrow> vfs \<Rightarrow> bool" where
  "fs_change v v' \<longleftrightarrow> (\<exists>fs. v' = v\<lparr>vf_fs := fs\<rparr> \<and> tree_ok fs \<and> fs_handles fs = fs_handles (vf_fs v))"

lemma fs_change_ok: "vfs_ok v \<Longrightarrow> fs_change v v' \<Longrightarrow> vfs_ok v'"
  by (auto simp: fs_change_def intro: vfs_ok_fs)

lemma fs_change_refl: "vfs_ok v \<Longrightarrow> fs_change v v"
  unfolding fs_change_def by (rule exI [of _ "vf_fs v"]) (simp add: vfs_okD(1))

lemma handles_kept [simp]:
  "fs_handles (insert_node p s name i n fs) = fs_handles fs"
  "fs_handles (remove_node p s i fs) = fs_handles fs"
  "fs_handles (set_inode i n fs) = fs_handles fs"
  "fs_handles (set_children i cs fs) = fs_handles fs"
  by (simp_all add: insert_node_def remove_node_def set_inode_def set_children_def)

lemma with_fs_cases:
  assumes "with_fs v f = (r, v')"
  obtains "\<not> vf_mounted v" "r = Err V_NotMounted" "v' = v" | "vf_mounted v" "f v = (r, v')"
  using assms by (auto simp: with_fs_def split: if_splits)

lemma create_node_at_ok:
  assumes "tree_ok fs" "live_dir fs parent" "create_node_at parent name kind mode fs = (r, fs')"
  shows "tree_ok fs'" "fs_handles fs' = fs_handles fs"
  using create_node_at_spec [OF assms] tree_ok_insert_node [OF assms(1,2)] assms(1) by auto

lemma mkdir_change:
  assumes "vfs_ok v" "vfs_mkdir path v = (r, v')"
  shows "fs_change v v'"
  using assms(2) unfolding vfs_mkdir_def
proof (cases rule: with_fs_cases)
  case 2
  from 2(2) show ?thesis
  proof (cases rule: try_res_cases)
    case (2 x)
    obtain m p name where x: "x = (m, p, name)" by (cases x)
    note pn = parent_and_name_ok [OF assms(1) 2(1) [unfolded x]]
    obtain r1 fs where c: "create_node_at p name Directory 493 (vf_fs v) = (r1, fs)" by fastforce
    note ok = create_node_at_ok [OF vfs_okD(1) [OF assms(1)] pn(2) c]
    have "v' = v \<or> v' = v\<lparr>vf_fs := fs\<rparr>"
      using 2(2) c mount_flags_ok [OF assms(1) pn(1)] by (cases r1) (auto simp: x split: if_splits)
    then show ?thesis using ok fs_change_refl [OF assms(1)] by (auto simp: fs_change_def)
  qed (simp add: fs_change_refl [OF assms(1)])
qed (simp add: fs_change_refl [OF assms(1)])

lemma open_inode_change:
  assumes "vfs_ok v" "open_inode path opts v = (r, v')"
  shows "fs_change v v'" "r = Ok (m, i) \<Longrightarrow> mount_live v' m \<and> live (vf_fs v') i"
proof -
  have "fs_change v v' \<and> (\<forall>m i. r = Ok (m, i) \<longrightarrow> mount_live v' m \<and> live (vf_fs v') i)"
  proof (cases "resolve_mount v path NAMESPACE_ROOT")
    case (Inr x)
    then show ?thesis
      using assms resolve_mount_ok [OF assms(1)] fs_change_refl [OF assms(1)] by (auto simp: open_inode_def)
  next
    case (Inl e)
    show ?thesis
    proof (cases "e = V_NotFound \<and> oo_create opts \<and> is_ok (parent_and_name_mount v path NAMESPACE_ROOT)")
      case False
      then show ?thesis
        using assms Inl fs_change_refl [OF assms(1)]
        by (cases "parent_and_name_mount v path NAMESPACE_ROOT") (auto simp: open_inode_def is_ok_def split: if_splits)
    next
      case True
      then obtain m p name where pn0: "parent_and_name_mount v path NAMESPACE_ROOT = Ok (m, p, name)"
        by (cases "parent_and_name_mount v path NAMESPACE_ROOT") (auto simp: is_ok_def)
      note pn = parent_and_name_ok [OF assms(1) pn0]
      obtain r1 fs where c: "create_node_at p name Regular 420 (vf_fs v) = (r1, fs)" by fastforce
      note ok = create_node_at_ok [OF vfs_okD(1) [OF assms(1)] pn(2) c]
      have fresh: "live fs i" if "r1 = Ok i" for i
      proof -
        from create_node_at_spec [OF vfs_okD(1) [OF assms(1)] pn(2) c] that obtain slot where
          s: "i < MAX_INODES" "\<not> live (vf_fs v) i" "slot < MAX_CHILDREN"
            "fs = insert_node p slot name i (inode_new Regular p 420) (vf_fs v)" by auto
        show ?thesis unfolding s(4)
          by (subst insert_node_access(3) [OF vfs_okD(1) [OF assms(1)] pn(2) s(1-3)]) (simp_all add: inode_new_def)
      qed
      consider "r = Err V_ReadOnly" "v' = v" | e where "r = Err e" "v' = v\<lparr>vf_fs := fs\<rparr>"
        | i where "r = Ok (m, i)" "r1 = Ok i" "v' = v\<lparr>vf_fs := fs\<rparr>"
        using assms(2) Inl True pn0 c mount_flags_ok [OF assms(1) pn(1)]
        by (cases r1) (auto simp: open_inode_def split: if_splits)
      then show ?thesis
        by cases (use ok fresh pn(1) fs_change_refl [OF assms(1)] in \<open>auto simp: fs_change_def mount_live_def\<close>)
    qed
  qed
  then show "fs_change v v'" "r = Ok (m, i) \<Longrightarrow> mount_live v' m \<and> live (vf_fs v') i" by auto
qed

text \<open>Handles: the slot taken or given back.\<close>

lemma tree_ok_handles:
  assumes "tree_ok fs" "slot < MAX_OPEN_HANDLES" "hs_used h \<longrightarrow> live fs (hs_inode h) \<and> \<not> live_dir fs (hs_inode h)"
    "n = length (filter hs_used ((fs_handles fs)[slot := h]))"
  shows "tree_ok (fs\<lparr>fs_handles := (fs_handles fs)[slot := h], fs_open_count := n\<rparr>)" (is "tree_ok ?fs")
proof -
  note ok = tree_okD [OF assms(1)]
  have k: "entry ?fs = entry fs" "live ?fs = live fs" "live_dir ?fs = live_dir fs" "up ?fs = up fs"
    by (auto simp: entry_def live_def live_dir_def up_def intro!: ext)
  have "shape_ok ?fs" using ok(1) by (simp add: shape_ok_def)
  moreover have "handles_ok ?fs"
    using ok(4) assms(3,4) set_update_subset_insert [of "fs_handles fs" slot h]
    unfolding handles_ok_def k by auto
  ultimately show ?thesis using ok tree_parts_cong [OF k] by (simp add: tree_ok_def)
qed

lemma count_update:
  assumes "slot < length xs"
  shows "length (filter P (xs[slot := h])) + (if P (xs ! slot) then 1 else 0) =
    length (filter P xs) + (if P h then 1 else 0)"
  using assms
proof (induction xs arbitrary: slot)
  case (Cons x xs)
  then show ?case by (cases slot) auto
qed simp

lemma vfs_ok_handles:
  assumes "vfs_ok v" "slot < MAX_OPEN_HANDLES"
    "hs_used h \<longrightarrow> live (vf_fs v) (hs_inode h) \<and> \<not> live_dir (vf_fs v) (hs_inode h) \<and> mount_live v (hs_mount h)"
    "n + (if hs_used (fs_handles (vf_fs v) ! slot) then 1 else 0) =
       fs_open_count (vf_fs v) + (if hs_used h then 1 else 0)"
  shows "vfs_ok (v\<lparr>vf_fs := (vf_fs v)\<lparr>fs_handles := (fs_handles (vf_fs v))[slot := h], fs_open_count := n\<rparr>\<rparr>)"
    (is "vfs_ok ?v")
proof -
  note ok = vfs_okD [OF assms(1)]
  have "slot < length (fs_handles (vf_fs v))" using tree_okD(1) [OF ok(1)] assms(2) by (simp add: shape_ok_def)
  from count_update [OF this, of hs_used h]
  have n: "n = length (filter hs_used ((fs_handles (vf_fs v))[slot := h]))"
    using assms(4) tree_okD(4) [OF ok(1)] by (simp add: handles_ok_def)
  have "tree_ok (vf_fs ?v)" using tree_ok_handles [OF ok(1) assms(2) _ n] assms(3) by simp
  moreover have "references_ok ?v"
    using ok(5) assms(3) set_update_subset_insert [of "fs_handles (vf_fs v)" slot h]
    unfolding references_ok_def mount_live_def dentry_count_def by auto
  ultimately show ?thesis
    using ok by (simp add: vfs_ok_def mount_shape_def namespaces_ok_def bind_ok_def mount_live_def)
qed

lemma open_handle_ok:
  assumes "vfs_ok v" "mount_live v m" "live (vf_fs v) i" "open_handle opts m i v = (r, v')"
  shows "vfs_ok v'"
proof (cases "position (\<lambda>h. \<not> hs_used h) (fs_handles (vf_fs v))")
  case None
  then show ?thesis using assms(1,4) by (auto simp: open_handle_def Let_def split: if_splits)
next
  case (Some slot)
  have slot: "slot < MAX_OPEN_HANDLES" "\<not> hs_used (fs_handles (vf_fs v) ! slot)"
    using position_SomeD [OF Some] tree_okD(1) [OF vfs_okD(1) [OF assms(1)]] by (auto simp: shape_ok_def)
  have "vfs_ok (v\<lparr>vf_fs := (vf_fs v)\<lparr>fs_handles := (fs_handles (vf_fs v))[slot := \<lparr>hs_used = True, hs_mount = m, hs_inode = i\<rparr>],
      fs_open_count := fs_open_count (vf_fs v) + 1\<rparr>\<rparr>)" if "in_kind (fs_inodes (vf_fs v) ! i) \<noteq> Directory"
    using that by (intro vfs_ok_handles [OF assms(1) slot(1)]) (simp_all add: assms(2,3) slot(2) live_dir_def)
  then show ?thesis using assms(1,4) Some by (auto simp: open_handle_def Let_def split: if_splits)
qed

lemma open_ok:
  assumes "vfs_ok v" "vfs_open path opts v = (r, v')"
  shows "vfs_ok v'"
  using assms(2) unfolding vfs_open_def
proof (cases rule: with_fs_cases)
  case 2
  from 2(2) show ?thesis
  proof (cases rule: try_st_cases)
    case (1 e)
    then show ?thesis using open_inode_change(1) [OF assms(1)] fs_change_ok [OF assms(1)] by blast
  next
    case (2 x v1)
    obtain m i where x: "x = (m, i)" by (cases x)
    have ok: "vfs_ok v1" using open_inode_change(1) [OF assms(1) 2(1)] fs_change_ok [OF assms(1)] by blast
    have l: "mount_live v1 m" "live (vf_fs v1) i" using open_inode_change(2) [OF assms(1) 2(1)] x by auto
    have "v' = v1 \<or> (\<exists>r. open_handle opts m i v1 = (r, v'))"
      using 2(2) mount_flags_ok [OF ok l(1)] by (auto simp: x split: if_splits)
    then show ?thesis using ok open_handle_ok [OF ok l] by blast
  qed
qed (simp add: assms(1))

lemma validate_handle_Ok:
  assumes "vfs_ok v" "validate_handle v h = Ok slot"
  shows "slot = fh_slot h" "slot < MAX_OPEN_HANDLES" "hs_used (fs_handles (vf_fs v) ! slot)"
    "hs_mount (fs_handles (vf_fs v) ! slot) = fh_mount h" "hs_inode (fs_handles (vf_fs v) ! slot) = fh_inode h"
    "live (vf_fs v) (fh_inode h)" "\<not> live_dir (vf_fs v) (fh_inode h)" "mount_live v (fh_mount h)"
proof -
  show s: "slot = fh_slot h" "slot < MAX_OPEN_HANDLES" "hs_used (fs_handles (vf_fs v) ! slot)"
    "hs_mount (fs_handles (vf_fs v) ! slot) = fh_mount h" "hs_inode (fs_handles (vf_fs v) ! slot) = fh_inode h"
    using assms(2) by (auto simp: validate_handle_def Let_def split: if_splits)
  note ok = vfs_okD [OF assms(1)]
  have mem: "fs_handles (vf_fs v) ! slot \<in> set (fs_handles (vf_fs v))"
    using s(2) tree_okD(1) [OF ok(1)] by (simp add: shape_ok_def)
  then show "live (vf_fs v) (fh_inode h)" "\<not> live_dir (vf_fs v) (fh_inode h)"
    using s(3,5) tree_okD(4) [OF ok(1)] unfolding handles_ok_def by metis+
  show "mount_live v (fh_mount h)" using mem s(3,4) ok(5) unfolding references_ok_def by metis
qed

lemma close_ok:
  assumes "vfs_ok v" "vfs_close h v = (r, v')"
  shows "vfs_ok v'"
  using assms(2) unfolding vfs_close_def
proof (cases rule: with_fs_cases)
  case 2
  from 2(2) show ?thesis
  proof (cases rule: try_res_cases)
    case (2 slot)
    note s = validate_handle_Ok [OF assms(1) 2(1)]
    have len: "slot < length (fs_handles (vf_fs v))"
      using s(2) tree_okD(1) [OF vfs_okD(1) [OF assms(1)]] by (simp add: shape_ok_def)
    have "fs_open_count (vf_fs v) \<noteq> 0"
      using s(3) nth_mem [OF len] tree_okD(4) [OF vfs_okD(1) [OF assms(1)]]
      by (auto simp: handles_ok_def filter_empty_conv)
    then have "vfs_ok (v\<lparr>vf_fs := (vf_fs v)\<lparr>fs_handles := (fs_handles (vf_fs v))[slot := handle_empty],
        fs_open_count := fs_open_count (vf_fs v) - 1\<rparr>\<rparr>)"
      by (intro vfs_ok_handles [OF assms(1) s(2)]) (simp_all add: s(3) handle_empty_def)
    with 2(2) show ?thesis by auto
  qed (simp add: assms(1))
qed (simp add: assms(1))

lemma write_handle_cases:
  assumes "vfs_ok v" "write_handle h input v = (r, h', v')"
  obtains e where "r = Err e" "h' = h" "v' = v"
  | "r = Ok (length input)" "vf_mounted v" "validate_handle v h = Ok (fh_slot h)" "fh_writable h"
    "fh_offset h + length input \<le> FILE_MAX" "\<not> mf_read_only (mn_flags (vf_mounts v ! fh_mount h))"
    "h' = h\<lparr>fh_offset := fh_offset h + length input\<rparr>"
    "v' = v\<lparr>vf_fs := set_inode (fh_inode h) ((fs_inodes (vf_fs v) ! fh_inode h)
       \<lparr>in_data := write_at (fh_offset h) input (in_data (fs_inodes (vf_fs v) ! fh_inode h)),
        in_size := max (in_size (fs_inodes (vf_fs v) ! fh_inode h)) (fh_offset h + length input)\<rparr>) (vf_fs v)\<rparr>"
proof (cases "vf_mounted v \<and> is_ok (validate_handle v h)")
  case False
  then have "\<exists>e. write_handle h input v = (Err e, h, v)"
    by (cases "validate_handle v h") (auto simp: write_handle_def is_ok_def)
  with that(1) assms(2) show ?thesis by auto
next
  case True
  then obtain slot where s: "validate_handle v h = Ok slot" by (cases "validate_handle v h") (auto simp: is_ok_def)
  note sl = validate_handle_Ok [OF assms(1) s]
  show ?thesis
    using assms(2) True s sl(1) mount_flags_ok [OF assms(1) sl(8)] that
    by (auto simp: write_handle_def Let_def split: if_splits)
qed

lemma write_handle_change:
  assumes "vfs_ok v" "write_handle h input v = (r, h', v')"
  shows "fs_change v v'"
  using assms
proof (cases rule: write_handle_cases)
  case 2
  note tree = vfs_okD(1) [OF assms(1)]
  have "fh_inode h < MAX_INODES" using validate_handle_Ok(6) [OF assms(1) 2(3)] by (simp add: live_def)
  with tree_okD(1) [OF tree] 2(5) show ?thesis
    unfolding 2(8) fs_change_def
    by (intro exI conjI [OF refl]) (auto intro!: tree_ok_set_inode [OF tree] simp: shape_ok_def)
qed (simp add: fs_change_refl [OF assms(1)])

lemma chmod_change:
  assumes "vfs_ok v" "vfs_chmod path mode v = (r, v')"
  shows "fs_change v v'"
  using assms(2) unfolding vfs_chmod_def
proof (cases rule: with_fs_cases)
  case 2
  from 2(2) show ?thesis
  proof (cases rule: try_res_cases)
    case (2 x)
    obtain m i where x: "x = (m, i)" by (cases x)
    note rm = resolve_mount_ok [OF assms(1) 2(1) [unfolded x]]
    have "tree_ok (set_inode i ((fs_inodes (vf_fs v) ! i)\<lparr>in_mode := mode AND 511\<rparr>) (vf_fs v))"
      using rm(2) tree_okD(1) [OF vfs_okD(1) [OF assms(1)]]
      by (intro tree_ok_set_inode [OF vfs_okD(1) [OF assms(1)]]) (simp_all add: live_def shape_ok_def)
    then show ?thesis
      using 2(2) mount_flags_ok [OF assms(1) rm(1)] fs_change_refl [OF assms(1)]
      by (auto simp: x fs_change_def split: if_splits)
  qed (simp add: fs_change_refl [OF assms(1)])
qed (simp add: fs_change_refl [OF assms(1)])

lemma drop_child_change:
  assumes "vfs_ok v" "parent < MAX_INODES" "find_child (vf_fs v) parent name = Some i"
    "drop_child parent name i v = (r, v')" "\<forall>s. \<not> is_entry (vf_fs v) i s" "\<not> has_open_handle (vf_fs v) i"
  shows "fs_change v v'"
  using drop_child_spec [OF vfs_okD(1) [OF assms(1)] assms(2-4)]
    tree_ok_remove_node [OF vfs_okD(1) [OF assms(1)] _ _ assms(5,6)]
  by (auto simp: fs_change_def)

lemma file_no_entry: "tree_ok fs \<Longrightarrow> in_kind (fs_inodes fs ! i) \<noteq> Directory \<Longrightarrow> \<not> is_entry fs i s"
  using entry_dir [OF tree_okD(2), of fs i s] by (auto simp: live_dir_def)

lemma dir_no_handle: "tree_ok fs \<Longrightarrow> live_dir fs i \<Longrightarrow> \<not> has_open_handle fs i"
  using tree_okD(4) [of fs] by (auto simp: handles_ok_def has_open_handle_def list_ex_iff)

lemma empty_no_entry:
  assumes "tree_ok fs" "live fs i" "\<not> list_ex ch_used (in_children (fs_inodes fs ! i))"
  shows "\<not> is_entry fs i s"
  using assms tree_okD(1) [OF assms(1)]
  by (auto simp: is_entry_def entry_def list_ex_iff live_def shape_ok_def)

lemma unlink_change:
  assumes "vfs_ok v" "vfs_unlink path v = (r, v')"
  shows "fs_change v v'"
  using assms(2) unfolding vfs_unlink_def
proof (cases rule: with_fs_cases)
  case 2
  from 2(2) show ?thesis
  proof (cases rule: try_res_cases)
    case (2 x)
    obtain m p name where x: "x = (m, p, name)" by (cases x)
    note pn = parent_and_name_ok [OF assms(1) 2(1) [unfolded x]]
    note tree = vfs_okD(1) [OF assms(1)]
    have p: "p < MAX_INODES" using pn(2) by (simp add: live_dir_def live_def)
    have "v' = v \<or> (\<exists>i. find_child (vf_fs v) p name = Some i \<and> in_kind (fs_inodes (vf_fs v) ! i) \<noteq> Directory \<and>
        \<not> has_open_handle (vf_fs v) i \<and> drop_child p name i v = (r, v'))"
      using 2(2) mount_flags_ok [OF assms(1) pn(1)]
      by (cases "find_child (vf_fs v) p name") (auto simp: x ok_or_def split: if_splits)
    then show ?thesis
      using fs_change_refl [OF assms(1)] drop_child_change [OF assms(1) p] file_no_entry [OF tree] by blast
  qed (simp add: fs_change_refl [OF assms(1)])
qed (simp add: fs_change_refl [OF assms(1)])

lemma remove_dir_change:
  assumes "vfs_ok v" "vfs_remove_dir path v = (r, v')"
  shows "fs_change v v'"
  using assms(2) unfolding vfs_remove_dir_def
proof (cases rule: with_fs_cases)
  case 2
  from 2(2) show ?thesis
  proof (cases rule: try_res_cases)
    case (2 x)
    obtain m p name where x: "x = (m, p, name)" by (cases x)
    note pn = parent_and_name_ok [OF assms(1) 2(1) [unfolded x]]
    note tree = vfs_okD(1) [OF assms(1)]
    have p: "p < MAX_INODES" using pn(2) by (simp add: live_dir_def live_def)
    have "v' = v \<or> (\<exists>i. find_child (vf_fs v) p name = Some i \<and> in_kind (fs_inodes (vf_fs v) ! i) = Directory \<and>
        \<not> list_ex ch_used (in_children (fs_inodes (vf_fs v) ! i)) \<and> drop_child p name i v = (r, v'))"
      using 2(2) mount_flags_ok [OF assms(1) pn(1)]
      by (cases "find_child (vf_fs v) p name") (auto simp: x ok_or_def split: if_splits)
    then show ?thesis
    proof
      assume "\<exists>i. find_child (vf_fs v) p name = Some i \<and> in_kind (fs_inodes (vf_fs v) ! i) = Directory \<and>
        \<not> list_ex ch_used (in_children (fs_inodes (vf_fs v) ! i)) \<and> drop_child p name i v = (r, v')"
      then obtain i where i: "find_child (vf_fs v) p name = Some i" "in_kind (fs_inodes (vf_fs v) ! i) = Directory"
        "\<not> list_ex ch_used (in_children (fs_inodes (vf_fs v) ! i))" "drop_child p name i v = (r, v')" by blast
      have l: "live (vf_fs v) i" using find_child_live(1) [OF tree p i(1)] .
      show ?thesis
        using drop_child_change [OF assms(1) p i(1,4)] empty_no_entry [OF tree l i(3)] dir_no_handle [OF tree] l i(2)
        by (simp add: live_dir_def)
    qed (simp add: fs_change_refl [OF assms(1)])
  qed (simp add: fs_change_refl [OF assms(1)])
qed (simp add: fs_change_refl [OF assms(1)])

section \<open>Renaming\<close>

lemma no_self_parent: "to_root fs i \<Longrightarrow> up fs i = i \<Longrightarrow> i = 0"
  by (induction rule: to_root.induct) auto

lemma rename_slot_moved:
  assumes "tree_ok fs" "find_child fs p old = Some i" "p < MAX_INODES" "rename_slot p old new fs = (r, fs')"
  shows "r = Ok () \<and> (\<exists>slot. is_entry fs p slot \<and> ch_name (entry fs p slot) = old \<and> ch_inode (entry fs p slot) = i \<and>
    moved p slot p slot i new fs fs')"
proof -
  note shape = tree_okD(1) [OF assms(1)]
  obtain slot where s: "position (child_matches old) (in_children (fs_inodes fs ! p)) = Some slot"
    "is_entry fs p slot" "ch_name (entry fs p slot) = old" "ch_inode (entry fs p slot) = i"
    using find_child_slot_spec [OF assms(1,3,2)] .
  let ?cs = "in_children (fs_inodes fs ! p)"
  have fs': "r = Ok ()" "fs' = set_children p (?cs[slot := (?cs ! slot)\<lparr>ch_name := new\<rparr>]) fs"
    using assms(4) s(1) by (simp_all add: rename_slot_def find_child_slot_def Let_def)
  have len: "length (fs_inodes fs) = MAX_INODES" "length ?cs = MAX_CHILDREN" using shape assms(3) by (simp_all add: shape_ok_def)
  have nth: "fs_inodes fs' ! x = (if x = p then (fs_inodes fs ! p)\<lparr>in_children := ?cs[slot := (?cs ! slot)\<lparr>ch_name := new\<rparr>]\<rparr>
      else fs_inodes fs ! x)" for x
    using len(1) assms(3) by (simp add: fs' set_children_def nth_update_if)
  have e: "entry fs' x y = (if x = p \<and> y = slot then (entry fs p slot)\<lparr>ch_name := new\<rparr> else entry fs x y)" for x y
    using s(2) len(2) by (simp add: entry_def nth nth_update_if is_entry_def)
  have "live fs' = live fs" "live_dir fs' = live_dir fs" "up fs' = up fs"
    by (auto simp: live_def live_dir_def up_def nth intro!: ext split: if_splits)
  moreover have "up fs i = p" using find_child_live(3) [OF assms(1,3,2)] .
  moreover have "shape_ok fs'"
    using shape len unfolding shape_ok_def by (auto simp: nth_update_if fs' set_children_def)
  moreover have "is_entry fs' x y \<longleftrightarrow> is_entry fs x y" for x y by (simp add: is_entry_def e)
  moreover have "(up fs)(i := p) = up fs" using \<open>up fs i = p\<close> by auto
  moreover have "fs_handles fs' = fs_handles fs" "fs_open_count fs' = fs_open_count fs"
    by (simp_all add: fs'(2) set_children_def)
  moreover have "entry fs' x y = entry fs x y" if "(x, y) \<noteq> (p, slot)" for x y using that e by auto
  ultimately have "moved p slot p slot i new fs fs'"
    using s(2,4) e [of p slot] unfolding moved_def by auto
  with fs'(1) s(2-4) show ?thesis by blast
qed

lemma move_child_moved:
  assumes "tree_ok fs" "find_child fs op old = Some i" "op < MAX_INODES" "live_dir fs np" "op \<noteq> np" "i \<noteq> np"
    "has_free_child fs np" "move_child op old np new i fs = (r, fs')"
  shows "r = Ok () \<and> (\<exists>os ns. is_entry fs op os \<and> ch_name (entry fs op os) = old \<and> ch_inode (entry fs op os) = i \<and>
    \<not> is_entry fs np ns \<and> moved op os np ns i new fs fs')"
proof -
  note shape = tree_okD(1) [OF assms(1)]
  have np: "np < MAX_INODES" using assms(4) by (simp add: live_dir_def live_def)
  obtain os where os: "position (child_matches old) (in_children (fs_inodes fs ! op)) = Some os"
    "is_entry fs op os" "ch_name (entry fs op os) = old" "ch_inode (entry fs op os) = i"
    using find_child_slot_spec [OF assms(1,3,2)] .
  have i: "live fs i" "up fs i = op" "i \<noteq> op"
    using find_child_live [OF assms(1,3,2)] no_self_parent [OF linked_to_root [OF tree_okD(3) [OF assms(1)]], of i] by auto
  let ?co = "in_children (fs_inodes fs ! op)" and ?cn = "in_children (fs_inodes fs ! np)"
  obtain ns where ns: "position (\<lambda>c. \<not> ch_used c) ?cn = Some ns"
    using assms(7) position_exists [of _ ?cn "\<lambda>c. \<not> ch_used c"] by (auto simp: has_free_child_def list_ex_iff)
  have im: "i < MAX_INODES" using i(1) by (simp add: live_def)
  have len: "length (fs_inodes fs) = MAX_INODES" "length ?co = MAX_CHILDREN" "length ?cn = MAX_CHILDREN"
    using shape assms(3) np by (simp_all add: shape_ok_def)
  have nsm: "ns < MAX_CHILDREN" "\<not> is_entry fs np ns"
    using position_SomeD [OF ns] len by (auto simp: is_entry_def entry_def)
  let ?new = "\<lparr>ch_used = True, ch_inode = i, ch_name = new\<rparr>"
  have fs': "r = Ok ()" "fs' = set_inode i ((fs_inodes fs ! i)\<lparr>in_parent := np\<rparr>)
      (set_children np (?cn[ns := ?new]) (set_children op (?co[os := child_empty]) fs))"
    using assms(5,6,8) os(1) ns i(3)
    by (simp_all add: move_child_def remove_child_def add_child_def Let_def set_children_def)
  have nth: "fs_inodes fs' ! x = (if x = i then (fs_inodes fs ! i)\<lparr>in_parent := np\<rparr>
      else if x = np then (fs_inodes fs ! np)\<lparr>in_children := ?cn[ns := ?new]\<rparr>
      else if x = op then (fs_inodes fs ! op)\<lparr>in_children := ?co[os := child_empty]\<rparr>
      else fs_inodes fs ! x)" for x
    using len(1) assms(3,5,6) np im i(3) by (simp add: fs'(2) set_inode_def set_children_def nth_update_if)
  have osm: "os < MAX_CHILDREN" using os(2) by (simp add: is_entry_def)
  have e: "entry fs' x y = (if x = np \<and> y = ns then ?new else if x = op \<and> y = os then child_empty else entry fs x y)" for x y
    using assms(5,6) i(3) len nsm(1) osm by (auto simp: entry_def nth nth_update_if)
  have "live fs' = live fs" "live_dir fs' = live_dir fs" "up fs' = (up fs)(i := np)"
    using assms(6) i(3) by (auto simp: live_def live_dir_def up_def nth intro!: ext split: if_splits)
  moreover have "shape_ok fs'"
  proof -
    have "length (in_data (fs_inodes fs' ! x)) = FILE_MAX \<and> length (in_children (fs_inodes fs' ! x)) = MAX_CHILDREN \<and>
        in_size (fs_inodes fs' ! x) \<le> FILE_MAX" if "x < MAX_INODES" for x
      using shape that len by (simp add: nth shape_ok_def)
    moreover have "length (fs_inodes fs') = MAX_INODES" "length (fs_handles fs') = MAX_OPEN_HANDLES"
      using shape by (simp_all add: fs'(2) set_inode_def set_children_def shape_ok_def)
    ultimately show ?thesis by (simp add: shape_ok_def)
  qed
  moreover have "is_entry fs' x y \<longleftrightarrow> (x, y) = (np, ns) \<or> is_entry fs x y \<and> (x, y) \<noteq> (op, os)" for x y
    using assms(5) np nsm by (auto simp: is_entry_def e child_empty_def)
  moreover have "entry fs' x y = entry fs x y" if "is_entry fs x y" "(x, y) \<noteq> (op, os)" for x y
    using that nsm(2) by (auto simp: e)
  moreover have "fs_handles fs' = fs_handles fs" "fs_open_count fs' = fs_open_count fs"
    by (simp_all add: fs'(2) set_inode_def set_children_def)
  ultimately have "moved op os np ns i new fs fs'" by (simp add: moved_def e)
  with fs'(1) os(2-4) nsm(2) show ?thesis by blast
qed

lemma rename_change:
  assumes "vfs_ok v" "vfs_rename old_path new_path v = (r, v')"
  shows "(\<exists>e. r = Err e) \<and> v' = v \<or> (\<exists>m op old i np new os ns fs. r = Ok () \<and> v' = v\<lparr>vf_fs := fs\<rparr> \<and>
    parent_and_name_mount v old_path NAMESPACE_ROOT = Ok (m, op, old) \<and> find_child (vf_fs v) op old = Some i \<and>
    parent_and_name_mount v new_path NAMESPACE_ROOT = Ok (m, np, new) \<and> find_child (vf_fs v) np new = None \<and>
    \<not> mf_read_only (mn_flags (vf_mounts v ! m)) \<and>
    is_entry (vf_fs v) op os \<and> ch_name (entry (vf_fs v) op os) = old \<and> ch_inode (entry (vf_fs v) op os) = i \<and>
    live_dir (vf_fs v) np \<and> ((np, ns) = (op, os) \<or> \<not> is_entry (vf_fs v) np ns) \<and> avoids (vf_fs v) i np \<and>
    moved op os np ns i new (vf_fs v) fs)"
    (is "?same \<or> ?moved")
proof (rule disjCI)
  assume change: "\<not> ?moved"
  note tree = vfs_okD(1) [OF assms(1)]
  show ?same
  proof (rule ccontr)
    assume "\<not> ?same"
    with assms(2) obtain m op old i m' np new where
      pn: "parent_and_name_mount v old_path NAMESPACE_ROOT = Ok (m, op, old)" "find_child (vf_fs v) op old = Some i"
        "parent_and_name_mount v new_path NAMESPACE_ROOT = Ok (m', np, new)"
      by (auto simp: vfs_rename_def with_fs_def Let_def ok_or_def elim!: try_res_cases
          split: if_splits option.splits)
    note o = parent_and_name_ok [OF assms(1) pn(1)] and n = parent_and_name_ok [OF assms(1) pn(3)]
    note flags = mount_flags_ok [OF assms(1) o(1)]
    have op: "op < MAX_INODES" using o(2) by (simp add: live_dir_def live_def)
    from assms(2) pn flags \<open>\<not> ?same\<close> have g: "m' = m" "\<not> mf_read_only (mn_flags (vf_mounts v ! m))"
      "find_child (vf_fs v) np new = None"
      "\<not> (in_kind (fs_inodes (vf_fs v) ! i) = Directory \<and> is_descendant (vf_fs v) np i)"
      by (auto simp: vfs_rename_def with_fs_def ok_or_def Let_def split: if_splits)
    have li: "live (vf_fs v) i" using find_child_live(1) [OF tree op pn(2)] .
    have av: "avoids (vf_fs v) i np"
      using g(4) not_descendant_avoids [of MAX_INODES "vf_fs v" np i] file_avoided [OF tree _ n(2), of i] li
      by (auto simp: is_descendant_def live_dir_def)
    show False
    proof (cases "op = np")
      case True
      obtain r1 fs where rs: "rename_slot op old new (vf_fs v) = (r1, fs)" by fastforce
      have "r = r1" "v' = v\<lparr>vf_fs := fs\<rparr>"
        using assms(2) pn flags g True rs \<open>\<not> ?same\<close>
        by (auto simp: vfs_rename_def with_fs_def ok_or_def Let_def split: if_splits)
      with rename_slot_moved [OF tree pn(2) op rs] change pn g n(2) av True show False by blast
    next
      case False
      obtain r1 fs where mc: "move_child op old np new i (vf_fs v) = (r1, fs)" by fastforce
      have "r = r1" "v' = v\<lparr>vf_fs := fs\<rparr>" "has_free_child (vf_fs v) np"
        using assms(2) pn flags g False mc \<open>\<not> ?same\<close>
        by (auto simp: vfs_rename_def with_fs_def ok_or_def Let_def split: if_splits)
      moreover have "i \<noteq> np" using av by (auto elim: avoids.cases)
      ultimately show False
        using move_child_moved [OF tree pn(2) op n(2) False _ _ mc] change pn g n(2) av by blast
    qed
  qed
qed

lemma rename_fs_change:
  assumes "vfs_ok v" "vfs_rename old_path new_path v = (r, v')"
  shows "fs_change v v'"
proof (cases "v' = v")
  case False
  with rename_change [OF assms] obtain op i np new os ns fs where v': "v' = v\<lparr>vf_fs := fs\<rparr>"
    and e: "is_entry (vf_fs v) op os" "ch_inode (entry (vf_fs v) op os) = i"
    and n: "live_dir (vf_fs v) np" "(np, ns) = (op, os) \<or> \<not> is_entry (vf_fs v) np ns" "find_child (vf_fs v) np new = None"
      "avoids (vf_fs v) i np" "moved op os np ns i new (vf_fs v) fs" by blast
  have "tree_ok fs" by (rule tree_ok_moved [OF vfs_okD(1) [OF assms(1)] e n])
  moreover have "fs_handles fs = fs_handles (vf_fs v)" using n(5) by (simp add: moved_def)
  ultimately show ?thesis using v' by (auto simp: fs_change_def)
qed (simp add: fs_change_refl [OF assms(1)])

section \<open>Mounts and namespaces keep the invariant\<close>

text \<open>Replacing a mount that no handle and no dentry refers to, with the namespaces that go with it.\<close>

lemma vfs_ok_replace_mount:
  assumes "vfs_ok v" "m < MAX_MOUNTS"
    and free: "\<forall>h\<in>set (fs_handles (vf_fs v)). hs_used h \<longrightarrow> hs_mount h \<noteq> m" "dentry_count v m = 0"
    and node: "mn_dentry_references node = 0"
      "mn_used node \<and> mn_parent node \<noteq> None \<longrightarrow> mn_root_inode node = mn_mountpoint_inode node"
    and ns: "length ns = MAX_NAMESPACES" "vf_mounted v \<longrightarrow> ns_used (ns ! NAMESPACE_ROOT)"
      "\<forall>n<MAX_NAMESPACES. ns_used (ns ! n) \<longrightarrow>
         (if ns_root_mount (ns ! n) = m then mn_used node \<and> mn_namespace node = n
          else mount_live v (ns_root_mount (ns ! n)) \<and> mn_namespace (vf_mounts v ! ns_root_mount (ns ! n)) = n)"
  shows "vfs_ok (v\<lparr>vf_mounts := (vf_mounts v)[m := node], vf_namespaces := ns\<rparr>)" (is "vfs_ok ?v")
proof -
  note ok = vfs_okD [OF assms(1)]
  have len: "m < length (vf_mounts v)" using ok(2) assms(2) by (simp add: mount_shape_def)
  have nth: "vf_mounts ?v ! x = (if x = m then node else vf_mounts v ! x)" for x using len by (simp add: nth_update_if)
  have l: "mount_live ?v x \<longleftrightarrow> (if x = m then mn_used node else mount_live v x)" for x
    using assms(2) unfolding mount_live_def nth by auto
  have c: "dentry_count ?v x = dentry_count v x" for x by (simp add: dentry_count_def)
  have none: "de_mount (ds_dentry d) \<noteq> m" if "d \<in> set (vf_dentries v)" "ds_used d" for d
    using free(2) that by (auto simp: dentry_count_def filter_empty_conv)
  have "mount_shape ?v" using ok(2) ns(1) by (simp add: mount_shape_def)
  moreover have "namespaces_ok ?v" using ns(2,3) unfolding namespaces_ok_def l nth by auto
  moreover have "bind_ok ?v" using ok(4) node(2) unfolding bind_ok_def l nth by auto
  moreover have "references_ok ?v"
    using ok(5) free none node(1) unfolding references_ok_def l c nth by auto
  ultimately show ?thesis using ok(1) by (simp add: vfs_ok_def)
qed

lemma dead_mount_free:
  assumes "vfs_ok v" "m < MAX_MOUNTS" "\<not> mount_live v m"
  shows "\<forall>h\<in>set (fs_handles (vf_fs v)). hs_used h \<longrightarrow> hs_mount h \<noteq> m" "dentry_count v m = 0"
    "\<forall>n<MAX_NAMESPACES. ns_used (vf_namespaces v ! n) \<longrightarrow> ns_root_mount (vf_namespaces v ! n) \<noteq> m"
  using vfs_okD(3,5) [OF assms(1)] assms(3)
  by (auto simp: references_ok_def dentry_count_def filter_empty_conv namespaces_ok_def)

lemma namespace_rootsD:
  assumes "vfs_ok v"
  shows "vf_mounted v \<longrightarrow> ns_used (vf_namespaces v ! NAMESPACE_ROOT)"
    "length (vf_namespaces v) = MAX_NAMESPACES" "length (vf_mounts v) = MAX_MOUNTS"
    "\<forall>n<MAX_NAMESPACES. ns_used (vf_namespaces v ! n) \<longrightarrow> mount_live v (ns_root_mount (vf_namespaces v ! n)) \<and>
       mn_namespace (vf_mounts v ! ns_root_mount (vf_namespaces v ! n)) = n"
  using vfs_okD(2,3) [OF assms] by (auto simp: namespaces_ok_def mount_shape_def)

lemma mount_in_namespace_cases:
  assumes "vfs_ok v" "mount_in_namespace n source target flags prop v = (r, v')"
  shows "v' = v \<and> is_err r \<or> (\<exists>m parent i. r = Ok m \<and> m < MAX_MOUNTS \<and> \<not> mount_live v m \<and>
    resolve_mount v target n = Ok (parent, i) \<and> i \<noteq> 0 \<and> live_dir (vf_fs v) i \<and>
    mn_propagation (vf_mounts v ! parent) \<noteq> Unbindable \<and> find_mount_child v n parent i = None \<and>
    v' = v\<lparr>vf_mounts := (vf_mounts v)[m := \<lparr>mn_used = True, mn_namespace = n, mn_parent = Some parent,
      mn_mountpoint_inode = i, mn_root_inode = i, mn_source = source, mn_flags = flags, mn_propagation = prop,
      mn_dentry_references = 0\<rparr>]\<rparr>)"
  using assms(2) unfolding mount_in_namespace_def
proof (cases rule: with_fs_cases)
  case 2
  show ?thesis
  proof (cases "resolve_mount v target n")
    case (Inl e)
    then show ?thesis using 2 by (auto simp: is_err_def split: if_splits)
  next
    case (Inr x)
    obtain parent i where x: "x = (parent, i)" by (cases x)
    note rm = resolve_mount_ok [OF assms(1) Inr [unfolded x]]
    have mn: "mount_node_of v parent = Ok (vf_mounts v ! parent)"
      using rm(1) mount_node_of_Ok [OF vfs_okD(2) [OF assms(1)]] by simp
    show ?thesis
    proof (cases "position (\<lambda>node. \<not> mn_used node) (vf_mounts v)")
      case None
      then show ?thesis using 2 Inr x mn by (auto simp: is_err_def split: if_splits)
    next
      case (Some m)
      have "m < MAX_MOUNTS" "\<not> mount_live v m"
        using position_SomeD [OF Some] namespace_rootsD(3) [OF assms(1)] by (auto simp: mount_live_def)
      then show ?thesis using 2 Inr x mn Some rm(2) by (auto simp: is_err_def live_dir_def split: if_splits)
    qed
  qed
qed (simp add: is_err_def)

lemma mount_in_namespace_ok:
  assumes "vfs_ok v" "mount_in_namespace n source target flags prop v = (r, v')"
  shows "vfs_ok v'"
  using mount_in_namespace_cases [OF assms]
proof (elim disjE conjE exE)
  fix m parent i
  assume m: "m < MAX_MOUNTS" "\<not> mount_live v m" and v': "v' = v\<lparr>vf_mounts := (vf_mounts v)[m := \<lparr>mn_used = True,
      mn_namespace = n, mn_parent = Some parent, mn_mountpoint_inode = i, mn_root_inode = i, mn_source = source,
      mn_flags = flags, mn_propagation = prop, mn_dentry_references = 0\<rparr>]\<rparr>" (is "_ = v\<lparr>vf_mounts := _[m := ?node]\<rparr>")
  note d = dead_mount_free [OF assms(1) m] and ns = namespace_rootsD [OF assms(1)]
  have "vfs_ok (v\<lparr>vf_mounts := (vf_mounts v)[m := ?node], vf_namespaces := vf_namespaces v\<rparr>)"
    by (rule vfs_ok_replace_mount [OF assms(1) m(1) d(1,2)]) (use ns d(3) in simp_all)
  then show ?thesis using v' by simp
qed (simp add: assms(1))

lemma unmount_mount_ok:
  assumes "vfs_ok v" "unmount_mount i v = (r, v')"
  shows "vfs_ok v'"
proof (cases "v' = v")
  case False
  note ok = vfs_okD [OF assms(1)] and ns = namespace_rootsD [OF assms(1)]
  from False assms(2) obtain root where u: "mount_live v i" "namespace_root v (mn_namespace (vf_mounts v ! i)) = Ok root"
    "root \<noteq> i" "mn_dentry_references (vf_mounts v ! i) = 0"
    "\<not> list_ex (\<lambda>h. hs_used h \<and> hs_mount h = i) (fs_handles (vf_fs v))"
    "v' = v\<lparr>vf_mounts := (vf_mounts v)[i := mount_node_empty]\<rparr>"
    by (auto simp: unmount_mount_def with_fs_def mount_node_of_Ok [OF ok(2)] elim!: try_res_cases split: if_splits)
  have im: "i < MAX_MOUNTS" using u(1) by (simp add: mount_live_def)
  have count: "dentry_count v i = 0" using u(4) ok(5) im by (simp add: references_ok_def)
  have not_root: "\<forall>n<MAX_NAMESPACES. ns_used (vf_namespaces v ! n) \<longrightarrow> ns_root_mount (vf_namespaces v ! n) \<noteq> i"
    using ns(4) namespace_root_Ok(4) [OF assms(1) u(2)] u(3) by metis
  have "vfs_ok (v\<lparr>vf_mounts := (vf_mounts v)[i := mount_node_empty], vf_namespaces := vf_namespaces v\<rparr>)"
    by (rule vfs_ok_replace_mount [OF assms(1) im _ count])
      (use ns not_root u(5) in \<open>auto simp: mount_node_empty_def list_ex_iff\<close>)
  then show ?thesis using u(6) by simp
qed (simp add: assms(1))

lemma find_from_one_SomeD:
  "find_from_one P xs = Some i \<Longrightarrow> 0 < i \<and> i < length xs \<and> P (xs ! i)"
  by (cases xs) (auto simp: find_from_one_def dest!: position_SomeD)

lemma create_namespace_ok:
  assumes "vfs_ok v" "create_namespace v = (r, v')"
  shows "vfs_ok v'"
proof (cases "v' = v")
  case False
  note ns = namespace_rootsD [OF assms(1)]
  from False assms(2) obtain n m where
    n: "find_from_one (\<lambda>s. \<not> ns_used s) (vf_namespaces v) = Some n" and
    m: "find_from_one (\<lambda>n. \<not> mn_used n) (vf_mounts v) = Some m" and
    v': "v' = v\<lparr>vf_mounts := (vf_mounts v)[m := mount_node_root n],
      vf_namespaces := (vf_namespaces v)[n := \<lparr>ns_used = True, ns_root_mount = m\<rparr>]\<rparr>"
    by (auto simp: create_namespace_def split: if_splits option.splits)
  note n' = find_from_one_SomeD [OF n] and m' = find_from_one_SomeD [OF m]
  have mm: "m < MAX_MOUNTS" "\<not> mount_live v m" using m' ns(3) by (auto simp: mount_live_def)
  note d = dead_mount_free [OF assms(1) mm]
  show ?thesis unfolding v'
    by (rule vfs_ok_replace_mount [OF assms(1) mm(1) d(1,2)])
      (use ns d(3) n' in \<open>auto simp: mount_node_root_def NAMESPACE_ROOT_def nth_update_if\<close>)
qed (simp add: assms(1))

lemma destroy_namespace_ok:
  assumes "vfs_ok v" "destroy_namespace n v = (r, v')"
  shows "vfs_ok v'"
proof (cases "v' = v")
  case False
  note ok = vfs_okD [OF assms(1)] and ns = namespace_rootsD [OF assms(1)]
  from False assms(2) obtain root where u: "n \<noteq> NAMESPACE_ROOT" "namespace_root v n = Ok root"
    "\<not> list_ex (\<lambda>x. mn_used x \<and> mn_namespace x = n \<and> mn_dentry_references x \<noteq> 0) (vf_mounts v)"
    "\<not> list_ex (\<lambda>h. hs_used h \<and> hs_mount h < length (vf_mounts v) \<and> mn_used (vf_mounts v ! hs_mount h) \<and>
       mn_namespace (vf_mounts v ! hs_mount h) = n) (fs_handles (vf_fs v))"
    "v' = v\<lparr>vf_mounts := (vf_mounts v)[root := mount_node_empty],
       vf_namespaces := (vf_namespaces v)[n := namespace_empty]\<rparr>"
    by (auto simp: destroy_namespace_def with_fs_def elim!: try_res_cases split: if_splits)
  note rt = namespace_root_Ok [OF assms(1) u(2)]
  have rm: "root < MAX_MOUNTS" "mn_used (vf_mounts v ! root)" using rt(1) by (simp_all add: mount_live_def)
  have "vf_mounts v ! root \<in> set (vf_mounts v)" using rm(1) ns(3) by simp
  then have count: "dentry_count v root = 0"
    using u(3) rm rt(5) ok(5) by (auto simp: references_ok_def list_ex_iff)
  have handles: "\<forall>h\<in>set (fs_handles (vf_fs v)). hs_used h \<longrightarrow> hs_mount h \<noteq> root"
    using u(4) rm rt(5) ns(3) by (auto simp: list_ex_iff)
  have other: "ns_root_mount (vf_namespaces v ! k) \<noteq> root"
    if "k < MAX_NAMESPACES" "ns_used (vf_namespaces v ! k)" "k \<noteq> n" for k
    using ns(4) that rt(5) by metis
  show ?thesis unfolding u(5)
    by (rule vfs_ok_replace_mount [OF assms(1) rm(1) handles count])
      (use ns u(1) rt other in \<open>auto simp: mount_node_empty_def namespace_empty_def nth_update_if\<close>)
qed (simp add: assms(1))

section \<open>Dentries\<close>

lemma dentry_count_update:
  assumes "slot < length (vf_dentries v)"
  shows "dentry_count (v\<lparr>vf_dentries := (vf_dentries v)[slot := d], vf_mounts := ms\<rparr>) x +
      (if ds_used (vf_dentries v ! slot) \<and> de_mount (ds_dentry (vf_dentries v ! slot)) = x then 1 else 0) =
    dentry_count v x + (if ds_used d \<and> de_mount (ds_dentry d) = x then 1 else 0)"
  using count_update [OF assms, of "\<lambda>d. ds_used d \<and> de_mount (ds_dentry d) = x" d]
  by (simp add: dentry_count_def)

text \<open>Changing one dentry slot together with the reference count of its mount.\<close>

lemma vfs_ok_dentry:
  assumes "vfs_ok v" "slot < MAX_DENTRIES" "mount_live v m"
    "ds_used d \<longrightarrow> de_mount (ds_dentry d) = m"
    "\<forall>x<MAX_MOUNTS. dentry_count (v\<lparr>vf_dentries := (vf_dentries v)[slot := d], vf_mounts := ms\<rparr>) x =
       (if x = m then n else dentry_count v x)"
    "ms = (vf_mounts v)[m := (vf_mounts v ! m)\<lparr>mn_dentry_references := n\<rparr>]"
  shows "vfs_ok (v\<lparr>vf_dentries := (vf_dentries v)[slot := d], vf_mounts := ms\<rparr>)" (is "vfs_ok ?v")
proof -
  note ok = vfs_okD [OF assms(1)]
  have m: "m < MAX_MOUNTS" "m < length (vf_mounts v)" using assms(3) ok(2) by (simp_all add: mount_live_def mount_shape_def)
  have nth: "vf_mounts ?v ! x = (if x = m then (vf_mounts v ! m)\<lparr>mn_dentry_references := n\<rparr> else vf_mounts v ! x)" for x
    using m by (simp add: assms(6) nth_update_if)
  have l: "mount_live ?v x = mount_live v x" for x unfolding mount_live_def nth by simp
  have "mount_shape ?v" using ok(2) by (simp add: mount_shape_def assms(6))
  moreover have "namespaces_ok ?v" using ok(3) unfolding namespaces_ok_def l nth by auto
  moreover have "bind_ok ?v" using ok(4) unfolding bind_ok_def l nth by auto
  moreover have "references_ok ?v"
    using ok(5) assms(3-5) set_update_subset_insert [of "vf_dentries v" slot d]
    unfolding references_ok_def l nth by auto
  ultimately show ?thesis using ok(1) by (simp add: vfs_ok_def)
qed

lemma lookup_ok:
  assumes "vfs_ok v" "lookup_in_namespace n path v = (r, v')"
  shows "vfs_ok v'"
proof (cases "v' = v")
  case False
  note ok = vfs_okD [OF assms(1)]
  from False assms(2) obtain m i slot where u: "resolve_mount v path n = Ok (m, i)"
    "position (\<lambda>d. \<not> ds_used d) (vf_dentries v) = Some slot"
    "v' = v\<lparr>vf_dentries := (vf_dentries v)[slot := \<lparr>ds_used = True, ds_dentry = \<lparr>de_mount = m, de_inode = i\<rparr>\<rparr>],
       vf_mounts := (vf_mounts v)[m := (vf_mounts v ! m)\<lparr>mn_dentry_references := mn_dentry_references (vf_mounts v ! m) + 1\<rparr>]\<rparr>"
    by (auto simp: lookup_in_namespace_def with_fs_def Let_def elim!: try_res_cases split: if_splits option.splits)
  note rm = resolve_mount_ok [OF assms(1) u(1)] and s = position_SomeD [OF u(2)]
  have m: "m < MAX_MOUNTS" using rm(1) by (simp add: mount_live_def)
  have "slot < MAX_DENTRIES" using s ok(2) by (simp add: mount_shape_def)
  moreover have "mn_dentry_references (vf_mounts v ! m) = dentry_count v m" using ok(5) m by (simp add: references_ok_def)
  moreover note dentry_count_update [of slot v, where d = "\<lparr>ds_used = True, ds_dentry = \<lparr>de_mount = m, de_inode = i\<rparr>\<rparr>"]
  ultimately show ?thesis unfolding u(3)
    by (intro vfs_ok_dentry [OF assms(1) _ rm(1)]) (use s in auto)
qed (simp add: assms(1))

lemma release_dentry_ok:
  assumes "vfs_ok v" "release_dentry h v = (r, v')"
  shows "vfs_ok v'"
proof (cases "v' = v")
  case False
  note ok = vfs_okD [OF assms(1)]
  let ?m = "de_mount (dh_dentry h)"
  from False assms(2) have u: "dh_slot h < MAX_DENTRIES" "ds_used (vf_dentries v ! dh_slot h)"
    "ds_dentry (vf_dentries v ! dh_slot h) = dh_dentry h"
    "v' = v\<lparr>vf_dentries := (vf_dentries v)[dh_slot h := dentry_empty],
       vf_mounts := (vf_mounts v)[?m := (vf_mounts v ! ?m)\<lparr>mn_dentry_references := mn_dentry_references (vf_mounts v ! ?m) - 1\<rparr>]\<rparr>"
    by (auto simp: release_dentry_def with_fs_def Let_def split: if_splits)
  have len: "dh_slot h < length (vf_dentries v)" using u(1) ok(2) by (simp add: mount_shape_def)
  have live: "mount_live v ?m" using nth_mem [OF len] u(2,3) ok(5) by (auto simp: references_ok_def)
  then have m: "?m < MAX_MOUNTS" by (simp add: mount_live_def)
  have n: "mn_dentry_references (vf_mounts v ! ?m) = dentry_count v ?m" using ok(5) m by (simp add: references_ok_def)
  have unused: "\<not> ds_used dentry_empty" by (simp add: dentry_empty_def)
  have c: "dentry_count (v\<lparr>vf_dentries := (vf_dentries v)[dh_slot h := dentry_empty], vf_mounts := ms\<rparr>) x =
      (if x = ?m then dentry_count v ?m - 1 else dentry_count v x)" for ms x
    using dentry_count_update [OF len, where d = dentry_empty and ms = ms and x = x] u(2,3) unused
    by (auto split: if_splits)
  show ?thesis unfolding u(4) n
    by (rule vfs_ok_dentry [OF assms(1) u(1) live]) (use unused c in auto)
qed (simp add: assms(1))

section \<open>The initial file system\<close>

lemma new_fs_nth:
  "i < MAX_INODES \<Longrightarrow> fs_inodes file_system_new ! i = (if i = 0 then inode_new Directory 0 493 else inode_empty)"
  by (simp add: file_system_new_def nth_update_if)

lemma new_fs_handles: "fs_handles file_system_new = replicate MAX_OPEN_HANDLES handle_empty"
  by (simp add: file_system_new_def)

lemma tree_ok_new: "tree_ok file_system_new"
proof -
  have no: "\<not> is_entry file_system_new p s" for p s
    by (auto simp: is_entry_def entry_def new_fs_nth inode_new_def inode_empty_def child_empty_def)
  have live: "live file_system_new i \<longleftrightarrow> i = 0" for i
    by (auto simp: live_def new_fs_nth inode_new_def inode_empty_def MAX_INODES_def split: if_splits)
  have "shape_ok file_system_new"
    by (auto simp: shape_ok_def new_fs_nth inode_new_def inode_empty_def) (simp_all add: file_system_new_def)
  moreover have "entries_ok file_system_new" by (simp add: entries_ok_def no)
  moreover have "linked file_system_new"
    unfolding linked_def live live_dir_def
    by (auto intro: to_root.root simp: new_fs_nth inode_new_def MAX_INODES_def)
  moreover have "handles_ok file_system_new"
    by (auto simp: handles_ok_def file_system_new_def handle_empty_def)
  ultimately show ?thesis by (simp add: tree_ok_def)
qed

lemma static_ok: "vfs_ok vfs_static"
  unfolding vfs_ok_def using tree_ok_new
  by (auto simp: vfs_static_def mount_shape_def namespaces_ok_def bind_ok_def references_ok_def
      mount_live_def dentry_count_def namespace_empty_def mount_node_empty_def dentry_empty_def new_fs_handles
      handle_empty_def)

lemma mount_ramfs_ok:
  assumes "vfs_ok v" "mount_ramfs v = (r, v')"
  shows "vfs_ok v'"
proof (cases "vf_mounted v")
  case False
  with assms(2) have v': "v' = \<lparr>vf_fs = file_system_new, vf_mounted = True,
      vf_mounts = (replicate MAX_MOUNTS mount_node_empty)[MOUNT_ROOT := mount_node_root NAMESPACE_ROOT],
      vf_namespaces = (replicate MAX_NAMESPACES namespace_empty)[NAMESPACE_ROOT := \<lparr>ns_used = True, ns_root_mount = MOUNT_ROOT\<rparr>],
      vf_dentries = replicate MAX_DENTRIES dentry_empty\<rparr>" by (simp add: mount_ramfs_def)
  have m: "vf_mounts v' ! x = (if x = 0 then mount_node_root NAMESPACE_ROOT else mount_node_empty)" if "x < MAX_MOUNTS" for x
    using that by (simp add: v' MOUNT_ROOT_def nth_update_if)
  have n: "vf_namespaces v' ! x = (if x = 0 then \<lparr>ns_used = True, ns_root_mount = MOUNT_ROOT\<rparr> else namespace_empty)"
    if "x < MAX_NAMESPACES" for x
    using that by (simp add: v' NAMESPACE_ROOT_def nth_update_if)
  have l: "mount_live v' x \<longleftrightarrow> x = 0" for x
    by (auto simp: mount_live_def m mount_node_root_def mount_node_empty_def MAX_MOUNTS_def split: if_splits)
  have "namespaces_ok v'"
    unfolding namespaces_ok_def l
    by (auto simp: n m namespace_empty_def NAMESPACE_ROOT_def MOUNT_ROOT_def mount_node_root_def MAX_NAMESPACES_def MAX_MOUNTS_def)
  moreover have "bind_ok v'" unfolding bind_ok_def l by (simp add: m MAX_MOUNTS_def mount_node_root_def)
  moreover have "references_ok v'"
    unfolding references_ok_def
    by (auto simp: m mount_node_root_def mount_node_empty_def)
      (auto simp: v' file_system_new_def handle_empty_def dentry_count_def dentry_empty_def)
  moreover have "mount_shape v'" by (simp add: v' mount_shape_def)
  ultimately show ?thesis using tree_ok_new by (simp add: vfs_ok_def v')
qed (use assms in \<open>simp add: mount_ramfs_def\<close>)

lemma unmount_ramfs_ok: "vfs_ok v \<Longrightarrow> unmount_ramfs v = (r, v') \<Longrightarrow> vfs_ok v'"
  by (auto simp: unmount_ramfs_def vfs_ok_def mount_shape_def namespaces_ok_def bind_ok_def references_ok_def
      mount_live_def dentry_count_def split: if_splits)

end
