(* ===== verification/Vfs_Path.thy ===== *)
theory Vfs_Path
  imports Vfs
begin

text \<open>
  Path parsing of \<open>src/vfs.rs\<close> against a reference: split the path at its slashes, drop the empty parts
  and run the others through a stack on which \<open>.\<close> does nothing and \<open>..\<close> removes the last name.  The
  byte loop of \<open>parse_path\<close> computes the same names and the same errors.
\<close>

fun split_slash :: "u8 list \<Rightarrow> u8 list list" where
  "split_slash [] = [[]]"
| "split_slash (b # bs) =
     (if b = 0x2f then [] # split_slash bs else (b # hd (split_slash bs)) # tl (split_slash bs))"

fun normalise :: "u8 list list \<Rightarrow> u8 list list \<Rightarrow> vfs_error + u8 list list" where
  "normalise stack [] = Ok stack"
| "normalise stack (part # parts) =
     (if 0 \<in> set part then Err V_InvalidPath
      else if part = [0x2e] then normalise stack parts
      else if part = [0x2e, 0x2e] then normalise (butlast stack) parts
      else if length part > NAME_MAX then Err V_NameTooLong
      else if length stack = MAX_COMPONENTS then Err V_InvalidPath
      else normalise (stack @ [part]) parts)"

definition reference_path :: "u8 list \<Rightarrow> vfs_error + u8 list list" where
  "reference_path path =
     (if path = [] \<or> hd path \<noteq> 0x2f \<or> length path > MAX_PATH then Err V_InvalidPath
      else normalise [] (filter (\<lambda>part. part \<noteq> []) (split_slash (tl path))))"

definition parsed_names :: "vfs_name list \<times> nat \<Rightarrow> vfs_name list" where
  "parsed_names r = take (snd r) (fst r)"

abbreviation nonempty_parts :: "u8 list \<Rightarrow> u8 list list" where
  "nonempty_parts bytes \<equiv> filter (\<lambda>part. part \<noteq> []) (split_slash bytes)"

lemma split_slash_nonempty [simp]: "split_slash bs \<noteq> []"
  by (cases bs) auto

lemma nonempty_parts_skip: "nonempty_parts (skip_slashes bs) = nonempty_parts bs"
  by (induction bs) auto

lemma take_part_split:
  "take_part bs = Some (part, rest) \<Longrightarrow>
   hd (split_slash bs) = part \<and> 0 \<notin> set part \<and>
   filter (\<lambda>p. p \<noteq> []) (tl (split_slash bs)) = nonempty_parts rest"
  by (induction bs arbitrary: part rest) (auto split: if_splits)

lemma take_part_None: "take_part bs = None \<Longrightarrow> 0 \<in> set (hd (split_slash bs))"
  by (induction bs) (auto split: if_splits)

lemma skip_slashes_head: "skip_slashes bs = b # cs \<Longrightarrow> b \<noteq> 0x2f"
  by (induction bs) (auto split: if_splits)

lemma skip_slashes_Nil: "skip_slashes bs = [] \<Longrightarrow> nonempty_parts bs = []"
  using nonempty_parts_skip [of bs] by simp

lemma nonempty_parts_first:
  assumes "skip_slashes bs \<noteq> []"
  shows "nonempty_parts bs = hd (split_slash (skip_slashes bs)) #
    filter (\<lambda>p. p \<noteq> []) (tl (split_slash (skip_slashes bs)))"
proof -
  obtain b cs where c: "skip_slashes bs = b # cs" using assms by (cases "skip_slashes bs") auto
  from skip_slashes_head [OF this] show ?thesis
    unfolding nonempty_parts_skip [of bs, symmetric] c by simp
qed

text \<open>The loop keeps the names of the stack in the first \<open>count\<close> entries of its array.\<close>

lemma parse_loop_normalise:
  assumes "length components = MAX_COMPONENTS" "take count components = map name_of stack"
    "count = length stack"
  shows "(case parse_loop bytes components count of Inl e \<Rightarrow> Inl e | Inr r \<Rightarrow> Inr (parsed_names r)) =
    and_then (normalise stack (nonempty_parts bytes)) (\<lambda>parts. Ok (map name_of parts))"
  using assms
proof (induction "length bytes" arbitrary: bytes components count stack rule: less_induct)
  case less
  show ?case
  proof (cases "skip_slashes bytes = []")
    case True
    then show ?thesis
      using less.prems by (simp add: parse_loop.simps [of bytes] skip_slashes_Nil parsed_names_def and_then_def)
  next
    case False
    note first = nonempty_parts_first [OF False]
    show ?thesis
    proof (cases "take_part (skip_slashes bytes)")
      case None
      then show ?thesis
        using False take_part_None [OF None] by (simp add: parse_loop.simps [of bytes] first and_then_def)
    next
      case (Some pr)
      obtain part rest where pr: "pr = (part, rest)" by (cases pr)
      note tp = Some [unfolded pr]
      note sp = take_part_split [OF tp]
      have parts: "nonempty_parts bytes = part # nonempty_parts rest" using first sp by simp
      note shorter = take_part_progress [OF tp False]
      note IH = less.hyps [OF shorter]
      have step: "parse_loop bytes components count =
         (if part = [0x2e] then parse_loop rest components count
          else if part = [0x2e, 0x2e] then parse_loop rest components (count - 1)
          else if length part > NAME_MAX then Err V_NameTooLong
          else if count = MAX_COMPONENTS then Err V_InvalidPath
          else parse_loop rest (components[count := name_of part]) (count + 1))"
        using False tp by (simp add: parse_loop.simps [of bytes])
      have le: "count \<le> length components"
        using arg_cong [OF less.prems(2), of length] less.prems(3) by simp
      have pop: "take (count - 1) components = map name_of (butlast stack)"
        using less.prems le by (metis butlast_take map_butlast)
      have push: "take (count + 1) (components[count := name_of part]) = map name_of (stack @ [part])"
        if "count \<noteq> MAX_COMPONENTS"
      proof -
        have "count < length components" using that le less.prems(1) by simp
        then show ?thesis using less.prems by (simp add: take_Suc_conv_app_nth)
      qed
      show ?thesis
        unfolding step parts using sp less.prems IH [OF less.prems] IH [OF _ pop] IH [OF _ push]
        by (simp add: and_then_def)
    qed
  qed
qed

lemma parse_path_reference:
  "(case parse_path path of Inl e \<Rightarrow> Inl e | Inr r \<Rightarrow> Inr (parsed_names r)) =
   and_then (reference_path path) (\<lambda>parts. Ok (map name_of parts))"
  unfolding parse_path_def reference_path_def
  by (simp add: parse_loop_normalise [where stack = "[]"] and_then_def)

section \<open>Printing and parsing\<close>

definition good_part :: "u8 list \<Rightarrow> bool" where
  "good_part p \<longleftrightarrow> p \<noteq> [] \<and> 0 \<notin> set p \<and> 0x2f \<notin> set p \<and> p \<noteq> [0x2e] \<and> p \<noteq> [0x2e, 0x2e] \<and> length p \<le> NAME_MAX"

definition join_path :: "u8 list list \<Rightarrow> u8 list" where
  "join_path parts = (if parts = [] then [0x2f] else concat (map ((#) 0x2f) parts))"

lemma split_slash_append:
  "0x2f \<notin> set p \<Longrightarrow> split_slash (p @ 0x2f # bs) = p # split_slash bs"
  by (induction p) auto

lemma split_slash_plain: "0x2f \<notin> set p \<Longrightarrow> split_slash p = [p]"
  by (induction p) auto

lemma no_slash_split: "p \<in> set (split_slash bs) \<Longrightarrow> 0x2f \<notin> set p"
proof (induction bs arbitrary: p)
  case Nil
  then show ?case by simp
next
  case (Cons b bs)
  have "hd (split_slash bs) \<in> set (split_slash bs)" "set (tl (split_slash bs)) \<subseteq> set (split_slash bs)"
    by (auto intro: list.set_sel)
  with Cons show ?case by (auto split: if_splits)
qed

lemma nonempty_parts_join:
  "list_all good_part parts \<Longrightarrow> parts \<noteq> [] \<Longrightarrow> nonempty_parts (tl (concat (map ((#) 0x2f) parts))) = parts"
proof (induction parts rule: induct_list012)
  case (3 p q parts)
  have "tl (concat (map ((#) 0x2f) (p # q # parts))) = p @ 0x2f # tl (concat (map ((#) 0x2f) (q # parts)))"
    by simp
  with 3 show ?case by (simp add: split_slash_append good_part_def)
qed (auto simp: split_slash_plain good_part_def)

lemma normalise_good:
  "list_all good_part parts \<Longrightarrow> length stack + length parts \<le> MAX_COMPONENTS \<Longrightarrow>
   normalise stack parts = Ok (stack @ parts)"
  by (induction parts arbitrary: stack) (auto simp: good_part_def)

lemma reference_join:
  assumes "list_all good_part parts" "length parts \<le> MAX_COMPONENTS" "length (join_path parts) \<le> MAX_PATH"
  shows "reference_path (join_path parts) = Ok parts"
proof (cases "parts = []")
  case True
  then show ?thesis by (simp add: reference_path_def join_path_def MAX_PATH_def)
next
  case False
  have "hd (join_path parts) = 0x2f" "join_path parts \<noteq> []"
    using False by (cases parts; simp add: join_path_def)+
  with assms False show ?thesis
    by (simp add: reference_path_def join_path_def nonempty_parts_join normalise_good)
qed

lemma normalise_good_result:
  "normalise stack parts = Ok r \<Longrightarrow> list_all good_part stack \<Longrightarrow> length stack \<le> MAX_COMPONENTS \<Longrightarrow>
   \<forall>p\<in>set parts. p \<noteq> [] \<and> 0x2f \<notin> set p \<Longrightarrow> list_all good_part r \<and> length r \<le> MAX_COMPONENTS"
proof (induction parts arbitrary: stack)
  case (Cons part parts)
  have pop: "list_all good_part (butlast stack)" "length (butlast stack) \<le> MAX_COMPONENTS"
    using Cons.prems(2,3) by (auto simp: list_all_iff dest: in_set_butlastD)
  have rest: "\<forall>p\<in>set parts. p \<noteq> [] \<and> 0x2f \<notin> set p" using Cons.prems(4) by simp
  consider "normalise stack parts = Ok r" | "normalise (butlast stack) parts = Ok r"
    | "good_part part" "length stack < MAX_COMPONENTS" "normalise (stack @ [part]) parts = Ok r"
  proof -
    have "part \<noteq> []" "0x2f \<notin> set part" using Cons.prems(4) by simp_all
    then have "good_part part"
      if "0 \<notin> set part" "part \<noteq> [0x2e]" "part \<noteq> [0x2e, 0x2e]" "\<not> length part > NAME_MAX"
      using that by (simp add: good_part_def)
    moreover have "length stack < MAX_COMPONENTS" if "length stack \<noteq> MAX_COMPONENTS"
      using that Cons.prems(3) by simp
    ultimately show thesis using Cons.prems(1) that by (simp only: normalise.simps split: if_splits) simp_all
  qed
  then show ?case
  proof cases
    case 1
    then show ?thesis using Cons.prems(2,3) rest by (rule Cons.IH)
  next
    case 2
    then show ?thesis using pop rest by (rule Cons.IH)
  next
    case 3
    have "list_all good_part (stack @ [part])" "length (stack @ [part]) \<le> MAX_COMPONENTS"
      using 3(1,2) Cons.prems(2) by simp_all
    with 3(3) show ?thesis using rest by (rule Cons.IH)
  qed
qed simp

lemma reference_good:
  assumes "reference_path path = Ok parts"
  shows "list_all good_part parts \<and> length parts \<le> MAX_COMPONENTS"
proof (rule normalise_good_result)
  show "normalise [] (nonempty_parts (tl path)) = Ok parts"
    using assms by (simp only: reference_path_def split: if_splits) simp_all
qed (auto dest: no_slash_split)

lemma name_of_inj:
  assumes "name_of p = name_of q"
  shows "p = q"
proof -
  have "length p = length q" "write_at 0 p (nm_bytes name_empty) = write_at 0 q (nm_bytes name_empty)"
    using assms by (simp_all add: name_of_def)
  then show ?thesis by (metis take_write_at_0)
qed

lemma parsed_names_reference:
  "parse_path path = Ok r \<longleftrightarrow>
     (\<exists>parts. reference_path path = Ok parts \<and> parsed_names r = map name_of parts \<and> parse_path path = Ok r)"
  using parse_path_reference [of path] by (cases "reference_path path") (auto simp: and_then_def)

text \<open>
  Claim C9.  The byte loop of \<open>parse_path\<close> computes what the reference computes on every path: split
  at the slashes, drop empty parts, run \<open>.\<close> and \<open>..\<close> on a stack, with the same error in the same order
  for a zero byte, a part longer than \<open>NAME_MAX\<close>, a seventeenth name, a relative or an overlong path.
\<close>

theorem parse_path_is_reference:
  "(case parse_path path of Inl e \<Rightarrow> Inl e | Inr r \<Rightarrow> Inr (parsed_names r)) =
   and_then (reference_path path) (\<lambda>parts. Ok (map name_of parts))"
  by (rule parse_path_reference)

text \<open>
  Printing and parsing are inverse: a list of at most \<open>MAX_COMPONENTS\<close> proper names whose
  printed path fits \<open>MAX_PATH\<close> is what \<open>parse_path\<close> reads back, and no two lists of names print to paths
  with the same parse.
\<close>

theorem parse_path_round_trip:
  assumes "list_all good_part parts" "length parts \<le> MAX_COMPONENTS" "length (join_path parts) \<le> MAX_PATH"
    and "list_all good_part others" "length others \<le> MAX_COMPONENTS" "length (join_path others) \<le> MAX_PATH"
  shows "(\<exists>r. parse_path (join_path parts) = Ok r \<and> parsed_names r = map name_of parts) \<and>
    (parse_path (join_path parts) = parse_path (join_path others) \<longrightarrow> parts = others)"
proof -
  have *: "\<exists>r. parse_path (join_path ps) = Ok r \<and> parsed_names r = map name_of ps"
    if "list_all good_part ps" "length ps \<le> MAX_COMPONENTS" "length (join_path ps) \<le> MAX_PATH" for ps
    using parse_path_reference [of "join_path ps"] reference_join [OF that]
    by (cases "parse_path (join_path ps)") (auto simp: and_then_def)
  have "inj name_of" using name_of_inj by (rule injI)
  then have "map name_of parts = map name_of others \<Longrightarrow> parts = others" by (simp add: inj_eq inj_map)
  with * [OF assms(1-3)] * [OF assms(4-6)] show ?thesis by (metis sum.inject(2))
qed

theorem parse_path_round_trip_witness:
  "list_all good_part [[0x61], [0x62, 0x2e]] \<and>
   (\<exists>r. parse_path [0x2f, 0x61, 0x2f, 0x62, 0x2e] = Ok r \<and> parsed_names r = [name_of [0x61], name_of [0x62, 0x2e]])"
  using parse_path_round_trip [of "[[0x61], [0x62, 0x2e]]" "[[0x61]]"]
  by (simp add: good_part_def join_path_def MAX_COMPONENTS_def MAX_PATH_def NAME_MAX_def)

end
