(* ===== verification/Vfs_Steps.thy ===== *)
theory Vfs_Steps
  imports Vfs_Invariant Vfs_Path
begin

text \<open>
  Histories of the virtual file system (\<open>src/vfs.rs\<close>): one step rule per operation that changes state,
  and the properties of every history: the tree, the effect of the directory operations on lookups,
  the protection of read-only mounts, and that a file reads back as it was written.
\<close>

section \<open>Steps\<close>

inductive vfs_step :: "vfs \<Rightarrow> vfs \<Rightarrow> bool" where
  "mount_ramfs v = (r, v') \<Longrightarrow> vfs_step v v'"
| "unmount_ramfs v = (r, v') \<Longrightarrow> vfs_step v v'"
| "mount_in_namespace n source target flags prop v = (m, v') \<Longrightarrow> vfs_step v v'"
| "unmount_mount i v = (r, v') \<Longrightarrow> vfs_step v v'"
| "create_namespace v = (n, v') \<Longrightarrow> vfs_step v v'"
| "destroy_namespace n v = (r, v') \<Longrightarrow> vfs_step v v'"
| "lookup_in_namespace n path v = (d, v') \<Longrightarrow> vfs_step v v'"
| "release_dentry d v = (r, v') \<Longrightarrow> vfs_step v v'"
| "vfs_open path opts v = (h, v') \<Longrightarrow> vfs_step v v'"
| "vfs_close h v = (r, v') \<Longrightarrow> vfs_step v v'"
| "write_handle h input v = (n, h', v') \<Longrightarrow> vfs_step v v'"
| "vfs_chmod path mode v = (r, v') \<Longrightarrow> vfs_step v v'"
| "vfs_mkdir path v = (r, v') \<Longrightarrow> vfs_step v v'"
| "vfs_unlink path v = (r, v') \<Longrightarrow> vfs_step v v'"
| "vfs_remove_dir path v = (r, v') \<Longrightarrow> vfs_step v v'"
| "vfs_rename old_path new_path v = (r, v') \<Longrightarrow> vfs_step v v'"

lemmas vfs_ok_intros = mount_ramfs_ok unmount_ramfs_ok mount_in_namespace_ok unmount_mount_ok create_namespace_ok
  destroy_namespace_ok lookup_ok release_dentry_ok open_ok close_ok

lemmas fs_change_intros = write_handle_change chmod_change mkdir_change unlink_change remove_dir_change rename_fs_change

lemma vfs_step_ok: "vfs_step v v' \<Longrightarrow> vfs_ok v \<Longrightarrow> vfs_ok v'"
  by (induction rule: vfs_step.induct) (blast intro: vfs_ok_intros fs_change_ok fs_change_intros)+

definition vfs_start :: "vfs \<Rightarrow> bool" where
  "vfs_start v \<longleftrightarrow> v = vfs_static"

interpretation vfssys: step_invariant vfs_start vfs_step vfs_ok
  by unfold_locales (auto simp: vfs_start_def static_ok intro: vfs_step_ok)

section \<open>Lookups in directories\<close>

text \<open>The directories as one map from a directory and a name to an inode.\<close>

definition dirs :: "vfs \<Rightarrow> (nat \<times> vfs_name) \<rightharpoonup> nat" where
  "dirs v = (\<lambda>(p, name). if p < MAX_INODES then find_child (vf_fs v) p name else None)"

lemma dirs_live:
  assumes "vfs_ok v" "dirs v (p, name) = Some i"
  shows "live_dir (vf_fs v) p" "live (vf_fs v) i" "i \<noteq> 0" "up (vf_fs v) i = p"
  using assms find_child_live [OF vfs_okD(1) [OF assms(1)]] by (auto simp: dirs_def split: if_splits)

text \<open>No two entries name the same inode.\<close>

lemma dirs_inj:
  assumes "vfs_ok v" "dirs v (p, name) = Some i" "dirs v (q, other) = Some i"
  shows "p = q" "name = other"
proof -
  note ok = tree_okD [OF vfs_okD(1) [OF assms(1)]]
  show pq: "p = q" using dirs_live(4) [OF assms(1,2)] dirs_live(4) [OF assms(1,3)] by simp
  have p: "p < MAX_INODES" using assms(2) by (auto simp: dirs_def split: if_splits)
  obtain s s' where "is_entry (vf_fs v) p s" "ch_name (entry (vf_fs v) p s) = name" "ch_inode (entry (vf_fs v) p s) = i"
    "is_entry (vf_fs v) p s'" "ch_name (entry (vf_fs v) p s') = other" "ch_inode (entry (vf_fs v) p s') = i"
    using assms(2,3) pq find_child_Some_iff [OF ok(2,1) p] p by (auto simp: dirs_def)
  then show "name = other" using entry_inode_unique [OF ok(2)] by metis
qed

lemma dirs_complete:
  assumes "vfs_ok v" "live (vf_fs v) i" "i \<noteq> 0"
  shows "\<exists>name. dirs v (up (vf_fs v) i, name) = Some i"
proof -
  note ok = tree_okD [OF vfs_okD(1) [OF assms(1)]]
  obtain s where s: "is_entry (vf_fs v) (up (vf_fs v) i) s" "ch_inode (entry (vf_fs v) (up (vf_fs v) i) s) = i"
    using linked_entry [OF ok(3) assms(2,3)] by blast
  then have "up (vf_fs v) i < MAX_INODES" by (simp add: is_entry_def)
  with s find_child_Some_iff [OF ok(2,1) this] show ?thesis by (auto simp: dirs_def)
qed

lemma dirs_mkdir:
  assumes "vfs_ok v" "vfs_mkdir path v = (r, v')"
  shows "case r of Inl e \<Rightarrow> v' = v
    | Inr _ \<Rightarrow> \<exists>m p name i. parent_and_name_mount v path NAMESPACE_ROOT = Ok (m, p, name) \<and>
        dirs v (p, name) = None \<and> \<not> live (vf_fs v) i \<and> live_dir (vf_fs v') i \<and> dirs v' = (dirs v)((p, name) \<mapsto> i)"
  using assms(2) unfolding vfs_mkdir_def
proof (cases rule: with_fs_cases)
  case 2
  from 2(2) show ?thesis
  proof (cases rule: try_res_cases)
    case (2 x)
    obtain m p name where x: "x = (m, p, name)" by (cases x)
    note pn = parent_and_name_ok [OF assms(1) 2(1) [unfolded x]]
    note tree = vfs_okD(1) [OF assms(1)]
    have p: "p < MAX_INODES" using pn(2) by (simp add: live_dir_def live_def)
    obtain r1 fs where c: "create_node_at p name Directory 493 (vf_fs v) = (r1, fs)" by fastforce
    have res: "v' = v \<and> r = Err V_ReadOnly \<or> v' = v\<lparr>vf_fs := fs\<rparr> \<and>
        r = (case r1 of Inl e \<Rightarrow> Inl e | Inr _ \<Rightarrow> Inr ())"
      using 2(2) c mount_flags_ok [OF assms(1) pn(1)] by (cases r1) (auto simp: x split: if_splits)
    from create_node_at_spec [OF tree pn(2) c] show ?thesis
    proof
      assume "\<exists>e. r1 = Err e \<and> fs = vf_fs v"
      with res show ?thesis by auto
    next
      assume "\<exists>i slot. r1 = Ok i \<and> i < MAX_INODES \<and> \<not> live (vf_fs v) i \<and> slot < MAX_CHILDREN \<and>
        \<not> is_entry (vf_fs v) p slot \<and> find_child (vf_fs v) p name = None \<and>
        fs = insert_node p slot name i (inode_new Directory p 493) (vf_fs v)"
      then obtain i slot where i: "r1 = Ok i" "i < MAX_INODES" "\<not> live (vf_fs v) i" "slot < MAX_CHILDREN"
        "\<not> is_entry (vf_fs v) p slot" "find_child (vf_fs v) p name = None"
        "fs = insert_node p slot name i (inode_new Directory p 493) (vf_fs v)" by blast
      have "live_dir fs i" unfolding i(7)
        by (subst insert_node_access(4) [OF tree pn(2) i(2-4)]) (simp_all add: inode_new_def)
      moreover have "dirs (v\<lparr>vf_fs := fs\<rparr>) = (dirs v)((p, name) \<mapsto> i)"
        using find_child_insert_node [OF tree pn(2) i(2-6)] p unfolding i(7) by (auto simp: dirs_def fun_eq_iff)
      ultimately show ?thesis using res i(1,3,6) 2(1) p by (auto simp: x dirs_def)
    qed
  qed simp
qed simp

text \<open>\<open>unlink\<close> and \<open>remove_dir\<close> up to the test of the node to remove.\<close>

lemma dirs_drop_child:
  assumes "vfs_ok v" "live_dir (vf_fs v) p" "find_child (vf_fs v) p name = Some i" "drop_child p name i v = (r, v')"
    "\<forall>s. \<not> is_entry (vf_fs v) i s" "\<not> has_open_handle (vf_fs v) i"
  shows "r = Ok ()" "dirs v (p, name) = Some i" "dirs v' = (dirs v)((p, name) := None)" "\<not> live (vf_fs v') i"
proof -
  note tree = vfs_okD(1) [OF assms(1)]
  have p: "p < MAX_INODES" using assms(2) by (simp add: live_dir_def live_def)
  from drop_child_spec [OF tree p assms(3,4)] obtain slot where
    s: "r = Ok ()" "is_entry (vf_fs v) p slot" "ch_name (entry (vf_fs v) p slot) = name" "ch_inode (entry (vf_fs v) p slot) = i"
      "v' = v\<lparr>vf_fs := remove_node p slot i (vf_fs v)\<rparr>" by blast
  show "r = Ok ()" "dirs v (p, name) = Some i" using s(1) assms(3) p by (simp_all add: dirs_def)
  show "dirs v' = (dirs v)((p, name) := None)"
    using find_child_remove_node [OF tree s(2,4) assms(5,6)] p s(3) unfolding s(5) by (auto simp: dirs_def fun_eq_iff)
  show "\<not> live (vf_fs v') i" using remove_node_access(3) [OF tree s(2,4) assms(5)] unfolding s(5) by simp
qed

lemma dirs_unlink:
  assumes "vfs_ok v" "vfs_unlink path v = (r, v')"
  shows "case r of Inl e \<Rightarrow> v' = v
    | Inr _ \<Rightarrow> \<exists>m p name i. parent_and_name_mount v path NAMESPACE_ROOT = Ok (m, p, name) \<and>
        dirs v (p, name) = Some i \<and> \<not> live_dir (vf_fs v) i \<and> \<not> has_open_handle (vf_fs v) i \<and>
        \<not> live (vf_fs v') i \<and> dirs v' = (dirs v)((p, name) := None)"
  using assms(2) unfolding vfs_unlink_def
proof (cases rule: with_fs_cases)
  case 2
  from 2(2) show ?thesis
  proof (cases rule: try_res_cases)
    case (2 x)
    obtain m p name where x: "x = (m, p, name)" by (cases x)
    note pn = parent_and_name_ok [OF assms(1) 2(1) [unfolded x]]
    consider e where "r = Err e" "v' = v"
      | i where "find_child (vf_fs v) p name = Some i" "in_kind (fs_inodes (vf_fs v) ! i) \<noteq> Directory"
        "\<not> has_open_handle (vf_fs v) i" "drop_child p name i v = (r, v')"
      using 2(2) mount_flags_ok [OF assms(1) pn(1)]
      by (cases "find_child (vf_fs v) p name") (auto simp: x ok_or_def split: if_splits)
    then show ?thesis
    proof cases
      case (2 i)
      note d = dirs_drop_child [OF assms(1) pn(2) 2(1,4) _ 2(3)] and ne = file_no_entry [OF vfs_okD(1) [OF assms(1)] 2(2)]
      show ?thesis using d ne \<open>parent_and_name_mount v path NAMESPACE_ROOT = Inr x\<close> 2(2,3)
        by (auto simp: x live_dir_def)
    qed simp
  qed simp
qed simp

lemma dirs_remove_dir:
  assumes "vfs_ok v" "vfs_remove_dir path v = (r, v')"
  shows "case r of Inl e \<Rightarrow> v' = v
    | Inr _ \<Rightarrow> \<exists>m p name i. parent_and_name_mount v path NAMESPACE_ROOT = Ok (m, p, name) \<and>
        dirs v (p, name) = Some i \<and> live_dir (vf_fs v) i \<and> (\<forall>other. dirs v (i, other) = None) \<and>
        \<not> live (vf_fs v') i \<and> dirs v' = (dirs v)((p, name) := None)"
  using assms(2) unfolding vfs_remove_dir_def
proof (cases rule: with_fs_cases)
  case 2
  from 2(2) show ?thesis
  proof (cases rule: try_res_cases)
    case (2 x)
    obtain m p name where x: "x = (m, p, name)" by (cases x)
    note pn = parent_and_name_ok [OF assms(1) 2(1) [unfolded x]]
    note tree = vfs_okD(1) [OF assms(1)]
    have p: "p < MAX_INODES" using pn(2) by (simp add: live_dir_def live_def)
    consider e where "r = Err e" "v' = v"
      | i where "find_child (vf_fs v) p name = Some i" "in_kind (fs_inodes (vf_fs v) ! i) = Directory"
        "\<not> list_ex ch_used (in_children (fs_inodes (vf_fs v) ! i))" "drop_child p name i v = (r, v')"
      using 2(2) mount_flags_ok [OF assms(1) pn(1)]
      by (cases "find_child (vf_fs v) p name") (auto simp: x ok_or_def split: if_splits)
    then show ?thesis
    proof cases
      case (2 i)
      have l: "live (vf_fs v) i" using find_child_live(1) [OF tree p 2(1)] .
      then have dir: "live_dir (vf_fs v) i" using 2(2) by (simp add: live_dir_def)
      have ne: "\<forall>s. \<not> is_entry (vf_fs v) i s" using empty_no_entry [OF tree l 2(3)] by blast
      have "dirs v (i, other) = None" for other
        using find_child_Some_iff [OF tree_okD(2,1) [OF tree] live_lt [OF l], of other] ne
        by (cases "dirs v (i, other)") (auto simp: dirs_def split: if_splits)
      moreover note dirs_drop_child [OF assms(1) pn(2) 2(1,4) ne dir_no_handle [OF tree dir]]
      ultimately show ?thesis using dir \<open>parent_and_name_mount v path NAMESPACE_ROOT = Inr x\<close> by (auto simp: x)
    qed simp
  qed simp
qed simp

lemma dirs_rename:
  assumes "vfs_ok v" "vfs_rename old_path new_path v = (r, v')"
  shows "case r of Inl e \<Rightarrow> v' = v
    | Inr _ \<Rightarrow> \<exists>m p name q other i. parent_and_name_mount v old_path NAMESPACE_ROOT = Ok (m, p, name) \<and>
        parent_and_name_mount v new_path NAMESPACE_ROOT = Ok (m, q, other) \<and>
        dirs v (p, name) = Some i \<and> dirs v (q, other) = None \<and> avoids (vf_fs v) i q \<and>
        dirs v' = (dirs v)((p, name) := None, (q, other) \<mapsto> i)"
  using rename_change [OF assms]
proof
  assume "\<exists>m op old i np new os ns fs. r = Ok () \<and> v' = v\<lparr>vf_fs := fs\<rparr> \<and>
    parent_and_name_mount v old_path NAMESPACE_ROOT = Ok (m, op, old) \<and> find_child (vf_fs v) op old = Some i \<and>
    parent_and_name_mount v new_path NAMESPACE_ROOT = Ok (m, np, new) \<and> find_child (vf_fs v) np new = None \<and>
    \<not> mf_read_only (mn_flags (vf_mounts v ! m)) \<and>
    is_entry (vf_fs v) op os \<and> ch_name (entry (vf_fs v) op os) = old \<and> ch_inode (entry (vf_fs v) op os) = i \<and>
    live_dir (vf_fs v) np \<and> ((np, ns) = (op, os) \<or> \<not> is_entry (vf_fs v) np ns) \<and> avoids (vf_fs v) i np \<and>
    moved op os np ns i new (vf_fs v) fs"
  then obtain m op old i np new os ns fs where r: "r = Ok ()" "v' = v\<lparr>vf_fs := fs\<rparr>" and
    pn: "parent_and_name_mount v old_path NAMESPACE_ROOT = Ok (m, op, old)" "find_child (vf_fs v) op old = Some i"
      "parent_and_name_mount v new_path NAMESPACE_ROOT = Ok (m, np, new)" and
    e: "is_entry (vf_fs v) op os" "ch_inode (entry (vf_fs v) op os) = i" "live_dir (vf_fs v) np"
      "(np, ns) = (op, os) \<or> \<not> is_entry (vf_fs v) np ns" "find_child (vf_fs v) np new = None" "avoids (vf_fs v) i np"
      "moved op os np ns i new (vf_fs v) fs" and n: "ch_name (entry (vf_fs v) op os) = old" by blast
  have lt: "op < MAX_INODES" "np < MAX_INODES" using e(1,3) by (simp_all add: is_entry_def live_dir_def live_def)
  note fc = find_child_moved [OF vfs_okD(1) [OF assms(1)] e, unfolded n]
  have "dirs v' = (dirs v)((op, old) := None, (np, new) \<mapsto> i)"
    using lt unfolding r(2) by (auto simp: dirs_def fun_eq_iff fc)
  with r(1) pn e(5,6) lt show ?thesis by (auto simp: dirs_def)
qed auto

end
