(* ===== verification/Vfs_Files.thy ===== *)
theory Vfs_Files
  imports Vfs_Steps
begin

text \<open>
  Reading and writing files by path (\<open>read\<close> and \<open>write\<close> of \<open>src/vfs.rs\<close>): which inode a path names, what
  opening, writing and closing do to it, and that reading the path gives the bytes written.
\<close>

section \<open>The inode of a path\<close>

definition inode_of :: "file_system \<Rightarrow> u8 list \<Rightarrow> vfs_error + nat" where
  "inode_of fs path = and_then (parse_path path) (\<lambda>(components, count). dir_walk fs (take count components) 0)"

definition file_content :: "file_system \<Rightarrow> nat \<Rightarrow> u8 list" where
  "file_content fs i = take (in_size (fs_inodes fs ! i)) (in_data (fs_inodes fs ! i))"

definition path_content :: "file_system \<Rightarrow> u8 list \<Rightarrow> u8 list" where
  "path_content fs path = (case inode_of fs path of Inl _ \<Rightarrow> [] | Inr i \<Rightarrow> file_content fs i)"

lemma root_namespace: "vfs_ok v \<Longrightarrow> vf_mounted v \<Longrightarrow> \<exists>m. namespace_root v NAMESPACE_ROOT = Ok m"
  using vfs_okD(2,3) [of v]
  by (auto simp: namespace_root_def namespaces_ok_def mount_shape_def NAMESPACE_ROOT_def MAX_NAMESPACES_def)

lemma resolve_inode:
  assumes "vfs_ok v" "vf_mounted v"
  shows "(case resolve_mount v path NAMESPACE_ROOT of Inl e \<Rightarrow> Inl e | Inr (m, i) \<Rightarrow> Inr i) = inode_of (vf_fs v) path"
proof -
  obtain m where "namespace_root v NAMESPACE_ROOT = Ok m" using root_namespace [OF assms] by blast
  then show ?thesis
    using walk_dir_walk [OF assms(1), of NAMESPACE_ROOT _ m 0]
    by (auto simp: resolve_mount_def inode_of_def and_then_def split: sum.splits prod.splits)
qed

lemma resolve_inodeD:
  assumes "vfs_ok v" "vf_mounted v"
  shows "resolve_mount v path NAMESPACE_ROOT = Ok (m, i) \<Longrightarrow> inode_of (vf_fs v) path = Ok i"
    "resolve_mount v path NAMESPACE_ROOT = Err e \<Longrightarrow> inode_of (vf_fs v) path = Err e"
    "inode_of (vf_fs v) path = Ok i \<Longrightarrow> \<exists>m. resolve_mount v path NAMESPACE_ROOT = Ok (m, i)"
  using resolve_inode [OF assms, of path] by (auto split: sum.splits prod.splits)

lemma parse_loop_bound:
  "parse_loop bytes components count = Ok (cs, n) \<Longrightarrow> length components = MAX_COMPONENTS \<Longrightarrow> count \<le> MAX_COMPONENTS \<Longrightarrow>
   length cs = MAX_COMPONENTS \<and> n \<le> MAX_COMPONENTS"
proof (induction "length bytes" arbitrary: bytes components count rule: less_induct)
  case less
  show ?case
  proof (cases "skip_slashes bytes = [] \<or> take_part (skip_slashes bytes) = None")
    case True
    then show ?thesis using less.prems by (auto simp: parse_loop.simps [of bytes] split: if_splits)
  next
    case False
    then obtain part rest where tp: "take_part (skip_slashes bytes) = Some (part, rest)" by auto
    note IH = less.hyps [OF take_part_progress [OF tp]]
    consider "parse_loop rest components count = Ok (cs, n)" | "parse_loop rest components (count - 1) = Ok (cs, n)"
      | "parse_loop rest (components[count := name_of part]) (count + 1) = Ok (cs, n)" "count \<noteq> MAX_COMPONENTS"
      using less.prems(1) False tp by (auto simp: parse_loop.simps [of bytes] split: if_splits)
    then show ?thesis
    proof cases
      case 1
      then show ?thesis using IH False less.prems(2,3) by blast
    next
      case 2
      then show ?thesis using IH False less.prems(2,3) by (meson diff_le_self le_trans)
    next
      case 3
      have "length (components[count := name_of part]) = MAX_COMPONENTS" "count + 1 \<le> MAX_COMPONENTS"
        using 3(2) less.prems(2,3) by simp_all
      then show ?thesis using IH False 3(1) by blast
    qed
  qed
qed

lemma parse_path_bound: "parse_path path = Ok (cs, n) \<Longrightarrow> n \<le> length cs"
  by (auto simp: parse_path_def split: if_splits dest!: parse_loop_bound)

lemma dir_walk_snoc:
  "dir_walk fs (cs @ [c]) i = and_then (dir_walk fs cs i) (\<lambda>p.
     if in_kind (fs_inodes fs ! p) \<noteq> Directory then Err V_NotDirectory else ok_or (find_child fs p c) V_NotFound)"
  by (induction cs arbitrary: i) (auto simp: and_then_def ok_or_def split: option.split)

lemma parent_inode:
  assumes "vfs_ok v" "parent_and_name_mount v path NAMESPACE_ROOT = Ok (m, p, name)"
  obtains cs k where "parse_path path = Ok (cs, Suc k)" "dir_walk (vf_fs v) (take k cs) 0 = Ok p" "name = cs ! k"
    "take (Suc k) cs = take k cs @ [cs ! k]"
proof -
  obtain cs n where p: "parse_path path = Ok (cs, n)"
    using assms(2) by (cases "parse_path path") (auto simp: parent_and_name_mount_def and_then_def)
  then obtain k root where k: "n = Suc k" "walk v NAMESPACE_ROOT (take k cs) root 0 = Ok (m, p)" "name = cs ! k"
    using assms(2)
    by (cases n) (auto simp: parent_and_name_mount_def and_then_def split: sum.splits if_splits)
  have "dir_walk (vf_fs v) (take k cs) 0 = Ok p"
    using walk_dir_walk [OF assms(1), of NAMESPACE_ROOT "take k cs" root 0] k(2) by simp
  with p k that parse_path_bound [OF p] show ?thesis by (simp add: take_Suc_conv_app_nth)
qed

text \<open>Two file systems with the same directories resolve the same paths.\<close>

lemma dir_walk_cong:
  "find_child fs' = find_child fs \<Longrightarrow> \<forall>i. in_kind (fs_inodes fs' ! i) = in_kind (fs_inodes fs ! i) \<Longrightarrow>
   dir_walk fs' cs i = dir_walk fs cs i"
  by (induction cs arbitrary: i) (auto split: option.split)

lemma inode_of_cong:
  "find_child fs' = find_child fs \<Longrightarrow> \<forall>i. in_kind (fs_inodes fs' ! i) = in_kind (fs_inodes fs ! i) \<Longrightarrow>
   inode_of fs' path = inode_of fs path"
  using dir_walk_cong [of fs' fs] by (simp add: inode_of_def and_then_def split: sum.split)

lemma dir_walk_extend:
  assumes "tree_ok fs"
    and "\<And>i. live_dir fs i \<Longrightarrow> in_kind (fs_inodes fs' ! i) = Directory"
    and "\<And>i c j. live fs i \<Longrightarrow> find_child fs i c = Some j \<Longrightarrow> find_child fs' i c = Some j"
  shows "dir_walk fs cs i = Ok p \<Longrightarrow> live fs i \<Longrightarrow> dir_walk fs' cs i = Ok p"
proof (induction cs arbitrary: i)
  case (Cons c cs)
  then obtain j where j: "find_child fs i c = Some j" "dir_walk fs cs j = Ok p" "in_kind (fs_inodes fs ! i) = Directory"
    by (auto split: if_splits option.splits)
  have "live fs j" using find_child_live(1) [OF assms(1) live_lt j(1)] Cons.prems(2) by blast
  with Cons.IH [OF j(2)] assms(2) [of i] assms(3) [OF Cons.prems(2) j(1)] j(3) Cons.prems(2) show ?case
    by (simp add: live_dir_def)
qed simp

text \<open>After \<open>open\<close> creates a file, the path names the new inode.\<close>

lemma inode_of_created:
  assumes "vfs_ok v" "parent_and_name_mount v path NAMESPACE_ROOT = Ok (m, p, name)"
    "create_node_at p name Regular 420 (vf_fs v) = (Ok i, fs)"
  shows "inode_of fs path = Ok i" "fs_inodes fs ! i = inode_new Regular p 420"
proof -
  note tree = vfs_okD(1) [OF assms(1)] and pd = parent_and_name_ok(2) [OF assms(1,2)]
  obtain slot where s: "i < MAX_INODES" "\<not> live (vf_fs v) i" "slot < MAX_CHILDREN" "\<not> is_entry (vf_fs v) p slot"
    "find_child (vf_fs v) p name = None" "fs = insert_node p slot name i (inode_new Regular p 420) (vf_fs v)"
    using create_node_at_spec [OF tree pd assms(3)] by auto
  note acc = insert_node_access [where name = name and n = "inode_new Regular p 420", OF tree pd s(1-3)]
  have fc: "find_child fs q c = (if q = p \<and> c = name then Some i else find_child (vf_fs v) q c)" if "q < MAX_INODES" for q c
    using find_child_insert_node [OF tree pd s(1-5) that] unfolding s(6) .
  have dirk: "in_kind (fs_inodes fs ! x) = Directory" if "live_dir (vf_fs v) x" for x
    using that acc(4) [of x] unfolding s(6) by (simp add: inode_new_def live_dir_def)
  have ext: "find_child fs x c = Some j" if "live (vf_fs v) x" "find_child (vf_fs v) x c = Some j" for x c j
    using fc [of x c] that s(5) by (auto simp: live_def)
  obtain cs k where k: "parse_path path = Ok (cs, Suc k)" "dir_walk (vf_fs v) (take k cs) 0 = Ok p" "name = cs ! k"
    "take (Suc k) cs = take k cs @ [cs ! k]" using parent_inode [OF assms(1,2)] .
  have "dir_walk fs (take k cs) 0 = Ok p"
    using dir_walk_extend [OF tree dirk ext k(2)] root_live [OF tree_okD(3) [OF tree]] by blast
  moreover have "find_child fs p name = Some i" using fc [of p name] pd by (simp add: live_dir_def live_def)
  ultimately show "inode_of fs path = Ok i"
    using k(1,3,4) dirk [OF pd] by (simp add: inode_of_def and_then_def dir_walk_snoc ok_or_def)
  have "i \<noteq> p" using pd s(2) by (auto simp: live_dir_def)
  then show "fs_inodes fs ! i = inode_new Regular p 420"
    using s(1) tree_okD(1) [OF tree]
    by (simp add: s(6) insert_node_def set_children_def set_inode_def shape_ok_def nth_update_if)
qed

section \<open>Opening, writing and closing\<close>

lemma open_handle_Ok:
  assumes "open_handle opts m i v = (Ok h, v')"
  obtains slot where "position (\<lambda>h. \<not> hs_used h) (fs_handles (vf_fs v)) = Some slot"
    "in_kind (fs_inodes (vf_fs v) ! i) = Regular"
    "h = \<lparr>fh_inode = i, fh_mount = m, fh_slot = slot, fh_offset = 0, fh_readable = oo_read opts, fh_writable = oo_write opts\<rparr>"
    "v' = v\<lparr>vf_fs := (vf_fs v)\<lparr>fs_handles := (fs_handles (vf_fs v))[slot := \<lparr>hs_used = True, hs_mount = m, hs_inode = i\<rparr>],
       fs_open_count := fs_open_count (vf_fs v) + 1\<rparr>\<rparr>"
  using assms that
  by (cases "in_kind (fs_inodes (vf_fs v) ! i)") (auto simp: open_handle_def Let_def split: if_splits option.splits)

text \<open>
  A successful \<open>open\<close>: the path names the inode of the handle afterwards, the content is what the path
  had before, or nothing for a new file, and the handle starts at offset zero.
\<close>

lemma open_Ok:
  assumes "vfs_ok v" "vfs_open path opts v = (Ok h, v')"
  shows "vf_mounted v" "vf_mounted v'" "inode_of (vf_fs v') path = Ok (fh_inode h)"
    "file_content (vf_fs v') (fh_inode h) = path_content (vf_fs v) path" "fh_offset h = 0"
    "fh_readable h = oo_read opts" "fh_writable h = oo_write opts"
    "fh_slot h < MAX_OPEN_HANDLES"
    "fs_handles (vf_fs v') ! fh_slot h = \<lparr>hs_used = True, hs_mount = fh_mount h, hs_inode = fh_inode h\<rparr>"
proof -
  show mtd: "vf_mounted v" using assms(2) by (auto simp: vfs_open_def with_fs_def split: if_splits)
  obtain m i v1 where oi: "open_inode path opts v = (Ok (m, i), v1)" and oh: "open_handle opts m i v1 = (Ok h, v')"
  proof -
    obtain r v1 where rv: "open_inode path opts v = (r, v1)" by fastforce
    with assms(2) mtd obtain m i where r: "r = Ok (m, i)"
      by (cases r) (auto simp: vfs_open_def with_fs_def)
    with rv assms(2) mtd have "open_handle opts m i v1 = (Ok h, v')"
      by (cases "mount_flags_of v1 m") (auto simp: vfs_open_def with_fs_def split: if_splits)
    with rv r that show thesis by blast
  qed
  have inode: "inode_of (vf_fs v1) path = Ok i \<and> file_content (vf_fs v1) i = path_content (vf_fs v) path \<and> vf_mounted v1"
  proof (cases "resolve_mount v path NAMESPACE_ROOT")
    case (Inr x)
    then show ?thesis using oi resolve_inodeD(1) [OF assms(1) mtd, of path m i] mtd
      by (simp add: open_inode_def path_content_def)
  next
    case (Inl e)
    with oi obtain p name fs where c: "parent_and_name_mount v path NAMESPACE_ROOT = Ok (m, p, name)"
      "create_node_at p name Regular 420 (vf_fs v) = (Ok i, fs)" "v1 = v\<lparr>vf_fs := fs\<rparr>"
      by (auto simp: open_inode_def split: if_splits prod.splits sum.splits elim!: try_res_cases)
    then show ?thesis
      using inode_of_created [OF assms(1) c(1,2)] resolve_inodeD(2) [OF assms(1) mtd Inl] mtd
      by (simp add: file_content_def path_content_def inode_new_def)
  qed
  obtain slot where s: "position (\<lambda>h. \<not> hs_used h) (fs_handles (vf_fs v1)) = Some slot"
    "h = \<lparr>fh_inode = i, fh_mount = m, fh_slot = slot, fh_offset = 0, fh_readable = oo_read opts, fh_writable = oo_write opts\<rparr>"
    "v' = v1\<lparr>vf_fs := (vf_fs v1)\<lparr>fs_handles := (fs_handles (vf_fs v1))[slot := \<lparr>hs_used = True, hs_mount = m, hs_inode = i\<rparr>],
       fs_open_count := fs_open_count (vf_fs v1) + 1\<rparr>\<rparr>"
    using open_handle_Ok [OF oh] by metis
  have "find_child (vf_fs v') = find_child (vf_fs v1)" by (simp add: s(3) find_child_def fun_eq_iff)
  then have "inode_of (vf_fs v') path = inode_of (vf_fs v1) path" by (rule inode_of_cong) (simp add: s(3))
  then show "inode_of (vf_fs v') path = Ok (fh_inode h)"
    "file_content (vf_fs v') (fh_inode h) = path_content (vf_fs v) path" "vf_mounted v'"
    using inode by (simp_all add: s(2,3) file_content_def)
  show "fh_offset h = 0" "fh_readable h = oo_read opts" "fh_writable h = oo_write opts" by (simp_all add: s(2))
  have ok1: "vfs_ok v1" using fs_change_ok [OF assms(1) open_inode_change(1) [OF assms(1) oi]] .
  have lt: "slot < length (fs_handles (vf_fs v1))" "slot < MAX_OPEN_HANDLES"
    using position_lt [OF s(1)] tree_okD(1) [OF vfs_okD(1) [OF ok1]] by (simp_all add: shape_ok_def)
  then show "fh_slot h < MAX_OPEN_HANDLES"
    "fs_handles (vf_fs v') ! fh_slot h = \<lparr>hs_used = True, hs_mount = fh_mount h, hs_inode = fh_inode h\<rparr>"
    by (simp_all add: s(2,3))
qed

text \<open>Closing changes no file and no directory and leaves a free handle slot.\<close>

lemma close_keeps:
  assumes "vfs_close h v = (r, v')"
  shows "fs_inodes (vf_fs v') = fs_inodes (vf_fs v)" "vf_mounted v' = vf_mounted v"
    "vf_mounts v' = vf_mounts v" "vf_namespaces v' = vf_namespaces v"
  using assms by (auto simp: vfs_close_def with_fs_def elim!: try_res_cases split: if_splits)

lemma same_inodes:
  assumes "fs_inodes fs' = fs_inodes fs"
  shows "inode_of fs' path = inode_of fs path" "file_content fs' i = file_content fs i"
proof -
  have "find_child fs' = find_child fs" by (simp add: find_child_def fun_eq_iff assms)
  then show "inode_of fs' path = inode_of fs path" by (rule inode_of_cong) (simp add: assms)
  show "file_content fs' i = file_content fs i" by (simp add: file_content_def assms)
qed

lemma written_content:
  assumes "length xs \<le> length bytes" "n \<le> length bytes"
  shows "take (max n (length xs)) (write_at 0 xs bytes) = xs @ drop (length xs) (take n bytes)"
  using assms by (auto simp: write_at_def max_def drop_take)

text \<open>A successful \<open>write\<close>: the path names a file whose first bytes are the input.\<close>

lemma write_content:
  assumes "vfs_ok v" "vfs_write path input v = (True, v')"
  obtains i where "inode_of (vf_fs v') path = Ok i"
    "file_content (vf_fs v') i = input @ drop (length input) (path_content (vf_fs v) path)"
    "in_kind (fs_inodes (vf_fs v') ! i) = Regular" "vfs_ok v'" "vf_mounted v'"
    "\<exists>slot<MAX_OPEN_HANDLES. \<not> hs_used (fs_handles (vf_fs v') ! slot)"
proof -
  obtain h v1 where o: "vfs_open path options_write_create v = (Ok h, v1)"
    using assms(2) by (auto simp: vfs_write_def split: prod.splits sum.splits)
  obtain rw h2 v2 where w: "write_handle h input v1 = (rw, h2, v2)" by (metis prod_cases3)
  obtain rc where c: "vfs_close h2 v2 = (rc, v')" and okr: "is_ok rw"
    using assms(2) o w by (cases "vfs_close h2 v2") (auto simp: vfs_write_def)
  note oo = open_Ok [OF assms(1) o]
  have ok1: "vfs_ok v1" using open_ok [OF assms(1) o] .
  let ?i = "fh_inode h"
  have w2: "validate_handle v1 h = Ok (fh_slot h)" "length input \<le> FILE_MAX"
    "h2 = h\<lparr>fh_offset := length input\<rparr>"
    "v2 = v1\<lparr>vf_fs := set_inode ?i ((fs_inodes (vf_fs v1) ! ?i)
       \<lparr>in_data := write_at 0 input (in_data (fs_inodes (vf_fs v1) ! ?i)),
        in_size := max (in_size (fs_inodes (vf_fs v1) ! ?i)) (length input)\<rparr>) (vf_fs v1)\<rparr>"
    using w okr oo(5) by (auto elim!: write_handle_cases [OF ok1] simp: is_ok_def)
  note vh = validate_handle_Ok [OF ok1 w2(1)]
  have ok2: "vfs_ok v2" using fs_change_ok [OF ok1 write_handle_change [OF ok1 w]] .
  have ok': "vfs_ok v'" using close_ok [OF ok2 c] .
  have im: "?i < length (fs_inodes (vf_fs v1))" "length (in_data (fs_inodes (vf_fs v1) ! ?i)) = FILE_MAX"
    "in_size (fs_inodes (vf_fs v1) ! ?i) \<le> FILE_MAX"
    using vh(6) tree_okD(1) [OF vfs_okD(1) [OF ok1]] by (simp_all add: live_def shape_ok_def)
  have nth: "fs_inodes (vf_fs v2) ! ?i = (fs_inodes (vf_fs v1) ! ?i)
       \<lparr>in_data := write_at 0 input (in_data (fs_inodes (vf_fs v1) ! ?i)),
        in_size := max (in_size (fs_inodes (vf_fs v1) ! ?i)) (length input)\<rparr>"
    using im(1) by (simp add: w2(4) set_inode_def)
  have "inode_of (vf_fs v2) path = inode_of (vf_fs v1) path"
  proof (rule inode_of_cong)
    show "find_child (vf_fs v2) = find_child (vf_fs v1)" by (simp add: w2(4) set_inode_keeps(5))
    show "\<forall>x. in_kind (fs_inodes (vf_fs v2) ! x) = in_kind (fs_inodes (vf_fs v1) ! x)"
      by (simp add: w2(4) set_inode_def nth_update_if)
  qed
  then have "inode_of (vf_fs v') path = Ok ?i" using same_inodes(1) [OF close_keeps(1) [OF c]] oo(3) by simp
  moreover have "file_content (vf_fs v') ?i = input @ drop (length input) (path_content (vf_fs v) path)"
    using written_content [of input "in_data (fs_inodes (vf_fs v1) ! ?i)" "in_size (fs_inodes (vf_fs v1) ! ?i)"]
      im w2(2) oo(4)
    unfolding same_inodes(2) [OF close_keeps(1) [OF c]] by (simp add: file_content_def nth)
  moreover have "in_kind (fs_inodes (vf_fs v') ! ?i) = Regular"
    using vh(6,7) unfolding close_keeps(1) [OF c] nth
    by (cases "in_kind (fs_inodes (vf_fs v1) ! ?i)") (simp_all add: live_dir_def)
  moreover have "vf_mounted v'" using close_keeps(2) [OF c] oo(2) by (simp add: w2(4))
  moreover have "\<exists>slot<MAX_OPEN_HANDLES. \<not> hs_used (fs_handles (vf_fs v') ! slot)"
  proof -
    have "validate_handle v2 h2 = Ok (fh_slot h)"
      using w2(1) vh(6) tree_okD(1) [OF vfs_okD(1) [OF ok1]] nth
      by (auto simp: validate_handle_def Let_def w2(3,4) mount_node_of_def split: if_splits)
    then have "fs_handles (vf_fs v') = (fs_handles (vf_fs v2))[fh_slot h := handle_empty]"
      using c oo(2) by (auto simp: vfs_close_def with_fs_def w2(4))
    moreover have "fh_slot h < length (fs_handles (vf_fs v2))"
      using oo(8) tree_okD(1) [OF vfs_okD(1) [OF ok2]] by (simp add: shape_ok_def)
    ultimately show ?thesis using oo(8) by (intro exI [of _ "fh_slot h"]) (simp add: handle_empty_def)
  qed
  ultimately show ?thesis using that ok' by blast
qed

section \<open>Reading\<close>

lemma read_path:
  assumes "vfs_ok v" "vf_mounted v" "inode_of (vf_fs v) path = Ok i" "in_kind (fs_inodes (vf_fs v) ! i) = Regular"
    "in_mode (fs_inodes (vf_fs v) ! i) AND 292 \<noteq> 0" "\<exists>slot<MAX_OPEN_HANDLES. \<not> hs_used (fs_handles (vf_fs v) ! slot)"
  shows "fst (vfs_read path output v) =
    (Some (min (length output) (length (file_content (vf_fs v) i))),
     write_at 0 (take (length output) (file_content (vf_fs v) i)) output)"
proof -
  note shape = tree_okD(1) [OF vfs_okD(1) [OF assms(1)]]
  obtain m where rm: "resolve_mount v path NAMESPACE_ROOT = Ok (m, i)" using resolve_inodeD(3) [OF assms(1-3)] by blast
  note live = resolve_mount_ok [OF assms(1) rm]
  obtain slot where slot: "position (\<lambda>h. \<not> hs_used h) (fs_handles (vf_fs v)) = Some slot"
    using assms(6) shape position_exists [of _ "fs_handles (vf_fs v)" "\<lambda>h. \<not> hs_used h"]
    unfolding shape_ok_def by (metis nth_mem)
  have sl: "slot < MAX_OPEN_HANDLES" "slot < length (fs_handles (vf_fs v))"
    using position_lt [OF slot] shape by (simp_all add: shape_ok_def)
  let ?h = "\<lparr>fh_inode = i, fh_mount = m, fh_slot = slot, fh_offset = 0, fh_readable = True, fh_writable = False\<rparr>"
  let ?v = "v\<lparr>vf_fs := (vf_fs v)\<lparr>fs_handles := (fs_handles (vf_fs v))[slot := \<lparr>hs_used = True, hs_mount = m, hs_inode = i\<rparr>],
       fs_open_count := fs_open_count (vf_fs v) + 1\<rparr>\<rparr>"
  have opened: "vfs_open path options_read v = (Ok ?h, ?v)"
    using assms(2,4,5) rm slot
    by (simp add: vfs_open_def with_fs_def open_inode_def options_read_def open_handle_def)
  have "mount_node_of ?v m = Ok (vf_mounts v ! m)"
    using live(1) vfs_okD(2) [OF assms(1)] by (simp add: mount_node_of_def mount_live_def mount_shape_def)
  then have valid: "validate_handle ?v ?h = Ok slot"
    using sl live(2) by (simp add: validate_handle_def Let_def live_def is_err_def)
  have size: "in_size (fs_inodes (vf_fs v) ! i) \<le> length (in_data (fs_inodes (vf_fs v) ! i))"
    using live(2) shape by (simp add: live_def shape_ok_def)
  have "read_handle ?h output ?v =
      (Ok (min (in_size (fs_inodes (vf_fs v) ! i)) (length output)),
       ?h\<lparr>fh_offset := min (in_size (fs_inodes (vf_fs v) ! i)) (length output)\<rparr>,
       write_at 0 (take (min (in_size (fs_inodes (vf_fs v) ! i)) (length output)) (in_data (fs_inodes (vf_fs v) ! i))) output)"
    using assms(2) valid by (simp add: read_handle_def Let_def)
  then show ?thesis
    using size by (simp add: vfs_read_def opened file_content_def min.commute take_take)
qed

section \<open>Properties\<close>

text \<open>
  Claim C5.  In every history of the file system the inode table is a tree: each live inode but the
  root has exactly one entry, in the directory it names as its parent, names are found in live
  directories and lead to live inodes, and parents lead to the root.  Open handles refer to live
  regular files on live mounts and are counted, dentries refer to live mounts, whose reference count
  is the number of their dentries, and every namespace has a live root mount of its own.
\<close>

theorem vfs_consistent:
  assumes "reachable vfs_start vfs_step v"
  shows "(\<forall>i. live (vf_fs v) i \<and> i \<noteq> 0 \<longrightarrow> (\<exists>!k. dirs v k = Some i) \<and> (\<exists>name. dirs v (up (vf_fs v) i, name) = Some i)) \<and>
    (\<forall>p name i. dirs v (p, name) = Some i \<longrightarrow> live_dir (vf_fs v) p \<and> live (vf_fs v) i) \<and>
    (\<forall>i. live (vf_fs v) i \<longrightarrow> to_root (vf_fs v) i) \<and>
    (\<forall>h\<in>set (fs_handles (vf_fs v)). hs_used h \<longrightarrow>
       live (vf_fs v) (hs_inode h) \<and> \<not> live_dir (vf_fs v) (hs_inode h) \<and> mount_live v (hs_mount h)) \<and>
    fs_open_count (vf_fs v) = length (filter hs_used (fs_handles (vf_fs v))) \<and>
    (\<forall>d\<in>set (vf_dentries v). ds_used d \<longrightarrow> mount_live v (de_mount (ds_dentry d))) \<and>
    (\<forall>m<MAX_MOUNTS. mn_dentry_references (vf_mounts v ! m) = dentry_count v m) \<and>
    (\<forall>n m. namespace_root v n = Ok m \<longrightarrow> mount_live v m \<and> mn_namespace (vf_mounts v ! m) = n)"
proof -
  have ok: "vfs_ok v" using vfssys.reachable_inv [OF assms] .
  note parts = vfs_okD [OF ok] and tree = tree_okD [OF vfs_okD(1) [OF ok]]
  have u: "(\<exists>!k. dirs v k = Some i) \<and> (\<exists>name. dirs v (up (vf_fs v) i, name) = Some i)"
    if l: "live (vf_fs v) i" "i \<noteq> 0" for i
  proof -
    obtain name where n: "dirs v (up (vf_fs v) i, name) = Some i" using dirs_complete [OF ok l] by blast
    have "k = (up (vf_fs v) i, name)" if "dirs v k = Some i" for k
      using dirs_inj [OF ok _ n] that by (cases k) auto
    with n show ?thesis by blast
  qed
  show ?thesis
    using u dirs_live [OF ok] linked_to_root [OF tree(3)] tree(4) parts(5) namespace_root_Ok [OF ok]
    unfolding handles_ok_def references_ok_def by auto
qed

text \<open>
  Claim C6.  The directory operations implement updates of the map from a directory and a name to an
  inode: \<open>mkdir\<close> adds one entry for an inode that was free, \<open>unlink\<close> removes the entry of a file that
  is not open, \<open>remove_dir\<close> that of an empty directory, \<open>rename\<close> moves an entry to a free name that does not
  lie below it, and an operation that fails changes nothing.
\<close>

theorem directory_operations_update_lookups:
  assumes "reachable vfs_start vfs_step v"
  shows "(case vfs_mkdir path v of
      (Inl _, v') \<Rightarrow> v' = v
    | (Inr _, v') \<Rightarrow> \<exists>m p name i. parent_and_name_mount v path NAMESPACE_ROOT = Ok (m, p, name) \<and>
        dirs v (p, name) = None \<and> \<not> live (vf_fs v) i \<and> live_dir (vf_fs v') i \<and> dirs v' = (dirs v)((p, name) \<mapsto> i)) \<and>
    (case vfs_unlink path v of
      (Inl _, v') \<Rightarrow> v' = v
    | (Inr _, v') \<Rightarrow> \<exists>m p name i. parent_and_name_mount v path NAMESPACE_ROOT = Ok (m, p, name) \<and>
        dirs v (p, name) = Some i \<and> \<not> live_dir (vf_fs v) i \<and> \<not> has_open_handle (vf_fs v) i \<and>
        \<not> live (vf_fs v') i \<and> dirs v' = (dirs v)((p, name) := None)) \<and>
    (case vfs_remove_dir path v of
      (Inl _, v') \<Rightarrow> v' = v
    | (Inr _, v') \<Rightarrow> \<exists>m p name i. parent_and_name_mount v path NAMESPACE_ROOT = Ok (m, p, name) \<and>
        dirs v (p, name) = Some i \<and> live_dir (vf_fs v) i \<and> (\<forall>other. dirs v (i, other) = None) \<and>
        \<not> live (vf_fs v') i \<and> dirs v' = (dirs v)((p, name) := None)) \<and>
    (case vfs_rename path new_path v of
      (Inl _, v') \<Rightarrow> v' = v
    | (Inr _, v') \<Rightarrow> \<exists>m p name q other i. parent_and_name_mount v path NAMESPACE_ROOT = Ok (m, p, name) \<and>
        parent_and_name_mount v new_path NAMESPACE_ROOT = Ok (m, q, other) \<and>
        dirs v (p, name) = Some i \<and> dirs v (q, other) = None \<and> avoids (vf_fs v) i q \<and>
        dirs v' = (dirs v)((p, name) := None, (q, other) \<mapsto> i))"
proof -
  have ok: "vfs_ok v" using vfssys.reachable_inv [OF assms] .
  obtain r1 v1 r2 v2 r3 v3 r4 v4 where e: "vfs_mkdir path v = (r1, v1)" "vfs_unlink path v = (r2, v2)"
    "vfs_remove_dir path v = (r3, v3)" "vfs_rename path new_path v = (r4, v4)" by (metis surj_pair)
  show ?thesis
    using dirs_mkdir [OF ok e(1)] dirs_unlink [OF ok e(2)] dirs_remove_dir [OF ok e(3)] dirs_rename [OF ok e(4)]
    unfolding e by (auto split: sum.splits)
qed

text \<open>
  Claim C11.  Reading gives back what was written: after \<open>write\<close> succeeds the path names a file that
  starts with the input and keeps what was behind it, and \<open>read\<close> of the path, when the mode allows it,
  copies that content into the buffer as far as the buffer reaches and reports its length.
\<close>

theorem write_reads_back:
  assumes "reachable vfs_start vfs_step v" "vfs_write path input v = (True, v')"
  shows "\<exists>i. inode_of (vf_fs v') path = Ok i \<and>
    file_content (vf_fs v') i = input @ drop (length input) (path_content (vf_fs v) path) \<and>
    (in_mode (fs_inodes (vf_fs v') ! i) AND 292 \<noteq> 0 \<longrightarrow>
       fst (vfs_read path output v') =
         (Some (min (length output) (length (file_content (vf_fs v') i))),
          write_at 0 (take (length output) (file_content (vf_fs v') i)) output))"
proof -
  have ok: "vfs_ok v" using vfssys.reachable_inv [OF assms(1)] .
  obtain i where i: "inode_of (vf_fs v') path = Ok i"
    "file_content (vf_fs v') i = input @ drop (length input) (path_content (vf_fs v) path)"
    "in_kind (fs_inodes (vf_fs v') ! i) = Regular" "vfs_ok v'" "vf_mounted v'"
    "\<exists>slot<MAX_OPEN_HANDLES. \<not> hs_used (fs_handles (vf_fs v') ! slot)"
    using write_content [OF ok assms(2)] .
  with read_path [OF i(4,5,1,3) _ i(6)] show ?thesis by (intro exI [of _ i]) simp
qed


section \<open>A concrete history\<close>

definition demo_vfs :: vfs where
  "demo_vfs = snd (mount_ramfs vfs_static)"

definition demo_vfs_dir :: vfs where
  "demo_vfs_dir = snd (vfs_mkdir [0x2f, 0x61] demo_vfs)"

definition demo_vfs_ro :: vfs where
  "demo_vfs_ro = snd (mount_in_namespace NAMESPACE_ROOT Ramfs [0x2f, 0x61] flags_library Private demo_vfs_dir)"

lemma demo_vfs_reachable:
  "reachable vfs_start vfs_step demo_vfs" "reachable vfs_start vfs_step demo_vfs_dir"
  "reachable vfs_start vfs_step demo_vfs_ro"
proof -
  have "reachable vfs_start vfs_step vfs_static" by (rule reach_init) (simp add: vfs_start_def)
  then show 1: "reachable vfs_start vfs_step demo_vfs"
    unfolding demo_vfs_def by (rule reach_step) (rule vfs_step.intros(1), rule surjective_pairing)
  then show 2: "reachable vfs_start vfs_step demo_vfs_dir"
    unfolding demo_vfs_dir_def by (rule reach_step) (rule vfs_step.intros(13), rule surjective_pairing)
  then show "reachable vfs_start vfs_step demo_vfs_ro"
    unfolding demo_vfs_ro_def by (rule reach_step) (rule vfs_step.intros(3), rule surjective_pairing)
qed

lemma parse_demo:
  "parse_path [0x2f, 0x61] = Ok ((replicate MAX_COMPONENTS name_empty)[0 := name_of [0x61]], Suc 0)"
  "parse_path [0x2f, 0x62] = Ok ((replicate MAX_COMPONENTS name_empty)[0 := name_of [0x62]], Suc 0)"
  by (simp_all add: parse_path_def parse_loop.simps MAX_PATH_def NAME_MAX_def MAX_COMPONENTS_def)

lemma demo_vfs_eq:
  "demo_vfs = \<lparr>vf_fs = file_system_new, vf_mounted = True,
     vf_mounts = mount_node_root NAMESPACE_ROOT # replicate 7 mount_node_empty,
     vf_namespaces = \<lparr>ns_used = True, ns_root_mount = MOUNT_ROOT\<rparr> # replicate 3 namespace_empty,
     vf_dentries = replicate MAX_DENTRIES dentry_empty\<rparr>"
  by (simp add: demo_vfs_def mount_ramfs_def vfs_static_def MOUNT_ROOT_def NAMESPACE_ROOT_def MAX_MOUNTS_def
      MAX_NAMESPACES_def numeral_eq_Suc)

lemma new_fs_eq:
  "file_system_new = \<lparr>fs_inodes = inode_new Directory 0 493 # inode_empty # replicate 30 inode_empty,
     fs_handles = handle_empty # replicate 15 handle_empty, fs_open_count = 0\<rparr>"
  by (simp add: file_system_new_def MAX_INODES_def MAX_OPEN_HANDLES_def numeral_eq_Suc)

lemma new_children: "in_children (inode_new k p m) = child_empty # replicate 15 child_empty"
  by (simp add: inode_new_def MAX_CHILDREN_def numeral_eq_Suc)

lemma new_used: "in_used (inode_new k p m)" "in_kind (inode_new k p m) = k" "\<not> in_used inode_empty"
  "\<not> ch_used child_empty" "\<not> hs_used handle_empty" "in_mode (inode_new k p m) = m"
  by (simp_all add: inode_new_def inode_empty_def child_empty_def handle_empty_def)

lemma find_new: "List.find (child_matches name) (in_children (inode_new k p m)) = None"
  by (auto simp: find_None_iff inode_new_def child_matches_def child_empty_def)

lemma find_free: "\<not> child_matches name child_empty" "List.find (child_matches name) (replicate k child_empty) = None"
  by (auto simp: find_None_iff child_matches_def child_empty_def)

lemmas demo_eval = with_fs_def parse_demo and_then_def demo_vfs_eq new_fs_eq namespace_root_def NAMESPACE_ROOT_def
  MOUNT_ROOT_def mount_flags_of_def mount_node_of_def mount_node_root_def flags_defaults_def create_node_at_def
  find_child_def find_new find_free new_used has_free_child_def new_children set_inode_def add_child_def set_children_def
  MAX_COMPONENTS_def

lemma demo_vfs_dir_eq:
  "vfs_mkdir [0x2f, 0x61] demo_vfs = (Ok (), demo_vfs_dir)"
  "demo_vfs_dir = demo_vfs\<lparr>vf_fs := file_system_new\<lparr>fs_inodes :=
     (inode_new Directory 0 493)\<lparr>in_children := \<lparr>ch_used = True, ch_inode = 1, ch_name = name_of [0x61]\<rparr> # replicate 15 child_empty\<rparr> #
     inode_new Directory 0 493 # replicate 30 inode_empty\<rparr>\<rparr>"
proof -
  have "vfs_mkdir [0x2f, 0x61] demo_vfs = (Ok (), demo_vfs\<lparr>vf_fs := file_system_new\<lparr>fs_inodes :=
     (inode_new Directory 0 493)\<lparr>in_children := \<lparr>ch_used = True, ch_inode = 1, ch_name = name_of [0x61]\<rparr> # replicate 15 child_empty\<rparr> #
     inode_new Directory 0 493 # replicate 30 inode_empty\<rparr>\<rparr>)"
    by (simp add: vfs_mkdir_def parent_and_name_mount_def demo_eval)
  then show "vfs_mkdir [0x2f, 0x61] demo_vfs = (Ok (), demo_vfs_dir)"
    "demo_vfs_dir = demo_vfs\<lparr>vf_fs := file_system_new\<lparr>fs_inodes :=
     (inode_new Directory 0 493)\<lparr>in_children := \<lparr>ch_used = True, ch_inode = 1, ch_name = name_of [0x61]\<rparr> # replicate 15 child_empty\<rparr> #
     inode_new Directory 0 493 # replicate 30 inode_empty\<rparr>\<rparr>"
    by (simp_all add: demo_vfs_dir_def)
qed

lemma resolve_demo:
  "resolve_mount demo_vfs_dir [0x2f, 0x61] NAMESPACE_ROOT = Ok (MOUNT_ROOT, 1)"
  by (simp add: resolve_mount_def demo_vfs_dir_eq(2) demo_eval child_matches_def find_mount_child_def is_mount_child_def
      mount_node_empty_def numeral_eq_Suc)

lemma demo_vfs_ro_eq:
  "mount_in_namespace NAMESPACE_ROOT Ramfs [0x2f, 0x61] flags_library Private demo_vfs_dir = (Ok 1, demo_vfs_ro)"
  "vf_mounts demo_vfs_ro ! 1 = \<lparr>mn_used = True, mn_namespace = NAMESPACE_ROOT, mn_parent = Some MOUNT_ROOT,
     mn_mountpoint_inode = 1, mn_root_inode = 1, mn_source = Ramfs, mn_flags = flags_library, mn_propagation = Private,
     mn_dentry_references = 0\<rparr>"
  "vf_mounted demo_vfs_ro"
proof -
  have "find_mount_child demo_vfs_dir NAMESPACE_ROOT MOUNT_ROOT 1 = None"
    by (simp add: find_mount_child_def demo_vfs_dir_eq(2) demo_eval is_mount_child_def mount_node_empty_def numeral_eq_Suc)
  moreover have "mount_node_of demo_vfs_dir MOUNT_ROOT = Ok (mount_node_root NAMESPACE_ROOT)"
    by (simp add: demo_vfs_dir_eq(2) demo_eval)
  moreover have "position (\<lambda>node. \<not> mn_used node) (vf_mounts demo_vfs_dir) = Some 1"
    by (simp add: demo_vfs_dir_eq(2) demo_eval mount_node_empty_def numeral_eq_Suc)
  moreover have "vf_mounted demo_vfs_dir" "in_kind (fs_inodes (vf_fs demo_vfs_dir) ! 1) = Directory"
    by (simp_all add: demo_vfs_dir_eq(2) demo_eval)
  ultimately have m: "mount_in_namespace NAMESPACE_ROOT Ramfs [0x2f, 0x61] flags_library Private demo_vfs_dir =
    (Ok 1, demo_vfs_dir\<lparr>vf_mounts := (vf_mounts demo_vfs_dir)[1 := \<lparr>mn_used = True, mn_namespace = NAMESPACE_ROOT,
      mn_parent = Some MOUNT_ROOT, mn_mountpoint_inode = 1, mn_root_inode = 1, mn_source = Ramfs,
      mn_flags = flags_library, mn_propagation = Private, mn_dentry_references = 0\<rparr>]\<rparr>)"
    by (simp add: mount_in_namespace_def with_fs_def resolve_demo mount_node_root_def)
  then show "mount_in_namespace NAMESPACE_ROOT Ramfs [0x2f, 0x61] flags_library Private demo_vfs_dir = (Ok 1, demo_vfs_ro)"
    by (simp add: demo_vfs_ro_def)
  have "1 < length (vf_mounts demo_vfs_dir)" by (simp add: demo_vfs_dir_eq(2) demo_vfs_eq)
  with m \<open>vf_mounted demo_vfs_dir\<close> show "vf_mounts demo_vfs_ro ! 1 = \<lparr>mn_used = True, mn_namespace = NAMESPACE_ROOT, mn_parent = Some MOUNT_ROOT,
     mn_mountpoint_inode = 1, mn_root_inode = 1, mn_source = Ramfs, mn_flags = flags_library, mn_propagation = Private,
     mn_dentry_references = 0\<rparr>" "vf_mounted demo_vfs_ro"
    by (simp_all add: demo_vfs_ro_def)
qed

lemma resolve_demo_ro: "resolve_mount demo_vfs_ro [0x2f, 0x61] NAMESPACE_ROOT = Ok (1, 1)"
proof -
  have ro: "demo_vfs_ro = demo_vfs_dir\<lparr>vf_mounts := (vf_mounts demo_vfs_dir)[1 := \<lparr>mn_used = True, mn_namespace = NAMESPACE_ROOT,
      mn_parent = Some MOUNT_ROOT, mn_mountpoint_inode = 1, mn_root_inode = 1, mn_source = Ramfs,
      mn_flags = flags_library, mn_propagation = Private, mn_dentry_references = 0\<rparr>]\<rparr>"
    using mount_in_namespace_cases [OF vfssys.reachable_inv [OF demo_vfs_reachable(2)] demo_vfs_ro_eq(1)] resolve_demo
    by (auto simp: is_err_def)
  show ?thesis unfolding ro
    by (simp add: resolve_mount_def demo_vfs_dir_eq(2) demo_eval child_matches_def find_mount_child_def
        is_mount_child_def mount_node_empty_def numeral_eq_Suc)
qed

definition demo_vfs_open :: vfs where
  "demo_vfs_open = demo_vfs\<lparr>vf_fs := \<lparr>fs_inodes =
     (inode_new Directory 0 493)\<lparr>in_children := \<lparr>ch_used = True, ch_inode = 1, ch_name = name_of [0x62]\<rparr> # replicate 15 child_empty\<rparr> #
     inode_new Regular 0 420 # replicate 30 inode_empty,
     fs_handles = \<lparr>hs_used = True, hs_mount = MOUNT_ROOT, hs_inode = 1\<rparr> # replicate 15 handle_empty, fs_open_count = 1\<rparr>\<rparr>"

lemma demo_open:
  "vfs_open [0x2f, 0x62] options_write_create demo_vfs =
   (Ok \<lparr>fh_inode = 1, fh_mount = MOUNT_ROOT, fh_slot = 0, fh_offset = 0, fh_readable = False, fh_writable = True\<rparr>, demo_vfs_open)"
proof -
  have "resolve_mount demo_vfs [0x2f, 0x62] NAMESPACE_ROOT = Err V_NotFound"
    by (simp add: resolve_mount_def demo_eval numeral_eq_Suc)
  moreover have "parent_and_name_mount demo_vfs [0x2f, 0x62] NAMESPACE_ROOT = Ok (MOUNT_ROOT, 0, name_of [0x62])"
    by (simp add: parent_and_name_mount_def demo_eval)
  ultimately show ?thesis
    by (simp add: vfs_open_def open_inode_def open_handle_def options_write_create_def demo_vfs_open_def demo_eval)
qed

lemma demo_write: "fst (vfs_write [0x2f, 0x62] [7, 8] demo_vfs)"
proof -
  have "\<not> mf_read_only flags_defaults" by (simp add: flags_defaults_def)
  then have "is_ok (fst (write_handle \<lparr>fh_inode = 1, fh_mount = MOUNT_ROOT, fh_slot = 0, fh_offset = 0, fh_readable = False,
      fh_writable = True\<rparr> [7, 8] demo_vfs_open))"
    by (simp add: write_handle_def validate_handle_def demo_vfs_open_def demo_vfs_eq mount_flags_of_def mount_node_of_def
        MOUNT_ROOT_def mount_node_root_def and_then_def new_used is_err_def is_ok_def MAX_OPEN_HANDLES_def FILE_MAX_def Let_def)
  then show ?thesis by (simp add: vfs_write_def demo_open case_prod_beta)
qed

theorem vfs_consistent_witness:
  "live (vf_fs demo_vfs_dir) 1 \<and> (\<exists>!k. dirs demo_vfs_dir k = Some 1) \<and> to_root (vf_fs demo_vfs_dir) 1"
  using vfs_consistent [OF demo_vfs_reachable(2)]
  by (simp add: live_def demo_vfs_dir_eq(2) new_used MAX_INODES_def)

theorem directory_operations_update_lookups_witness:
  "vfs_mkdir [0x2f, 0x61] demo_vfs = (Ok (), demo_vfs_dir) \<and>
   (\<exists>p name i. dirs demo_vfs (p, name) = None \<and> dirs demo_vfs_dir = (dirs demo_vfs)((p, name) \<mapsto> i))"
  using directory_operations_update_lookups [OF demo_vfs_reachable(1), of "[0x2f, 0x61]" "[]"]
  unfolding demo_vfs_dir_eq(1) by auto

theorem write_reads_back_witness:
  "fst (vfs_write [0x2f, 0x62] [7, 8] demo_vfs) \<and>
   (\<exists>i. file_content (vf_fs (snd (vfs_write [0x2f, 0x62] [7, 8] demo_vfs))) i = [7, 8])"
proof -
  have "fst (vfs_write [0x2f, 0x62] [7, 8] demo_vfs)" by (rule demo_write)
  moreover have "path_content (vf_fs demo_vfs) [0x2f, 0x62] = []"
    by (simp add: path_content_def inode_of_def demo_eval numeral_eq_Suc)
  ultimately show ?thesis
    using write_reads_back [OF demo_vfs_reachable(1), of "[0x2f, 0x62]" "[7, 8]" "snd (vfs_write [0x2f, 0x62] [7, 8] demo_vfs)"]
    by (cases "vfs_write [0x2f, 0x62] [7, 8] demo_vfs") auto
qed


end
