(* ===== verification/Driver_Framework.thy ===== *)
theory Driver_Framework
  imports Irq
begin

text \<open>
  The driver framework (\<open>src/drivers/framework.rs\<close> with the addresses of \<open>src/address.rs\<close>): buses, devices
  with their resources and state machine, the life cycle of a driver from probe to removal, the
  trace ring and the table of registered drivers.  The callbacks of a driver are functions on the
  device and the state of the framework, which is what they can reach; what the life cycle relies
  on them for is the interface \<open>driver_callback\<close>.
\<close>

definition MAX_DRIVERS :: nat where [kernel_defs]: "MAX_DRIVERS = 32"
definition MAX_DEVICES_PER_BUS :: nat where [kernel_defs]: "MAX_DEVICES_PER_BUS = 16"
definition MAX_RESOURCES :: nat where [kernel_defs]: "MAX_RESOURCES = 8"
definition MAX_TRACE_EVENTS :: nat where [kernel_defs]: "MAX_TRACE_EVENTS = 128"

type_synonym bus_id = u16
type_synonym device_id = u16
type_synonym driver_id = u16

datatype bus_kind = BK_Platform | BK_Pci | BK_Virtio | BK_Usb | BK_Ps2
datatype dev_class = DC_Display | DC_Serial | DC_Block | DC_Input | DC_UsbHost | DC_Audio | DC_Network
datatype driver_stage = Early | Runtime
datatype device_state =
    DS_Discovered | DS_Probing | DS_Ready | DS_Suspended | DS_Deferred | DS_Unsupported | DS_Busy
  | DS_Quiescing | DS_Removed | DS_Failed
datatype dma_direction = ToDevice | FromDevice | Bidirectional

record dev_irq =
  di_kind :: irq_kind
  di_line :: u32
  di_owner :: device_id

record dma_buffer =
  db_physical :: u64
  db_virtual_address :: usize
  db_length :: usize
  db_alignment :: usize
  db_direction :: dma_direction
  db_owner :: device_id

datatype resource =
    Mmio (mmio_base: u64) (mmio_size: u64) (mmio_owner: device_id)
  | Pio (pio_base: u16) (pio_size: u16) (pio_owner: device_id)
  | IrqResource dev_irq
  | Dma dma_buffer

datatype driver_error =
    DE_InvalidState device_state device_state
  | DE_BusCapacity | DE_ResourceCapacity | DE_ResourceOwnerMismatch | DE_DriverAlreadyBound | DE_DriverNotBound
  | DE_Unsupported | DE_Deferred | DE_Busy | DE_Timeout | DE_ProbeFailed | DE_RemoveFailed | DE_NotMatched
  | DE_NotPublished | DE_InvalidResourceRange | DE_InvalidAlignment | DE_InvalidAddressRange | DE_InvalidDmaDirection
  | DE_DeviceAbsent | DE_MalformedDescriptor | DE_DmaFailure | DE_InterruptStorm

section \<open>Resources\<close>

definition addr_is_aligned :: "u64 \<Rightarrow> usize \<Rightarrow> bool" where
  "addr_is_aligned value alignment \<longleftrightarrow> is_power_of_two alignment \<and> is_multiple_of value alignment"

definition dma_validate :: "dma_buffer \<Rightarrow> driver_error + unit" where
  "dma_validate b =
     (if db_length b = 0 \<or> \<not> is_power_of_two (db_alignment b) \<or>
         \<not> addr_is_aligned (db_physical b) (db_alignment b) \<or>
         \<not> addr_is_aligned (db_virtual_address b) (db_alignment b)
      then Err DE_InvalidAlignment
      else if checked_add (db_physical b) (db_length b) = None \<or>
              checked_add (db_virtual_address b) (db_length b) = None
      then Err DE_InvalidAddressRange
      else Ok ())"

fun resource_owner :: "resource \<Rightarrow> device_id" where
  "resource_owner (Mmio base bytes owner) = owner"
| "resource_owner (Pio base bytes owner) = owner"
| "resource_owner (IrqResource irq) = di_owner irq"
| "resource_owner (Dma buffer) = db_owner buffer"

fun resource_validate :: "resource \<Rightarrow> driver_error + unit" where
  "resource_validate (Mmio base bytes owner) =
     (if bytes = 0 \<or> checked_add base bytes = None then Err DE_InvalidResourceRange else Ok ())"
| "resource_validate (Pio base bytes owner) =
     (if bytes = 0 \<or> unat base + unat bytes > 0x10000 then Err DE_InvalidResourceRange else Ok ())"
| "resource_validate (Dma buffer) = dma_validate buffer"
| "resource_validate (IrqResource irq) = Ok ()"

section \<open>Buses and devices\<close>

record bus =
  bs_id :: bus_id
  bs_name :: string
  bs_kind :: bus_kind
  bs_devices :: "device_id option list"
  bs_device_len :: nat

definition bus_new :: "bus_id \<Rightarrow> string \<Rightarrow> bus_kind \<Rightarrow> bus" where
  "bus_new i name kind = \<lparr>bs_id = i, bs_name = name, bs_kind = kind,
     bs_devices = replicate MAX_DEVICES_PER_BUS None, bs_device_len = 0\<rparr>"

definition bus_attach :: "device_id \<Rightarrow> bus \<Rightarrow> (driver_error + unit) \<times> bus" where
  "bus_attach d b =
     (if bs_device_len b = MAX_DEVICES_PER_BUS then (Err DE_BusCapacity, b)
      else if Some d \<in> set (take (bs_device_len b) (bs_devices b)) then (Ok (), b)
      else (Ok (), b\<lparr>bs_devices := (bs_devices b)[bs_device_len b := Some d],
                     bs_device_len := bs_device_len b + 1\<rparr>))"

definition bus_devices :: "bus \<Rightarrow> device_id option list" where
  "bus_devices b = take (bs_device_len b) (bs_devices b)"

record device =
  dv_id :: device_id
  dv_bus :: bus_id
  dv_bus_kind :: bus_kind
  dv_name :: string
  dv_class :: dev_class
  dv_state :: device_state
  dv_resources :: "resource option list"
  dv_resource_len :: nat
  dv_driver :: "driver_id option"
  dv_published :: bool

definition device_new :: "device_id \<Rightarrow> bus_id \<Rightarrow> bus_kind \<Rightarrow> string \<Rightarrow> dev_class \<Rightarrow> device" where
  "device_new i b kind name cls = \<lparr>dv_id = i, dv_bus = b, dv_bus_kind = kind, dv_name = name, dv_class = cls,
     dv_state = DS_Discovered, dv_resources = replicate MAX_RESOURCES None, dv_resource_len = 0,
     dv_driver = None, dv_published = False\<rparr>"

definition valid_transitions :: "(device_state \<times> device_state) list" where
  "valid_transitions =
     [(DS_Discovered, DS_Probing), (DS_Probing, DS_Ready), (DS_Ready, DS_Suspended), (DS_Suspended, DS_Ready),
      (DS_Probing, DS_Deferred), (DS_Probing, DS_Unsupported), (DS_Probing, DS_Busy), (DS_Probing, DS_Failed),
      (DS_Ready, DS_Quiescing), (DS_Suspended, DS_Quiescing), (DS_Quiescing, DS_Removed), (DS_Quiescing, DS_Failed),
      (DS_Failed, DS_Removed), (DS_Failed, DS_Probing), (DS_Removed, DS_Probing), (DS_Deferred, DS_Probing),
      (DS_Unsupported, DS_Probing), (DS_Busy, DS_Probing)]"

definition transition :: "device_state \<Rightarrow> device \<Rightarrow> (driver_error + unit) \<times> device" where
  "transition next d =
     (if (dv_state d, next) \<notin> set valid_transitions then (Err (DE_InvalidState next (dv_state d)), d)
      else (Ok (), d\<lparr>dv_state := next\<rparr>))"

definition device_resources :: "device \<Rightarrow> resource option list" where
  "device_resources d = take (dv_resource_len d) (dv_resources d)"

definition bind_driver :: "driver_id \<Rightarrow> device \<Rightarrow> (driver_error + unit) \<times> device" where
  "bind_driver i d =
     (if dv_driver d \<noteq> None then (Err DE_DriverAlreadyBound, d)
      else if dv_state d \<noteq> DS_Probing then (Err (DE_InvalidState DS_Probing (dv_state d)), d)
      else (Ok (), d\<lparr>dv_driver := Some i\<rparr>))"

definition unbind_driver :: "device \<Rightarrow> (driver_error + driver_id) \<times> device" where
  "unbind_driver d = (ok_or (dv_driver d) DE_DriverNotBound, d\<lparr>dv_driver := None\<rparr>)"

definition device_publish :: "device \<Rightarrow> (driver_error + unit) \<times> device" where
  "device_publish d =
     (if dv_state d \<noteq> DS_Ready then (Err (DE_InvalidState DS_Ready (dv_state d)), d)
      else (Ok (), d\<lparr>dv_published := True\<rparr>))"

definition device_unpublish :: "device \<Rightarrow> (driver_error + unit) \<times> device" where
  "device_unpublish d = (if \<not> dv_published d then (Err DE_NotPublished, d) else (Ok (), d\<lparr>dv_published := False\<rparr>))"

definition is_irq :: "resource \<Rightarrow> bool" where
  "is_irq r = (case r of IrqResource _ \<Rightarrow> True | _ \<Rightarrow> False)"

definition is_dma :: "resource \<Rightarrow> bool" where
  "is_dma r = (case r of Dma _ \<Rightarrow> True | _ \<Rightarrow> False)"

definition resource_summary :: "device \<Rightarrow> nat \<times> nat \<times> nat" where
  "resource_summary d =
     (dv_resource_len d, length (filter is_irq (flatten (device_resources d))),
      length (filter is_dma (flatten (device_resources d))))"

section \<open>The trace\<close>

datatype trace_op =
    TO_Discover | TO_Match | TO_Probe | TO_Publish | TO_Suspend | TO_Resume | TO_Quiesce | TO_Remove | TO_Revoke
  | TO_HotUnplug | TO_Rebind | TO_ResourceAdd | TO_ResourceRelease

record trace_event =
  te_sequence :: u64
  te_operation :: trace_op
  te_device :: device_id
  te_driver :: "driver_id option"
  te_state :: device_state
  te_resources :: nat
  te_irqs :: nat
  te_dmas :: nat
  te_success :: bool

record trace_ring =
  tr_events :: "trace_event option list"
  tr_next :: u64
  tr_len :: nat

definition trace_new :: trace_ring where
  "trace_new = \<lparr>tr_events = replicate MAX_TRACE_EVENTS None, tr_next = 0, tr_len = 0\<rparr>"

definition trace_event_add :: "trace_op \<Rightarrow> device \<Rightarrow> driver_id option \<Rightarrow> bool \<Rightarrow> trace_ring \<Rightarrow> trace_ring" where
  "trace_event_add operation d driver success t =
     (case resource_summary d of (resources, irqs, dmas) \<Rightarrow>
      t\<lparr>tr_events := (tr_events t)[unat (tr_next t) mod MAX_TRACE_EVENTS :=
          Some \<lparr>te_sequence = tr_next t, te_operation = operation, te_device = dv_id d, te_driver = driver,
                te_state = dv_state d, te_resources = resources, te_irqs = irqs, te_dmas = dmas, te_success = success\<rparr>],
        tr_next := saturating_add (tr_next t) 1,
        tr_len := min (tr_len t + 1) MAX_TRACE_EVENTS\<rparr>)"

text \<open>The events that \<open>trace\<close> passes to its argument, in the order of the calls.\<close>

definition trace_list :: "trace_ring \<Rightarrow> trace_event list" where
  "trace_list t =
     (let start = saturating_sub (tr_next t) (of_nat (tr_len t)) in
      flatten (map (\<lambda>offset. tr_events t ! (unat (start + of_nat offset) mod MAX_TRACE_EVENTS)) [0..<tr_len t]))"

section \<open>Drivers\<close>

type_synonym dev_sys = "device \<times> trace_ring"
type_synonym device_callback = "dev_sys \<Rightarrow> (driver_error + unit) \<times> dev_sys"

record driver_ops =
  op_probe :: device_callback
  op_suspend :: "device_callback option"
  op_resume :: "device_callback option"
  op_quiesce :: "device_callback option"
  op_remove :: device_callback

record driver =
  dr_id :: driver_id
  dr_name :: string
  dr_class :: dev_class
  dr_bus :: bus_kind
  dr_stage :: driver_stage
  dr_ops :: "driver_ops option"

definition driver_new :: "driver_id \<Rightarrow> string \<Rightarrow> dev_class \<Rightarrow> bus_kind \<Rightarrow> driver" where
  "driver_new i name cls b = \<lparr>dr_id = i, dr_name = name, dr_class = cls, dr_bus = b, dr_stage = Runtime, dr_ops = None\<rparr>"

definition driver_early :: "driver_id \<Rightarrow> string \<Rightarrow> dev_class \<Rightarrow> bus_kind \<Rightarrow> driver" where
  "driver_early i name cls b = \<lparr>dr_id = i, dr_name = name, dr_class = cls, dr_bus = b, dr_stage = Early, dr_ops = None\<rparr>"

definition driver_with_ops :: "driver_id \<Rightarrow> string \<Rightarrow> dev_class \<Rightarrow> bus_kind \<Rightarrow> driver_ops \<Rightarrow> driver" where
  "driver_with_ops i name cls b ops =
     \<lparr>dr_id = i, dr_name = name, dr_class = cls, dr_bus = b, dr_stage = Runtime, dr_ops = Some ops\<rparr>"

definition driver_matches :: "driver \<Rightarrow> device \<Rightarrow> bool" where
  "driver_matches dr d \<longleftrightarrow> dr_class dr = dv_class d \<and> dr_bus dr = dv_bus_kind d"

text \<open>Running an operation of the device alone, and recording an event.\<close>

definition on_device :: "(device \<Rightarrow> 'r \<times> device) \<Rightarrow> dev_sys \<Rightarrow> 'r \<times> dev_sys" where
  "on_device f s = (case f (fst s) of (r, d) \<Rightarrow> (r, d, snd s))"

definition traced :: "trace_op \<Rightarrow> driver_id option \<Rightarrow> bool \<Rightarrow> dev_sys \<Rightarrow> dev_sys" where
  "traced operation driver success s = (fst s, trace_event_add operation (fst s) driver success (snd s))"

definition add_resource :: "resource \<Rightarrow> device_callback" where
  "add_resource r s =
     (let d = fst s in
      if resource_owner r \<noteq> dv_id d then (Err DE_ResourceOwnerMismatch, s)
      else try_res (resource_validate r) s (\<lambda>_.
        if dv_resource_len d = MAX_RESOURCES then (Err DE_ResourceCapacity, s)
        else
          let d = d\<lparr>dv_resources := (dv_resources d)[dv_resource_len d := Some r],
                    dv_resource_len := dv_resource_len d + 1\<rparr> in
          (Ok (), traced TO_ResourceAdd (dv_driver d) True (d, snd s))))"

definition release_resources :: device_callback where
  "release_resources s =
     (let d = fst s in
      if dv_state d \<notin> {DS_Failed, DS_Deferred, DS_Unsupported, DS_Busy, DS_Removed}
      then (Err (DE_InvalidState DS_Removed (dv_state d)), s)
      else
        let d = d\<lparr>dv_resources := replicate MAX_RESOURCES None, dv_resource_len := 0\<rparr> in
        (Ok (), traced TO_ResourceRelease (dv_driver d) True (d, snd s)))"

definition discover :: "bus \<Rightarrow> dev_sys \<Rightarrow> (driver_error + unit) \<times> bus \<times> dev_sys" where
  "discover b s =
     (let d = fst s in
      if dv_bus d \<noteq> bs_id b \<or> dv_bus_kind d \<noteq> bs_kind b then (Err DE_NotMatched, b, s)
      else if dv_state d \<noteq> DS_Discovered then (Err (DE_InvalidState DS_Discovered (dv_state d)), b, s)
      else (case bus_attach (dv_id d) b of (r, b) \<Rightarrow> (r, b, traced TO_Discover None (is_ok r) s)))"

definition match_driver :: "driver \<Rightarrow> dev_sys \<Rightarrow> bool \<times> dev_sys" where
  "match_driver dr s =
     (let matched = driver_matches dr (fst s) in (matched, traced TO_Match (Some (dr_id dr)) matched s))"

definition probe_failure_state :: "driver_error \<Rightarrow> device_state" where
  "probe_failure_state e =
     (if e = DE_DeviceAbsent then DS_Unsupported else if e = DE_Deferred then DS_Deferred
      else if e = DE_Unsupported then DS_Unsupported else if e = DE_Busy then DS_Busy else DS_Failed)"

definition probe :: "driver \<Rightarrow> dev_sys \<Rightarrow> (driver_error + unit) \<times> dev_sys" where
  "probe dr s =
     (let failed = traced TO_Probe (Some (dr_id dr)) False in
      if \<not> driver_matches dr (fst s) then (Err DE_NotMatched, failed s)
      else
        (case on_device (transition DS_Probing) s of
           (Inl e, s) \<Rightarrow> (Err e, failed s)
         | (Inr _, s) \<Rightarrow>
             (case dr_ops dr of
                None \<Rightarrow>
                  (case on_device (transition DS_Unsupported) s of
                     (Inl _, s) \<Rightarrow> (Err (DE_InvalidState DS_Unsupported (dv_state (fst s))), failed s)
                   | (Inr _, s) \<Rightarrow> (Err DE_Unsupported, failed (snd (release_resources s))))
              | Some ops \<Rightarrow>
                  (case op_probe ops s of
                     (Inl e, s) \<Rightarrow>
                       (case on_device (transition (probe_failure_state e)) s of
                          (Inl te, s) \<Rightarrow> (Err te, failed s)
                        | (Inr _, s) \<Rightarrow> (Err e, failed (snd (release_resources s))))
                   | (Inr _, s) \<Rightarrow>
                       (case on_device (bind_driver (dr_id dr)) s of
                          (Inl e, s) \<Rightarrow>
                            (Err e, failed (snd (release_resources (snd (on_device (transition DS_Failed) s)))))
                        | (Inr _, s) \<Rightarrow>
                            (case on_device (transition DS_Ready) s of
                               (r, s) \<Rightarrow> (r, traced TO_Probe (Some (dr_id dr)) (is_ok r) s)))))))"

definition publish_device :: device_callback where
  "publish_device s =
     (case on_device device_publish s of (r, s) \<Rightarrow> (r, traced TO_Publish (dv_driver (fst s)) (is_ok r) s))"

text \<open>The common end of \<open>suspend\<close>, \<open>resume\<close> and \<open>quiesce\<close>: the callback, then the transition, each traced.\<close>

definition call_then_transition ::
  "trace_op \<Rightarrow> driver \<Rightarrow> device_callback option \<Rightarrow> device_state \<Rightarrow> dev_sys \<Rightarrow> (driver_error + unit) \<times> dev_sys" where
  "call_then_transition operation dr callback next s =
     (case (case callback of None \<Rightarrow> (Ok (), s) | Some f \<Rightarrow> f s) of
        (Inl e, s) \<Rightarrow> (Err e, traced operation (Some (dr_id dr)) False s)
      | (Inr _, s) \<Rightarrow>
          (case on_device (transition next) s of
             (r, s) \<Rightarrow> (r, traced operation (Some (dr_id dr)) (is_ok r) s)))"

definition suspend :: "driver \<Rightarrow> dev_sys \<Rightarrow> (driver_error + unit) \<times> dev_sys" where
  "suspend dr s =
     (if dv_driver (fst s) \<noteq> Some (dr_id dr) then (Err DE_DriverNotBound, s)
      else if dv_state (fst s) \<noteq> DS_Ready then (Err (DE_InvalidState DS_Ready (dv_state (fst s))), s)
      else
        (case dr_ops dr of
           None \<Rightarrow> (Err DE_Unsupported, s)
         | Some ops \<Rightarrow>
             (case op_suspend ops of
                None \<Rightarrow> (Err DE_Unsupported, s)
              | Some f \<Rightarrow> call_then_transition TO_Suspend dr (Some f) DS_Suspended s)))"

definition resume :: "driver \<Rightarrow> dev_sys \<Rightarrow> (driver_error + unit) \<times> dev_sys" where
  "resume dr s =
     (if dv_driver (fst s) \<noteq> Some (dr_id dr) then (Err DE_DriverNotBound, s)
      else if dv_state (fst s) \<noteq> DS_Suspended then (Err (DE_InvalidState DS_Suspended (dv_state (fst s))), s)
      else
        (case dr_ops dr of
           None \<Rightarrow> (Err DE_Unsupported, s)
         | Some ops \<Rightarrow>
             (case op_resume ops of
                None \<Rightarrow> (Err DE_Unsupported, s)
              | Some f \<Rightarrow> call_then_transition TO_Resume dr (Some f) DS_Ready s)))"

definition quiesce :: "driver \<Rightarrow> dev_sys \<Rightarrow> (driver_error + unit) \<times> dev_sys" where
  "quiesce dr s =
     (if dv_driver (fst s) \<noteq> Some (dr_id dr) then (Err DE_DriverNotBound, s)
      else if dv_state (fst s) \<notin> {DS_Ready, DS_Suspended} then (Err (DE_InvalidState DS_Ready (dv_state (fst s))), s)
      else
        (case dr_ops dr of
           None \<Rightarrow> (Err DE_Unsupported, s)
         | Some ops \<Rightarrow> call_then_transition TO_Quiesce dr (op_quiesce ops) DS_Quiescing s))"

text \<open>The end of \<open>revoke\<close>: unpublish, unbind, transition, release.\<close>

definition detach :: "trace_op \<Rightarrow> driver \<Rightarrow> dev_sys \<Rightarrow> (driver_error + unit) \<times> dev_sys" where
  "detach operation dr s =
     try_st (if dv_published (fst s) then on_device device_unpublish s else (Ok (), s)) (\<lambda>_ s.
     try_st (on_device unbind_driver s) (\<lambda>_ s.
     try_st (if dv_state (fst s) \<noteq> DS_Removed then on_device (transition DS_Removed) s else (Ok (), s)) (\<lambda>_ s.
       (case release_resources s of (r, s) \<Rightarrow> (r, traced operation (Some (dr_id dr)) (is_ok r) s)))))"

definition remove_device :: "driver \<Rightarrow> dev_sys \<Rightarrow> (driver_error + unit) \<times> dev_sys" where
  "remove_device dr s =
     (if dv_driver (fst s) \<noteq> Some (dr_id dr) then (Err DE_DriverNotBound, s)
      else if dv_state (fst s) \<noteq> DS_Quiescing then (Err (DE_InvalidState DS_Quiescing (dv_state (fst s))), s)
      else
        (case dr_ops dr of
           None \<Rightarrow> (Err DE_Unsupported, s)
         | Some ops \<Rightarrow>
             (case op_remove ops s of
                (Inl e, s) \<Rightarrow>
                  (Err e, traced TO_Remove (Some (dr_id dr)) False (snd (on_device (transition DS_Failed) s)))
              | (Inr _, s) \<Rightarrow>
                  try_st (if dv_published (fst s) then on_device device_unpublish s else (Ok (), s)) (\<lambda>_ s.
                  try_st (on_device unbind_driver s) (\<lambda>_ s.
                  try_st (on_device (transition DS_Removed) s) (\<lambda>_ s.
                    (case release_resources s of (r, s) \<Rightarrow> (r, traced TO_Remove (Some (dr_id dr)) (is_ok r) s))))))))"

definition revoke_device :: "driver \<Rightarrow> dev_sys \<Rightarrow> (driver_error + unit) \<times> dev_sys" where
  "revoke_device dr s =
     (if dv_driver (fst s) \<noteq> Some (dr_id dr) then (Err DE_DriverNotBound, s)
      else if dv_state (fst s) \<notin> {DS_Quiescing, DS_Failed} then (Err (DE_InvalidState DS_Quiescing (dv_state (fst s))), s)
      else detach TO_Revoke dr s)"

definition hot_unplug :: "driver \<Rightarrow> dev_sys \<Rightarrow> (driver_error + unit) \<times> dev_sys" where
  "hot_unplug dr s =
     try_st (quiesce dr s) (\<lambda>_ s.
       (case remove_device dr s of (r, s) \<Rightarrow> (r, traced TO_HotUnplug (Some (dr_id dr)) (is_ok r) s)))"

definition rebind :: "driver \<Rightarrow> driver \<Rightarrow> dev_sys \<Rightarrow> (driver_error + unit) \<times> dev_sys" where
  "rebind old_driver new_driver s =
     (if dv_driver (fst s) \<noteq> Some (dr_id old_driver) then (Err DE_DriverNotBound, s)
      else
        try_st (quiesce old_driver s) (\<lambda>_ s.
        try_st (remove_device old_driver s) (\<lambda>_ s.
          (case probe new_driver s of (r, s) \<Rightarrow> (r, traced TO_Rebind (Some (dr_id new_driver)) (is_ok r) s)))))"

section \<open>The table of drivers\<close>

record driver_status =
  dst_driver :: driver
  dst_state :: device_state

record driver_table =
  dt_drivers :: "driver_status option list"
  dt_len :: nat

definition framework_init :: "driver_table \<times> trace_ring" where
  "framework_init = (\<lparr>dt_drivers = replicate MAX_DRIVERS None, dt_len = 0\<rparr>, trace_new)"

definition register_driver :: "driver \<Rightarrow> device_state \<Rightarrow> driver_table \<Rightarrow> bool \<times> driver_table" where
  "register_driver dr st t =
     (if dt_len t = MAX_DRIVERS then (False, t)
      else (True, t\<lparr>dt_drivers := (dt_drivers t)[dt_len t := Some \<lparr>dst_driver = dr, dst_state = st\<rparr>],
                    dt_len := dt_len t + 1\<rparr>))"

definition driver_list :: "driver_table \<Rightarrow> driver_status list" where
  "driver_list t = flatten (take (dt_len t) (dt_drivers t))"

section \<open>The names in the reports\<close>

fun trace_op_name :: "trace_op \<Rightarrow> string" where
  "trace_op_name TO_Discover = ''discover''"
| "trace_op_name TO_Match = ''match''"
| "trace_op_name TO_Probe = ''probe''"
| "trace_op_name TO_Publish = ''publish''"
| "trace_op_name TO_Suspend = ''suspend''"
| "trace_op_name TO_Resume = ''resume''"
| "trace_op_name TO_Quiesce = ''quiesce''"
| "trace_op_name TO_Remove = ''remove''"
| "trace_op_name TO_Revoke = ''revoke''"
| "trace_op_name TO_HotUnplug = ''hot-unplug''"
| "trace_op_name TO_Rebind = ''rebind''"
| "trace_op_name TO_ResourceAdd = ''resource-add''"
| "trace_op_name TO_ResourceRelease = ''resource-release''"

fun class_name :: "dev_class \<Rightarrow> string" where
  "class_name DC_Display = ''display''"
| "class_name DC_Serial = ''serial''"
| "class_name DC_Block = ''block''"
| "class_name DC_Input = ''input''"
| "class_name DC_UsbHost = ''usb-host''"
| "class_name DC_Audio = ''audio''"
| "class_name DC_Network = ''network''"

fun bus_name :: "bus_kind \<Rightarrow> string" where
  "bus_name BK_Platform = ''platform''"
| "bus_name BK_Pci = ''pci''"
| "bus_name BK_Virtio = ''virtio''"
| "bus_name BK_Usb = ''usb''"
| "bus_name BK_Ps2 = ''ps2''"

fun stage_name :: "driver_stage \<Rightarrow> string" where
  "stage_name Early = ''early''"
| "stage_name Runtime = ''runtime''"

fun state_name :: "device_state \<Rightarrow> string" where
  "state_name DS_Discovered = ''discovered''"
| "state_name DS_Probing = ''probing''"
| "state_name DS_Ready = ''ready''"
| "state_name DS_Suspended = ''suspended''"
| "state_name DS_Deferred = ''deferred''"
| "state_name DS_Unsupported = ''unsupported''"
| "state_name DS_Busy = ''busy''"
| "state_name DS_Quiescing = ''quiescing''"
| "state_name DS_Removed = ''removed''"
| "state_name DS_Failed = ''failed''"

text \<open>Distinct values have distinct names.\<close>

lemma names_distinct:
  "trace_op_name a = trace_op_name b \<Longrightarrow> a = b" "class_name c = class_name d \<Longrightarrow> c = d"
  "bus_name e = bus_name f \<Longrightarrow> e = f" "stage_name g = stage_name h \<Longrightarrow> g = h" "state_name i = state_name j \<Longrightarrow> i = j"
  subgoal by (cases a; cases b; simp)
  subgoal by (cases c; cases d; simp)
  subgoal by (cases e; cases f; simp)
  subgoal by (cases g; cases h; simp)
  subgoal by (cases i; cases j; simp)
  done

section \<open>The contract checks\<close>

definition contract_ok :: device_callback where
  "contract_ok s = (Ok (), s)"

definition contract_fail :: device_callback where
  "contract_fail s = (Err DE_ProbeFailed, s)"

definition contract_unsupported :: device_callback where
  "contract_unsupported s = (Err DE_Unsupported, s)"

definition contract_deferred :: device_callback where
  "contract_deferred s = (Err DE_Deferred, s)"

definition contract_busy :: device_callback where
  "contract_busy s = (Err DE_Busy, s)"

definition contract_absent :: device_callback where
  "contract_absent s = (Err DE_DeviceAbsent, s)"

definition contract_timeout :: device_callback where
  "contract_timeout s = (Err DE_Timeout, s)"

definition contract_malformed :: device_callback where
  "contract_malformed s = (Err DE_MalformedDescriptor, s)"

definition contract_dma_failure :: device_callback where
  "contract_dma_failure s = (Err DE_DmaFailure, s)"

definition contract_driver :: "driver_id \<Rightarrow> string \<Rightarrow> device_callback \<Rightarrow> driver" where
  "contract_driver i name f = driver_with_ops i name DC_Serial BK_Platform
     \<lparr>op_probe = f, op_suspend = None, op_resume = None, op_quiesce = None, op_remove = contract_ok\<rparr>"

definition contract_probe_status_result ::
  "device_id \<Rightarrow> string \<Rightarrow> device_callback \<Rightarrow> device_state \<Rightarrow> driver_error \<Rightarrow> bus \<times> trace_ring \<Rightarrow> bool \<times> bus \<times> trace_ring" where
  "contract_probe_status_result i name probe_callback expected_state expected_error st =
     (let b = fst st; d = device_new i (bs_id b) (bs_kind b) name DC_Serial; dr = contract_driver i name probe_callback in
      case discover b (d, snd st) of (r, b, s) \<Rightarrow>
      if is_err r then (False, b, snd s)
      else case add_resource (Pio 0x3f8 8 i) s of (r, s) \<Rightarrow>
      if is_err r then (False, b, snd s)
      else case probe dr s of (r, s) \<Rightarrow>
        (r = Err expected_error \<and> dv_state (fst s) = expected_state \<and> device_resources (fst s) = [], b, snd s))"

definition contract_hot_unplug :: "bus \<times> trace_ring \<Rightarrow> bool \<times> bus \<times> trace_ring" where
  "contract_hot_unplug st =
     (let b = fst st; d = device_new 94 (bs_id b) (bs_kind b) ''matrix-hot-unplug'' DC_Serial;
          dr = contract_driver 94 ''matrix-hot-unplug'' contract_ok in
      case discover b (d, snd st) of (r, b, s) \<Rightarrow>
      if is_err r then (False, b, snd s)
      else case add_resource (Pio 0x3f8 8 94) s of (r, s) \<Rightarrow>
      if is_err r then (False, b, snd s)
      else case probe dr s of (r, s) \<Rightarrow>
      if is_err r then (False, b, snd s)
      else case publish_device s of (r, s) \<Rightarrow>
      if is_err r then (False, b, snd s)
      else case hot_unplug dr s of (r, s) \<Rightarrow>
        (is_ok r \<and> dv_state (fst s) = DS_Removed \<and> device_resources (fst s) = [], b, snd s))"

text \<open>The matrix: the scenarios in order, counting those that pass; the interrupt storm runs on the interrupt registry.\<close>

record matrix_report =
  mr_scenarios :: nat
  mr_passed :: nat

definition matrix_self_check ::
  "nat \<Rightarrow> nat \<Rightarrow> (nat \<Rightarrow> bool) \<Rightarrow> irq_state \<times> trace_ring \<Rightarrow> matrix_report \<times> irq_state \<times> trace_ring" where
  "matrix_self_check storm_hard storm_deferred hard st =
     (let s = (bus_new 90 ''matrix'' BK_Platform, snd st) in
      case contract_probe_status_result 90 ''matrix-absent'' contract_absent DS_Unsupported DE_DeviceAbsent s of (p1, s) \<Rightarrow>
      case contract_probe_status_result 91 ''matrix-timeout'' contract_timeout DS_Failed DE_Timeout s of (p2, s) \<Rightarrow>
      case contract_probe_status_result 92 ''matrix-malformed'' contract_malformed DS_Failed DE_MalformedDescriptor s of (p3, s) \<Rightarrow>
      case contract_probe_status_result 93 ''matrix-dma-failure'' contract_dma_failure DS_Failed DE_DmaFailure s of (p4, s) \<Rightarrow>
      case contract_hot_unplug s of (p5, s) \<Rightarrow>
      case interrupt_storm_self_check storm_hard storm_deferred hard (fst st) of (p6, irqs) \<Rightarrow>
        (\<lparr>mr_scenarios = 6, mr_passed = length (filter id [p1, p2, p3, p4, p5, p6])\<rparr>, irqs, snd s))"

end
