(* ===== verification/Driver_Lifecycle.thy ===== *)
theory Driver_Lifecycle
  imports Driver_Framework
begin

text \<open>
  The life cycle of a device in the driver framework: the invariant of a device under every
  operation with drivers that keep the callback interface, the outcomes of probing and removal, what the trace
  reports, and the contract matrix.
\<close>

section \<open>What the life cycle keeps\<close>

definition resources_ok :: "device \<Rightarrow> bool" where
  "resources_ok d \<longleftrightarrow> length (dv_resources d) = MAX_RESOURCES \<and> dv_resource_len d \<le> MAX_RESOURCES \<and>
     (\<forall>r\<in>set (device_resources d). \<exists>x. r = Some x \<and> resource_owner x = dv_id d \<and> resource_validate x = Ok ())"

definition device_inv :: "device \<Rightarrow> bool" where
  "device_inv d \<longleftrightarrow> resources_ok d \<and>
     (dv_state d \<in> {DS_Ready, DS_Suspended, DS_Quiescing} \<longrightarrow> dv_driver d \<noteq> None) \<and>
     (dv_published d \<longrightarrow> dv_driver d \<noteq> None) \<and>
     (dv_state d \<in> {DS_Discovered, DS_Removed} \<longrightarrow> dv_driver d = None)"

text \<open>
  The interface a driver callback offers: it leaves the identity, the state, the binding and the
  publication of the device alone and adds no resource the device may not have.
\<close>

definition same_device :: "device \<Rightarrow> device \<Rightarrow> bool" where
  "same_device d d' \<longleftrightarrow> dv_id d' = dv_id d \<and> dv_bus d' = dv_bus d \<and> dv_bus_kind d' = dv_bus_kind d \<and>
     dv_class d' = dv_class d \<and> dv_state d' = dv_state d \<and> dv_driver d' = dv_driver d \<and>
     dv_published d' = dv_published d"

locale driver_callback =
  fixes f :: device_callback
  assumes keeps_device: "f s = (r, s') \<Longrightarrow> same_device (fst s) (fst s')"
    and keeps_resources: "f s = (r, s') \<Longrightarrow> resources_ok (fst s) \<Longrightarrow> resources_ok (fst s')"

definition driver_ok :: "driver \<Rightarrow> bool" where
  "driver_ok dr \<longleftrightarrow> (\<forall>ops. dr_ops dr = Some ops \<longrightarrow> driver_callback (op_probe ops) \<and> driver_callback (op_remove ops) \<and>
     (\<forall>f. op_suspend ops = Some f \<or> op_resume ops = Some f \<or> op_quiesce ops = Some f \<longrightarrow> driver_callback f))"

lemma same_device_refl [simp]: "same_device d d"
  by (simp add: same_device_def)

lemma traced_device [simp]: "fst (traced operation dr ok s) = fst s"
  by (simp add: traced_def)

lemma on_device_fst: "on_device f s = (r, s') \<Longrightarrow> f (fst s) = (r, fst s')"
  by (auto simp: on_device_def split: prod.splits)

lemma take_update_extend:
  "n < length xs \<Longrightarrow> take (Suc n) (xs[n := x]) = take n xs @ [x]"
  by (simp add: take_Suc_conv_app_nth)

lemma add_resource_device:
  assumes "add_resource r s = (res, s')"
  shows "s' = s \<and> is_err res \<or> res = Ok () \<and> resource_owner r = dv_id (fst s) \<and> resource_validate r = Ok () \<and>
    dv_resource_len (fst s) \<noteq> MAX_RESOURCES \<and>
    fst s' = (fst s)\<lparr>dv_resources := (dv_resources (fst s))[dv_resource_len (fst s) := Some r],
                    dv_resource_len := dv_resource_len (fst s) + 1\<rparr>"
  using assms by (auto simp: add_resource_def Let_def is_err_def traced_def elim!: try_res_cases split: if_splits)

interpretation resource_callback: driver_callback "add_resource r" for r
proof unfold_locales
  fix s res s'
  assume a: "add_resource r s = (res, s')"
  show "same_device (fst s) (fst s')"
    using add_resource_device [OF a] by (auto simp: same_device_def)
  assume ok: "resources_ok (fst s)"
  show "resources_ok (fst s')"
    using add_resource_device [OF a]
  proof
    assume "res = Ok () \<and> resource_owner r = dv_id (fst s) \<and> resource_validate r = Ok () \<and>
      dv_resource_len (fst s) \<noteq> MAX_RESOURCES \<and>
      fst s' = (fst s)\<lparr>dv_resources := (dv_resources (fst s))[dv_resource_len (fst s) := Some r],
                      dv_resource_len := dv_resource_len (fst s) + 1\<rparr>"
    then show ?thesis using ok by (auto simp: resources_ok_def device_resources_def take_update_extend)
  qed (use ok in simp)
qed

lemma resources_ok_cong:
  "dv_id d' = dv_id d \<Longrightarrow> dv_resources d' = dv_resources d \<Longrightarrow> dv_resource_len d' = dv_resource_len d \<Longrightarrow>
   resources_ok d' = resources_ok d"
  by (simp add: resources_ok_def device_resources_def)

lemma transition_cases:
  assumes "on_device (transition next) s = (r, s')"
  shows "s' = s \<and> r = Err (DE_InvalidState next (dv_state (fst s))) \<and> (dv_state (fst s), next) \<notin> set valid_transitions \<or>
    r = Ok () \<and> s' = ((fst s)\<lparr>dv_state := next\<rparr>, snd s) \<and> (dv_state (fst s), next) \<in> set valid_transitions"
  using assms by (cases s) (auto simp: on_device_def transition_def split: if_splits)

lemma release_cases:
  assumes "release_resources s = (r, s')"
  shows "s' = s \<and> is_err r \<and> dv_state (fst s) \<notin> {DS_Failed, DS_Deferred, DS_Unsupported, DS_Busy, DS_Removed} \<or>
    r = Ok () \<and> dv_state (fst s) \<in> {DS_Failed, DS_Deferred, DS_Unsupported, DS_Busy, DS_Removed} \<and>
    fst s' = (fst s)\<lparr>dv_resources := replicate MAX_RESOURCES None, dv_resource_len := 0\<rparr>"
  using assms by (auto simp: release_resources_def Let_def is_err_def split: if_splits)

text \<open>Leaving \<open>Probing\<close> for a failure state always succeeds and releases the resources.\<close>

lemma probing_fails:
  assumes "dv_state (fst s) = DS_Probing" "st \<in> {DS_Failed, DS_Deferred, DS_Unsupported, DS_Busy}"
  shows "on_device (transition st) s = (Ok (), (fst s)\<lparr>dv_state := st\<rparr>, snd s)"
    "fst (snd (release_resources ((fst s)\<lparr>dv_state := st\<rparr>, t))) =
       (fst s)\<lparr>dv_state := st, dv_resources := replicate MAX_RESOURCES None, dv_resource_len := 0\<rparr>"
  using assms by (auto simp: on_device_def transition_def valid_transitions_def release_resources_def traced_def Let_def)

lemma probe_failure_state_range: "probe_failure_state e \<in> {DS_Failed, DS_Deferred, DS_Unsupported, DS_Busy}"
  by (simp add: probe_failure_state_def)

lemma released_ok:
  "resources_ok (d\<lparr>dv_state := st, dv_resources := replicate MAX_RESOURCES None, dv_resource_len := 0\<rparr>)"
  "device_resources (d\<lparr>dv_state := st, dv_resources := replicate MAX_RESOURCES None, dv_resource_len := 0\<rparr>) = []"
  by (simp_all add: resources_ok_def device_resources_def)

text \<open>Probing: what the device is afterwards, on every branch.\<close>

definition probe_result :: "driver \<Rightarrow> device \<Rightarrow> driver_error + unit \<Rightarrow> device \<Rightarrow> bool" where
  "probe_result dr d r d' \<longleftrightarrow>
     (if \<not> driver_matches dr d then d' = d \<and> r = Err DE_NotMatched
      else if (dv_state d, DS_Probing) \<notin> set valid_transitions then d' = d \<and> r = Err (DE_InvalidState DS_Probing (dv_state d))
      else dv_id d' = dv_id d \<and> dv_published d' = dv_published d \<and> resources_ok d' \<and>
        (case r of
           Inl e \<Rightarrow> dv_driver d' = dv_driver d \<and> device_resources d' = [] \<and>
             dv_state d' \<in> {DS_Failed, DS_Deferred, DS_Unsupported, DS_Busy}
         | Inr _ \<Rightarrow> dv_driver d = None \<and> dv_driver d' = Some (dr_id dr) \<and> dv_state d' = DS_Ready))"

lemma probe_failed_result:
  assumes "driver_matches dr d" "(dv_state d, DS_Probing) \<in> set valid_transitions"
    "dv_id d2 = dv_id d" "dv_driver d2 = dv_driver d" "dv_published d2 = dv_published d"
    "st \<in> {DS_Failed, DS_Deferred, DS_Unsupported, DS_Busy}"
  shows "probe_result dr d (Err e) (d2\<lparr>dv_state := st, dv_resources := replicate MAX_RESOURCES None, dv_resource_len := 0\<rparr>)"
  using assms released_ok [where d = d2 and st = st] by (simp add: probe_result_def)

lemma probe_callback_error:
  assumes "driver_matches dr (fst s)" "(dv_state (fst s), DS_Probing) \<in> set valid_transitions" "dr_ops dr = Some ops"
    "op_probe ops ((fst s)\<lparr>dv_state := DS_Probing\<rparr>, snd s) = (Err e, sm)" "dv_state (fst sm) = DS_Probing"
    "probe dr s = (r, s')"
  shows "r = Err e" "fst s' = (fst sm)\<lparr>dv_state := probe_failure_state e,
    dv_resources := replicate MAX_RESOURCES None, dv_resource_len := 0\<rparr>"
proof -
  have t: "on_device (transition DS_Probing) s = (Ok (), (fst s)\<lparr>dv_state := DS_Probing\<rparr>, snd s)"
    using assms(2) by (simp add: on_device_def transition_def)
  note pf = probing_fails [OF assms(5) probe_failure_state_range [of e]]
  show "r = Err e" "fst s' = (fst sm)\<lparr>dv_state := probe_failure_state e,
      dv_resources := replicate MAX_RESOURCES None, dv_resource_len := 0\<rparr>"
    using assms(1,3,4,6) t pf(1) pf(2) [of "snd sm"] by (auto simp: probe_def Let_def)
qed

lemma probe_spec:
  assumes "driver_ok dr" "resources_ok (fst s)" "probe dr s = (r, s')"
  shows "probe_result dr (fst s) r (fst s')"
proof (cases "driver_matches dr (fst s) \<and> (dv_state (fst s), DS_Probing) \<in> set valid_transitions")
  case False
  then show ?thesis
    using assms(3) by (auto simp: probe_def probe_result_def on_device_def transition_def Let_def)
next
  case True
  let ?s1 = "((fst s)\<lparr>dv_state := DS_Probing\<rparr>, snd s)"
  have t: "on_device (transition DS_Probing) s = (Ok (), ?s1)" using True by (simp add: on_device_def transition_def)
  have ok1: "resources_ok (fst ?s1)" using assms(2) by (simp add: resources_ok_def device_resources_def)
  show ?thesis
  proof (cases "dr_ops dr")
    case None
    have "r = Err DE_Unsupported" "fst s' = (fst ?s1)\<lparr>dv_state := DS_Unsupported,
        dv_resources := replicate MAX_RESOURCES None, dv_resource_len := 0\<rparr>"
      using assms(3) True t None probing_fails [of ?s1 DS_Unsupported] by (auto simp: probe_def Let_def)
    then show ?thesis using True by (simp only:) (rule probe_failed_result; simp)
  next
    case (Some ops)
    obtain r2 s2 where c: "op_probe ops ?s1 = (r2, s2)" by (metis surj_pair)
    have cb: "driver_callback (op_probe ops)" using assms(1) Some by (simp add: driver_ok_def)
    have sd: "same_device (fst ?s1) (fst s2)" by (rule driver_callback.keeps_device [OF cb c])
    have ok2: "resources_ok (fst s2)" by (rule driver_callback.keeps_resources [OF cb c ok1])
    have st: "dv_state (fst s2) = DS_Probing" "dv_id (fst s2) = dv_id (fst s)" "dv_driver (fst s2) = dv_driver (fst s)"
      "dv_published (fst s2) = dv_published (fst s)" using sd by (simp_all add: same_device_def)
    show ?thesis
    proof (cases r2)
      case (Inl e)
      have "r = Err e" "fst s' = (fst s2)\<lparr>dv_state := probe_failure_state e,
          dv_resources := replicate MAX_RESOURCES None, dv_resource_len := 0\<rparr>"
        using probe_callback_error [OF _ _ Some _ st(1) assms(3), of e] True c Inl by auto
      then show ?thesis using True st probe_failure_state_range by (simp only:) (rule probe_failed_result; simp)
    next
      case (Inr u)
      show ?thesis
      proof (cases "dv_driver (fst s)")
        case None
        then have "probe dr s = (Ok (), traced TO_Probe (Some (dr_id dr)) True
            ((fst s2)\<lparr>dv_driver := Some (dr_id dr), dv_state := DS_Ready\<rparr>, snd s2))"
          using True t Some c Inr st
          by (simp add: probe_def Let_def on_device_def bind_driver_def transition_def valid_transitions_def is_ok_def)
        then show ?thesis
          using assms(3) True None st ok2
          by (auto simp: probe_result_def resources_ok_def device_resources_def)
      next
        case (Some old)
        then have "on_device (bind_driver (dr_id dr)) s2 = (Err DE_DriverAlreadyBound, s2)"
          using st by (simp add: on_device_def bind_driver_def)
        then have "r = Err DE_DriverAlreadyBound" "fst s' = (fst s2)\<lparr>dv_state := DS_Failed,
            dv_resources := replicate MAX_RESOURCES None, dv_resource_len := 0\<rparr>"
          using assms(3) True t \<open>dr_ops dr = Some ops\<close> c Inr probing_fails [OF st(1), of DS_Failed]
          by (auto simp: probe_def Let_def)
        then show ?thesis using True st by (simp only:) (rule probe_failed_result; simp)
      qed
    qed
  qed
qed

text \<open>Callback and transition: the device only changes its state and its resources.\<close>

lemma call_then_transition_spec:
  assumes "\<forall>f. callback = Some f \<longrightarrow> driver_callback f" "resources_ok (fst s)"
    "call_then_transition operation dr callback next s = (r, s')"
  shows "resources_ok (fst s') \<and> dv_id (fst s') = dv_id (fst s) \<and> dv_driver (fst s') = dv_driver (fst s) \<and>
    dv_published (fst s') = dv_published (fst s) \<and>
    (case r of Inl _ \<Rightarrow> dv_state (fst s') = dv_state (fst s)
     | Inr _ \<Rightarrow> dv_state (fst s') = next \<and> (dv_state (fst s), next) \<in> set valid_transitions)"
proof -
  obtain r1 s1 where c: "(case callback of None \<Rightarrow> (Ok (), s) | Some f \<Rightarrow> f s) = (r1, s1)" by (metis surj_pair)
  have k: "same_device (fst s) (fst s1)" "resources_ok (fst s1)"
    using c assms(1,2) by (auto split: option.splits dest: driver_callback.keeps_device driver_callback.keeps_resources)
  show ?thesis
  proof (cases r1)
    case (Inl e)
    then show ?thesis using assms(3) c k by (auto simp: call_then_transition_def same_device_def)
  next
    case (Inr u)
    obtain r2 s2 where t: "on_device (transition next) s1 = (r2, s2)" by (metis surj_pair)
    have "r = r2" "fst s' = fst s2" using assms(3) c Inr t by (auto simp: call_then_transition_def)
    then show ?thesis
      using transition_cases [OF t] k by (auto simp: same_device_def resources_ok_def device_resources_def)
  qed
qed

lemma callback_of:
  assumes "driver_ok dr" "dr_ops dr = Some ops"
  shows "driver_callback (op_probe ops)" "driver_callback (op_remove ops)"
    "op_suspend ops = Some f \<Longrightarrow> driver_callback f" "op_resume ops = Some f \<Longrightarrow> driver_callback f"
    "op_quiesce ops = Some f \<Longrightarrow> driver_callback f"
  using assms by (auto simp: driver_ok_def)

lemma bound_inv:
  "resources_ok d \<Longrightarrow> dv_driver d \<noteq> None \<Longrightarrow> dv_state d \<in> {DS_Ready, DS_Suspended, DS_Quiescing, DS_Failed} \<Longrightarrow> device_inv d"
  by (cases "dv_state d") (simp_all add: device_inv_def)

lemma suspend_inv:
  assumes "driver_ok dr" "device_inv (fst s)" "suspend dr s = (r, s')"
  shows "device_inv (fst s')"
proof (cases "fst s' = fst s")
  case False
  then obtain ops f where o: "dr_ops dr = Some ops" "op_suspend ops = Some f" "dv_state (fst s) = DS_Ready"
    "dv_driver (fst s) = Some (dr_id dr)" "call_then_transition TO_Suspend dr (Some f) DS_Suspended s = (r, s')"
    using assms(3) by (auto simp: suspend_def split: if_splits option.splits)
  show ?thesis
    using call_then_transition_spec [OF _ _ o(5)] callback_of(3) [OF assms(1) o(1,2)] assms(2) o(3,4)
    by (cases r) (auto simp: device_inv_def)
qed (use assms(2) in simp)

lemma resume_inv:
  assumes "driver_ok dr" "device_inv (fst s)" "resume dr s = (r, s')"
  shows "device_inv (fst s')"
proof (cases "fst s' = fst s")
  case False
  then obtain ops f where o: "dr_ops dr = Some ops" "op_resume ops = Some f" "dv_state (fst s) = DS_Suspended"
    "dv_driver (fst s) = Some (dr_id dr)" "call_then_transition TO_Resume dr (Some f) DS_Ready s = (r, s')"
    using assms(3) by (auto simp: resume_def split: if_splits option.splits)
  show ?thesis
    using call_then_transition_spec [OF _ _ o(5)] callback_of(4) [OF assms(1) o(1,2)] assms(2) o(3,4)
    by (cases r) (auto simp: device_inv_def)
qed (use assms(2) in simp)

text \<open>Quiescing: success puts a bound device into \<open>Quiescing\<close>, failure leaves its state.\<close>

lemma quiesce_spec:
  assumes "driver_ok dr" "resources_ok (fst s)" "quiesce dr s = (r, s')"
  shows "resources_ok (fst s') \<and> dv_id (fst s') = dv_id (fst s) \<and> dv_driver (fst s') = dv_driver (fst s) \<and>
    dv_published (fst s') = dv_published (fst s) \<and>
    (case r of
       Inl _ \<Rightarrow> dv_state (fst s') = dv_state (fst s) \<and> (fst s' = fst s \<or> dv_state (fst s) \<in> {DS_Ready, DS_Suspended})
     | Inr _ \<Rightarrow> dv_driver (fst s) = Some (dr_id dr) \<and> dv_state (fst s') = DS_Quiescing \<and>
         dv_state (fst s) \<in> {DS_Ready, DS_Suspended})"
proof (cases "dv_driver (fst s) = Some (dr_id dr) \<and> dv_state (fst s) \<in> {DS_Ready, DS_Suspended} \<and> dr_ops dr \<noteq> None")
  case True
  then obtain ops where o: "dr_ops dr = Some ops" "call_then_transition TO_Quiesce dr (op_quiesce ops) DS_Quiescing s = (r, s')"
    using assms(3) by (auto simp: quiesce_def)
  have "\<forall>f. op_quiesce ops = Some f \<longrightarrow> driver_callback f" using callback_of(5) [OF assms(1) o(1)] by blast
  from call_then_transition_spec [OF this assms(2) o(2)] True show ?thesis by (cases r) auto
next
  case False
  then have "s' = s \<and> is_err r" using assms(3) by (auto simp: quiesce_def is_err_def split: if_splits option.splits)
  then show ?thesis using assms(2) by (cases r) (auto simp: is_err_def)
qed

lemma quiesce_inv:
  assumes "driver_ok dr" "device_inv (fst s)" "quiesce dr s = (r, s')"
  shows "device_inv (fst s')"
proof (cases "fst s' = fst s")
  case False
  have ok: "resources_ok (fst s)" using assms(2) by (simp add: device_inv_def)
  from quiesce_spec [OF assms(1) ok assms(3)] False
  have q: "resources_ok (fst s')" "dv_driver (fst s') = dv_driver (fst s)" "dv_published (fst s') = dv_published (fst s)"
    "dv_state (fst s) \<in> {DS_Ready, DS_Suspended}" "dv_state (fst s') \<in> {DS_Ready, DS_Suspended, DS_Quiescing}"
    by (auto split: sum.splits)
  have "dv_driver (fst s) \<noteq> None" using assms(2) q(4) by (auto simp: device_inv_def)
  with q show ?thesis by (intro bound_inv) auto
qed (use assms(2) in simp)

text \<open>Detaching a bound device that is quiescing or failed leaves it removed, unbound, hidden and without resources.\<close>

definition detached :: "device \<Rightarrow> device \<Rightarrow> bool" where
  "detached d d' \<longleftrightarrow> dv_id d' = dv_id d \<and> dv_state d' = DS_Removed \<and> dv_driver d' = None \<and> \<not> dv_published d' \<and>
     device_resources d' = [] \<and> resources_ok d'"

lemma detached_inv: "detached d d' \<Longrightarrow> device_inv d'"
  by (auto simp: detached_def device_inv_def)

lemma detach_steps:
  assumes "dv_driver (fst s) = Some i" "dv_state (fst s) \<in> {DS_Quiescing, DS_Failed}"
  shows "on_device unbind_driver s = (Ok i, (fst s)\<lparr>dv_driver := None\<rparr>, snd s)"
    "\<And>b. on_device (transition DS_Removed) ((fst s)\<lparr>dv_published := b, dv_driver := None\<rparr>, snd s) =
       (Ok (), (fst s)\<lparr>dv_published := b, dv_driver := None, dv_state := DS_Removed\<rparr>, snd s)"
  using assms by (auto simp: on_device_def unbind_driver_def ok_or_def transition_def valid_transitions_def)

lemma detach_spec:
  assumes "dv_driver (fst s) = Some i" "dv_state (fst s) \<in> {DS_Quiescing, DS_Failed}" "detach operation dr s = (r, s')"
  shows "r = Ok () \<and> detached (fst s) (fst s')"
proof -
  let ?u = "if dv_published (fst s) then (fst s)\<lparr>dv_published := False\<rparr> else fst s"
  let ?d = "?u\<lparr>dv_driver := None, dv_state := DS_Removed\<rparr>"
  have "detach operation dr s =
      (case release_resources (?d, snd s) of (r, s) \<Rightarrow> (r, traced operation (Some (dr_id dr)) (is_ok r) s))"
    using assms(1,2)
    by (cases s)
      (auto simp: detach_def on_device_def device_unpublish_def unbind_driver_def ok_or_def transition_def valid_transitions_def)
  with assms(3) show ?thesis
    by (auto simp: release_resources_def detached_def resources_ok_def device_resources_def Let_def split: if_splits)
qed

lemma revoke_spec:
  assumes "resources_ok (fst s)" "revoke_device dr s = (r, s')"
  shows "case r of Inl _ \<Rightarrow> s' = s | Inr _ \<Rightarrow> dv_driver (fst s) = Some (dr_id dr) \<and> detached (fst s) (fst s')"
proof (cases "dv_driver (fst s) = Some (dr_id dr) \<and> dv_state (fst s) \<in> {DS_Quiescing, DS_Failed}")
  case True
  then have "detach TO_Revoke dr s = (r, s')" using assms(2) by (auto simp: revoke_device_def)
  with detach_spec [of s "dr_id dr" TO_Revoke dr r s'] True show ?thesis by auto
next
  case False
  then show ?thesis using assms(2) by (auto simp: revoke_device_def split: if_splits)
qed

text \<open>Removal: success detaches; a failing callback leaves the device failed with what it had.\<close>

lemma remove_spec:
  assumes "driver_ok dr" "resources_ok (fst s)" "remove_device dr s = (r, s')"
  shows "case r of
      Inl _ \<Rightarrow> s' = s \<or> dv_state (fst s) = DS_Quiescing \<and> dv_driver (fst s) = Some (dr_id dr) \<and>
        dv_state (fst s') = DS_Failed \<and> dv_driver (fst s') = dv_driver (fst s) \<and> resources_ok (fst s') \<and>
        dv_id (fst s') = dv_id (fst s) \<and> dv_published (fst s') = dv_published (fst s)
    | Inr _ \<Rightarrow> dv_state (fst s) = DS_Quiescing \<and> dv_driver (fst s) = Some (dr_id dr) \<and> detached (fst s) (fst s')"
proof (cases "dv_driver (fst s) = Some (dr_id dr) \<and> dv_state (fst s) = DS_Quiescing \<and> dr_ops dr \<noteq> None")
  case True
  then obtain ops where ops: "dr_ops dr = Some ops" by auto
  note cb = callback_of(2) [OF assms(1) ops]
  obtain r1 s1 where c: "op_remove ops s = (r1, s1)" by (metis surj_pair)
  have k: "same_device (fst s) (fst s1)" "resources_ok (fst s1)"
    using driver_callback.keeps_device [OF cb c] driver_callback.keeps_resources [OF cb c assms(2)] by auto
  show ?thesis
  proof (cases r1)
    case (Inl e)
    then show ?thesis
      using assms(3) True ops c k
      by (auto simp: remove_device_def on_device_def transition_def valid_transitions_def same_device_def
          resources_ok_def device_resources_def)
  next
    case (Inr u)
    have st: "dv_driver (fst s1) = Some (dr_id dr)" "dv_state (fst s1) = DS_Quiescing" "dv_id (fst s1) = dv_id (fst s)"
      using k(1) True by (simp_all add: same_device_def)
    have "remove_device dr s = detach TO_Remove dr s1"
      using True ops c Inr st
      by (cases s1, cases "dv_published (fst s1)")
        (auto simp: remove_device_def detach_def on_device_def device_unpublish_def unbind_driver_def ok_or_def)
    with assms(3) detach_spec [OF st(1), of TO_Remove dr r s'] st True show ?thesis by (auto simp: detached_def)
  qed
next
  case False
  then show ?thesis using assms(3) by (auto simp: remove_device_def split: if_splits option.splits)
qed

lemma remove_inv:
  assumes "driver_ok dr" "device_inv (fst s)" "remove_device dr s = (r, s')"
  shows "device_inv (fst s')"
proof -
  have ok: "resources_ok (fst s)" using assms(2) by (simp add: device_inv_def)
  note sp = remove_spec [OF assms(1) ok assms(3)]
  show ?thesis
  proof (cases r)
    case (Inl e)
    with sp show ?thesis using assms(2) by (auto intro!: bound_inv)
  next
    case (Inr u)
    with sp show ?thesis by (auto intro: detached_inv)
  qed
qed

lemma revoke_device_inv:
  assumes "device_inv (fst s)" "revoke_device dr s = (r, s')"
  shows "device_inv (fst s')"
proof -
  have ok: "resources_ok (fst s)" using assms(1) by (simp add: device_inv_def)
  from revoke_spec [OF ok assms(2)] assms(1) show ?thesis by (cases r) (auto intro: detached_inv)
qed

lemma probe_inv:
  assumes "driver_ok dr" "device_inv (fst s)" "probe dr s = (r, s')"
  shows "device_inv (fst s')"
proof (cases "fst s' = fst s")
  case False
  have ok: "resources_ok (fst s)" using assms(2) by (simp add: device_inv_def)
  note sp = probe_spec [OF assms(1) ok assms(3)]
  show ?thesis
  proof (cases r)
    case (Inl e)
    with sp False have "resources_ok (fst s')" "dv_driver (fst s') = dv_driver (fst s)" "device_resources (fst s') = []"
      "dv_published (fst s') = dv_published (fst s)" "dv_state (fst s') \<in> {DS_Failed, DS_Deferred, DS_Unsupported, DS_Busy}"
      by (simp_all add: probe_result_def split: if_splits)
    with assms(2) show ?thesis by (cases "dv_state (fst s')") (simp_all add: device_inv_def)
  next
    case (Inr u)
    with sp False have "resources_ok (fst s')" "dv_driver (fst s') \<noteq> None" "dv_state (fst s') = DS_Ready"
      by (simp_all add: probe_result_def split: if_splits)
    then show ?thesis by (intro bound_inv) simp_all
  qed
qed (use assms(2) in simp)

lemma device_inv_cong:
  assumes "dv_state d' = dv_state d" "dv_driver d' = dv_driver d" "dv_published d' = dv_published d" "resources_ok d'"
    "device_inv d"
  shows "device_inv d'"
  using assms by (simp add: device_inv_def)

lemma publish_device_inv:
  assumes "device_inv (fst s)" "publish_device s = (r, s')"
  shows "device_inv (fst s')"
proof (cases "dv_state (fst s) = DS_Ready")
  case True
  then have "fst s' = (fst s)\<lparr>dv_published := True\<rparr>"
    using assms(2) by (auto simp: publish_device_def on_device_def device_publish_def)
  with assms(1) True show ?thesis by (intro bound_inv) (simp_all add: device_inv_def resources_ok_def device_resources_def)
next
  case False
  then have "fst s' = fst s" using assms(2) by (auto simp: publish_device_def on_device_def device_publish_def)
  with assms(1) show ?thesis by simp
qed

lemma add_resource_inv:
  assumes "device_inv (fst s)" "add_resource x s = (r, s')"
  shows "device_inv (fst s')"
proof -
  have "resources_ok (fst s)" using assms(1) by (simp add: device_inv_def)
  from resource_callback.keeps_device [OF assms(2)] resource_callback.keeps_resources [OF assms(2) this]
  show ?thesis by (intro device_inv_cong [OF _ _ _ _ assms(1)]) (simp_all add: same_device_def)
qed

lemma release_inv:
  assumes "device_inv (fst s)" "release_resources s = (r, s')"
  shows "device_inv (fst s')"
  using release_cases [OF assms(2)]
proof
  assume "r = Ok () \<and> dv_state (fst s) \<in> {DS_Failed, DS_Deferred, DS_Unsupported, DS_Busy, DS_Removed} \<and>
    fst s' = (fst s)\<lparr>dv_resources := replicate MAX_RESOURCES None, dv_resource_len := 0\<rparr>"
  then show ?thesis
    by (intro device_inv_cong [OF _ _ _ _ assms(1)]) (simp_all add: resources_ok_def device_resources_def)
qed (use assms(1) in simp)

text \<open>The operations made of others.\<close>

lemma hot_unplug_steps:
  assumes "hot_unplug dr s = (r, s')"
  shows "\<exists>r1 s1. quiesce dr s = (r1, s1) \<and>
    (is_err r1 \<and> s' = s1 \<and> is_err r \<or> is_ok r1 \<and> (\<exists>s2. remove_device dr s1 = (r, s2) \<and> fst s' = fst s2))"
  using assms unfolding hot_unplug_def
  by (elim try_st_cases) (auto simp: is_err_def is_ok_def split: prod.splits)

lemma hot_unplug_inv:
  assumes "driver_ok dr" "device_inv (fst s)" "hot_unplug dr s = (r, s')"
  shows "device_inv (fst s')"
  using hot_unplug_steps [OF assms(3)] quiesce_inv [OF assms(1,2)] remove_inv [OF assms(1)] by metis

lemma rebind_steps:
  assumes "rebind old dr s = (r, s')"
  shows "s' = s \<or> (\<exists>r1 s1. quiesce old s = (r1, s1) \<and>
    (s' = s1 \<or> (\<exists>r2 s2. remove_device old s1 = (r2, s2) \<and>
      (s' = s2 \<or> (\<exists>s3. probe dr s2 = (r, s3) \<and> fst s' = fst s3)))))"
proof (cases "dv_driver (fst s) = Some (dr_id old)")
  case True
  show ?thesis
    using assms True unfolding rebind_def
    by (cases s') (auto simp: traced_def elim!: try_st_cases split: prod.splits)
next
  case False
  then show ?thesis using assms by (simp add: rebind_def)
qed

lemma rebind_inv:
  assumes "driver_ok old" "driver_ok dr" "device_inv (fst s)" "rebind old dr s = (r, s')"
  shows "device_inv (fst s')"
  using rebind_steps [OF assms(4)] assms(3) quiesce_inv [OF assms(1,3)] remove_inv [OF assms(1)] probe_inv [OF assms(2)]
  by metis

section \<open>Histories of a device\<close>

inductive device_step :: "dev_sys \<Rightarrow> dev_sys \<Rightarrow> bool" where
  step_match: "match_driver dr s = (m, s') \<Longrightarrow> device_step s s'"
| step_probe: "driver_ok dr \<Longrightarrow> probe dr s = (r, s') \<Longrightarrow> device_step s s'"
| step_publish: "publish_device s = (r, s') \<Longrightarrow> device_step s s'"
| step_suspend: "driver_ok dr \<Longrightarrow> suspend dr s = (r, s') \<Longrightarrow> device_step s s'"
| step_resume: "driver_ok dr \<Longrightarrow> resume dr s = (r, s') \<Longrightarrow> device_step s s'"
| step_quiesce: "driver_ok dr \<Longrightarrow> quiesce dr s = (r, s') \<Longrightarrow> device_step s s'"
| step_remove: "driver_ok dr \<Longrightarrow> remove_device dr s = (r, s') \<Longrightarrow> device_step s s'"
| step_revoke: "revoke_device dr s = (r, s') \<Longrightarrow> device_step s s'"
| step_hot_unplug: "driver_ok dr \<Longrightarrow> hot_unplug dr s = (r, s') \<Longrightarrow> device_step s s'"
| step_rebind: "driver_ok old \<Longrightarrow> driver_ok dr \<Longrightarrow> rebind old dr s = (r, s') \<Longrightarrow> device_step s s'"
| step_add: "add_resource x s = (r, s') \<Longrightarrow> device_step s s'"
| step_release: "release_resources s = (r, s') \<Longrightarrow> device_step s s'"
| step_discover: "discover b s = (r, b', s') \<Longrightarrow> device_step s s'"

definition device_init :: "dev_sys \<Rightarrow> bool" where
  "device_init s \<longleftrightarrow> (\<exists>i b k c t. fst s = device_new i b k c t)"

lemma device_new_inv: "device_inv (device_new i b k c t)"
  by (simp add: device_inv_def device_new_def resources_ok_def device_resources_def)

lemma traced_only: "match_driver dr s = (m, s') \<Longrightarrow> fst s' = fst s" "discover b s = (r, b', s') \<Longrightarrow> fst s' = fst s"
  by (auto simp: match_driver_def discover_def Let_def split: if_splits prod.splits)

lemmas device_invs = probe_inv publish_device_inv suspend_inv resume_inv quiesce_inv remove_inv revoke_device_inv hot_unplug_inv
  rebind_inv add_resource_inv release_inv

interpretation devsys: step_invariant device_init device_step "\<lambda>s. device_inv (fst s)"
proof unfold_locales
  show "device_inv (fst s)" if "device_init s" for s using that device_new_inv by (auto simp: device_init_def)
  show "device_inv (fst s')" if "device_inv (fst s)" "device_step s s'" for s s'
    using that(2,1) by cases (auto dest: device_invs traced_only)
qed

section \<open>What the trace reports\<close>

type_synonym traced_call = "trace_op \<times> device \<times> driver_id option \<times> bool"

definition trace_entry :: "nat \<Rightarrow> traced_call \<Rightarrow> trace_event" where
  "trace_entry n c = (case c of (operation, d, driver, success) \<Rightarrow>
     \<lparr>te_sequence = of_nat n, te_operation = operation, te_device = dv_id d, te_driver = driver, te_state = dv_state d,
      te_resources = fst (resource_summary d), te_irqs = fst (snd (resource_summary d)),
      te_dmas = snd (snd (resource_summary d)), te_success = success\<rparr>)"

definition trace_calls :: "traced_call list \<Rightarrow> trace_ring" where
  "trace_calls cs = fold (\<lambda>(operation, d, driver, success). trace_event_add operation d driver success) cs trace_new"

definition trace_log :: "traced_call list \<Rightarrow> trace_event list" where
  "trace_log cs = map (\<lambda>i. trace_entry i (cs ! i)) [0..<length cs]"

lemma trace_log_snoc: "trace_log (cs @ [c]) = trace_log cs @ [trace_entry (length cs) c]"
  by (simp add: trace_log_def nth_append)

lemma trace_log_length [simp]: "length (trace_log cs) = length cs"
  by (simp add: trace_log_def)

lemma trace_log_sequence: "map te_sequence (trace_log cs) = map of_nat [0..<length cs]"
  by (auto simp: trace_log_def trace_entry_def split: prod.splits)

lemma mod_window:
  fixes i n k :: nat
  assumes "i < n" "n < i + k"
  shows "i mod k \<noteq> n mod k"
proof
  assume "i mod k = n mod k"
  then have "k dvd n - i" using assms(1) mod_eq_dvd_iff_nat [of i n k] by simp
  then have "k \<le> n - i" using assms(1) by (simp add: dvd_imp_le)
  with assms show False by simp
qed

definition ring_shows :: "trace_event list \<Rightarrow> trace_ring \<Rightarrow> bool" where
  "ring_shows log t \<longleftrightarrow> length (tr_events t) = MAX_TRACE_EVENTS \<and> tr_next t = of_nat (length log) \<and>
     tr_len t = min (length log) MAX_TRACE_EVENTS \<and>
     (\<forall>i<length log. length log \<le> i + MAX_TRACE_EVENTS \<longrightarrow> tr_events t ! (i mod MAX_TRACE_EVENTS) = Some (log ! i))"

lemma trace_add_shows:
  assumes "ring_shows log t" "length log + 1 < 2 ^ 64"
  shows "ring_shows (log @ [trace_entry (length log) (operation, d, driver, success)]) (trace_event_add operation d driver success t)"
proof -
  let ?m = "length log mod MAX_TRACE_EVENTS"
  have m: "?m < MAX_TRACE_EVENTS" by (simp add: MAX_TRACE_EVENTS_def)
  have u: "unat (tr_next t) = length log" "saturating_add (tr_next t) 1 = of_nat (length log + 1)"
    using assms saturating_add_small [of "length log" 1] by (simp_all add: ring_shows_def unat_of_nat_small)
  have w: "?m \<noteq> i mod MAX_TRACE_EVENTS" if "i < length log" "length log + 1 \<le> i + MAX_TRACE_EVENTS" for i
    using mod_window [of i "length log" MAX_TRACE_EVENTS] that by force
  show ?thesis
    using assms(1) u m w unfolding ring_shows_def trace_event_add_def
    by (auto simp: trace_entry_def nth_append less_Suc_eq split: prod.splits)
qed

lemma trace_calls_snoc:
  "trace_calls (cs @ [(operation, d, driver, success)]) = trace_event_add operation d driver success (trace_calls cs)"
  by (simp add: trace_calls_def)

lemma trace_calls_show: "length cs < 2 ^ 64 \<Longrightarrow> ring_shows (trace_log cs) (trace_calls cs)"
proof (induction cs rule: rev_induct)
  case Nil
  show ?case by (simp add: ring_shows_def trace_calls_def trace_log_def trace_new_def)
next
  case (snoc c cs)
  obtain operation d driver success where c: "c = (operation, d, driver, success)" by (metis surj_pair)
  show ?case using snoc trace_add_shows [of "trace_log cs" "trace_calls cs" operation d driver success]
    by (simp add: c trace_log_snoc trace_calls_snoc)
qed

lemma flatten_map_Some: "(\<And>i. i \<in> set is \<Longrightarrow> f i = Some (g i)) \<Longrightarrow> flatten (map f is) = map g is"
  by (induction "is") auto

lemma ring_shows_list:
  assumes "ring_shows log t" "length log < 2 ^ 64"
  shows "trace_list t = drop (length log - MAX_TRACE_EVENTS) log"
proof -
  let ?k = "length log - MAX_TRACE_EVENTS"
  have len: "tr_len t = length log - ?k" using assms(1) by (simp add: ring_shows_def)
  have start: "saturating_sub (tr_next t) (of_nat (tr_len t)) = of_nat ?k"
    using assms
    by (cases "length log \<le> MAX_TRACE_EVENTS")
      (simp_all add: saturating_sub_def ring_shows_def word_le_nat_alt unat_of_nat_small of_nat_diff)
  have "tr_events t ! (unat (of_nat ?k + of_nat i :: u64) mod MAX_TRACE_EVENTS) = Some (log ! (?k + i))"
    if "i < tr_len t" for i
  proof -
    have "unat (of_nat ?k + of_nat i :: u64) = ?k + i"
      using that len assms(2) by (simp flip: of_nat_add add: unat_of_nat_small)
    moreover have "?k + i < length log" "length log \<le> ?k + i + MAX_TRACE_EVENTS" using that len by linarith+
    then have "tr_events t ! ((?k + i) mod MAX_TRACE_EVENTS) = Some (log ! (?k + i))"
      using assms(1) unfolding ring_shows_def by blast
    ultimately show ?thesis by simp
  qed
  then have "trace_list t = map (\<lambda>i. log ! (?k + i)) [0..<tr_len t]"
    unfolding trace_list_def Let_def start by (intro flatten_map_Some) simp
  also have "\<dots> = drop ?k log" using len by (intro nth_equalityI) simp_all
  finally show ?thesis .
qed

section \<open>The contract drivers\<close>

lemmas contract_callbacks = contract_ok_def contract_fail_def contract_unsupported_def contract_deferred_def
  contract_busy_def contract_absent_def contract_timeout_def contract_malformed_def contract_dma_failure_def

interpretation contract_callback: driver_callback contract_ok
  by unfold_locales (simp_all add: contract_ok_def)

lemma stateless_callback: "(\<And>s. f s = (r, s)) \<Longrightarrow> driver_callback f"
  by unfold_locales simp_all

lemma contract_driver_ok:
  assumes "driver_callback f"
  shows "driver_ok (contract_driver i name f)"
  using assms contract_callback.driver_callback_axioms
  by (simp add: driver_ok_def contract_driver_def driver_with_ops_def)

lemma discover_fresh:
  assumes "bs_device_len b < MAX_DEVICES_PER_BUS"
  shows "\<exists>b' t'. discover b (device_new i (bs_id b) (bs_kind b) name c, t) =
      (Ok (), b', device_new i (bs_id b) (bs_kind b) name c, t') \<and>
    bs_device_len b' \<le> bs_device_len b + 1 \<and> bs_kind b' = bs_kind b"
  using assms by (simp add: discover_def device_new_def bus_attach_def traced_def Let_def)

lemma add_pio_fresh:
  "\<exists>t'. add_resource (Pio 0x3f8 8 i) (device_new i b k name c, t) =
     (Ok (), (device_new i b k name c)\<lparr>dv_resources := (replicate MAX_RESOURCES None)[0 := Some (Pio 0x3f8 8 i)],
        dv_resource_len := 1\<rparr>, t')"
  by (simp add: add_resource_def device_new_def traced_def Let_def kernel_defs)

lemma contract_probe_passes:
  assumes "bs_device_len b < MAX_DEVICES_PER_BUS" "bs_kind b = BK_Platform" "\<And>s. f s = (Err e, s)"
  shows "\<exists>b' t'. contract_probe_status_result i name f (probe_failure_state e) e (b, t) = (True, b', t') \<and>
    bs_device_len b' \<le> bs_device_len b + 1 \<and> bs_kind b' = bs_kind b"
proof -
  let ?d = "device_new i (bs_id b) (bs_kind b) name DC_Serial"
  let ?d1 = "?d\<lparr>dv_resources := (replicate MAX_RESOURCES None)[0 := Some (Pio 0x3f8 8 i)], dv_resource_len := 1\<rparr>"
  obtain b' t1 where disc: "discover b (?d, t) = (Ok (), b', ?d, t1)" "bs_device_len b' \<le> bs_device_len b + 1"
    "bs_kind b' = bs_kind b" using discover_fresh [OF assms(1), of i name DC_Serial t] by blast
  obtain t2 where add: "add_resource (Pio 0x3f8 8 i) (?d, t1) = (Ok (), ?d1, t2)" using add_pio_fresh by blast
  obtain r s where p: "probe (contract_driver i name f) (?d1, t2) = (r, s)" by (metis surj_pair)
  have "r = Err e" "fst s = ?d1\<lparr>dv_state := probe_failure_state e, dv_resources := replicate MAX_RESOURCES None,
      dv_resource_len := 0\<rparr>"
    using probe_callback_error [where sm = "(?d1\<lparr>dv_state := DS_Probing\<rparr>, t2)" and e = e, OF _ _ _ _ _ p] assms(2,3)
    by (simp_all add: contract_driver_def driver_with_ops_def driver_matches_def device_new_def valid_transitions_def)
  then show ?thesis
    using disc add p by (simp add: contract_probe_status_result_def is_err_def device_resources_def)
qed

lemma contract_hot_unplug_passes:
  assumes "bs_device_len b < MAX_DEVICES_PER_BUS" "bs_kind b = BK_Platform"
  shows "fst (contract_hot_unplug (b, t))"
proof -
  let ?dr = "contract_driver 94 ''matrix-hot-unplug'' contract_ok"
  let ?d = "device_new 94 (bs_id b) (bs_kind b) ''matrix-hot-unplug'' DC_Serial"
  let ?d1 = "?d\<lparr>dv_resources := (replicate MAX_RESOURCES None)[0 := Some (Pio 0x3f8 8 94)], dv_resource_len := 1\<rparr>"
  let ?d2 = "?d1\<lparr>dv_driver := Some 94, dv_state := DS_Ready\<rparr>"
  obtain b' t1 where disc: "discover b (?d, t) = (Ok (), b', ?d, t1)"
    using discover_fresh [OF assms(1), of 94 "''matrix-hot-unplug''" DC_Serial t] by blast
  obtain t2 where add: "add_resource (Pio 0x3f8 8 94) (?d, t1) = (Ok (), ?d1, t2)" using add_pio_fresh by blast
  obtain t3 where p: "probe ?dr (?d1, t2) = (Ok (), ?d2, t3)"
    using assms(2)
    by (simp add: probe_def contract_driver_def driver_with_ops_def driver_matches_def device_new_def on_device_def
        transition_def valid_transitions_def contract_ok_def bind_driver_def traced_def Let_def)
  obtain t4 where u: "publish_device (?d2, t3) = (Ok (), ?d2\<lparr>dv_published := True\<rparr>, t4)"
    by (simp add: publish_device_def on_device_def device_publish_def traced_def)
  obtain r s where h: "hot_unplug ?dr (?d2\<lparr>dv_published := True\<rparr>, t4) = (r, s)" by (metis surj_pair)
  have "r = Ok () \<and> dv_state (fst s) = DS_Removed \<and> device_resources (fst s) = []"
    using h
    by (auto simp: hot_unplug_def quiesce_def call_then_transition_def remove_device_def contract_driver_def driver_with_ops_def
        contract_ok_def on_device_def transition_def valid_transitions_def device_unpublish_def unbind_driver_def ok_or_def
        release_resources_def traced_def device_resources_def Let_def)
  then show ?thesis using disc add p u h by (simp add: contract_hot_unplug_def is_err_def is_ok_def)
qed

lemma hot_unplug_spec:
  assumes "driver_ok dr" "resources_ok (fst s)" "hot_unplug dr s = (r, s')"
  shows "case r of
      Inl _ \<Rightarrow> dv_driver (fst s') = dv_driver (fst s) \<and> dv_published (fst s') = dv_published (fst s) \<and>
        (dv_state (fst s') = dv_state (fst s) \<or> dv_state (fst s') \<in> {DS_Quiescing, DS_Failed})
    | Inr _ \<Rightarrow> dv_driver (fst s) = Some (dr_id dr) \<and> dv_state (fst s) \<in> {DS_Ready, DS_Suspended} \<and>
        detached (fst s) (fst s')"
proof -
  obtain r1 s1 where q: "quiesce dr s = (r1, s1)" and cs: "is_err r1 \<and> s' = s1 \<and> is_err r \<or>
      is_ok r1 \<and> (\<exists>s2. remove_device dr s1 = (r, s2) \<and> fst s' = fst s2)"
    using hot_unplug_steps [OF assms(3)] by blast
  note qs = quiesce_spec [OF assms(1,2) q]
  show ?thesis
    using cs
  proof (elim disjE conjE exE)
    assume "is_err r1" "s' = s1" "is_err r"
    then show ?thesis using qs by (cases r; cases r1) (auto simp: is_err_def)
  next
    fix s2
    assume a: "is_ok r1" "remove_device dr s1 = (r, s2)" "fst s' = fst s2"
    have ok1: "resources_ok (fst s1)" using qs by simp
    from remove_spec [OF assms(1) ok1 a(2)] qs a(1,3) show ?thesis
      by (cases r; cases r1) (auto simp: is_ok_def detached_def)
  qed
qed

text \<open>
  Claim C13.  Every device that the framework manages, with drivers whose callbacks keep the device, carries only valid resources
  of its own and at most eight; a device that is ready, suspended or quiescing has a driver, and so has a published one;
  a discovered or removed device has none.
\<close>

theorem device_lifecycle:
  assumes "reachable device_init device_step s"
  shows "length (dv_resources (fst s)) = MAX_RESOURCES \<and> dv_resource_len (fst s) \<le> MAX_RESOURCES \<and>
    (\<forall>x\<in>set (device_resources (fst s)). \<exists>r. x = Some r \<and> resource_owner r = dv_id (fst s) \<and> resource_validate r = Ok ()) \<and>
    (dv_state (fst s) \<in> {DS_Ready, DS_Suspended, DS_Quiescing} \<longrightarrow> dv_driver (fst s) \<noteq> None) \<and>
    (dv_published (fst s) \<longrightarrow> dv_driver (fst s) \<noteq> None) \<and>
    (dv_state (fst s) \<in> {DS_Discovered, DS_Removed} \<longrightarrow> dv_driver (fst s) = None)"
  using devsys.reachable_inv [OF assms] unfolding device_inv_def resources_ok_def conj_assoc .

definition demo_device :: dev_sys where
  "demo_device =
     snd (publish_device (snd (probe (contract_driver 94 ''demo'' contract_ok)
       (snd (add_resource (Pio 0x3f8 8 94) (device_new 94 90 BK_Platform ''demo'' DC_Serial, trace_new))))))"

lemma device_reach:
  "reachable device_init device_step (device_new i b k name c, t)"
  "reachable device_init device_step s \<Longrightarrow> reachable device_init device_step (snd (add_resource x s))"
  "reachable device_init device_step s \<Longrightarrow> driver_ok dr \<Longrightarrow> reachable device_init device_step (snd (probe dr s))"
  "reachable device_init device_step s \<Longrightarrow> reachable device_init device_step (snd (publish_device s))"
  subgoal unfolding device_init_def by (rule reach_init) (intro exI, rule fst_conv)
  subgoal by (erule reach_step, rule step_add, rule prod.collapse [symmetric])
  subgoal by (erule reach_step, rule step_probe, assumption, rule prod.collapse [symmetric])
  subgoal by (erule reach_step, rule step_publish, rule prod.collapse [symmetric])
  done

lemma demo_device_reachable: "reachable device_init device_step demo_device"
  unfolding demo_device_def
  by (rule device_reach(4), rule device_reach(3), rule device_reach(2), rule device_reach(1),
      rule contract_driver_ok, rule contract_callback.driver_callback_axioms)

lemma demo_device_fst:
  "fst demo_device = \<lparr>dv_id = 94, dv_bus = 90, dv_bus_kind = BK_Platform, dv_name = ''demo'', dv_class = DC_Serial,
     dv_state = DS_Ready, dv_resources = (replicate MAX_RESOURCES None)[0 := Some (Pio 0x3f8 8 94)], dv_resource_len = 1,
     dv_driver = Some 94, dv_published = True\<rparr>"
  by (simp add: demo_device_def probe_def contract_driver_def driver_with_ops_def driver_matches_def device_new_def
      add_resource_def on_device_def transition_def valid_transitions_def contract_ok_def bind_driver_def traced_def
      publish_device_def device_publish_def kernel_defs Let_def)

theorem device_lifecycle_witness:
  "dv_state (fst demo_device) = DS_Ready \<and> dv_published (fst demo_device) \<and> dv_driver (fst demo_device) \<noteq> None"
proof (intro conjI)
  show st: "dv_state (fst demo_device) = DS_Ready" by (simp add: demo_device_fst)
  show "dv_published (fst demo_device)" by (simp add: demo_device_fst)
  show "dv_driver (fst demo_device) \<noteq> None" using device_lifecycle [OF demo_device_reachable] st by simp
qed



text \<open>
  The trace reports the latest 128 traced calls, oldest first, each with its sequence number and the state, the driver
  and the resource counts at the call.
\<close>

theorem trace_reports_latest:
  assumes "length calls < 2 ^ 64"
  shows "trace_list (trace_calls calls) = drop (length calls - MAX_TRACE_EVENTS) (trace_log calls)"
  using ring_shows_list [OF trace_calls_show [OF assms]] assms by simp

theorem trace_reports_latest_witness:
  "map te_sequence (trace_list (trace_calls (replicate 130 (TO_Discover, fst demo_device, None, True)))) =
   drop 2 (map of_nat [0..<130])"
proof -
  have "trace_list (trace_calls (replicate 130 (TO_Discover, fst demo_device, None, True))) =
      drop 2 (trace_log (replicate 130 (TO_Discover, fst demo_device, None, True)))"
    using trace_reports_latest [of "replicate 130 (TO_Discover, fst demo_device, None, True)"]
    by (simp add: MAX_TRACE_EVENTS_def)
  then show ?thesis by (simp only: drop_map [symmetric] trace_log_sequence length_replicate)
qed

text \<open>
  The contract matrix passes all of its six scenarios whenever the interrupt registry can take the storm's
  registration: every failing probe ends in its expected state without resources, the hot unplug removes the
  device, and the storm is accepted.
\<close>

theorem matrix_passes:
  assumes "interrupt_storm_self_check storm_hard storm_deferred hard irqs = (True, irqs')"
  shows "\<exists>t'. matrix_self_check storm_hard storm_deferred hard (irqs, t) =
    (\<lparr>mr_scenarios = 6, mr_passed = 6\<rparr>, irqs', t')"
proof -
  let ?b = "bus_new 90 ''matrix'' BK_Platform"
  have b0: "bs_device_len ?b = 0" "bs_kind ?b = BK_Platform" by (simp_all add: bus_new_def)
  have f: "probe_failure_state DE_DeviceAbsent = DS_Unsupported" "probe_failure_state DE_Timeout = DS_Failed"
    "probe_failure_state DE_MalformedDescriptor = DS_Failed" "probe_failure_state DE_DmaFailure = DS_Failed"
    by (simp_all add: probe_failure_state_def)
  obtain b1 t1 where p1: "contract_probe_status_result 90 ''matrix-absent'' contract_absent DS_Unsupported DE_DeviceAbsent
      (?b, t) = (True, b1, t1)" "bs_device_len b1 \<le> 1" "bs_kind b1 = BK_Platform"
    using contract_probe_passes [of ?b contract_absent DE_DeviceAbsent] b0 f
    by (fastforce simp: contract_callbacks MAX_DEVICES_PER_BUS_def)
  obtain b2 t2 where p2: "contract_probe_status_result 91 ''matrix-timeout'' contract_timeout DS_Failed DE_Timeout
      (b1, t1) = (True, b2, t2)" "bs_device_len b2 \<le> 2" "bs_kind b2 = BK_Platform"
    using contract_probe_passes [of b1 contract_timeout DE_Timeout] p1 f
    by (fastforce simp: contract_callbacks MAX_DEVICES_PER_BUS_def)
  obtain b3 t3 where p3: "contract_probe_status_result 92 ''matrix-malformed'' contract_malformed DS_Failed
      DE_MalformedDescriptor (b2, t2) = (True, b3, t3)" "bs_device_len b3 \<le> 3" "bs_kind b3 = BK_Platform"
    using contract_probe_passes [of b2 contract_malformed DE_MalformedDescriptor] p2 f
    by (fastforce simp: contract_callbacks MAX_DEVICES_PER_BUS_def)
  obtain b4 t4 where p4: "contract_probe_status_result 93 ''matrix-dma-failure'' contract_dma_failure DS_Failed
      DE_DmaFailure (b3, t3) = (True, b4, t4)" "bs_device_len b4 \<le> 4" "bs_kind b4 = BK_Platform"
    using contract_probe_passes [of b3 contract_dma_failure DE_DmaFailure] p3 f
    by (fastforce simp: contract_callbacks MAX_DEVICES_PER_BUS_def)
  obtain st where "contract_hot_unplug (b4, t4) = (True, st)"
    using contract_hot_unplug_passes [of b4 t4] p4 by (cases "contract_hot_unplug (b4, t4)") (auto simp: MAX_DEVICES_PER_BUS_def)
  with assms p1 p2 p3 p4 show ?thesis by (simp add: matrix_self_check_def Let_def split: prod.splits)
qed

end
