(* ===== verification/Service.thy ===== *)
theory Service
  imports Driver_Lifecycle Process_Steps
begin

text \<open>
  The supervisor of driver services (\<open>src/service.rs\<close>): registration of a service process for a published
  device, start, quiesce, stop, restart, recovery from a crash and removal, over the driver framework and the
  process table.
\<close>

section \<open>Data\<close>

definition MAX_SERVICES :: nat where [kernel_defs]: "MAX_SERVICES = 8"
definition MAX_RESTARTS :: u8 where [kernel_defs]: "MAX_RESTARTS = 3"

datatype service_state = SS_Registered | SS_Running | SS_Quiescing | SS_Stopped | SS_Failed

datatype service_error =
    SE_Capacity | SE_InvalidHandle | SE_GenerationExhausted | SE_RestartLimit | SE_AlreadyRegistered
  | SE_InvalidState | SE_DeviceMismatch | SE_NotUserThread | SE_Process process_error | SE_Driver driver_error

record service_handle =
  sh_slot :: u8
  sh_generation :: u16

record service_record =
  sr_device :: device_id
  sr_driver :: driver
  sr_process :: process_id
  sr_thread :: thread_id
  sr_state :: service_state
  sr_endpoint_active :: bool
  sr_restarts :: u8

record supervisor =
  sup_records :: "service_record option list"
  sup_generations :: "u16 list"

definition supervisor_new :: supervisor where
  "supervisor_new = \<lparr>sup_records = replicate MAX_SERVICES None, sup_generations = replicate MAX_SERVICES 0\<rparr>"

text \<open>The supervisor with the device and the process table its operations borrow.\<close>

record service_sys =
  ss_sup :: supervisor
  ss_device :: dev_sys
  ss_processes :: process_table

definition map_err :: "('e \<Rightarrow> 'f) \<Rightarrow> 'e + 'a \<Rightarrow> 'f + 'a" where
  "map_err f r = (case r of Inl e \<Rightarrow> Inl (f e) | Inr x \<Rightarrow> Inr x)"

section \<open>Checks\<close>

definition validate_process :: "process_table \<Rightarrow> process_id \<Rightarrow> thread_id \<Rightarrow> service_error + unit" where
  "validate_process t process thread =
     (if process = INIT then Err SE_NotUserThread
      else and_then (map_err SE_Process (process_state_of process t)) (\<lambda>st.
      if st \<noteq> P_Running then Err SE_NotUserThread
      else and_then (map_err SE_Process (thread_owner thread t)) (\<lambda>owner.
      if owner \<noteq> Some process then Err SE_NotUserThread
      else and_then (map_err SE_Process (thread_kind_of thread t)) (\<lambda>kind.
      if kind \<noteq> User_Thread then Err SE_NotUserThread
      else and_then (map_err SE_Process (thread_state_of thread t)) (\<lambda>st.
      if st \<noteq> T_Ready \<and> st \<noteq> T_Running then Err SE_NotUserThread else Ok ())))))"

definition validate_device_id :: "service_record \<Rightarrow> device \<Rightarrow> driver \<Rightarrow> service_error + unit" where
  "validate_device_id rec d dr =
     (if sr_device rec \<noteq> dv_id d \<or> dr_id (sr_driver rec) \<noteq> dr_id dr then Err SE_DeviceMismatch else Ok ())"

definition validate_device :: "service_record \<Rightarrow> device \<Rightarrow> driver \<Rightarrow> service_error + unit" where
  "validate_device rec d dr =
     and_then (validate_device_id rec d dr) (\<lambda>_.
       if dv_driver d \<noteq> Some (dr_id dr) then Err SE_DeviceMismatch else Ok ())"

definition sup_record :: "supervisor \<Rightarrow> service_handle \<Rightarrow> service_error + nat \<times> service_record" where
  "sup_record sv h =
     (let slot = unat (sh_slot h) in
      if MAX_SERVICES \<le> slot \<or> sup_generations sv ! slot \<noteq> sh_generation h then Err SE_InvalidHandle
      else ok_or (map_option (\<lambda>rec. (slot, rec)) (sup_records sv ! slot)) SE_InvalidHandle)"

definition store_record :: "nat \<Rightarrow> service_record \<Rightarrow> service_sys \<Rightarrow> service_sys" where
  "store_record slot rec s = s\<lparr>ss_sup := (ss_sup s)\<lparr>sup_records := (sup_records (ss_sup s))[slot := Some rec]\<rparr>\<rparr>"

section \<open>Operations\<close>

definition sv_register ::
  "driver \<Rightarrow> process_id \<Rightarrow> thread_id \<Rightarrow> service_sys \<Rightarrow> (service_error + service_handle) \<times> service_sys" where
  "sv_register dr process thread s =
     (let d = fst (ss_device s); sv = ss_sup s in
      if dv_state d \<noteq> DS_Ready \<or> \<not> dv_published d \<or> dv_driver d \<noteq> Some (dr_id dr) then (Err SE_InvalidState, s)
      else try_res (validate_process (ss_processes s) process thread) s (\<lambda>_.
      if \<exists>rec\<in>set (flatten (sup_records sv)). sr_device rec = dv_id d then (Err SE_AlreadyRegistered, s)
      else try_res (ok_or (position is_none (sup_records sv)) SE_Capacity) s (\<lambda>slot.
        (Ok \<lparr>sh_slot = of_nat slot, sh_generation = sup_generations sv ! slot\<rparr>,
         store_record slot
           \<lparr>sr_device = dv_id d, sr_driver = dr, sr_process = process, sr_thread = thread, sr_state = SS_Registered,
            sr_endpoint_active = False, sr_restarts = 0\<rparr> s))))"

definition sv_start :: "service_handle \<Rightarrow> driver \<Rightarrow> service_sys \<Rightarrow> (service_error + unit) \<times> service_sys" where
  "sv_start h dr s =
     try_res (sup_record (ss_sup s) h) s (\<lambda>(slot, rec).
     try_res (validate_device rec (fst (ss_device s)) dr) s (\<lambda>_.
     if sr_state rec \<noteq> SS_Registered then (Err SE_InvalidState, s)
     else try_res (validate_process (ss_processes s) (sr_process rec) (sr_thread rec)) s (\<lambda>_.
       (Ok (), store_record slot (rec\<lparr>sr_state := SS_Running, sr_endpoint_active := True\<rparr>) s))))"

definition sv_quiesce :: "service_handle \<Rightarrow> driver \<Rightarrow> service_sys \<Rightarrow> (service_error + unit) \<times> service_sys" where
  "sv_quiesce h dr s =
     try_res (sup_record (ss_sup s) h) s (\<lambda>(slot, rec).
     try_res (validate_device rec (fst (ss_device s)) dr) s (\<lambda>_.
     if sr_state rec \<noteq> SS_Running then (Err SE_InvalidState, s)
     else
       (case quiesce dr (ss_device s) of
          (Inl e, d) \<Rightarrow>
            (Err (SE_Driver e),
             store_record slot (rec\<lparr>sr_state := SS_Failed, sr_endpoint_active := False\<rparr>) (s\<lparr>ss_device := d\<rparr>))
        | (Inr _, d) \<Rightarrow>
            (Ok (), store_record slot (rec\<lparr>sr_state := SS_Quiescing, sr_endpoint_active := False\<rparr>) (s\<lparr>ss_device := d\<rparr>)))))"

text \<open>\<open>Option::get_or_insert\<close> on the recorded failure, and the two halves of \<open>stop\<close>: the device, then the process.\<close>

definition get_or_insert :: "'a option \<Rightarrow> 'a \<Rightarrow> 'a option" where
  "get_or_insert o' x = (case o' of None \<Rightarrow> Some x | Some y \<Rightarrow> Some y)"

definition stop_device :: "driver \<Rightarrow> dev_sys \<Rightarrow> service_error option \<times> dev_sys" where
  "stop_device dr d =
     (case (case remove_device dr d of
              (Inr _, d) \<Rightarrow> (None, d)
            | (Inl e, d) \<Rightarrow>
                (case revoke_device dr d of
                   (Inl e', d) \<Rightarrow> (Some (SE_Driver e'), d)
                 | (Inr _, d) \<Rightarrow> (Some (SE_Driver e), d))) of
        (failure, d) \<Rightarrow>
          (if dv_state (fst d) \<noteq> DS_Removed \<or> device_resources (fst d) \<noteq> [] then get_or_insert failure SE_InvalidState
           else failure, d))"

definition stop_process :: "process_id \<Rightarrow> service_error option \<Rightarrow> process_table \<Rightarrow> service_error option \<times> process_table" where
  "stop_process process failure t =
     (case process_state_of process t of
        Inr P_Running \<Rightarrow>
          (case process_exit process 0 t of
             (Inl e, t) \<Rightarrow> (get_or_insert failure (SE_Process e), t)
           | (Inr _, t) \<Rightarrow> (failure, t))
      | Inr P_Creating \<Rightarrow> (get_or_insert failure SE_InvalidState, t)
      | Inr _ \<Rightarrow> (failure, t)
      | Inl Pe_InvalidId \<Rightarrow> (failure, t)
      | Inl e \<Rightarrow> (get_or_insert failure (SE_Process e), t))"

definition sv_stop :: "service_handle \<Rightarrow> driver \<Rightarrow> service_sys \<Rightarrow> (service_error + unit) \<times> service_sys" where
  "sv_stop h dr s =
     try_res (sup_record (ss_sup s) h) s (\<lambda>(slot, rec).
     try_res (validate_device rec (fst (ss_device s)) dr) s (\<lambda>_.
     if sr_state rec \<noteq> SS_Quiescing then (Err SE_InvalidState, s)
     else
       (case stop_device dr (ss_device s) of (failure, d) \<Rightarrow>
        case stop_process (sr_process rec) failure (ss_processes s) of (failure, t) \<Rightarrow>
          ((case failure of None \<Rightarrow> Ok () | Some e \<Rightarrow> Err e),
           store_record slot
             (rec\<lparr>sr_endpoint_active := False, sr_state := (if failure \<noteq> None then SS_Failed else SS_Stopped)\<rparr>)
             (s\<lparr>ss_device := d, ss_processes := t\<rparr>)))))"

definition sv_restart ::
  "service_handle \<Rightarrow> driver \<Rightarrow> process_id \<Rightarrow> thread_id \<Rightarrow> service_sys \<Rightarrow> (service_error + unit) \<times> service_sys" where
  "sv_restart h dr process thread s =
     try_res (sup_record (ss_sup s) h) s (\<lambda>(slot, rec).
     try_res (validate_device_id rec (fst (ss_device s)) dr) s (\<lambda>_.
     if sr_state rec \<noteq> SS_Stopped \<and> sr_state rec \<noteq> SS_Failed then (Err SE_InvalidState, s)
     else if MAX_RESTARTS \<le> sr_restarts rec then (Err SE_RestartLimit, s)
     else try_res (validate_process (ss_processes s) process thread) s (\<lambda>_.
       (case probe dr (ss_device s) of
          (Inl e, d) \<Rightarrow> (Err (SE_Driver e), s\<lparr>ss_device := d\<rparr>)
        | (Inr _, d) \<Rightarrow>
            (case publish_device d of
               (Inl e, d) \<Rightarrow> (Err (SE_Driver e), s\<lparr>ss_device := d\<rparr>)
             | (Inr _, d) \<Rightarrow>
                 (Ok (), store_record slot
                    (rec\<lparr>sr_driver := dr, sr_process := process, sr_thread := thread, sr_state := SS_Registered,
                         sr_endpoint_active := False, sr_restarts := saturating_add (sr_restarts rec) 1\<rparr>)
                    (s\<lparr>ss_device := d\<rparr>)))))))"

definition sv_recover_crash :: "service_handle \<Rightarrow> driver \<Rightarrow> service_sys \<Rightarrow> (service_error + bool) \<times> service_sys" where
  "sv_recover_crash h dr s =
     try_res (sup_record (ss_sup s) h) s (\<lambda>(slot, rec).
     try_res (validate_device rec (fst (ss_device s)) dr) s (\<lambda>_.
     if sr_state rec \<noteq> SS_Running then (Err SE_InvalidState, s)
     else try_res (map_err SE_Process (process_state_of (sr_process rec) (ss_processes s))) s (\<lambda>st.
     if st = P_Running then (Ok False, s)
     else
       try_st (sv_quiesce h dr s) (\<lambda>_ s.
       try_st (sv_stop h dr s) (\<lambda>_ s.
       try_res (sup_record (ss_sup s) h) s (\<lambda>(_, rec).
         (Ok True, store_record slot (rec\<lparr>sr_state := SS_Failed, sr_endpoint_active := False\<rparr>) s)))))))"

definition sv_unregister :: "service_handle \<Rightarrow> service_sys \<Rightarrow> (service_error + unit) \<times> service_sys" where
  "sv_unregister h s =
     try_res (sup_record (ss_sup s) h) s (\<lambda>(slot, rec).
     if sr_state rec = SS_Running \<or> sr_state rec = SS_Quiescing then (Err SE_InvalidState, s)
     else
       let sv = (ss_sup s)\<lparr>sup_records := (sup_records (ss_sup s))[slot := None]\<rparr> in
       (case checked_add (sup_generations sv ! slot) 1 of
          None \<Rightarrow> (Err SE_GenerationExhausted, s\<lparr>ss_sup := sv\<rparr>)
        | Some g \<Rightarrow> (Ok (), s\<lparr>ss_sup := sv\<lparr>sup_generations := (sup_generations sv)[slot := g]\<rparr>\<rparr>)))"

definition sv_state :: "supervisor \<Rightarrow> service_handle \<Rightarrow> service_error + service_state" where
  "sv_state sv h = and_then (sup_record sv h) (\<lambda>(_, rec). Ok (sr_state rec))"

definition sv_endpoint_active :: "supervisor \<Rightarrow> service_handle \<Rightarrow> service_error + bool" where
  "sv_endpoint_active sv h = and_then (sup_record sv h) (\<lambda>(_, rec). Ok (sr_endpoint_active rec))"

definition sv_restart_count :: "supervisor \<Rightarrow> service_handle \<Rightarrow> service_error + u8" where
  "sv_restart_count sv h = and_then (sup_record sv h) (\<lambda>(_, rec). Ok (sr_restarts rec))"

section \<open>The callbacks of the service contract\<close>

definition service_probe :: device_callback where
  "service_probe s =
     try_st (add_resource (Mmio 0x1000 0x1000 (dv_id (fst s))) s) (\<lambda>_ s.
       add_resource (Dma \<lparr>db_physical = 0x2000, db_virtual_address = 0xffff800000002000, db_length = 4096, db_alignment = 4096,
         db_direction = Bidirectional, db_owner = dv_id (fst s)\<rparr>) s)"

definition service_remove_ok :: device_callback where
  "service_remove_ok s = (Ok (), s)"

definition service_remove_fail :: device_callback where
  "service_remove_fail s = (Err DE_RemoveFailed, s)"

section \<open>The invariant of the supervisor\<close>

definition service_ok :: "service_record \<Rightarrow> bool" where
  "service_ok rec \<longleftrightarrow> (sr_endpoint_active rec \<longleftrightarrow> sr_state rec = SS_Running) \<and> sr_restarts rec \<le> MAX_RESTARTS \<and> sr_process rec \<noteq> INIT"

definition sup_inv :: "supervisor \<Rightarrow> bool" where
  "sup_inv sv \<longleftrightarrow> length (sup_records sv) = MAX_SERVICES \<and> length (sup_generations sv) = MAX_SERVICES \<and>
     (\<forall>i<MAX_SERVICES. \<forall>rec. sup_records sv ! i = Some rec \<longrightarrow> service_ok rec) \<and>
     (\<forall>i<MAX_SERVICES. \<forall>j<MAX_SERVICES. \<forall>rec rec'. sup_records sv ! i = Some rec \<longrightarrow> sup_records sv ! j = Some rec' \<longrightarrow>
        sr_device rec = sr_device rec' \<longrightarrow> i = j)"

lemma store_record_simps [simp]:
  "ss_device (store_record slot rec s) = ss_device s" "ss_processes (store_record slot rec s) = ss_processes s"
  "sup_records (ss_sup (store_record slot rec s)) = (sup_records (ss_sup s))[slot := Some rec]"
  "sup_generations (ss_sup (store_record slot rec s)) = sup_generations (ss_sup s)"
  by (simp_all add: store_record_def)

lemma sup_record_Ok:
  "sup_record sv h = Ok (slot, rec) \<longleftrightarrow> slot = unat (sh_slot h) \<and> slot < MAX_SERVICES \<and>
     sup_generations sv ! slot = sh_generation h \<and> sup_records sv ! slot = Some rec"
  by (auto simp: sup_record_def Let_def ok_or_def split: option.splits)

lemma sup_record_store:
  assumes "sup_inv (ss_sup s)" "sup_record (ss_sup s) h = Ok (slot, rec)"
  shows "sup_record (ss_sup (store_record slot rec' s)) h = Ok (slot, rec')"
  using assms by (auto simp: sup_record_Ok sup_inv_def)

lemma sup_inv_record: "sup_inv sv \<Longrightarrow> sup_record sv h = Ok (slot, rec) \<Longrightarrow> service_ok rec"
  by (auto simp: sup_inv_def sup_record_Ok)

lemma sup_inv_cong:
  "sup_records sv' = sup_records sv \<Longrightarrow> sup_generations sv' = sup_generations sv \<Longrightarrow> sup_inv sv' = sup_inv sv"
  by (simp add: sup_inv_def)

text \<open>Storing a record for the device of its slot keeps the invariant, and so does clearing a slot.\<close>

lemma sup_inv_store:
  assumes inv: "sup_inv (ss_sup s)" and rec: "sup_record (ss_sup s) h = Ok (slot, rec)"
    and ok: "service_ok rec'" and dev: "sr_device rec' = sr_device rec"
  shows "sup_inv (ss_sup (store_record slot rec' s))"
proof -
  have old: "slot < MAX_SERVICES" "sup_records (ss_sup s) ! slot = Some rec" "length (sup_records (ss_sup s)) = MAX_SERVICES"
    using rec inv by (auto simp: sup_record_Ok sup_inv_def)
  have "\<exists>q. sup_records (ss_sup s) ! i = Some q \<and> sr_device q = sr_device r \<and> (i \<noteq> slot \<longrightarrow> q = r)"
    if "i < MAX_SERVICES" "(sup_records (ss_sup s))[slot := Some rec'] ! i = Some r" for i r
    using that old dev by (cases "i = slot") auto
  moreover have "service_ok r"
    if "i < MAX_SERVICES" "(sup_records (ss_sup s))[slot := Some rec'] ! i = Some r" for i r
    using that old ok inv unfolding sup_inv_def by (cases "i = slot") auto
  ultimately show ?thesis
    using inv unfolding sup_inv_def store_record_simps length_list_update by metis
qed

lemma sup_inv_clear:
  assumes "sup_inv sv" "sup_records sv' = (sup_records sv)[slot := None]" "length (sup_generations sv') = MAX_SERVICES"
  shows "sup_inv sv'"
proof -
  have "sup_records sv ! i = Some r" if "i < MAX_SERVICES" "sup_records sv' ! i = Some r" for i r
    using that assms by (cases "i = slot") (simp_all add: sup_inv_def)
  then show ?thesis using assms unfolding sup_inv_def by (metis length_list_update)
qed

lemma sup_inv_fresh:
  assumes inv: "sup_inv (ss_sup s)" and slot: "slot < MAX_SERVICES" "sup_records (ss_sup s) ! slot = None" and ok: "service_ok rec"
    and fresh: "\<And>r. r \<in> set (flatten (sup_records (ss_sup s))) \<Longrightarrow> sr_device r \<noteq> sr_device rec"
  shows "sup_inv (ss_sup (store_record slot rec s))"
proof -
  let ?xs = "sup_records (ss_sup s)"
  have len: "length ?xs = MAX_SERVICES" using inv by (simp add: sup_inv_def)
  have new: "i = slot \<and> r = rec \<or> i \<noteq> slot \<and> ?xs ! i = Some r" if "i < MAX_SERVICES" "?xs[slot := Some rec] ! i = Some r" for i r
    using that slot len by (cases "i = slot") auto
  have other: "sr_device r \<noteq> sr_device rec" if "i < MAX_SERVICES" "?xs ! i = Some r" for i r
    using fresh [of r] that len by (auto simp: in_flatten_nth)
  have "service_ok r" if "i < MAX_SERVICES" "?xs[slot := Some rec] ! i = Some r" for i r
    using new [OF that] ok inv that(1) unfolding sup_inv_def by metis
  moreover have "i = j" if "i < MAX_SERVICES" "j < MAX_SERVICES" "?xs[slot := Some rec] ! i = Some r"
      "?xs[slot := Some rec] ! j = Some q" "sr_device r = sr_device q" for i j r q
    using new [OF that(1,3)] new [OF that(2,4)] other that inv unfolding sup_inv_def by metis
  ultimately show ?thesis using inv unfolding sup_inv_def store_record_simps length_list_update by blast
qed

section \<open>The operations on the supervisor\<close>

lemma validate_process_user: "validate_process t p tid = Ok () \<Longrightarrow> p \<noteq> INIT"
  by (auto simp: validate_process_def)

lemma service_ok_idle:
  "service_ok rec \<Longrightarrow> st \<noteq> SS_Running \<Longrightarrow> service_ok (rec\<lparr>sr_state := st, sr_endpoint_active := False\<rparr>)"
  by (simp add: service_ok_def)

lemma register_cases:
  assumes "sv_register dr p tid s = (r, s')"
  shows "s' = s \<or> p \<noteq> INIT \<and> (\<forall>q\<in>set (flatten (sup_records (ss_sup s))). sr_device q \<noteq> dv_id (fst (ss_device s))) \<and>
    (\<exists>slot. position is_none (sup_records (ss_sup s)) = Some slot \<and>
      s' = store_record slot \<lparr>sr_device = dv_id (fst (ss_device s)), sr_driver = dr, sr_process = p, sr_thread = tid,
         sr_state = SS_Registered, sr_endpoint_active = False, sr_restarts = 0\<rparr> s)"
proof (cases "validate_process (ss_processes s) p tid")
  case (Inr u)
  with validate_process_user have "p \<noteq> INIT" by simp
  with Inr assms show ?thesis
    by (cases "position is_none (sup_records (ss_sup s))") (auto simp: sv_register_def Let_def ok_or_def split: if_splits)
next
  case (Inl e)
  with assms show ?thesis by (auto simp: sv_register_def Let_def split: if_splits)
qed

lemma register_inv:
  assumes inv: "sup_inv (ss_sup s)" and reg: "sv_register dr p tid s = (r, s')"
  shows "sup_inv (ss_sup s') \<and> ss_device s' = ss_device s \<and> ss_processes s' = ss_processes s"
proof (cases "s' = s")
  case False
  then obtain slot where n: "p \<noteq> INIT" "\<forall>q\<in>set (flatten (sup_records (ss_sup s))). sr_device q \<noteq> dv_id (fst (ss_device s))"
    and slot: "position is_none (sup_records (ss_sup s)) = Some slot"
    and s': "s' = store_record slot \<lparr>sr_device = dv_id (fst (ss_device s)), sr_driver = dr, sr_process = p, sr_thread = tid,
         sr_state = SS_Registered, sr_endpoint_active = False, sr_restarts = 0\<rparr> s"
    using register_cases [OF reg] by blast
  have "slot < MAX_SERVICES" "sup_records (ss_sup s) ! slot = None"
    using position_lt [OF slot] position_holds [OF slot] inv by (auto simp: sup_inv_def elim: is_none.elims)
  from sup_inv_fresh [OF inv this] n show ?thesis unfolding s' by (simp add: service_ok_def)
qed (use inv in simp)

lemma start_inv:
  assumes "sup_inv (ss_sup s)" "sv_start h dr s = (r, s')"
  shows "sup_inv (ss_sup s') \<and> ss_device s' = ss_device s \<and> ss_processes s' = ss_processes s"
proof -
  have "s' = s \<or> (\<exists>slot rec. sup_record (ss_sup s) h = Ok (slot, rec) \<and>
      s' = store_record slot (rec\<lparr>sr_state := SS_Running, sr_endpoint_active := True\<rparr>) s)"
    using assms(2) unfolding sv_start_def by (auto elim!: try_res_cases split: if_splits)
  then show ?thesis
    using assms(1) sup_inv_record by (fastforce intro!: sup_inv_store simp: service_ok_def)
qed

lemma quiesce_cases:
  assumes "sv_quiesce h dr s = (r, s')"
  obtains e where "r = Err e" "s' = s"
  | slot rec r0 d where "sup_record (ss_sup s) h = Ok (slot, rec)" "sr_state rec = SS_Running"
    "validate_device rec (fst (ss_device s)) dr = Ok ()" "quiesce dr (ss_device s) = (r0, d)"
    "r = map_err SE_Driver r0"
    "s' = store_record slot (rec\<lparr>sr_state := (if is_ok r0 then SS_Quiescing else SS_Failed), sr_endpoint_active := False\<rparr>)
       (s\<lparr>ss_device := d\<rparr>)"
  using assms that unfolding sv_quiesce_def
  by (auto simp: map_err_def is_ok_def elim!: try_res_cases split: if_splits prod.splits sum.splits)

lemma stop_cases:
  assumes "sv_stop h dr s = (r, s')"
  obtains e where "r = Err e" "s' = s"
  | slot rec f d f' t where "sup_record (ss_sup s) h = Ok (slot, rec)" "sr_state rec = SS_Quiescing"
    "validate_device rec (fst (ss_device s)) dr = Ok ()" "stop_device dr (ss_device s) = (f, d)"
    "stop_process (sr_process rec) f (ss_processes s) = (f', t)" "r = (case f' of None \<Rightarrow> Ok () | Some e \<Rightarrow> Err e)"
    "s' = store_record slot (rec\<lparr>sr_endpoint_active := False, sr_state := (if f' \<noteq> None then SS_Failed else SS_Stopped)\<rparr>)
       (s\<lparr>ss_device := d, ss_processes := t\<rparr>)"
  using assms that unfolding sv_stop_def
  by (auto elim!: try_res_cases split: if_splits prod.splits)

lemma validate_device_Ok:
  "validate_device rec d dr = Ok () \<longleftrightarrow>
     sr_device rec = dv_id d \<and> dr_id (sr_driver rec) = dr_id dr \<and> dv_driver d = Some (dr_id dr)"
  by (auto simp: validate_device_def validate_device_id_def)

lemma sup_inv_store_frame:
  assumes "sup_inv (ss_sup s)" "sup_record (ss_sup s) h = Ok (slot, rec)" "service_ok rec'" "sr_device rec' = sr_device rec"
  shows "sup_inv (ss_sup (store_record slot rec' (s\<lparr>ss_device := d, ss_processes := t\<rparr>)))"
    "sup_inv (ss_sup (store_record slot rec' (s\<lparr>ss_device := d\<rparr>)))"
  using sup_inv_store [of "s\<lparr>ss_device := d, ss_processes := t\<rparr>" h slot rec rec'] sup_inv_store [of "s\<lparr>ss_device := d\<rparr>" h slot rec rec']
    assms by simp_all

text \<open>The system: a supervisor, a device the framework manages and a process table.\<close>

definition service_inv :: "service_sys \<Rightarrow> bool" where
  "service_inv s \<longleftrightarrow> sup_inv (ss_sup s) \<and> device_inv (fst (ss_device s)) \<and> table_inv (ss_processes s)"

lemma sv_quiesce_inv:
  assumes dr: "driver_ok dr" and inv: "service_inv s" and q: "sv_quiesce h dr s = (r, s')"
  shows "service_inv s'"
  using q
proof (cases rule: quiesce_cases)
  case (2 slot rec r0 d)
  have sv: "sup_inv (ss_sup s)" using inv by (simp add: service_inv_def)
  have "service_ok rec" by (rule sup_inv_record [OF sv 2(1)])
  then have "service_ok (rec\<lparr>sr_state := (if is_ok r0 then SS_Quiescing else SS_Failed), sr_endpoint_active := False\<rparr>)"
    by (rule service_ok_idle) simp
  from sup_inv_store_frame(2) [OF sv 2(1) this] have "sup_inv (ss_sup s')" unfolding 2(6) by simp
  moreover have "device_inv (fst d)" using quiesce_inv [OF dr _ 2(4)] inv by (simp add: service_inv_def)
  ultimately show ?thesis using inv by (simp add: service_inv_def 2(6))
qed (use inv in simp)

lemma stop_device_inv:
  assumes "driver_ok dr" "device_inv (fst d)" "stop_device dr d = (f, d')"
  shows "device_inv (fst d')"
proof -
  obtain r1 d1 where m: "remove_device dr d = (r1, d1)" by (metis surj_pair)
  obtain r2 d2 where v: "revoke_device dr d1 = (r2, d2)" by (metis surj_pair)
  have i1: "device_inv (fst d1)" by (rule remove_inv [OF assms(1,2) m])
  have i2: "device_inv (fst d2)" by (rule revoke_device_inv [OF i1 v])
  have "d' = d1 \<or> d' = d2" using assms(3) m v by (auto simp: stop_device_def split: sum.splits)
  with i1 i2 show ?thesis by auto
qed

lemma stop_process_table: "stop_process p f t = (f', t') \<Longrightarrow> t' = t \<or> (\<exists>r. process_exit p 0 t = (r, t'))"
  by (auto simp: stop_process_def split: sum.splits process_state.splits process_error.splits prod.splits)

lemma sv_stop_inv:
  assumes dr: "driver_ok dr" and inv: "service_inv s" and q: "sv_stop h dr s = (r, s')"
  shows "service_inv s'"
  using q
proof (cases rule: stop_cases)
  case (2 slot rec f d f' t)
  have sv: "sup_inv (ss_sup s)" using inv by (simp add: service_inv_def)
  have "service_ok rec" by (rule sup_inv_record [OF sv 2(1)])
  then have "service_ok (rec\<lparr>sr_endpoint_active := False, sr_state := (if f' \<noteq> None then SS_Failed else SS_Stopped)\<rparr>)"
    by (simp add: service_ok_def)
  from sup_inv_store_frame(1) [OF sv 2(1) this] have "sup_inv (ss_sup s')" unfolding 2(7) by simp
  moreover have "device_inv (fst d)" using stop_device_inv [OF dr _ 2(4)] inv by (simp add: service_inv_def)
  moreover have "table_inv t" using stop_process_table [OF 2(5)] inv process_exit_inv by (auto simp: service_inv_def)
  ultimately show ?thesis by (simp add: service_inv_def 2(7))
qed (use inv in simp)

text \<open>A restart that gets past its checks, and what it stores.\<close>

definition restarted :: "driver \<Rightarrow> process_id \<Rightarrow> thread_id \<Rightarrow> service_record \<Rightarrow> service_record" where
  "restarted dr p tid rec = rec\<lparr>sr_driver := dr, sr_process := p, sr_thread := tid, sr_state := SS_Registered,
     sr_endpoint_active := False, sr_restarts := saturating_add (sr_restarts rec) 1\<rparr>"

lemma restart_checks:
  assumes "sv_restart h dr p tid s = (r, s')" "s' \<noteq> s"
  obtains slot rec where "sup_record (ss_sup s) h = Ok (slot, rec)" "sr_restarts rec < MAX_RESTARTS" "p \<noteq> INIT"
    "(case probe dr (ss_device s) of
        (Inl e, d) \<Rightarrow> (Err (SE_Driver e), s\<lparr>ss_device := d\<rparr>)
      | (Inr _, d) \<Rightarrow>
          (case publish_device d of
             (Inl e, d) \<Rightarrow> (Err (SE_Driver e), s\<lparr>ss_device := d\<rparr>)
           | (Inr _, d) \<Rightarrow> (Ok (), store_record slot (restarted dr p tid rec) (s\<lparr>ss_device := d\<rparr>)))) = (r, s')"
proof -
  obtain slot rec where rec: "sup_record (ss_sup s) h = Ok (slot, rec)"
    using assms by (cases "sup_record (ss_sup s) h") (auto simp: sv_restart_def)
  have chk: "validate_device_id rec (fst (ss_device s)) dr = Ok ()" "sr_state rec = SS_Stopped \<or> sr_state rec = SS_Failed"
    "sr_restarts rec < MAX_RESTARTS" "validate_process (ss_processes s) p tid = Ok ()"
    using assms rec
    by (cases "validate_device_id rec (fst (ss_device s)) dr"; cases "validate_process (ss_processes s) p tid";
        force simp: sv_restart_def split: if_splits)+
  have "\<not> MAX_RESTARTS \<le> sr_restarts rec" using chk(3) by simp
  with assms(1) rec chk validate_process_user [OF chk(4)] show thesis
    by (intro that [unfolded restarted_def]) (auto simp: sv_restart_def)
qed

lemma restarts_bound:
  assumes "n < MAX_RESTARTS"
  shows "saturating_add n 1 \<le> MAX_RESTARTS"
proof -
  have "unat n < 3" using assms by (simp add: MAX_RESTARTS_def word_less_nat_alt)
  then show ?thesis
    by (simp add: saturating_add_def MAX_RESTARTS_def word_le_nat_alt unat_word_ariths)
qed

lemma sv_restart_inv:
  assumes dr: "driver_ok dr" and inv: "service_inv s" and q: "sv_restart h dr p tid s = (r, s')"
  shows "service_inv s'"
proof (cases "s' = s")
  case False
  obtain slot rec where c: "sup_record (ss_sup s) h = Ok (slot, rec)" "sr_restarts rec < MAX_RESTARTS" "p \<noteq> INIT"
    and body: "(case probe dr (ss_device s) of
        (Inl e, d) \<Rightarrow> (Err (SE_Driver e), s\<lparr>ss_device := d\<rparr>)
      | (Inr _, d) \<Rightarrow>
          (case publish_device d of
             (Inl e, d) \<Rightarrow> (Err (SE_Driver e), s\<lparr>ss_device := d\<rparr>)
           | (Inr _, d) \<Rightarrow> (Ok (), store_record slot (restarted dr p tid rec) (s\<lparr>ss_device := d\<rparr>)))) = (r, s')"
    by (rule restart_checks [OF q False])
  have sv: "sup_inv (ss_sup s)" using inv by (simp add: service_inv_def)
  have ok: "service_ok (restarted dr p tid rec)"
    using sup_inv_record [OF sv c(1)] restarts_bound [OF c(2)] c(3) by (simp add: service_ok_def restarted_def)
  have st: "sup_inv (ss_sup (store_record slot (restarted dr p tid rec) (s\<lparr>ss_device := x\<rparr>)))" for x
    by (rule sup_inv_store_frame(2) [OF sv c(1) ok]) (simp add: restarted_def)
  obtain r0 d where p: "probe dr (ss_device s) = (r0, d)" by (metis surj_pair)
  obtain r1 d1 where u: "publish_device d = (r1, d1)" by (metis surj_pair)
  have "device_inv (fst d)" using probe_inv [OF dr _ p] inv by (simp add: service_inv_def)
  moreover from publish_device_inv [OF this u] have "device_inv (fst d1)" .
  ultimately show ?thesis
    using body p u inv st [of d1] by (cases r0; cases r1) (auto simp: service_inv_def)
qed (use inv in simp)

lemma sv_unregister_inv:
  assumes "sup_inv (ss_sup s)" "sv_unregister h s = (r, s')"
  shows "sup_inv (ss_sup s') \<and> ss_device s' = ss_device s \<and> ss_processes s' = ss_processes s"
proof (cases "s' = s")
  case False
  have u: "sup_records (ss_sup s') = (sup_records (ss_sup s))[unat (sh_slot h) := None]"
    "length (sup_generations (ss_sup s')) = length (sup_generations (ss_sup s))"
    "ss_device s' = ss_device s" "ss_processes s' = ss_processes s"
    using assms(2) False unfolding sv_unregister_def Let_def
    by (auto simp: sup_record_Ok elim!: try_res_cases split: if_splits option.splits)
  have "length (sup_generations (ss_sup s')) = MAX_SERVICES" using u(2) assms(1) by (simp add: sup_inv_def)
  from sup_inv_clear [OF assms(1) u(1) this] u(3,4) show ?thesis by simp
qed (use assms(1) in simp)

lemma recover_checks:
  assumes "sv_recover_crash h dr s = (r, s')" "s' \<noteq> s \<or> is_ok r"
  obtains slot rec where "sup_record (ss_sup s) h = Ok (slot, rec)" "validate_device rec (fst (ss_device s)) dr = Ok ()"
      "sr_state rec = SS_Running" "process_state_of (sr_process rec) (ss_processes s) = Ok P_Running" "r = Ok False" "s' = s"
  | slot rec st where "sup_record (ss_sup s) h = Ok (slot, rec)" "validate_device rec (fst (ss_device s)) dr = Ok ()"
      "sr_state rec = SS_Running" "process_state_of (sr_process rec) (ss_processes s) = Ok st" "st \<noteq> P_Running"
      "try_st (sv_quiesce h dr s) (\<lambda>_ s.
         try_st (sv_stop h dr s) (\<lambda>_ s.
         try_res (sup_record (ss_sup s) h) s (\<lambda>(_, rec).
           (Ok True, store_record slot (rec\<lparr>sr_state := SS_Failed, sr_endpoint_active := False\<rparr>) s)))) = (r, s')"
proof -
  obtain slot rec where rec: "sup_record (ss_sup s) h = Ok (slot, rec)"
    using assms by (cases "sup_record (ss_sup s) h") (auto simp: sv_recover_crash_def is_ok_def)
  have v: "validate_device rec (fst (ss_device s)) dr = Ok ()"
    using assms rec by (cases "validate_device rec (fst (ss_device s)) dr") (auto simp: sv_recover_crash_def is_ok_def)
  have run: "sr_state rec = SS_Running"
    using assms rec v by (auto simp: sv_recover_crash_def is_ok_def split: if_splits)
  obtain st where st: "process_state_of (sr_process rec) (ss_processes s) = Ok st"
    using assms rec v run
    by (cases "process_state_of (sr_process rec) (ss_processes s)") (auto simp: sv_recover_crash_def map_err_def is_ok_def)
  show thesis
  proof (cases "st = P_Running")
    case True
    with assms(1) rec v run st show thesis by (intro that(1)) (auto simp: sv_recover_crash_def map_err_def)
  next
    case False
    with assms(1) rec v run st show thesis by (intro that(2)) (auto simp: sv_recover_crash_def map_err_def)
  qed
qed

lemma sv_recover_inv:
  assumes dr: "driver_ok dr" and inv: "service_inv s" and q: "sv_recover_crash h dr s = (r, s')"
  shows "service_inv s'"
proof (cases "s' = s")
  case False
  show ?thesis
  proof (rule recover_checks [OF q disjI1 [OF False]])
    fix slot rec st
    assume rec: "sup_record (ss_sup s) h = Ok (slot, rec)"
    assume "try_st (sv_quiesce h dr s) (\<lambda>_ s.
         try_st (sv_stop h dr s) (\<lambda>_ s.
         try_res (sup_record (ss_sup s) h) s (\<lambda>(_, rec).
           (Ok True, store_record slot (rec\<lparr>sr_state := SS_Failed, sr_endpoint_active := False\<rparr>) s)))) = (r, s')"
    then show ?thesis
    proof (elim try_st_cases try_res_cases; clarsimp)
      fix e assume "sv_quiesce h dr s = (Err e, s')"
      then show "service_inv s'" by (rule sv_quiesce_inv [OF dr inv])
    next
      fix s1 e assume a: "sv_quiesce h dr s = (Ok (), s1)" "sv_stop h dr s1 = (Err e, s')"
      show "service_inv s'" by (rule sv_stop_inv [OF dr sv_quiesce_inv [OF dr inv a(1)] a(2)])
    next
      fix s1 e assume a: "sv_quiesce h dr s = (Ok (), s1)" "sv_stop h dr s1 = (Ok (), s')"
      show "service_inv s'" by (rule sv_stop_inv [OF dr sv_quiesce_inv [OF dr inv a(1)] a(2)])
    next
      fix s1 s2 slot2 rec2 assume a: "sv_quiesce h dr s = (Ok (), s1)" "sv_stop h dr s1 = (Ok (), s2)"
        "sup_record (ss_sup s2) h = Ok (slot2, rec2)"
      have inv2: "service_inv s2" by (rule sv_stop_inv [OF dr sv_quiesce_inv [OF dr inv a(1)] a(2)])
      then have sv: "sup_inv (ss_sup s2)" by (simp add: service_inv_def)
      have "slot2 = slot" using a(3) rec by (simp add: sup_record_Ok)
      with sup_inv_store [OF sv a(3) service_ok_idle [OF sup_inv_record [OF sv a(3)], of SS_Failed]] inv2
      show "service_inv (store_record slot (rec2\<lparr>sr_state := SS_Failed, sr_endpoint_active := False\<rparr>) s2)"
        by (simp add: service_inv_def)
    qed
  qed (use False in blast)
qed (use inv in simp)

section \<open>Histories of the supervisor\<close>

text \<open>
  The operations of the supervisor, with any device the framework manages passed in between them, and the
  operations of the process table.
\<close>

inductive service_step :: "service_sys \<Rightarrow> service_sys \<Rightarrow> bool" where
  sstep_register: "sv_register dr p tid s = (x, s') \<Longrightarrow> service_step s s'"
| sstep_start: "sv_start h dr s = (r, s') \<Longrightarrow> service_step s s'"
| sstep_quiesce: "driver_ok dr \<Longrightarrow> sv_quiesce h dr s = (r, s') \<Longrightarrow> service_step s s'"
| sstep_stop: "driver_ok dr \<Longrightarrow> sv_stop h dr s = (r, s') \<Longrightarrow> service_step s s'"
| sstep_restart: "driver_ok dr \<Longrightarrow> sv_restart h dr p tid s = (r, s') \<Longrightarrow> service_step s s'"
| sstep_recover: "driver_ok dr \<Longrightarrow> sv_recover_crash h dr s = (b, s') \<Longrightarrow> service_step s s'"
| sstep_unregister: "sv_unregister h s = (r, s') \<Longrightarrow> service_step s s'"
| sstep_device: "reachable device_init device_step d \<Longrightarrow> service_step s (s\<lparr>ss_device := d\<rparr>)"
| sstep_processes: "table_step (ss_processes s) t \<Longrightarrow> service_step s (s\<lparr>ss_processes := t\<rparr>)"

definition service_init :: "service_sys \<Rightarrow> bool" where
  "service_init s \<longleftrightarrow> ss_sup s = supervisor_new \<and> device_init (ss_device s) \<and> ss_processes s = process_table_new"

lemma service_init_inv: "service_init s \<Longrightarrow> service_inv s"
  using devsys.init_inv tabsys.init_inv
  by (auto simp: service_init_def service_inv_def sup_inv_def supervisor_new_def)

lemma sup_only_inv:
  "service_inv s \<Longrightarrow> sv_register dr p tid s = (x, s') \<Longrightarrow> service_inv s'"
  "service_inv s \<Longrightarrow> sv_start h dr s = (r, s') \<Longrightarrow> service_inv s'"
  "service_inv s \<Longrightarrow> sv_unregister h s = (r, s') \<Longrightarrow> service_inv s'"
  unfolding service_inv_def using register_inv start_inv sv_unregister_inv by metis+

lemma service_step_inv: "service_step s s' \<Longrightarrow> service_inv s \<Longrightarrow> service_inv s'"
proof (induction rule: service_step.induct)
  case (sstep_device d s)
  then show ?case using devsys.reachable_inv by (auto simp: service_inv_def)
next
  case (sstep_processes s t)
  then show ?case using tabsys.step_inv by (auto simp: service_inv_def)
qed (blast intro: sup_only_inv sv_quiesce_inv sv_stop_inv sv_restart_inv sv_recover_inv)+

interpretation svcsys: step_invariant service_init service_step service_inv
  by unfold_locales (auto intro: service_init_inv service_step_inv)

section \<open>Stopping and recovering\<close>

lemma revoke_succeeds:
  assumes "dv_driver (fst s) = Some (dr_id dr)" "dv_state (fst s) \<in> {DS_Quiescing, DS_Failed}"
  obtains s' where "revoke_device dr s = (Ok (), s')" "detached (fst s) (fst s')"
proof -
  obtain r s' where d: "detach TO_Revoke dr s = (r, s')" by (metis surj_pair)
  from detach_spec [OF assms d] have "r = Ok ()" "detached (fst s) (fst s')" by auto
  moreover have "revoke_device dr s = (r, s')" using assms d by (auto simp: revoke_device_def)
  ultimately show thesis by (intro that) simp_all
qed

lemma detached_trans: "dv_id d' = dv_id d \<Longrightarrow> detached d' d'' \<Longrightarrow> detached d d''"
  by (simp add: detached_def)

lemma stop_device_spec:
  assumes dr: "driver_ok dr" and ok: "resources_ok (fst d)" and drv: "dv_driver (fst d) = Some (dr_id dr)"
    and st: "dv_state (fst d) \<in> {DS_Quiescing, DS_Failed}" and s: "stop_device dr d = (f, d')"
  shows "detached (fst d) (fst d')"
proof -
  obtain r1 d1 where m: "remove_device dr d = (r1, d1)" by (metis surj_pair)
  note sp = remove_spec [OF dr ok m]
  show ?thesis
  proof (cases r1)
    case (Inr u)
    with sp have "detached (fst d) (fst d1)" by simp
    moreover have "d' = d1" using s m Inr by (auto simp: stop_device_def)
    ultimately show ?thesis by simp
  next
    case (Inl e)
    with sp drv st have one: "dv_driver (fst d1) = Some (dr_id dr)" "dv_state (fst d1) \<in> {DS_Quiescing, DS_Failed}"
      "dv_id (fst d1) = dv_id (fst d)" by auto
    obtain d2 where v: "revoke_device dr d1 = (Ok (), d2)" "detached (fst d1) (fst d2)"
      by (rule revoke_succeeds [OF one(1,2)])
    have "d' = d2" using s m Inl v(1) by (auto simp: stop_device_def)
    with detached_trans [OF one(3) v(2)] show ?thesis by simp
  qed
qed

lemma stop_process_spec:
  assumes inv: "table_inv t" and p: "p \<noteq> INIT" and s: "stop_process p f t = (f', t')"
  shows "process_state_of p t' \<noteq> Ok P_Running"
proof (cases "process_state_of p t = Ok P_Running")
  case True
  obtain r t1 where x: "process_exit p 0 t = (r, t1)" by (metis surj_pair)
  have t': "t' = t1" using s True x by (auto simp: stop_process_def split: sum.splits)
  obtain q where q: "pmap t p = Some q" "pr_state q = P_Running"
    using True by (cases "pmap t p") (auto simp: process_state_of_def process_get_map ok_or_def)
  from table_invD(1) [OF inv] x show ?thesis
  proof (cases rule: process_exit_cases)
    case (1 e)
    then show ?thesis using p q by auto
  next
    case (2 r)
    then have "pmap t1 p = Some (exited_self p 0 r)" by (simp add: tab_upd_def)
    then show ?thesis by (simp add: t' process_state_of_def process_get_map exited_self_props)
  qed
next
  case False
  then have "t' = t"
    using s by (auto simp: stop_process_def split: sum.splits process_state.splits process_error.splits)
  with False show ?thesis by simp
qed

lemma stop_spec:
  assumes inv: "service_inv s" and dr: "driver_ok dr" and rec: "sup_record (ss_sup s) h = Ok (slot, rec)"
    and st: "sr_state rec = SS_Quiescing" and v: "validate_device rec (fst (ss_device s)) dr = Ok ()"
    and dst: "dv_state (fst (ss_device s)) \<in> {DS_Quiescing, DS_Failed}" and stop: "sv_stop h dr s = (r, s')"
  shows "detached (fst (ss_device s)) (fst (ss_device s'))"
    "process_state_of (sr_process rec) (ss_processes s') \<noteq> Ok P_Running"
    "sup_record (ss_sup s') h = Ok (slot, rec\<lparr>sr_endpoint_active := False, sr_state := (if is_ok r then SS_Stopped else SS_Failed)\<rparr>)"
proof -
  obtain f d where d: "stop_device dr (ss_device s) = (f, d)" by (metis surj_pair)
  obtain f' t where p: "stop_process (sr_process rec) f (ss_processes s) = (f', t)" by (metis surj_pair)
  let ?rec = "rec\<lparr>sr_endpoint_active := False, sr_state := (if f' \<noteq> None then SS_Failed else SS_Stopped)\<rparr>"
  have sv: "sup_inv (ss_sup s)" and ti: "table_inv (ss_processes s)" and di: "resources_ok (fst (ss_device s))"
    using inv by (simp_all add: service_inv_def device_inv_def)
  have r: "r = (case f' of None \<Rightarrow> Ok () | Some e \<Rightarrow> Err e)"
    and s': "s' = store_record slot ?rec (s\<lparr>ss_device := d, ss_processes := t\<rparr>)"
    using stop rec st v d p by (simp_all add: sv_stop_def)
  show "detached (fst (ss_device s)) (fst (ss_device s'))"
    using stop_device_spec [OF dr di _ dst d] v by (simp add: s' validate_device_Ok)
  show "process_state_of (sr_process rec) (ss_processes s') \<noteq> Ok P_Running"
    using stop_process_spec [OF ti _ p] sup_inv_record [OF sv rec] by (simp add: s' service_ok_def)
  have "is_ok r = (f' = None)" by (simp add: r is_ok_def split: option.split)
  then show "sup_record (ss_sup s') h = Ok (slot, rec\<lparr>sr_endpoint_active := False, sr_state := (if is_ok r then SS_Stopped else SS_Failed)\<rparr>)"
    using sup_record_store [of "s\<lparr>ss_device := d, ss_processes := t\<rparr>" h slot rec ?rec] sv rec by (simp add: s')
qed

lemma quiesce_Ok:
  assumes "sv_quiesce h dr s = (Ok (), s1)" "sup_record (ss_sup s) h = Ok (slot, rec)"
  obtains d where "quiesce dr (ss_device s) = (Ok (), d)" "validate_device rec (fst (ss_device s)) dr = Ok ()"
    "s1 = store_record slot (rec\<lparr>sr_state := SS_Quiescing, sr_endpoint_active := False\<rparr>) (s\<lparr>ss_device := d\<rparr>)"
  using assms(1)
proof (cases rule: quiesce_cases)
  case (2 sl rc r0 d)
  have "sl = slot" "rc = rec" using 2(1) assms(2) by simp_all
  moreover have "r0 = Ok ()" using 2(5) by (simp add: map_err_def split: sum.splits)
  ultimately show thesis using 2 by (intro that) (simp_all add: is_ok_def)
qed simp

text \<open>Quiescing and then stopping, as the recovery does.\<close>

lemma quiesce_then_stop:
  assumes inv: "service_inv s" and dr: "driver_ok dr" and rec: "sup_record (ss_sup s) h = Ok (slot, rec)"
    and q: "sv_quiesce h dr s = (Ok (), s1)" and stop: "sv_stop h dr s1 = (r, s2)"
  shows "detached (fst (ss_device s)) (fst (ss_device s2))"
    "process_state_of (sr_process rec) (ss_processes s2) \<noteq> Ok P_Running"
    "\<exists>rec2. sup_record (ss_sup s2) h = Ok (slot, rec2)"
proof -
  have sv: "sup_inv (ss_sup s)" and di: "resources_ok (fst (ss_device s))"
    using inv by (simp_all add: service_inv_def device_inv_def)
  have inv1: "service_inv s1" by (rule sv_quiesce_inv [OF dr inv q])
  let ?rec = "rec\<lparr>sr_state := SS_Quiescing, sr_endpoint_active := False\<rparr>"
  obtain d where d: "quiesce dr (ss_device s) = (Ok (), d)" "validate_device rec (fst (ss_device s)) dr = Ok ()"
    and s1: "s1 = store_record slot ?rec (s\<lparr>ss_device := d\<rparr>)" by (rule quiesce_Ok [OF q rec])
  have dev: "dv_state (fst d) = DS_Quiescing" "dv_id (fst d) = dv_id (fst (ss_device s))"
    "dv_driver (fst d) = dv_driver (fst (ss_device s))" using quiesce_spec [OF dr di d(1)] by simp_all
  have rec1: "sup_record (ss_sup s1) h = Ok (slot, ?rec)"
    using sup_record_store [of "s\<lparr>ss_device := d\<rparr>" h slot rec ?rec] sv rec by (simp add: s1)
  have v1: "validate_device ?rec (fst (ss_device s1)) dr = Ok ()" using d(2) dev by (simp add: validate_device_Ok s1)
  have "dv_state (fst (ss_device s1)) \<in> {DS_Quiescing, DS_Failed}" using dev by (simp add: s1)
  note sp = stop_spec [OF inv1 dr rec1 _ v1 this stop]
  show "detached (fst (ss_device s)) (fst (ss_device s2))" using detached_trans [OF _ sp(1)] dev by (simp add: s1)
  show "process_state_of (sr_process rec) (ss_processes s2) \<noteq> Ok P_Running" using sp(2) by simp
  show "\<exists>rec2. sup_record (ss_sup s2) h = Ok (slot, rec2)" using sp(3) by auto
qed

lemma recover_spec:
  assumes inv: "service_inv s" and dr: "driver_ok dr" and rcv: "sv_recover_crash h dr s = (Ok b, s')"
  shows "\<exists>slot rec. sup_record (ss_sup s) h = Ok (slot, rec) \<and> sr_state rec = SS_Running \<and>
    (if b then detached (fst (ss_device s)) (fst (ss_device s')) \<and>
       process_state_of (sr_process rec) (ss_processes s') \<noteq> Ok P_Running \<and>
       sv_state (ss_sup s') h = Ok SS_Failed \<and> sv_endpoint_active (ss_sup s') h = Ok False
     else s' = s \<and> process_state_of (sr_process rec) (ss_processes s) = Ok P_Running)"
proof (rule recover_checks [OF rcv disjI2])
  fix slot rec st
  assume rec: "sup_record (ss_sup s) h = Ok (slot, rec)" "sr_state rec = SS_Running"
  assume "try_st (sv_quiesce h dr s) (\<lambda>_ s.
       try_st (sv_stop h dr s) (\<lambda>_ s.
       try_res (sup_record (ss_sup s) h) s (\<lambda>(_, rec).
         (Ok True, store_record slot (rec\<lparr>sr_state := SS_Failed, sr_endpoint_active := False\<rparr>) s)))) = (Ok b, s')"
  then obtain s1 s2 sl rc where q: "sv_quiesce h dr s = (Ok (), s1)" "sv_stop h dr s1 = (Ok (), s2)"
    "sup_record (ss_sup s2) h = Ok (sl, rc)" and b: "b = True"
    and s': "s' = store_record slot (rc\<lparr>sr_state := SS_Failed, sr_endpoint_active := False\<rparr>) s2"
    by (auto simp: try_st_Ok_iff try_res_Ok_iff)
  note qs = quiesce_then_stop [OF inv dr rec(1) q(1,2)]
  have "sl = slot" using qs(3) q(3) by auto
  moreover have "sup_inv (ss_sup s2)"
    using sv_stop_inv [OF dr sv_quiesce_inv [OF dr inv q(1)] q(2)] by (simp add: service_inv_def)
  ultimately have "sup_record (ss_sup s') h = Ok (slot, rc\<lparr>sr_state := SS_Failed, sr_endpoint_active := False\<rparr>)"
    using sup_record_store q(3) unfolding s' by blast
  with rec qs b show ?thesis by (auto simp: s' sv_state_def sv_endpoint_active_def)
qed (auto simp: is_ok_def)

section \<open>The service contract\<close>

lemma same_device_trans: "same_device d d' \<Longrightarrow> same_device d' d'' \<Longrightarrow> same_device d d''"
  by (simp add: same_device_def)

interpretation service_probe_callback: driver_callback service_probe
proof unfold_locales
  fix s r s'
  assume "service_probe s = (r, s')"
  then have "\<exists>x r1 s1. add_resource x s = (r1, s1) \<and> (s' = s1 \<or> (\<exists>y. add_resource y s1 = (r, s')))"
    unfolding service_probe_def by (elim try_st_cases) blast+
  then obtain x r1 s1 where a: "add_resource x s = (r1, s1)" "s' = s1 \<or> (\<exists>y. add_resource y s1 = (r, s'))" by blast
  show "same_device (fst s) (fst s')"
    using a resource_callback.keeps_device same_device_trans by metis
  assume ok: "resources_ok (fst s)"
  show "resources_ok (fst s')" using a ok resource_callback.keeps_resources by metis
qed

interpretation service_remove_ok_callback: driver_callback service_remove_ok
  by unfold_locales (simp_all add: service_remove_ok_def)

interpretation service_remove_fail_callback: driver_callback service_remove_fail
  by unfold_locales (simp_all add: service_remove_fail_def)

definition service_driver :: "device_callback \<Rightarrow> driver" where
  "service_driver f = driver_with_ops 120 ''service-contract'' DC_Network BK_Platform
     \<lparr>op_probe = service_probe, op_suspend = None, op_resume = None, op_quiesce = None, op_remove = f\<rparr>"

lemma service_driver_ok:
  "driver_ok (service_driver service_remove_ok)" "driver_ok (service_driver service_remove_fail)"
  using service_probe_callback.driver_callback_axioms service_remove_ok_callback.driver_callback_axioms
    service_remove_fail_callback.driver_callback_axioms
  by (simp_all add: driver_ok_def service_driver_def driver_with_ops_def)

text \<open>
  A sample run: the device of the contract, probed and published; a service registered and started for
  it; its process exits, or the service is quiesced.
\<close>

definition demo_service_device :: "device_callback \<Rightarrow> dev_sys" where
  "demo_service_device f = snd (publish_device (snd (probe (service_driver f)
     (device_new 120 120 BK_Platform ''service-contract'' DC_Network, trace_new))))"

definition demo_handle :: service_handle where
  "demo_handle = \<lparr>sh_slot = 0, sh_generation = 0\<rparr>"

definition demo_services :: "device_callback \<Rightarrow> service_sys" where
  "demo_services f = \<lparr>ss_sup = supervisor_new, ss_device = demo_service_device f, ss_processes = demo_child\<rparr>"

definition demo_running :: "device_callback \<Rightarrow> service_sys" where
  "demo_running f = snd (sv_start demo_handle (service_driver f)
     (snd (sv_register (service_driver f) (ProcessId 2) (ThreadId 2) (demo_services f))))"

definition demo_crashed :: "device_callback \<Rightarrow> service_sys" where
  "demo_crashed f = (demo_running f)\<lparr>ss_processes := demo_zombie\<rparr>"

definition demo_record :: "device_callback \<Rightarrow> service_record" where
  "demo_record f = \<lparr>sr_device = 120, sr_driver = service_driver f, sr_process = ProcessId 2, sr_thread = ThreadId 2,
     sr_state = SS_Running, sr_endpoint_active = True, sr_restarts = 0\<rparr>"

lemma demo_service_device_fst:
  "dv_id (fst (demo_service_device f)) = 120 \<and> dv_state (fst (demo_service_device f)) = DS_Ready \<and>
   dv_published (fst (demo_service_device f)) \<and> dv_driver (fst (demo_service_device f)) = Some 120 \<and>
   dv_resource_len (fst (demo_service_device f)) = 2"
  by (simp add: demo_service_device_def probe_def service_driver_def driver_with_ops_def driver_matches_def device_new_def
      service_probe_def add_resource_def on_device_def transition_def valid_transitions_def bind_driver_def traced_def
      publish_device_def device_publish_def dma_validate_def addr_is_aligned_def is_multiple_of_def is_power_of_two_def
      checked_add_def kernel_defs Let_def)

lemma demo_process_checks:
  "validate_process demo_child (ProcessId 2) (ThreadId 2) = Ok ()"
  "process_state_of (ProcessId 2) demo_zombie = Ok P_Zombie"
  by (simp_all add: validate_process_def map_err_def process_state_of_def thread_owner_def thread_kind_of_def
      thread_state_of_def demo_child_eq demo_zombie_eq table_eval)

lemma service_driver_id [simp]: "dr_id (service_driver f) = 120"
  by (simp add: service_driver_def driver_with_ops_def)

lemma demo_running_eq:
  "demo_running f = (demo_services f)\<lparr>ss_sup :=
     \<lparr>sup_records = Some (demo_record f) # replicate 7 None, sup_generations = replicate 8 0\<rparr>\<rparr>"
  by (simp add: demo_running_def demo_services_def sv_register_def sv_start_def demo_service_device_fst demo_process_checks
      supervisor_new_def sup_record_def validate_device_def validate_device_id_def store_record_def demo_handle_def demo_record_def
      ok_or_def kernel_defs Let_def position_replicate upd_replicate_0)

lemma demo_running_reachable:
  assumes "driver_ok (service_driver f)"
  shows "reachable service_init service_step (demo_running f)" "reachable service_init service_step (demo_crashed f)"
proof -
  let ?s = "\<lambda>t. \<lparr>ss_sup = supervisor_new, ss_device = (device_new 0 0 BK_Platform ''x'' DC_Serial, trace_new), ss_processes = t\<rparr>"
  have "service_init (?s process_table_new)" unfolding service_init_def device_init_def by (simp, intro exI, rule refl)
  then have "reachable service_init service_step (?s process_table_new)" by (rule reach_init)
  from reach_step [of _ service_step, OF this sstep_processes [where t = demo_boot]] ts_create_init [OF demo_boot_run]
  have "reachable service_init service_step (?s demo_boot)" by simp
  from reach_step [of _ service_step, OF this sstep_processes [where t = demo_child]] ts_spawn_child [OF demo_child_run]
  have c: "reachable service_init service_step (?s demo_child)" by simp
  have "reachable device_init device_step (demo_service_device f)"
    unfolding demo_service_device_def by (rule device_reach(4), rule device_reach(3), rule device_reach(1), rule assms)
  from reach_step [of _ service_step, OF c sstep_device [OF this]]
  have "reachable service_init service_step (demo_services f)" by (simp add: demo_services_def)
  from reach_step [of _ service_step, OF this sstep_register [OF prod.collapse [symmetric]]]
  have "reachable service_init service_step (snd (sv_register (service_driver f) (ProcessId 2) (ThreadId 2) (demo_services f)))" .
  from reach_step [of _ service_step, OF this sstep_start [OF prod.collapse [symmetric]]]
  show run: "reachable service_init service_step (demo_running f)" unfolding demo_running_def .
  have "table_step (ss_processes (demo_running f)) demo_zombie"
    using ts_exit [OF demo_zombie_run] by (simp add: demo_running_eq demo_services_def)
  from reach_step [of _ service_step, OF run sstep_processes [OF this]]
  show "reachable service_init service_step (demo_crashed f)" unfolding demo_crashed_def .
qed

section \<open>Properties\<close>

text \<open>
  Claim C15.  In every history of the supervisor an endpoint is active exactly while its service is running, no service is
  restarted more than three times, no service runs as \<open>INIT\<close>, and no two services hold the same device.
\<close>

theorem supervisor_consistent:
  assumes "reachable service_init service_step s" "i < MAX_SERVICES" "sup_records (ss_sup s) ! i = Some rec"
  shows "(sr_endpoint_active rec \<longleftrightarrow> sr_state rec = SS_Running) \<and> sr_restarts rec \<le> 3 \<and> sr_process rec \<noteq> INIT \<and>
    (\<forall>j<MAX_SERVICES. \<forall>rec'. sup_records (ss_sup s) ! j = Some rec' \<longrightarrow> sr_device rec' = sr_device rec \<longrightarrow> j = i)"
proof -
  have inv: "sup_inv (ss_sup s)" using svcsys.reachable_inv [OF assms(1)] by (simp add: service_inv_def)
  then have "service_ok rec" using assms(2,3) by (simp add: sup_inv_def)
  moreover have "j = i" if "j < MAX_SERVICES" "sup_records (ss_sup s) ! j = Some rec'" "sr_device rec' = sr_device rec" for j rec'
    using inv assms(2,3) that unfolding sup_inv_def by metis
  ultimately show ?thesis by (auto simp: service_ok_def MAX_RESTARTS_def)
qed

theorem supervisor_consistent_witness:
  "sup_records (ss_sup (demo_running service_remove_ok)) ! 0 = Some (demo_record service_remove_ok) \<and>
   sr_endpoint_active (demo_record service_remove_ok) \<and> sr_process (demo_record service_remove_ok) \<noteq> INIT"
proof -
  have r: "sup_records (ss_sup (demo_running service_remove_ok)) ! 0 = Some (demo_record service_remove_ok)"
    by (simp add: demo_running_eq)
  have "sr_state (demo_record service_remove_ok) = SS_Running" by (simp add: demo_record_def)
  with supervisor_consistent [OF demo_running_reachable(1) [OF service_driver_ok(1)] _ r] r
  show ?thesis by (simp add: MAX_SERVICES_def)
qed

text \<open>
  Claim C14.  Stopping a quiescing service always takes its device away, whether or not the driver's removal
  succeeds: the device ends removed, unbound, unpublished and without resources, the process no longer
  runs, the endpoint is inactive, and the service is stopped or, after an error, failed.
\<close>

theorem stop_revokes_device:
  assumes "reachable service_init service_step s" "driver_ok dr" "sup_record (ss_sup s) h = Ok (slot, rec)"
    "sr_state rec = SS_Quiescing" "sr_device rec = dv_id (fst (ss_device s))" "dr_id (sr_driver rec) = dr_id dr"
    "dv_driver (fst (ss_device s)) = Some (dr_id dr)" "dv_state (fst (ss_device s)) \<in> {DS_Quiescing, DS_Failed}"
    "sv_stop h dr s = (r, s')"
  shows "dv_state (fst (ss_device s')) = DS_Removed \<and> dv_driver (fst (ss_device s')) = None \<and>
    \<not> dv_published (fst (ss_device s')) \<and> device_resources (fst (ss_device s')) = [] \<and>
    process_state_of (sr_process rec) (ss_processes s') \<noteq> Ok P_Running \<and>
    sv_endpoint_active (ss_sup s') h = Ok False \<and>
    sv_state (ss_sup s') h = Ok (if is_ok r then SS_Stopped else SS_Failed)"
proof -
  have "validate_device rec (fst (ss_device s)) dr = Ok ()" using assms(5-7) by (simp add: validate_device_Ok)
  from stop_spec [OF svcsys.reachable_inv [OF assms(1)] assms(2-4) this assms(8,9)] show ?thesis
    by (simp add: detached_def sv_state_def sv_endpoint_active_def)
qed

definition demo_quiesced :: service_sys where
  "demo_quiesced = snd (sv_quiesce demo_handle (service_driver service_remove_fail) (demo_running service_remove_fail))"

lemma demo_quiesce_device:
  "\<exists>t. quiesce (service_driver f) (demo_service_device f) = (Ok (), (fst (demo_service_device f))\<lparr>dv_state := DS_Quiescing\<rparr>, t)"
  using demo_service_device_fst [of f]
  by (simp add: quiesce_def service_driver_def driver_with_ops_def call_then_transition_def on_device_def transition_def
      valid_transitions_def traced_def)

lemma demo_quiesced_facts:
  "reachable service_init service_step demo_quiesced"
  "sup_record (ss_sup demo_quiesced) demo_handle =
     Ok (0, (demo_record service_remove_fail)\<lparr>sr_state := SS_Quiescing, sr_endpoint_active := False\<rparr>)"
  "fst (ss_device demo_quiesced) = (fst (demo_service_device service_remove_fail))\<lparr>dv_state := DS_Quiescing\<rparr>"
proof -
  show "reachable service_init service_step demo_quiesced"
    unfolding demo_quiesced_def
    by (rule reach_step [of _ service_step, OF demo_running_reachable(1) [OF service_driver_ok(2)]
          sstep_quiesce [OF service_driver_ok(2) prod.collapse [symmetric]]])
  obtain t where "quiesce (service_driver service_remove_fail) (demo_service_device service_remove_fail) =
      (Ok (), (fst (demo_service_device service_remove_fail))\<lparr>dv_state := DS_Quiescing\<rparr>, t)"
    using demo_quiesce_device by blast
  then show "sup_record (ss_sup demo_quiesced) demo_handle =
      Ok (0, (demo_record service_remove_fail)\<lparr>sr_state := SS_Quiescing, sr_endpoint_active := False\<rparr>)"
    "fst (ss_device demo_quiesced) = (fst (demo_service_device service_remove_fail))\<lparr>dv_state := DS_Quiescing\<rparr>"
    using demo_service_device_fst [of service_remove_fail]
    by (simp_all add: demo_quiesced_def sv_quiesce_def demo_running_eq demo_services_def sup_record_def demo_handle_def
        demo_record_def validate_device_def validate_device_id_def store_record_def ok_or_def kernel_defs)
qed

theorem stop_revokes_device_witness:
  "\<exists>r s'. sv_stop demo_handle (service_driver service_remove_fail) demo_quiesced = (r, s') \<and>
     device_resources (fst (ss_device s')) = [] \<and> sv_endpoint_active (ss_sup s') demo_handle = Ok False"
proof -
  obtain r s' where stop: "sv_stop demo_handle (service_driver service_remove_fail) demo_quiesced = (r, s')"
    by (metis surj_pair)
  note dev = demo_service_device_fst [of service_remove_fail]
  from stop_revokes_device [OF demo_quiesced_facts(1) service_driver_ok(2) demo_quiesced_facts(2) _ _ _ _ _ stop] dev stop
  show ?thesis by (simp add: demo_quiesced_facts(3) demo_record_def)
qed

text \<open>
  Claim C25.  Recovery from a crash.  If it reports that the service crashed, the device has been taken away from it as by a
  stop, the process no longer runs, the service is failed and its endpoint is inactive.  If it reports no
  crash, the process is running and nothing has changed.
\<close>

theorem crash_recovery_revokes:
  assumes "reachable service_init service_step s" "driver_ok dr" "sv_recover_crash h dr s = (Ok b, s')"
  shows "\<exists>slot rec. sup_record (ss_sup s) h = Ok (slot, rec) \<and> sr_state rec = SS_Running \<and>
    (if b then detached (fst (ss_device s)) (fst (ss_device s')) \<and>
       process_state_of (sr_process rec) (ss_processes s') \<noteq> Ok P_Running \<and>
       sv_state (ss_sup s') h = Ok SS_Failed \<and> sv_endpoint_active (ss_sup s') h = Ok False
     else s' = s \<and> process_state_of (sr_process rec) (ss_processes s) = Ok P_Running)"
  by (rule recover_spec [OF svcsys.reachable_inv [OF assms(1)] assms(2,3)])

lemma demo_recover_run:
  "fst (sv_recover_crash demo_handle (service_driver service_remove_ok) (demo_crashed service_remove_ok)) = Ok True"
proof -
  let ?d = "fst (demo_service_device service_remove_ok)"
  obtain t where q: "quiesce (service_driver service_remove_ok) (demo_service_device service_remove_ok) =
      (Ok (), ?d\<lparr>dv_state := DS_Quiescing\<rparr>, t)" using demo_quiesce_device by blast
  have "fst (stop_device (service_driver service_remove_ok) (?d\<lparr>dv_state := DS_Quiescing\<rparr>, t)) = None"
    using demo_service_device_fst [of service_remove_ok]
    by (simp add: stop_device_def remove_device_def service_driver_def driver_with_ops_def service_remove_ok_def
        on_device_def device_unpublish_def unbind_driver_def ok_or_def transition_def valid_transitions_def
        release_resources_def traced_def device_resources_def Let_def)
  then obtain d where d: "stop_device (service_driver service_remove_ok) (?d\<lparr>dv_state := DS_Quiescing\<rparr>, t) = (None, d)"
    by (metis fst_conv surj_pair)
  show ?thesis
    using demo_service_device_fst [of service_remove_ok] q d demo_process_checks(2)
    by (simp add: sv_recover_crash_def sv_quiesce_def sv_stop_def stop_process_def demo_crashed_def demo_running_eq
        demo_services_def sup_record_def demo_handle_def demo_record_def validate_device_def validate_device_id_def
        store_record_def map_err_def ok_or_def kernel_defs)
qed

theorem crash_recovery_revokes_witness:
  "\<exists>s'. sv_recover_crash demo_handle (service_driver service_remove_ok) (demo_crashed service_remove_ok) = (Ok True, s') \<and>
     detached (fst (ss_device (demo_crashed service_remove_ok))) (fst (ss_device s'))"
proof -
  obtain s' where r: "sv_recover_crash demo_handle (service_driver service_remove_ok) (demo_crashed service_remove_ok) = (Ok True, s')"
    using demo_recover_run by (metis fst_conv surj_pair)
  from crash_recovery_revokes [OF demo_running_reachable(2) [OF service_driver_ok(1)] service_driver_ok(1) r] r
  show ?thesis by auto
qed

end
