(* ===== verification/Spec2Isabelle.thy ===== *)
theory Spec2Isabelle
  imports
    Kernel_Prelude Step_Systems Bounded_Fifo Slot_Table
    Wait_Queue Ipc_Channel Ipc_Ring Ipc_Events
    Process_Ids Process_Table Process_Invariant Process_Steps Process_Runtime Scheduler
    Input_Queue Irq User_Copy Serial_Port Syscall
    Frame_Allocator Elf X86_Paging Address_Space_Steps
    Vfs_Files Driver_Lifecycle Service
begin

text \<open>
  The norx kernel: a model of its core subsystems and the theorems that make them correct.

  \<^bold>\<open>The program.\<close>  norx is a kernel in Rust for x86_64 and aarch64.  At boot it computes the usable
  memory and hands out physical frames (\<open>src/memory.rs\<close>); user programs are ELF images
  (\<open>src/elf.rs\<close>) loaded into address spaces (\<open>src/address_space.rs\<close>) over page tables
  (\<open>src/arch/x86_64/paging.rs\<close>); processes and threads live in one table (\<open>src/process.rs\<close>) and
  enter the kernel by system calls (\<open>src/syscall.rs\<close>) that copy to and from user memory
  (\<open>src/usercopy.rs\<close>) and talk to the serial console (\<open>src/drivers/serial/mod.rs\<close>); kernel tasks are
  scheduled (\<open>src/sched.rs\<close>, \<open>src/time.rs\<close>); parts communicate by channels, rings and event queues
  (\<open>src/ipc.rs\<close>); interrupts and input events are registered and queued (\<open>src/irq.rs\<close>,
  \<open>src/input.rs\<close>); files are kept in memory behind mounts and namespaces (\<open>src/vfs.rs\<close>); devices
  have a life cycle under drivers (\<open>src/drivers/framework.rs\<close>), which services supervise
  (\<open>src/service.rs\<close>).

  \<^bold>\<open>Conventions.\<close>  A struct is a record whose fields carry a short prefix, an enum a datatype, a
  fixed array a list of fixed length, \<open>u8\<close> to \<open>u64\<close> and \<open>usize\<close> are words.  A fallible function returns a
  sum (\<open>Err\<close> on the left, \<open>Ok\<close> on the right); a function that mutates returns its result and the
  new state, errors included, so that what a failing call leaves behind is visible.  Static
  variables and borrowed structs are components of the state.  Every definition that translates
  code keeps its name, with a suffix or prefix where the name is taken.

  \<^bold>\<open>The library.\<close>
  \<^item> \<open>Kernel_Prelude\<close>: machine integers, checked and saturating arithmetic, results, fixed arrays, and
    the collections \<open>kernel_defs\<close> and \<open>inv_intros\<close>.
  \<^item> \<open>Step_Systems\<close>: reachable states; the locales \<open>step_invariant\<close> and \<open>step_monotone\<close>, which each
    stateful component interprets with one rule per operation.
  \<^item> \<open>Bounded_Fifo\<close>: ring-buffer arithmetic and the locale \<open>bounded_fifo\<close> of a bounded queue, interpreted
    by the channel, the shared ring, the event queue and the input queue.
  \<^item> \<open>Slot_Table\<close>: the locale \<open>slot_table\<close> of a table with generation-tagged ids, interpreted for
    processes and for threads.

  \<^bold>\<open>The components.\<close>
  \<^item> \<open>Wait_Queue\<close>, \<open>Ipc_Channel\<close>, \<open>Ipc_Ring\<close>, \<open>Ipc_Events\<close> (\<open>src/ipc.rs\<close>): the wait queue is a bounded set; the
    channel refines a bounded list of messages, in order, and wakes exactly one waiter; the ring
    admits only its two parties and stays closed after a revocation; closing an event queue loses
    no event.
  \<^item> \<open>Process_Ids\<close>, \<open>Process_Table\<close>, \<open>Process_Invariant\<close>, \<open>Process_Steps\<close>, \<open>Process_Runtime\<close>
    (\<open>src/process.rs\<close>): the table as two maps, its invariant under every operation, exit, wait and
    the lifetime of ids; the runtime with the current thread, and the life of a child from spawn to wait.
  \<^item> \<open>Scheduler\<close>: the choice of the next task is the first of least key; ticks are shared
    fairly between the two tasks the kernel runs.
  \<^item> \<open>Input_Keys\<close>, \<open>Input_Queue\<close>, \<open>Irq\<close>: no accepted event is lost or reordered; registrations stay
    distinct and deferred work runs once per pending slot.
  \<^item> \<open>User_Copy\<close>, \<open>Serial_Port\<close>, \<open>Syscall\<close>: copies stay within the validated range and always return with
    the recovery flag cleared; every system call returns a value that decodes, and any sequence of
    calls keeps one running thread.
  \<^item> \<open>Frame_Allocator\<close>: the construction of the memory ranges ends; a frame is handed out to one
    client at a time and lies in usable memory.
  \<^item> \<open>Elf\<close>: a plan that the parser returns has disjoint, page-aligned segments of the user range; the
    initial stack is laid out as the interface says.
  \<^item> \<open>X86_Paging\<close>, \<open>Address_Space\<close>, \<open>Address_Space_Steps\<close>: mapping a page is one update of the
    translation the processor computes; user mode reaches only the pages the address space has
    mapped, with their rights; loaded bytes read back; a failed mapping changes nothing.
  \<^item> \<open>Vfs\<close>, \<open>Vfs_Path\<close>, \<open>Vfs_Tree\<close>, \<open>Vfs_Invariant\<close>, \<open>Vfs_Steps\<close>, \<open>Vfs_Files\<close> (\<open>src/vfs.rs\<close>): the path parser
    computes a reference definition; the inode table is a tree and references are counted in
    every history; directory operations update lookups; a write reads back; a read-only mount is
    protected.
  \<^item> \<open>Driver_Framework\<close>, \<open>Driver_Lifecycle\<close> (\<open>src/drivers/framework.rs\<close>): buses, devices, resources, drivers and the
    trace.  A driver callback is a function with the interface of the locale \<open>driver_callback\<close>: it
    leaves identity, state, binding and publication of the device alone and keeps the resources
    valid.  Under it every history of a device keeps the invariant, probe and unplug have the
    documented outcomes, the trace reports the latest 128 events in order, and the contract
    matrix passes.
  \<^item> \<open>Service\<close> (\<open>src/service.rs\<close>): the supervisor over devices and processes.  Endpoints are active exactly
    for running services and restarts are bounded; stopping a service takes its device away even
    when the driver fails, and so does the recovery from a crash.  The locale \<open>driver_callback\<close> is
    interpreted on the callbacks of the service contract.

  \<^bold>\<open>Termination.\<close>  Loops are recursive functions on their data or with a termination proof
  (\<open>load_loop\<close>, \<open>parse_loop\<close>).  The loop that adds memory ranges is a \<open>partial_function\<close> into
  \<open>option\<close>; that it returns for every memory map is a theorem, as is that a copy to user memory
  returns.  No definition uses fuel.

  \<^bold>\<open>Parameters.\<close>  Hardware is a parameter: the serial port's readiness, the hardware clock, the
  interrupt handlers, the addresses of the assembled copy routine and the mapping of lazy pages.  Where
  a theorem relies on them its hypotheses say so, and its witness has concrete ones.

  \<^bold>\<open>Not modelled.\<close>
  \<^item> Register and port access of the device drivers, the display, logs, the debugger, boot protocol
    parsing and assembly: their effect is on hardware or text output.
  \<^item> The aarch64 target: its paging and entry code implement the interfaces whose x86_64 side is modelled.
  \<^item> Readers of disk formats, the network stack, dynamic linking and the WebAssembly interpreter:
    parsers and interpreters that no modelled component calls.
  \<^item> \<open>src/user_runtime.rs\<close>, \<open>src/exec.rs\<close> and \<open>risky_driver_handoff\<close> of \<open>src/service.rs\<close>: they sequence
    modelled operations up to the entry to user mode, which is assembly.
  \<^item> The self checks that only assert and the initial mount tests of \<open>src/vfs.rs\<close>; the cache
    maintenance of DMA buffers.
  \<^item> Concurrency inside one operation: the code disables interrupts around its critical sections,
    and the model takes each operation as one step.
\<close>

end
